(* ===== verification/MR_Prelude.thy ===== *)
theory MR_Prelude
  imports Main
begin

text \<open>
  Shared material of the development: the collections of rewrite rules and splits the
  component theories fill, and the generic facts about lists, sums and partial maps
  that more than one component needs.
\<close>

named_theorems stream_simps \<open>reading words and lines from an input stream\<close>
named_theorems fs_simps \<open>reading and writing files of the model file system\<close>
named_theorems smap_simps \<open>lookup, keys and order of the ordered map\<close>

lemmas option_sum_splits = option.splits sum.splits prod.splits

section \<open>Results with an error\<close>

text \<open>
  A fallible operation returns \<open>'e + 'a\<close>, the error on the left. \<open>sbind\<close> runs the
  continuation only after a normal result, as an exception would skip it.
\<close>

definition sbind :: "'e + 'a \<Rightarrow> ('a \<Rightarrow> 'e + 'b) \<Rightarrow> 'e + 'b" where
  "sbind m f = (case m of Inl e \<Rightarrow> Inl e | Inr x \<Rightarrow> f x)"

lemma sbind_simps [simp]:
  "sbind (Inl e) f = Inl e"
  "sbind (Inr x) f = f x"
  by (simp_all add: sbind_def)

lemma sbind_assoc: "sbind (sbind m f) g = sbind m (\<lambda>x. sbind (f x) g)"
  by (cases m) simp_all

lemma sbind_eq_Inr: "sbind m f = Inr y \<longleftrightarrow> (\<exists>x. m = Inr x \<and> f x = Inr y)"
  by (cases m) simp_all

text \<open>A fold whose step may fail stops at the first error.\<close>

fun foldM :: "('a \<Rightarrow> 's \<Rightarrow> 'e + 's) \<Rightarrow> 'a list \<Rightarrow> 's \<Rightarrow> 'e + 's" where
  "foldM f [] s = Inr s"
| "foldM f (x # xs) s = sbind (f x s) (foldM f xs)"

lemma foldM_append: "foldM f (xs @ ys) s = sbind (foldM f xs s) (foldM f ys)"
  by (induction xs arbitrary: s) (auto simp: sbind_def split: sum.splits)

lemma foldM_Inr:
  "(\<And>x s. x \<in> set xs \<Longrightarrow> f x s = Inr (g x s)) \<Longrightarrow> foldM f xs s = Inr (fold g xs s)"
  by (induction xs arbitrary: s) auto

section \<open>Lists\<close>

lemma takeWhile_append_stop:
  "(\<forall>x\<in>set xs. P x) \<Longrightarrow> \<not> P y \<Longrightarrow> takeWhile P (xs @ y # ys) = xs"
  by (induction xs) auto

lemma dropWhile_append_stop:
  "(\<forall>x\<in>set xs. P x) \<Longrightarrow> \<not> P y \<Longrightarrow> dropWhile P (xs @ y # ys) = y # ys"
  by (induction xs) auto

lemma takeWhile_all: "(\<forall>x\<in>set xs. P x) \<Longrightarrow> takeWhile P xs = xs"
  by (induction xs) auto

lemma dropWhile_all: "(\<forall>x\<in>set xs. P x) \<Longrightarrow> dropWhile P xs = []"
  by (induction xs) auto

lemma length_dropWhile_Cons: "dropWhile P xs = y # ys \<Longrightarrow> length ys < length xs"
  using length_dropWhile_le [of P xs] by simp

lemma filter_concat_map: "filter P (concat (map f xs)) = concat (map (filter P \<circ> f) xs)"
  by (simp add: filter_concat)

lemma concat_concat_map: "concat (map f (concat xss)) = concat (map (\<lambda>xs. concat (map f xs)) xss)"
  by (induction xss) simp_all

lemma map_add_same: "f ++ g ++ g = f ++ g"
  by (simp add: map_add_def fun_eq_iff split: option.split)

lemma concat_map_if:
  "concat (map (\<lambda>x. if P x then f x else []) xs) = concat (map f (filter P xs))"
  by (induction xs) auto

text \<open>A list taken two by two; a last element without a partner is dropped.\<close>

fun pairs :: "'a list \<Rightarrow> ('a \<times> 'a) list" where
  "pairs (k # v # ws) = (k, v) # pairs ws"
| "pairs _ = []"

end
