(* ===== verification/Msgpack.thy ===== *)
theory Msgpack
  imports MR_Prelude "HOL-Library.Word"
begin

text \<open>
  MessagePack as the RPC layer uses it (\<open>lib/rpclib/include/rpc/msgpack\<close>): the object
  tree (\<open>v1/object_fwd.hpp\<close>), the packer (\<open>v1/pack.hpp\<close>) and the packing of an object
  (\<open>v1/object.hpp\<close>). A byte is an \<open>8 word\<close>, a stream the list of bytes appended to it.
  The platform is the one the source targets: \<open>int\<close> has 32 and \<open>long\<close> 64 bits. A
  floating-point number is its bit pattern, which is all the packer and the parser use.
\<close>

unbundle bit_operations_syntax

type_synonym byte = "8 word"

section \<open>Big-endian numbers\<close>

fun be_bytes :: "nat \<Rightarrow> nat \<Rightarrow> byte list" where
  "be_bytes 0 n = []"
| "be_bytes (Suc k) n = be_bytes k (n div 256) @ [word_of_nat n]"

definition be_value :: "byte list \<Rightarrow> nat" where
  "be_value bs = fold (\<lambda>b acc. acc * 256 + unat b) bs 0"

definition store16 :: "16 word \<Rightarrow> byte list" where "store16 d = be_bytes 2 (unat d)"
definition store32 :: "32 word \<Rightarrow> byte list" where "store32 d = be_bytes 4 (unat d)"
definition store64 :: "64 word \<Rightarrow> byte list" where "store64 d = be_bytes 8 (unat d)"

definition load :: "byte list \<Rightarrow> 'a::len word" where
  "load bs = word_of_nat (be_value bs)"

lemma length_be_bytes [simp]: "length (be_bytes k n) = k"
  by (induction k arbitrary: n) simp_all

lemma be_value_append: "be_value (bs @ [b]) = be_value bs * 256 + unat b"
  by (simp add: be_value_def)

lemma be_value_Nil [simp]: "be_value [] = 0"
  by (simp add: be_value_def)

lemma be_value_be_bytes: "be_value (be_bytes k n) = n mod 256 ^ k"
proof (induction k arbitrary: n)
  case (Suc k)
  have "n mod (256 * 256 ^ k) = 256 * (n div 256 mod 256 ^ k) + n mod 256"
    by (rule mod_mult2_eq)
  with Suc show ?case
    by (simp add: be_value_append unat_of_nat)
qed simp

lemma length_stores [simp]:
  "length (store16 d) = 2" "length (store32 e) = 4" "length (store64 f) = 8"
  by (simp_all add: store16_def store32_def store64_def)

lemma load_stores [simp]:
  "load (store16 d) = d" "load (store32 e) = e" "load (store64 f) = f"
  by (simp_all add: load_def store16_def store32_def store64_def be_value_be_bytes
      unsigned_less [of d, simplified] unsigned_less [of e, simplified] unsigned_less [of f, simplified])

section \<open>Objects\<close>

text \<open>
  The payload of \<open>EXT\<close> starts with its type byte; the size the object records is that of
  the data after it.
\<close>

datatype object =
    NIL
  | BOOLEAN bool
  | POSITIVE_INTEGER "64 word"
  | NEGATIVE_INTEGER "64 word"
  | FLOAT32 "32 word"
  | FLOAT64 "64 word"
  | Str "byte list"
  | BIN "byte list"
  | ARRAY "object list"
  | MAP "(object \<times> object) list"
  | EXT byte "byte list"

section \<open>The packer\<close>

definition take8 :: "'a::len word \<Rightarrow> byte" where
  "take8 d = ucast d"

text \<open>Numbers at a fixed width.\<close>

definition pack_fix_uint8 :: "8 word \<Rightarrow> byte list" where
  "pack_fix_uint8 d = [0xcc, take8 d]"
definition pack_fix_uint16 :: "16 word \<Rightarrow> byte list" where
  "pack_fix_uint16 d = 0xcd # store16 d"
definition pack_fix_uint32 :: "32 word \<Rightarrow> byte list" where
  "pack_fix_uint32 d = 0xce # store32 d"
definition pack_fix_uint64 :: "64 word \<Rightarrow> byte list" where
  "pack_fix_uint64 d = 0xcf # store64 d"
definition pack_fix_int8 :: "8 word \<Rightarrow> byte list" where
  "pack_fix_int8 d = [0xd0, take8 d]"
definition pack_fix_int16 :: "16 word \<Rightarrow> byte list" where
  "pack_fix_int16 d = 0xd1 # store16 d"
definition pack_fix_int32 :: "32 word \<Rightarrow> byte list" where
  "pack_fix_int32 d = 0xd2 # store32 d"
definition pack_fix_int64 :: "64 word \<Rightarrow> byte list" where
  "pack_fix_int64 d = 0xd3 # store64 d"

text \<open>Numbers at the smallest width that holds them.\<close>

definition pack_imp_uint8 :: "8 word \<Rightarrow> byte list" where
  "pack_imp_uint8 d = (if d < 2 ^ 7 then [take8 d] else [0xcc, take8 d])"

definition pack_imp_uint16 :: "16 word \<Rightarrow> byte list" where
  "pack_imp_uint16 d =
     (if d < 2 ^ 7 then [take8 d]
      else if d < 2 ^ 8 then [0xcc, take8 d]
      else 0xcd # store16 d)"

definition pack_imp_uint32 :: "32 word \<Rightarrow> byte list" where
  "pack_imp_uint32 d =
     (if d < 2 ^ 8 then (if d < 2 ^ 7 then [take8 d] else [0xcc, take8 d])
      else if d < 2 ^ 16 then 0xcd # store16 (ucast d)
      else 0xce # store32 d)"

definition pack_imp_uint64 :: "64 word \<Rightarrow> byte list" where
  "pack_imp_uint64 d =
     (if d < 2 ^ 8 then (if d < 2 ^ 7 then [take8 d] else [0xcc, take8 d])
      else if d < 2 ^ 16 then 0xcd # store16 (ucast d)
      else if d < 2 ^ 32 then 0xce # store32 (ucast d)
      else 0xcf # store64 d)"

definition pack_imp_int8 :: "8 word \<Rightarrow> byte list" where
  "pack_imp_int8 d = (if sint d < - (2 ^ 5) then [0xd0, take8 d] else [take8 d])"

definition pack_imp_int16 :: "16 word \<Rightarrow> byte list" where
  "pack_imp_int16 d =
     (if sint d < - (2 ^ 5) then
        (if sint d < - (2 ^ 7) then 0xd1 # store16 d else [0xd0, take8 d])
      else if sint d < 2 ^ 7 then [take8 d]
      else if sint d < 2 ^ 8 then [0xcc, take8 d]
      else 0xcd # store16 d)"

definition pack_imp_int32 :: "32 word \<Rightarrow> byte list" where
  "pack_imp_int32 d =
     (if sint d < - (2 ^ 5) then
        (if sint d < - (2 ^ 15) then 0xd2 # store32 d
         else if sint d < - (2 ^ 7) then 0xd1 # store16 (ucast d)
         else [0xd0, take8 d])
      else if sint d < 2 ^ 7 then [take8 d]
      else if sint d < 2 ^ 8 then [0xcc, take8 d]
      else if sint d < 2 ^ 16 then 0xcd # store16 (ucast d)
      else 0xce # store32 d)"

definition pack_imp_int64 :: "64 word \<Rightarrow> byte list" where
  "pack_imp_int64 d =
     (if sint d < - (2 ^ 5) then
        (if sint d < - (2 ^ 15) then
           (if sint d < - (2 ^ 31) then 0xd3 # store64 d else 0xd2 # store32 (ucast d))
         else if sint d < - (2 ^ 7) then 0xd1 # store16 (ucast d)
         else [0xd0, take8 d])
      else if sint d < 2 ^ 7 then [take8 d]
      else if sint d < 2 ^ 16 then
        (if sint d < 2 ^ 8 then [0xcc, take8 d] else 0xcd # store16 (ucast d))
      else if sint d < 2 ^ 32 then 0xce # store32 (ucast d)
      else 0xcf # store64 d)"

definition pack_uint8 :: "8 word \<Rightarrow> byte list" where "pack_uint8 d = pack_imp_uint8 d"
definition pack_uint16 :: "16 word \<Rightarrow> byte list" where "pack_uint16 d = pack_imp_uint16 d"
definition pack_uint32 :: "32 word \<Rightarrow> byte list" where "pack_uint32 d = pack_imp_uint32 d"
definition pack_uint64 :: "64 word \<Rightarrow> byte list" where "pack_uint64 d = pack_imp_uint64 d"
definition pack_int8 :: "8 word \<Rightarrow> byte list" where "pack_int8 d = pack_imp_int8 d"
definition pack_int16 :: "16 word \<Rightarrow> byte list" where "pack_int16 d = pack_imp_int16 d"
definition pack_int32 :: "32 word \<Rightarrow> byte list" where "pack_int32 d = pack_imp_int32 d"
definition pack_int64 :: "64 word \<Rightarrow> byte list" where "pack_int64 d = pack_imp_int64 d"

text \<open>The types of the language, at the widths of the platform.\<close>

definition pack_char :: "8 word \<Rightarrow> byte list" where "pack_char d = pack_imp_int8 d"
definition pack_signed_char :: "8 word \<Rightarrow> byte list" where "pack_signed_char d = pack_imp_int8 d"
definition pack_short :: "16 word \<Rightarrow> byte list" where "pack_short d = pack_imp_int16 d"
definition pack_int :: "32 word \<Rightarrow> byte list" where "pack_int d = pack_imp_int32 d"
definition pack_long :: "64 word \<Rightarrow> byte list" where "pack_long d = pack_imp_int64 d"
definition pack_long_long :: "64 word \<Rightarrow> byte list" where "pack_long_long d = pack_imp_int64 d"
definition pack_unsigned_char :: "8 word \<Rightarrow> byte list" where
  "pack_unsigned_char d = pack_imp_uint8 d"
definition pack_unsigned_short :: "16 word \<Rightarrow> byte list" where
  "pack_unsigned_short d = pack_imp_uint16 d"
definition pack_unsigned_int :: "32 word \<Rightarrow> byte list" where
  "pack_unsigned_int d = pack_imp_uint32 d"
definition pack_unsigned_long :: "64 word \<Rightarrow> byte list" where
  "pack_unsigned_long d = pack_imp_uint64 d"
definition pack_unsigned_long_long :: "64 word \<Rightarrow> byte list" where
  "pack_unsigned_long_long d = pack_imp_uint64 d"

definition pack_float :: "32 word \<Rightarrow> byte list" where "pack_float d = 0xca # store32 d"
definition pack_double :: "64 word \<Rightarrow> byte list" where "pack_double d = 0xcb # store64 d"
definition pack_nil :: "byte list" where "pack_nil = [0xc0]"
definition pack_true :: "byte list" where "pack_true = [0xc3]"
definition pack_false :: "byte list" where "pack_false = [0xc2]"

text \<open>Headers; a length is a \<open>uint32_t\<close>, except that of an extension, a \<open>size_t\<close>.\<close>

definition pack_array :: "32 word \<Rightarrow> byte list" where
  "pack_array n =
     (if n < 16 then [0x90 OR ucast n]
      else if n < 65536 then 0xdc # store16 (ucast n)
      else 0xdd # store32 n)"

definition pack_map :: "32 word \<Rightarrow> byte list" where
  "pack_map n =
     (if n < 16 then [0x80 OR ucast n]
      else if n < 65536 then 0xde # store16 (ucast n)
      else 0xdf # store32 n)"

definition pack_str :: "32 word \<Rightarrow> byte list" where
  "pack_str l =
     (if l < 32 then [0xa0 OR ucast l]
      else if l < 256 then [0xd9, ucast l]
      else if l < 65536 then 0xda # store16 (ucast l)
      else 0xdb # store32 l)"

definition pack_str_body :: "byte list \<Rightarrow> byte list" where "pack_str_body b = b"

definition pack_v4raw :: "32 word \<Rightarrow> byte list" where
  "pack_v4raw l =
     (if l < 32 then [0xa0 OR ucast l]
      else if l < 65536 then 0xda # store16 (ucast l)
      else 0xdb # store32 l)"

definition pack_v4raw_body :: "byte list \<Rightarrow> byte list" where "pack_v4raw_body b = b"

definition pack_bin :: "32 word \<Rightarrow> byte list" where
  "pack_bin l =
     (if l < 256 then [0xc4, ucast l]
      else if l < 65536 then 0xc5 # store16 (ucast l)
      else 0xc6 # store32 l)"

definition pack_bin_body :: "byte list \<Rightarrow> byte list" where "pack_bin_body b = b"

definition pack_ext :: "64 word \<Rightarrow> byte \<Rightarrow> byte list" where
  "pack_ext l type =
     (if l = 1 then [0xd4, type]
      else if l = 2 then [0xd5, type]
      else if l = 4 then [0xd6, type]
      else if l = 8 then [0xd7, type]
      else if l = 16 then [0xd8, type]
      else if l < 256 then [0xc7, ucast l, type]
      else if l < 65536 then 0xc8 # store16 (ucast l) @ [type]
      else 0xc9 # store32 (ucast l) @ [type])"

definition pack_ext_body :: "byte list \<Rightarrow> byte list" where "pack_ext_body b = b"

section \<open>Packing an object\<close>

text \<open>The size fields of an object are 32 bits wide.\<close>

definition size32 :: "'a list \<Rightarrow> 32 word" where
  "size32 xs = word_of_nat (length xs)"

function (sequential) pack_object :: "object \<Rightarrow> byte list"
  and pack_items :: "object list \<Rightarrow> byte list"
  and pack_pairs :: "(object \<times> object) list \<Rightarrow> byte list" where
  "pack_object NIL = pack_nil"
| "pack_object (BOOLEAN b) = (if b then pack_true else pack_false)"
| "pack_object (POSITIVE_INTEGER n) = pack_uint64 n"
| "pack_object (NEGATIVE_INTEGER n) = pack_int64 n"
| "pack_object (FLOAT32 d) = pack_float d"
| "pack_object (FLOAT64 d) = pack_double d"
| "pack_object (Str b) = pack_str (size32 b) @ pack_str_body b"
| "pack_object (BIN b) = pack_bin (size32 b) @ pack_bin_body b"
| "pack_object (EXT t b) = pack_ext (ucast (size32 b)) t @ pack_ext_body b"
| "pack_object (ARRAY xs) = pack_array (size32 xs) @ pack_items xs"
| "pack_object (MAP kvs) = pack_map (size32 kvs) @ pack_pairs kvs"
| "pack_items [] = []"
| "pack_items (x # xs) = pack_object x @ pack_items xs"
| "pack_pairs [] = []"
| "pack_pairs ((k, v) # kvs) = pack_object k @ pack_object v @ pack_pairs kvs"
  by pat_completeness auto
termination
  by (relation "measure (case_sum size (case_sum (size_list size) (size_list (size_prod size size))))")
    auto

end
