(* ===== verification/Msgpack_Parse.thy ===== *)
theory Msgpack_Parse
  imports Msgpack
begin

text \<open>
  The stream parser of MessagePack (\<open>v2/parse.hpp\<close>), the visitor that builds objects
  (\<open>v2/create_object_visitor.hpp\<close>) and the unpacker the RPC layer reads with
  (\<open>v2/unpack.hpp\<close>). The parser is a state machine over single bytes that can stop
  anywhere for lack of input and go on later; its state is kept in the context. The bytes
  between the current position and the end of the buffer are the list it is given; what
  it leaves over is what the position has not passed.
\<close>

section \<open>The visitor\<close>

datatype unpack_error =
    parse_error | insufficient_bytes
  | array_size_overflow | map_size_overflow | str_size_overflow | bin_size_overflow
  | ext_size_overflow | depth_size_overflow
  | undefined_behaviour

record unpack_limit =
  array_limit :: "64 word"
  map_limit :: "64 word"
  str_limit :: "64 word"
  bin_limit :: "64 word"
  ext_limit :: "64 word"
  depth_limit :: "64 word"

definition default_limit :: unpack_limit where
  "default_limit =
     \<lparr>array_limit = 0xffffffff, map_limit = 0xffffffff, str_limit = 0xffffffff,
      bin_limit = 0xffffffff, ext_limit = 0xffffffff, depth_limit = 0xffffffff\<rparr>"

text \<open>
  \<open>m_func\<close>: whether strings, binaries and extensions refer to the receive buffer (the
  function that decides is constant in both uses: the unpacker's says yes, the default of
  \<open>unpack\<close> is none, so it copies). An entry of the visitor's stack points at the next slot of a block of objects; the slots
  before it are filled. The bottom entry points at the root object.
\<close>

record slots =
  filled :: "object list"
  slot :: object

record visitor =
  m_func :: bool
  m_limit :: unpack_limit
  m_slots :: "slots list"

definition empty_slots :: slots where
  "empty_slots = \<lparr>filled = [], slot = NIL\<rparr>"

definition init_visitor :: "bool \<Rightarrow> unpack_limit \<Rightarrow> visitor" where
  "init_visitor f limit = \<lparr>m_func = f, m_limit = limit, m_slots = [empty_slots]\<rparr>"

definition visitor_data :: "visitor \<Rightarrow> object" where
  "visitor_data v = (case rev (m_slots v) of [] \<Rightarrow> NIL | root # _ \<Rightarrow> slot root)"

text \<open>A visitor function returns whether to go on, or throws.\<close>

type_synonym visit_result = "unpack_error + bool \<times> visitor"

definition set_slot :: "object \<Rightarrow> visitor \<Rightarrow> visitor" where
  "set_slot x v = (case m_slots v of [] \<Rightarrow> v | f # fs \<Rightarrow> v\<lparr>m_slots := f\<lparr>slot := x\<rparr> # fs\<rparr>)"

definition visit_nil :: "visitor \<Rightarrow> visit_result" where
  "visit_nil v = Inr (True, set_slot NIL v)"

definition visit_boolean :: "bool \<Rightarrow> visitor \<Rightarrow> visit_result" where
  "visit_boolean b v = Inr (True, set_slot (BOOLEAN b) v)"

definition visit_positive_integer :: "64 word \<Rightarrow> visitor \<Rightarrow> visit_result" where
  "visit_positive_integer n v = Inr (True, set_slot (POSITIVE_INTEGER n) v)"

definition visit_negative_integer :: "64 word \<Rightarrow> visitor \<Rightarrow> visit_result" where
  "visit_negative_integer n v =
     Inr (True, set_slot (if 0 \<le> sint n then POSITIVE_INTEGER n else NEGATIVE_INTEGER n) v)"

definition visit_float32 :: "32 word \<Rightarrow> visitor \<Rightarrow> visit_result" where
  "visit_float32 d v = Inr (True, set_slot (FLOAT32 d) v)"

definition visit_float64 :: "64 word \<Rightarrow> visitor \<Rightarrow> visit_result" where
  "visit_float64 d v = Inr (True, set_slot (FLOAT64 d) v)"

definition visit_str :: "byte list \<Rightarrow> visitor \<Rightarrow> visit_result" where
  "visit_str b v =
     (if unat (str_limit (m_limit v)) < length b then Inl str_size_overflow
      else Inr (True, set_slot (Str b) v))"

definition visit_bin :: "byte list \<Rightarrow> visitor \<Rightarrow> visit_result" where
  "visit_bin b v =
     (if unat (bin_limit (m_limit v)) < length b then Inl bin_size_overflow
      else Inr (True, set_slot (BIN b) v))"

text \<open>
  The bytes of an extension start with its type. Its size is passed as a \<open>uint32_t\<close>: \<open>2 ^ 32\<close>
  bytes pass the limit as 0; the object then refers to all of them, but a copy of 0 bytes
  would be read past its end.
\<close>

definition visit_ext :: "byte list \<Rightarrow> visitor \<Rightarrow> visit_result" where
  "visit_ext b v =
     (let size = word_of_nat (length b) :: 32 word
      in if ext_limit (m_limit v) < ucast size then Inl ext_size_overflow
         else case b of
                [] \<Rightarrow> Inl undefined_behaviour
              | t # d \<Rightarrow> if size = 0 \<and> \<not> m_func v then Inl undefined_behaviour
                         else Inr (True, set_slot (EXT t d) v))"

definition push_slots :: "visitor \<Rightarrow> visitor" where
  "push_slots v = v\<lparr>m_slots := empty_slots # m_slots v\<rparr>"

definition start_array :: "32 word \<Rightarrow> visitor \<Rightarrow> visit_result" where
  "start_array num_elements v =
     (if array_limit (m_limit v) < ucast num_elements then Inl array_size_overflow
      else if unat (depth_limit (m_limit v)) < length (m_slots v) then Inl depth_size_overflow
      else Inr (True, push_slots (set_slot (ARRAY []) v)))"

definition next_slot :: "visitor \<Rightarrow> visitor" where
  "next_slot v =
     (case m_slots v of [] \<Rightarrow> v
      | f # fs \<Rightarrow> v\<lparr>m_slots := \<lparr>filled = filled f @ [slot f], slot = NIL\<rparr> # fs\<rparr>)"

definition start_array_item :: "visitor \<Rightarrow> visit_result" where "start_array_item v = Inr (True, v)"
definition end_array_item :: "visitor \<Rightarrow> visit_result" where "end_array_item v = Inr (True, next_slot v)"

text \<open>Popping the stack leaves the block with the object that points at it.\<close>

definition end_array :: "visitor \<Rightarrow> visit_result" where
  "end_array v =
     (case m_slots v of [] \<Rightarrow> Inl undefined_behaviour
      | f # fs \<Rightarrow> Inr (True, set_slot (ARRAY (filled f)) (v\<lparr>m_slots := fs\<rparr>)))"

definition start_map :: "32 word \<Rightarrow> visitor \<Rightarrow> visit_result" where
  "start_map num_kv_pairs v =
     (if map_limit (m_limit v) < ucast num_kv_pairs then Inl map_size_overflow
      else if unat (depth_limit (m_limit v)) < length (m_slots v) then Inl depth_size_overflow
      else Inr (True, push_slots (set_slot (MAP []) v)))"

definition start_map_key :: "visitor \<Rightarrow> visit_result" where "start_map_key v = Inr (True, v)"
definition end_map_key :: "visitor \<Rightarrow> visit_result" where "end_map_key v = Inr (True, next_slot v)"
definition start_map_value :: "visitor \<Rightarrow> visit_result" where "start_map_value v = Inr (True, v)"
definition end_map_value :: "visitor \<Rightarrow> visit_result" where "end_map_value v = Inr (True, next_slot v)"

definition end_map :: "visitor \<Rightarrow> visit_result" where
  "end_map v =
     (case m_slots v of [] \<Rightarrow> Inl undefined_behaviour
      | f # fs \<Rightarrow> Inr (True, set_slot (MAP (pairs (filled f))) (v\<lparr>m_slots := fs\<rparr>)))"

section \<open>The context and its stack\<close>

datatype parse_return =
  PARSE_SUCCESS | PARSE_EXTRA_BYTES | PARSE_CONTINUE | PARSE_PARSE_ERROR | PARSE_STOP_VISITOR

datatype cs =
    CS_HEADER
  | CS_BIN_8 | CS_BIN_16 | CS_BIN_32 | CS_EXT_8 | CS_EXT_16 | CS_EXT_32
  | CS_FLOAT | CS_DOUBLE
  | CS_UINT_8 | CS_UINT_16 | CS_UINT_32 | CS_UINT_64
  | CS_INT_8 | CS_INT_16 | CS_INT_32 | CS_INT_64
  | CS_FIXEXT_1 | CS_FIXEXT_2 | CS_FIXEXT_4 | CS_FIXEXT_8 | CS_FIXEXT_16
  | CS_STR_8 | CS_STR_16 | CS_STR_32 | CS_ARRAY_16 | CS_ARRAY_32 | CS_MAP_16 | CS_MAP_32
  | ACS_STR_VALUE | ACS_BIN_VALUE | ACS_EXT_VALUE

datatype container = CT_ARRAY_ITEM | CT_MAP_KEY | CT_MAP_VALUE

type_synonym unpack_stack = "(container \<times> 32 word) list"

record ctx =
  m_cs :: cs
  m_trail :: nat
  m_stack :: unpack_stack
  m_visitor :: visitor

definition init_ctx :: "bool \<Rightarrow> unpack_limit \<Rightarrow> ctx" where
  "init_ctx f limit = \<lparr>m_cs = CS_HEADER, m_trail = 0, m_stack = [], m_visitor = init_visitor f limit\<rparr>"

text \<open>
  The visitor is asked; if it says no, parsing stops with the stack as it is, and if it
  throws, the exception passes through.
\<close>

type_synonym stack_result = "unpack_error + parse_return \<times> unpack_stack \<times> visitor"

definition visit :: "visit_result \<Rightarrow> unpack_stack \<Rightarrow> (visitor \<Rightarrow> stack_result) \<Rightarrow> stack_result" where
  "visit r st k =
     (case r of
        Inl e \<Rightarrow> Inl e
      | Inr (go, v) \<Rightarrow> if go then k v else Inr (PARSE_STOP_VISITOR, st, v))"

definition stack_push :: "container \<Rightarrow> 32 word \<Rightarrow> unpack_stack \<Rightarrow> visitor \<Rightarrow> stack_result" where
  "stack_push type rest st v =
     (let st' = (type, rest) # st
      in case type of
           CT_ARRAY_ITEM \<Rightarrow> visit (start_array_item v) st' (\<lambda>v. Inr (PARSE_CONTINUE, st', v))
         | CT_MAP_KEY \<Rightarrow> visit (start_map_key v) st' (\<lambda>v. Inr (PARSE_CONTINUE, st', v))
         | CT_MAP_VALUE \<Rightarrow> Inl undefined_behaviour)"

fun stack_consume :: "unpack_stack \<Rightarrow> visitor \<Rightarrow> stack_result" where
  "stack_consume [] v = Inr (PARSE_SUCCESS, [], v)"
| "stack_consume ((CT_ARRAY_ITEM, rest) # st) v =
     visit (end_array_item v) ((CT_ARRAY_ITEM, rest) # st) (\<lambda>v.
       if rest - 1 = 0 then visit (end_array v) st (\<lambda>v. stack_consume st v)
       else visit (start_array_item v) ((CT_ARRAY_ITEM, rest - 1) # st)
              (\<lambda>v. Inr (PARSE_CONTINUE, (CT_ARRAY_ITEM, rest - 1) # st, v)))"
| "stack_consume ((CT_MAP_KEY, rest) # st) v =
     visit (end_map_key v) ((CT_MAP_KEY, rest) # st) (\<lambda>v.
       visit (start_map_value v) ((CT_MAP_KEY, rest) # st)
         (\<lambda>v. Inr (PARSE_CONTINUE, (CT_MAP_VALUE, rest) # st, v)))"
| "stack_consume ((CT_MAP_VALUE, rest) # st) v =
     visit (end_map_value v) ((CT_MAP_VALUE, rest) # st) (\<lambda>v.
       if rest - 1 = 0 then visit (end_map v) st (\<lambda>v. stack_consume st v)
       else visit (start_map_key v) ((CT_MAP_KEY, rest - 1) # st)
              (\<lambda>v. Inr (PARSE_CONTINUE, (CT_MAP_KEY, rest - 1) # st, v)))"

section \<open>One value\<close>

text \<open>
  What a step of the loop gives: an exception, the return of \<open>execute\<close>, or the next round
  with the bytes that are left.
\<close>

datatype step = Throw unpack_error | Return parse_return ctx "byte list" | Next ctx "byte list"

definition after_visit_proc :: "visit_result \<Rightarrow> ctx \<Rightarrow> byte list \<Rightarrow> step" where
  "after_visit_proc visit_result c rest =
     (case visit_result of
        Inl e \<Rightarrow> Throw e
      | Inr (go, v) \<Rightarrow>
          if \<not> go then Return PARSE_STOP_VISITOR (c\<lparr>m_visitor := v\<rparr>) rest
          else case stack_consume (m_stack c) v of
                 Inl e \<Rightarrow> Throw e
               | Inr (ret, st, v) \<Rightarrow>
                   (let c' = c\<lparr>m_cs := CS_HEADER, m_stack := st, m_visitor := v\<rparr>
                    in if ret \<noteq> PARSE_CONTINUE then Return ret c' rest else Next c' rest))"

text \<open>
  The first item of a container that is not empty has type \<open>item\<close>; \<open>sv\<close> and \<open>ev\<close> are the
  visitor's functions for its start and its end.
\<close>

definition start_aggregate ::
  "(32 word \<Rightarrow> visitor \<Rightarrow> visit_result) \<Rightarrow> (visitor \<Rightarrow> visit_result) \<Rightarrow> container \<Rightarrow> 32 word
    \<Rightarrow> ctx \<Rightarrow> byte list \<Rightarrow> step" where
  "start_aggregate sv ev item num c rest =
     (case (if num = 0
            then visit (sv num (m_visitor c)) (m_stack c)
                   (\<lambda>v. visit (ev v) (m_stack c) (\<lambda>v. stack_consume (m_stack c) v))
            else visit (sv num (m_visitor c)) (m_stack c)
                   (\<lambda>v. stack_push item num (m_stack c) v)) of
        Inl e \<Rightarrow> Throw e
      | Inr (ret, st, v) \<Rightarrow>
          (let c' = c\<lparr>m_stack := st, m_visitor := v\<rparr>
           in if ret \<noteq> PARSE_CONTINUE then Return ret c' rest
              else Next (c'\<lparr>m_cs := CS_HEADER\<rparr>) rest))"

abbreviation start_array_aggregate where
  "start_array_aggregate \<equiv> start_aggregate start_array end_array CT_ARRAY_ITEM"

abbreviation start_map_aggregate where
  "start_map_aggregate \<equiv> start_aggregate start_map end_map CT_MAP_KEY"

text \<open>
  The body of a string, binary or extension whose length is known. The loop reaches it
  with \<open>fixed_trail_again\<close> set, or again in the next call of \<open>execute\<close>.
\<close>

definition acs_step :: "ctx \<Rightarrow> byte list \<Rightarrow> step" where
  "acs_step c cur =
     (if length cur < m_trail c then Return PARSE_CONTINUE c cur
      else let n = take (m_trail c) cur; rest = drop (m_trail c) cur
           in case m_cs c of
                ACS_STR_VALUE \<Rightarrow> after_visit_proc (visit_str n (m_visitor c)) c rest
              | ACS_BIN_VALUE \<Rightarrow> after_visit_proc (visit_bin n (m_visitor c)) c rest
              | ACS_EXT_VALUE \<Rightarrow> after_visit_proc (visit_ext n (m_visitor c)) c rest
              | _ \<Rightarrow> Throw parse_error)"

text \<open>A length has been read: an empty body is visited at once.\<close>

definition with_length ::
  "(byte list \<Rightarrow> visitor \<Rightarrow> visit_result) \<Rightarrow> cs \<Rightarrow> nat \<Rightarrow> ctx \<Rightarrow> byte list \<Rightarrow> step" where
  "with_length visit_fn acs len c rest =
     (let c = c\<lparr>m_trail := len\<rparr>
      in if len = 0 then after_visit_proc (visit_fn [] (m_visitor c)) c rest
         else acs_step (c\<lparr>m_cs := acs\<rparr>) rest)"

definition value_step :: "ctx \<Rightarrow> byte list \<Rightarrow> step" where
  "value_step c cur =
     (if length cur < m_trail c then Return PARSE_CONTINUE c cur
      else let n = take (m_trail c) cur; rest = drop (m_trail c) cur; v = m_visitor c
           in case m_cs c of
                CS_FLOAT \<Rightarrow> after_visit_proc (visit_float32 (load n) v) c rest
              | CS_DOUBLE \<Rightarrow> after_visit_proc (visit_float64 (load n) v) c rest
              | CS_UINT_8 \<Rightarrow> after_visit_proc (visit_positive_integer (ucast (load n :: 8 word)) v) c rest
              | CS_UINT_16 \<Rightarrow> after_visit_proc (visit_positive_integer (ucast (load n :: 16 word)) v) c rest
              | CS_UINT_32 \<Rightarrow> after_visit_proc (visit_positive_integer (ucast (load n :: 32 word)) v) c rest
              | CS_UINT_64 \<Rightarrow> after_visit_proc (visit_positive_integer (load n) v) c rest
              | CS_INT_8 \<Rightarrow> after_visit_proc (visit_negative_integer (scast (load n :: 8 word)) v) c rest
              | CS_INT_16 \<Rightarrow> after_visit_proc (visit_negative_integer (scast (load n :: 16 word)) v) c rest
              | CS_INT_32 \<Rightarrow> after_visit_proc (visit_negative_integer (scast (load n :: 32 word)) v) c rest
              | CS_INT_64 \<Rightarrow> after_visit_proc (visit_negative_integer (load n) v) c rest
              | CS_FIXEXT_1 \<Rightarrow> after_visit_proc (visit_ext (take (1 + 1) n) v) c rest
              | CS_FIXEXT_2 \<Rightarrow> after_visit_proc (visit_ext (take (2 + 1) n) v) c rest
              | CS_FIXEXT_4 \<Rightarrow> after_visit_proc (visit_ext (take (4 + 1) n) v) c rest
              | CS_FIXEXT_8 \<Rightarrow> after_visit_proc (visit_ext (take (8 + 1) n) v) c rest
              | CS_FIXEXT_16 \<Rightarrow> after_visit_proc (visit_ext (take (16 + 1) n) v) c rest
              | CS_STR_8 \<Rightarrow> with_length visit_str ACS_STR_VALUE (unat (load n :: 8 word)) c rest
              | CS_BIN_8 \<Rightarrow> with_length visit_bin ACS_BIN_VALUE (unat (load n :: 8 word)) c rest
              | CS_EXT_8 \<Rightarrow> with_length visit_ext ACS_EXT_VALUE (unat (load n :: 8 word) + 1) c rest
              | CS_STR_16 \<Rightarrow> with_length visit_str ACS_STR_VALUE (unat (load n :: 16 word)) c rest
              | CS_BIN_16 \<Rightarrow> with_length visit_bin ACS_BIN_VALUE (unat (load n :: 16 word)) c rest
              | CS_EXT_16 \<Rightarrow> with_length visit_ext ACS_EXT_VALUE (unat (load n :: 16 word) + 1) c rest
              | CS_STR_32 \<Rightarrow> with_length visit_str ACS_STR_VALUE (unat (load n :: 32 word)) c rest
              | CS_BIN_32 \<Rightarrow> with_length visit_bin ACS_BIN_VALUE (unat (load n :: 32 word)) c rest
              | CS_EXT_32 \<Rightarrow> with_length visit_ext ACS_EXT_VALUE (unat (load n :: 32 word) + 1) c rest
              | CS_ARRAY_16 \<Rightarrow> start_array_aggregate (ucast (load n :: 16 word)) c rest
              | CS_ARRAY_32 \<Rightarrow> start_array_aggregate (load n) c rest
              | CS_MAP_16 \<Rightarrow> start_map_aggregate (ucast (load n :: 16 word)) c rest
              | CS_MAP_32 \<Rightarrow> start_map_aggregate (load n) c rest
              | _ \<Rightarrow> acs_step c cur)"

section \<open>The header byte\<close>

text \<open>The states and the numbers of further bytes of the headers from \<open>0xc4\<close> to \<open>0xdf\<close>.\<close>

definition cs_table :: "(cs \<times> nat) list" where
  "cs_table =
     [(CS_BIN_8, 1), (CS_BIN_16, 2), (CS_BIN_32, 4), (CS_EXT_8, 1), (CS_EXT_16, 2), (CS_EXT_32, 4),
      (CS_FLOAT, 4), (CS_DOUBLE, 8), (CS_UINT_8, 1), (CS_UINT_16, 2), (CS_UINT_32, 4), (CS_UINT_64, 8),
      (CS_INT_8, 1), (CS_INT_16, 2), (CS_INT_32, 4), (CS_INT_64, 8),
      (CS_FIXEXT_1, 2), (CS_FIXEXT_2, 3), (CS_FIXEXT_4, 5), (CS_FIXEXT_8, 9), (CS_FIXEXT_16, 17),
      (CS_STR_8, 1), (CS_STR_16, 2), (CS_STR_32, 4), (CS_ARRAY_16, 2), (CS_ARRAY_32, 4),
      (CS_MAP_16, 2), (CS_MAP_32, 4)]"

definition header_step :: "ctx \<Rightarrow> byte \<Rightarrow> byte list \<Rightarrow> step" where
  "header_step c selector rest =
     (let v = m_visitor c
      in if selector \<le> 0x7f then after_visit_proc (visit_positive_integer (ucast selector) v) c rest
         else if 0xe0 \<le> selector then after_visit_proc (visit_negative_integer (scast selector) v) c rest
         else if 0xc4 \<le> selector \<and> selector \<le> 0xdf then
           (case cs_table ! unat (selector - 0xc4) of (cs, trail) \<Rightarrow>
              value_step (c\<lparr>m_trail := trail, m_cs := cs\<rparr>) rest)
         else if 0xa0 \<le> selector \<and> selector \<le> 0xbf then
           with_length visit_str ACS_STR_VALUE (unat (selector AND 0x1f)) c rest
         else if 0x90 \<le> selector \<and> selector \<le> 0x9f then
           start_array_aggregate (ucast (selector AND 0x0f)) c rest
         else if 0x80 \<le> selector \<and> selector \<le> 0x8f then
           start_map_aggregate (ucast (selector AND 0x0f)) c rest
         else if selector = 0xc2 then after_visit_proc (visit_boolean False v) c rest
         else if selector = 0xc3 then after_visit_proc (visit_boolean True v) c rest
         else if selector = 0xc0 then after_visit_proc (visit_nil v) c rest
         else Throw parse_error)"

section \<open>The loop\<close>

definition loop_step :: "ctx \<Rightarrow> byte list \<Rightarrow> step" where
  "loop_step c cur =
     (case cur of
        [] \<Rightarrow> Return PARSE_CONTINUE c []
      | b # rest \<Rightarrow> if m_cs c = CS_HEADER then header_step c b rest else value_step c cur)"

text \<open>Every round either consumes a byte or ends a value that was being waited for.\<close>

definition round_measure :: "ctx \<Rightarrow> byte list \<Rightarrow> nat" where
  "round_measure c cur = 2 * length cur + (if m_cs c = CS_HEADER then 0 else 1)"

lemma after_visit_proc_Next:
  "after_visit_proc r c rest = Next c' rest' \<Longrightarrow> rest' = rest \<and> m_cs c' = CS_HEADER"
  by (auto simp: after_visit_proc_def Let_def split: sum.splits if_splits)

lemma start_aggregate_Next:
  "start_aggregate sv ev item num c rest = Next c' rest' \<Longrightarrow> rest' = rest \<and> m_cs c' = CS_HEADER"
  by (auto simp: start_aggregate_def Let_def split: sum.splits if_splits)

lemma acs_step_Next:
  "acs_step c cur = Next c' rest \<Longrightarrow> length rest \<le> length cur \<and> m_cs c' = CS_HEADER"
  by (auto simp: acs_step_def Let_def dest!: after_visit_proc_Next split: if_splits cs.splits)

lemma with_length_Next:
  "with_length f acs len c cur = Next c' rest \<Longrightarrow> length rest \<le> length cur \<and> m_cs c' = CS_HEADER"
  by (auto simp: with_length_def Let_def dest!: after_visit_proc_Next acs_step_Next split: if_splits)

lemma value_step_Next:
  assumes "value_step c cur = Next c' rest"
  shows "length rest \<le> length cur \<and> m_cs c' = CS_HEADER"
proof (cases "length cur < m_trail c")
  case False
  with assms show ?thesis
    by (cases "m_cs c") (auto simp: value_step_def Let_def
      dest!: after_visit_proc_Next start_aggregate_Next with_length_Next acs_step_Next)
qed (use assms in \<open>simp add: value_step_def\<close>)

lemma header_step_Next:
  "header_step c b cur = Next c' rest \<Longrightarrow> length rest \<le> length cur \<and> m_cs c' = CS_HEADER"
  by (auto simp: header_step_def Let_def split: if_splits prod.splits
    dest!: after_visit_proc_Next start_aggregate_Next with_length_Next value_step_Next)

lemma loop_step_Next:
  "loop_step c cur = Next c' rest \<Longrightarrow> round_measure c' rest < round_measure c cur"
  by (auto simp: loop_step_def round_measure_def split: list.splits if_splits
    dest!: header_step_Next value_step_Next)

text \<open>
  \<open>execute\<close>: the offset it sets is the number of bytes it no longer needs; here it returns
  the bytes that are left instead.
\<close>

type_synonym parse_result = "unpack_error + parse_return \<times> ctx \<times> byte list"

function execute :: "ctx \<Rightarrow> byte list \<Rightarrow> parse_result" where
  "execute c cur =
     (case loop_step c cur of
        Throw e \<Rightarrow> Inl e
      | Return ret c' rest \<Rightarrow> Inr (ret, c', rest)
      | Next c' rest \<Rightarrow> execute c' rest)"
  by pat_completeness auto
termination
  by (relation "measure (\<lambda>(c, cur). round_measure c cur)") (auto simp: loop_step_Next)

declare execute.simps [simp del]

section \<open>The unpacker\<close>

text \<open>
  A successful \<open>next\<close> hands out the object and resets the parser; otherwise the state is
  kept for the bytes to come.
\<close>

definition parser_init :: "ctx \<Rightarrow> ctx" where
  "parser_init c = init_ctx (m_func (m_visitor c)) (m_limit (m_visitor c))"

definition unpacker_next :: "ctx \<Rightarrow> byte list \<Rightarrow> unpack_error + object option \<times> ctx \<times> byte list" where
  "unpacker_next c cur =
     (case execute c cur of
        Inl e \<Rightarrow> Inl e
      | Inr (ret, c', rest) \<Rightarrow>
          if ret = PARSE_SUCCESS then Inr (Some (visitor_data (m_visitor c')), parser_init c', rest)
          else Inr (None, c', rest))"

text \<open>
  Parsing a buffer from a position on, with a fresh context: nothing to read and a value that
  is not complete throw (the visitor's \<open>insufficient_bytes\<close>); the position moves only when a
  value was found.
\<close>

definition parse_imp :: "visitor \<Rightarrow> byte list \<Rightarrow> unpack_error + parse_return \<times> visitor \<times> byte list" where
  "parse_imp v data =
     (if data = [] then Inl insufficient_bytes
      else case execute \<lparr>m_cs = CS_HEADER, m_trail = 0, m_stack = [], m_visitor = v\<rparr> data of
             Inl e \<Rightarrow> Inl e
           | Inr (ret, c, rest) \<Rightarrow>
               (case ret of
                  PARSE_CONTINUE \<Rightarrow> Inl insufficient_bytes
                | PARSE_SUCCESS \<Rightarrow>
                    Inr (if rest \<noteq> [] then PARSE_EXTRA_BYTES else PARSE_SUCCESS, m_visitor c, rest)
                | _ \<Rightarrow> Inr (ret, m_visitor c, data)))"

definition unpack_imp :: "bool \<Rightarrow> unpack_limit \<Rightarrow> byte list \<Rightarrow> unpack_error + parse_return \<times> object \<times> byte list" where
  "unpack_imp f limit data =
     (case parse_imp (init_visitor f limit) data of
        Inl e \<Rightarrow> Inl e
      | Inr (ret, v, rest) \<Rightarrow> Inr (ret, visitor_data v, rest))"

definition unpack :: "bool \<Rightarrow> unpack_limit \<Rightarrow> byte list \<Rightarrow> unpack_error + object \<times> byte list" where
  "unpack f limit data =
     (case unpack_imp f limit data of
        Inl e \<Rightarrow> Inl e
      | Inr (ret, obj, noff) \<Rightarrow>
          (case ret of
             PARSE_SUCCESS \<Rightarrow> Inr (obj, noff)
           | PARSE_EXTRA_BYTES \<Rightarrow> Inr (obj, noff)
           | _ \<Rightarrow> Inr (NIL, data)))"

end
