(* ===== verification/Msgpack_Scalars.thy ===== *)
theory Msgpack_Scalars
  imports Msgpack_Parse
begin

text \<open>
  The parser on what the packer writes for one number, flag or nil. A packed value is
  characterised by what the parser does with it wherever it stands: it sets the current
  slot of the visitor and goes on as after a value. Every integer type of the packer is
  covered, at every width it chooses.
\<close>

unbundle bit_operations_syntax

section \<open>Narrowing words\<close>

lemma sint_scast_up:
  "LENGTH('a) \<le> LENGTH('b) \<Longrightarrow> sint (scast (w :: 'a::len word) :: 'b::len word) = sint w"
  by (rule sint_up_scast) (simp add: is_up)

lemma sint_nonneg:
  fixes w :: "'a::len word"
  shows "0 \<le> sint w \<Longrightarrow> uint w = sint w"
proof -
  assume "0 \<le> sint w"
  moreover have "sint w < 2 ^ LENGTH('a)"
    using sint_lt [of w] power_increasing [of "LENGTH('a) - 1" "LENGTH('a)" "2::int"] by linarith
  ultimately show ?thesis
    by (simp add: uint_sint take_bit_int_eq_self)
qed

lemma sint_narrow:
  fixes w :: "'a::len word"
  assumes "LENGTH('b) \<le> LENGTH('a)"
    and "- (2 ^ (LENGTH('b) - 1)) \<le> sint w" "sint w < 2 ^ (LENGTH('b) - 1)"
  shows "sint (ucast w :: 'b::len word) = sint w"
proof -
  have "sint (ucast w :: 'b word) = signed_take_bit (LENGTH('b) - Suc 0) (take_bit LENGTH('b) (sint w))"
    using assms(1) by (simp add: sint_uint [of "ucast w :: 'b word"] unsigned_ucast_eq uint_sint [of w] min_def)
  then show ?thesis
    using assms(2,3) by (simp add: signed_take_bit_take_bit signed_take_bit_int_eq_self)
qed

lemma scast_narrow:
  fixes w :: "'a::len word"
  assumes "LENGTH('b) \<le> LENGTH('a)"
    and "- (2 ^ (LENGTH('b) - 1)) \<le> sint w" "sint w < 2 ^ (LENGTH('b) - 1)"
  shows "(scast (ucast w :: 'b::len word) :: 'c::len word) = scast w"
  by (metis sint_narrow [OF assms] of_int_sint)

lemma uint_narrow:
  fixes w :: "'a::len word"
  shows "uint w < 2 ^ LENGTH('b) \<Longrightarrow> uint (ucast w :: 'b::len word) = uint w"
  by (simp add: unsigned_ucast_eq take_bit_int_eq_self)

lemma ucast_narrow:
  fixes w :: "'a::len word"
  assumes "uint w < 2 ^ LENGTH('b)"
  shows "(ucast (ucast w :: 'b::len word) :: 'c::len word) = ucast w"
  by (metis uint_narrow [OF assms] of_int_uint)

lemma sint_e0: "0xe0 \<le> (d :: 8 word) \<Longrightarrow> sint d < 0"
  using sint_nonneg [of d] sint_lt [of d] by (cases "sint d < 0") (auto simp: word_le_def)

lemma byte_below:
  assumes "list_all (\<lambda>k. P (word_of_nat k :: byte)) [0..<n]" "n < 256" "(x::byte) < word_of_nat n"
  shows "P x"
proof -
  have "unat x < n"
    using assms(2,3) by (simp add: word_less_nat_alt unat_of_nat)
  then have "unat x \<in> set [0..<n]" by simp
  with assms(1) have "P (word_of_nat (unat x))"
    unfolding list_all_iff by blast
  then show ?thesis by simp
qed

lemma fix_or:
  fixes x :: byte
  shows "x < 32 \<Longrightarrow> 0xa0 \<le> 0xa0 OR x \<and> 0xa0 OR x \<le> 0xbf \<and> (0xa0 OR x) AND 0x1f = x"
    and "x < 16 \<Longrightarrow> 0x90 \<le> 0x90 OR x \<and> 0x90 OR x \<le> 0x9f \<and> (0x90 OR x) AND 0x0f = x"
    and "x < 16 \<Longrightarrow> 0x80 \<le> 0x80 OR x \<and> 0x80 OR x \<le> 0x8f \<and> (0x80 OR x) AND 0x0f = x"
  subgoal
    using byte_below [where P = "\<lambda>x. 0xa0 \<le> 0xa0 OR x \<and> 0xa0 OR x \<le> 0xbf \<and> (0xa0 OR x) AND 0x1f = x"
      and n = 32 and x = x] by (simp add: upt_conv_Cons)
  subgoal
    using byte_below [where P = "\<lambda>x. 0x90 \<le> 0x90 OR x \<and> 0x90 OR x \<le> 0x9f \<and> (0x90 OR x) AND 0x0f = x"
      and n = 16 and x = x] by (simp add: upt_conv_Cons)
  subgoal
    using byte_below [where P = "\<lambda>x. 0x80 \<le> 0x80 OR x \<and> 0x80 OR x \<le> 0x8f \<and> (0x80 OR x) AND 0x0f = x"
      and n = 16 and x = x] by (simp add: upt_conv_Cons)
  done

section \<open>What the parser does with one value\<close>

text \<open>
  \<open>resume\<close> is the rest of \<open>execute\<close> once the stack has taken a value.
\<close>

definition resume :: "ctx \<Rightarrow> stack_result \<Rightarrow> byte list \<Rightarrow> parse_result" where
  "resume c r rest =
     (case r of
        Inl e \<Rightarrow> Inl e
      | Inr (ret, st, v) \<Rightarrow>
          if ret = PARSE_CONTINUE
          then execute (c\<lparr>m_cs := CS_HEADER, m_stack := st, m_visitor := v\<rparr>) rest
          else Inr (ret, c\<lparr>m_stack := st, m_visitor := v\<rparr>, rest))"

definition takes :: "ctx \<Rightarrow> byte list \<Rightarrow> visitor \<Rightarrow> bool" where
  "takes c bs v \<longleftrightarrow>
     (\<forall>rest. \<exists>c'. execute c (bs @ rest) = resume c' (stack_consume (m_stack c) v) rest)"

lemma takesI:
  assumes "\<And>rest. loop_step c (bs @ rest) = after_visit_proc (Inr (True, v)) (c1 rest) rest"
    and "\<And>rest. m_stack (c1 rest) = m_stack c"
  shows "takes c bs v"
  unfolding takes_def
proof
  fix rest
  show "\<exists>c'. execute c (bs @ rest) = resume c' (stack_consume (m_stack c) v) rest"
    by (rule exI [of _ "(c1 rest)\<lparr>m_cs := CS_HEADER\<rparr>"])
      (subst execute.simps, auto simp: assms after_visit_proc_def resume_def Let_def split: sum.split)
qed

lemma cs_table_nth [simp]:
  "cs_table ! 0 = (CS_BIN_8, 1)" "cs_table ! Suc 0 = (CS_BIN_16, 2)" "cs_table ! 2 = (CS_BIN_32, 4)"
  "cs_table ! 3 = (CS_EXT_8, 1)" "cs_table ! 4 = (CS_EXT_16, 2)" "cs_table ! 5 = (CS_EXT_32, 4)"
  "cs_table ! 6 = (CS_FLOAT, 4)" "cs_table ! 7 = (CS_DOUBLE, 8)"
  "cs_table ! 8 = (CS_UINT_8, 1)" "cs_table ! 9 = (CS_UINT_16, 2)"
  "cs_table ! 10 = (CS_UINT_32, 4)" "cs_table ! 11 = (CS_UINT_64, 8)"
  "cs_table ! 12 = (CS_INT_8, 1)" "cs_table ! 13 = (CS_INT_16, 2)"
  "cs_table ! 14 = (CS_INT_32, 4)" "cs_table ! 15 = (CS_INT_64, 8)"
  "cs_table ! 16 = (CS_FIXEXT_1, 2)" "cs_table ! 17 = (CS_FIXEXT_2, 3)"
  "cs_table ! 18 = (CS_FIXEXT_4, 5)" "cs_table ! 19 = (CS_FIXEXT_8, 9)"
  "cs_table ! 20 = (CS_FIXEXT_16, 17)"
  "cs_table ! 21 = (CS_STR_8, 1)" "cs_table ! 22 = (CS_STR_16, 2)" "cs_table ! 23 = (CS_STR_32, 4)"
  "cs_table ! 24 = (CS_ARRAY_16, 2)" "cs_table ! 25 = (CS_ARRAY_32, 4)"
  "cs_table ! 26 = (CS_MAP_16, 2)" "cs_table ! 27 = (CS_MAP_32, 4)"
  by (simp_all add: cs_table_def)

lemma take_stores [simp]:
  "take 2 (store16 d @ rest) = store16 d" "take 4 (store32 e @ rest) = store32 e" "take 8 (store64 f @ rest) = store64 f"
  "drop 2 (store16 d @ rest) = rest" "drop 4 (store32 e @ rest) = rest" "drop 8 (store64 f @ rest) = rest"
  by simp_all

lemma load_single [simp]: "load [b] = ucast b"
  by (simp add: load_def be_value_def)

lemma loop_header: "m_cs c = CS_HEADER \<Longrightarrow> loop_step c (b # rest) = header_step c b rest"
  by (simp add: loop_step_def)

lemma header_tabled:
  "0xc4 \<le> b \<Longrightarrow> b \<le> 0xdf \<Longrightarrow> header_step c b rest =
     value_step (c\<lparr>m_trail := snd (cs_table ! (unat b - 196)), m_cs := fst (cs_table ! (unat b - 196))\<rparr>) rest"
  by (auto simp: header_step_def Let_def case_prod_beta word_le_nat_alt unat_sub)

lemma takes_tabled:
  assumes "m_cs c = CS_HEADER" "0xc4 \<le> b" "b \<le> 0xdf"
    and "cs_table ! (unat b - 196) = (s, length bs)"
    and "\<And>rest. value_step (c\<lparr>m_trail := length bs, m_cs := s\<rparr>) (bs @ rest)
            = after_visit_proc (Inr (True, v)) (c\<lparr>m_trail := length bs, m_cs := s\<rparr>) rest"
  shows "takes c (b # bs) v"
  by (rule takesI [of c _ _ "\<lambda>_. c\<lparr>m_trail := length bs, m_cs := s\<rparr>"])
    (simp_all add: loop_header header_tabled assms)



lemmas one_value = value_step_def Let_def visit_positive_integer_def visit_negative_integer_def
  visit_float32_def visit_float64_def

lemma takes_numbers:
  assumes "m_cs c = CS_HEADER"
  shows "takes c [0xcc, d8] (set_slot (POSITIVE_INTEGER (ucast d8)) (m_visitor c))"
    and "takes c (0xcd # store16 d16) (set_slot (POSITIVE_INTEGER (ucast d16)) (m_visitor c))"
    and "takes c (0xce # store32 d32) (set_slot (POSITIVE_INTEGER (ucast d32)) (m_visitor c))"
    and "takes c (0xcf # store64 d64) (set_slot (POSITIVE_INTEGER d64) (m_visitor c))"
    and "takes c (0xca # store32 d32) (set_slot (FLOAT32 d32) (m_visitor c))"
    and "takes c (0xcb # store64 d64) (set_slot (FLOAT64 d64) (m_visitor c))"
  by (rule takes_tabled [OF assms], (simp add: one_value; fail)+)+

lemma takes_negatives:
  assumes "m_cs c = CS_HEADER"
  shows "sint d8 < 0 \<Longrightarrow> takes c [0xd0, d8] (set_slot (NEGATIVE_INTEGER (scast d8)) (m_visitor c))"
    and "sint d16 < 0 \<Longrightarrow> takes c (0xd1 # store16 d16) (set_slot (NEGATIVE_INTEGER (scast d16)) (m_visitor c))"
    and "sint d32 < 0 \<Longrightarrow> takes c (0xd2 # store32 d32) (set_slot (NEGATIVE_INTEGER (scast d32)) (m_visitor c))"
    and "sint d64 < 0 \<Longrightarrow> takes c (0xd3 # store64 d64) (set_slot (NEGATIVE_INTEGER d64) (m_visitor c))"
  by (rule takes_tabled [OF assms], (simp add: one_value sint_scast_up; fail)+)+

lemma takes_header:
  assumes "m_cs c = CS_HEADER" "\<And>rest. header_step c b rest = after_visit_proc (Inr (True, v)) c rest"
  shows "takes c [b] v"
  by (rule takesI [of c _ _ "\<lambda>_. c"]) (simp_all add: loop_header assms)

lemma takes_constants:
  assumes "m_cs c = CS_HEADER"
  shows "takes c [0xc0] (set_slot NIL (m_visitor c))"
    and "takes c [0xc2] (set_slot (BOOLEAN False) (m_visitor c))"
    and "takes c [0xc3] (set_slot (BOOLEAN True) (m_visitor c))"
  by (rule takes_header [OF assms], simp add: header_step_def visit_nil_def visit_boolean_def)+

lemma takes_fixnum:
  assumes "m_cs c = CS_HEADER"
  shows "d8 \<le> 0x7f \<Longrightarrow> takes c [d8] (set_slot (POSITIVE_INTEGER (ucast d8)) (m_visitor c))"
    and "0xe0 \<le> d8 \<Longrightarrow> takes c [d8] (set_slot (NEGATIVE_INTEGER (scast d8)) (m_visitor c))"
  subgoal
    by (rule takes_header [OF assms]) (simp add: header_step_def visit_positive_integer_def)
  subgoal
    using sint_e0 [of d8] by (intro takes_header [OF assms])
      (auto simp: header_step_def visit_negative_integer_def Let_def sint_scast_up word_le_nat_alt)
  done

section \<open>Integers\<close>

lemma e0_le:
  fixes e :: byte
  assumes "-32 \<le> sint e" "sint e < 0"
  shows "0xe0 \<le> e"
proof -
  have "uint e = sint e mod 256"
    by (simp add: uint_sint take_bit_eq_mod)
  also have "\<dots> = (sint e + 256) mod 256"
    by simp
  also have "\<dots> = sint e + 256"
    using assms by (intro mod_pos_pos_trivial) auto
  finally show ?thesis
    using assms by (simp add: word_le_def)
qed

definition integer_object :: "64 word \<Rightarrow> object" where
  "integer_object n = (if 0 \<le> sint n then POSITIVE_INTEGER n else NEGATIVE_INTEGER n)"

text \<open>A number at a width that holds it.\<close>

lemma takes_positive:
  fixes d :: "'a::len word"
  assumes "m_cs c = CS_HEADER"
  shows "uint d < 128 \<Longrightarrow> takes c [take8 d] (set_slot (POSITIVE_INTEGER (ucast d)) (m_visitor c))"
    and "uint d < 256 \<Longrightarrow> takes c [0xcc, take8 d] (set_slot (POSITIVE_INTEGER (ucast d)) (m_visitor c))"
    and "uint d < 65536 \<Longrightarrow>
      takes c (0xcd # store16 (ucast d)) (set_slot (POSITIVE_INTEGER (ucast d)) (m_visitor c))"
    and "uint d < 4294967296 \<Longrightarrow>
      takes c (0xce # store32 (ucast d)) (set_slot (POSITIVE_INTEGER (ucast d)) (m_visitor c))"
  using takes_fixnum(1) [OF assms, of "take8 d"] takes_numbers(1) [OF assms, of "take8 d"]
    takes_numbers(2) [OF assms, of "ucast d"] takes_numbers(3) [OF assms, of "ucast d"]
  by (simp_all add: take8_def word_le_def uint_narrow ucast_narrow)

lemma takes_negative:
  fixes d :: "'a::len word"
  assumes "m_cs c = CS_HEADER" "sint d < 0"
  shows "-32 \<le> sint d \<Longrightarrow> 8 \<le> LENGTH('a) \<Longrightarrow>
      takes c [take8 d] (set_slot (NEGATIVE_INTEGER (scast d)) (m_visitor c))"
    and "-128 \<le> sint d \<Longrightarrow> 8 \<le> LENGTH('a) \<Longrightarrow>
      takes c [0xd0, take8 d] (set_slot (NEGATIVE_INTEGER (scast d)) (m_visitor c))"
    and "-32768 \<le> sint d \<Longrightarrow> 16 \<le> LENGTH('a) \<Longrightarrow>
      takes c (0xd1 # store16 (ucast d)) (set_slot (NEGATIVE_INTEGER (scast d)) (m_visitor c))"
    and "-2147483648 \<le> sint d \<Longrightarrow> 32 \<le> LENGTH('a) \<Longrightarrow>
      takes c (0xd2 # store32 (ucast d)) (set_slot (NEGATIVE_INTEGER (scast d)) (m_visitor c))"
  using takes_fixnum(2) [OF assms(1) e0_le, of "take8 d"] takes_negatives(1) [OF assms(1), of "take8 d"]
    takes_negatives(2) [OF assms(1), of "ucast d"] takes_negatives(3) [OF assms(1), of "ucast d"] assms(2)
  by (simp_all add: take8_def sint_narrow scast_narrow)

lemma takes_uint:
  assumes "m_cs c = CS_HEADER"
  shows "takes c (pack_imp_uint8 d8) (set_slot (POSITIVE_INTEGER (ucast d8)) (m_visitor c))"
    and "takes c (pack_imp_uint16 d16) (set_slot (POSITIVE_INTEGER (ucast d16)) (m_visitor c))"
    and "takes c (pack_imp_uint32 d32) (set_slot (POSITIVE_INTEGER (ucast d32)) (m_visitor c))"
    and "takes c (pack_imp_uint64 d64) (set_slot (POSITIVE_INTEGER d64) (m_visitor c))"
  using takes_positive [OF assms, of d8] takes_positive [OF assms, of d16]
    takes_positive [OF assms, of d32] takes_positive [OF assms, of d64] takes_numbers [OF assms]
  by (simp_all add: pack_imp_uint8_def pack_imp_uint16_def pack_imp_uint32_def pack_imp_uint64_def
      word_less_def take8_def)

lemma sint_nonneg_cast:
  fixes d :: "'a::len word"
  assumes "0 \<le> sint d" "LENGTH('a) \<le> 64"
  shows "integer_object (scast d) = POSITIVE_INTEGER (ucast d)"
proof -
  have "(scast d :: 64 word) = ucast d"
    by (metis sint_nonneg [OF assms(1)] of_int_sint of_int_uint)
  with assms sint_scast_up [of d, where ?'b = 64] show ?thesis
    by (simp add: integer_object_def)
qed

lemma sint_neg_cast:
  fixes d :: "'a::len word"
  shows "sint d < 0 \<Longrightarrow> LENGTH('a) \<le> 64 \<Longrightarrow> integer_object (scast d) = NEGATIVE_INTEGER (scast d)"
  using sint_scast_up [of d, where ?'b = 64] by (simp add: integer_object_def)

lemma takes_int:
  assumes "m_cs c = CS_HEADER"
  shows "takes c (pack_imp_int8 d8) (set_slot (integer_object (scast d8)) (m_visitor c))"
    and "takes c (pack_imp_int16 d16) (set_slot (integer_object (scast d16)) (m_visitor c))"
    and "takes c (pack_imp_int32 d32) (set_slot (integer_object (scast d32)) (m_visitor c))"
    and "takes c (pack_imp_int64 d64) (set_slot (integer_object d64) (m_visitor c))"
  subgoal
    using takes_positive [OF assms, of d8] takes_negative [OF assms, of d8] sint_lt [of d8] sint_ge [of d8]
    by (cases "sint d8 < 0") (simp_all add: pack_imp_int8_def sint_nonneg_cast sint_neg_cast sint_nonneg)
  subgoal
    using takes_positive [OF assms, of d16] takes_negative [OF assms, of d16] takes_negatives(2) [OF assms, of d16]
      takes_numbers(2) [OF assms, of d16]
    by (cases "sint d16 < 0") (simp_all add: pack_imp_int16_def sint_nonneg_cast sint_neg_cast sint_nonneg)
  subgoal
    using takes_positive [OF assms, of d32] takes_negative [OF assms, of d32] takes_negatives(3) [OF assms, of d32]
      takes_numbers(3) [OF assms, of d32]
    by (cases "sint d32 < 0") (simp_all add: pack_imp_int32_def sint_nonneg_cast sint_neg_cast sint_nonneg)
  subgoal
    using takes_positive [OF assms, of d64] takes_negative [OF assms, of d64] takes_negatives(4) [OF assms, of d64]
      takes_numbers(4) [OF assms, of d64] sint_nonneg_cast [of d64] sint_neg_cast [of d64]
    by (cases "sint d64 < 0") (simp_all add: pack_imp_int64_def sint_nonneg)
  done

end
