(* ===== verification/Msgpack_Objects.thy ===== *)
theory Msgpack_Objects
  imports Msgpack_Scalars
begin

text \<open>
  The parser on what the packer writes for strings, binaries, extensions, arrays, maps and
  so for every object within the limits of the parser: \<open>takes_object\<close>, by induction over the
  packer. Inside a container the invariant is the pair of the parser's stack (items still
  to come) and the visitor's top block (items filled in).
\<close>

unbundle bit_operations_syntax

section \<open>Lengths\<close>

lemma unat_size32 [simp]: "length b < 4294967296 \<Longrightarrow> unat (size32 b) = length b"
  by (simp add: size32_def unat_of_nat)

lemma unat_narrow:
  fixes w :: "'a::len word"
  assumes "unat w < 2 ^ LENGTH('b)"
  shows "unat (ucast w :: 'b::len word) = unat w"
  using assms by (simp add: unsigned_ucast_eq take_bit_nat_eq_self)

lemmas narrow_length = word_less_nat_alt word_le_nat_alt unat_narrow

section \<open>Bodies\<close>

definition body_ctx :: "ctx \<Rightarrow> cs \<Rightarrow> nat \<Rightarrow> ctx" where
  "body_ctx c acs len = (if len = 0 then c\<lparr>m_trail := 0\<rparr> else c\<lparr>m_trail := len, m_cs := acs\<rparr>)"

lemma body_ctx_stack [simp]: "m_stack (body_ctx c acs len) = m_stack c"
  by (simp add: body_ctx_def)

lemma with_length_str [simp]:
  "with_length visit_str ACS_STR_VALUE (length b) c (b @ rest) =
     after_visit_proc (visit_str b (m_visitor c)) (body_ctx c ACS_STR_VALUE (length b)) rest"
  by (simp add: with_length_def body_ctx_def acs_step_def Let_def)

lemma with_length_bin [simp]:
  "with_length visit_bin ACS_BIN_VALUE (length b) c (b @ rest) =
     after_visit_proc (visit_bin b (m_visitor c)) (body_ctx c ACS_BIN_VALUE (length b)) rest"
  by (simp add: with_length_def body_ctx_def acs_step_def Let_def)

lemma with_length_ext [simp]:
  "with_length visit_ext ACS_EXT_VALUE (Suc (length b)) c (t # b @ rest) =
     after_visit_proc (visit_ext (t # b) (m_visitor c)) (body_ctx c ACS_EXT_VALUE (Suc (length b))) rest"
  by (simp add: with_length_def body_ctx_def acs_step_def Let_def)

lemma takes_body:
  assumes "m_cs c = CS_HEADER" "0xc4 \<le> h" "h \<le> 0xdf"
    and "cs_table ! (unat h - 196) = (s, length lb)"
    and "\<And>rest. value_step (c\<lparr>m_trail := length lb, m_cs := s\<rparr>) (lb @ b @ rest)
       = after_visit_proc (Inr (True, v)) (body_ctx (c\<lparr>m_trail := length lb, m_cs := s\<rparr>) acs n) rest"
  shows "takes c (h # lb @ b) v"
  by (rule takesI [of c _ _ "\<lambda>_. body_ctx (c\<lparr>m_trail := length lb, m_cs := s\<rparr>) acs n"])
    (simp_all add: loop_header header_tabled assms)

lemma takes_str:
  assumes "m_cs c = CS_HEADER" "length b < 4294967296" "length b \<le> unat (str_limit (m_limit (m_visitor c)))"
  shows "takes c (pack_str (size32 b) @ pack_str_body b) (set_slot (Str b) (m_visitor c))"
proof -
  have v: "visit_str b (m_visitor c) = Inr (True, set_slot (Str b) (m_visitor c))"
    using assms(3) by (simp add: visit_str_def)
  have h: "header_step c (0xa0 OR ucast (size32 b)) x
      = with_length visit_str ACS_STR_VALUE (length b) c x" if "length b < 32" for x
    using that fix_or(1) [of "ucast (size32 b)"]
    by (simp add: header_step_def Let_def narrow_length)
  consider "length b < 32" | "32 \<le> length b" "length b < 256" | "256 \<le> length b" "length b < 65536"
    | "65536 \<le> length b" by linarith
  then show ?thesis
  proof cases
    case 1
    then show ?thesis
      by (intro takesI [of c _ _ "\<lambda>_. body_ctx c ACS_STR_VALUE (length b)"])
        (simp_all add: loop_header [OF assms(1)] h v pack_str_def pack_str_body_def narrow_length)
  next
    case 2
    then show ?thesis
      using takes_body [OF assms(1), where h = "0xd9" and s = CS_STR_8 and lb = "[ucast (size32 b)]"
        and b = b and v = "set_slot (Str b) (m_visitor c)" and acs = ACS_STR_VALUE and n = "length b"]
      by (simp add: value_step_def narrow_length v pack_str_def pack_str_body_def)
  next
    case 3
    then show ?thesis
      using takes_body [OF assms(1), where h = "0xda" and s = CS_STR_16 and lb = "store16 (ucast (size32 b))"
        and b = b and v = "set_slot (Str b) (m_visitor c)" and acs = ACS_STR_VALUE and n = "length b"]
      by (simp add: value_step_def narrow_length v pack_str_def pack_str_body_def)
  next
    case 4
    then show ?thesis
      using takes_body [OF assms(1), where h = "0xdb" and s = CS_STR_32 and lb = "store32 (size32 b)"
        and b = b and v = "set_slot (Str b) (m_visitor c)" and acs = ACS_STR_VALUE and n = "length b"] assms(2)
      by (simp add: value_step_def narrow_length v pack_str_def pack_str_body_def)
  qed
qed

lemma takes_bin:
  assumes "m_cs c = CS_HEADER" "length b < 4294967296" "length b \<le> unat (bin_limit (m_limit (m_visitor c)))"
  shows "takes c (pack_bin (size32 b) @ pack_bin_body b) (set_slot (BIN b) (m_visitor c))"
proof -
  have v: "visit_bin b (m_visitor c) = Inr (True, set_slot (BIN b) (m_visitor c))"
    using assms(3) by (simp add: visit_bin_def)
  note body = takes_body [OF assms(1), where b = b and v = "set_slot (BIN b) (m_visitor c)"
      and acs = ACS_BIN_VALUE and n = "length b"]
  consider "length b < 256" | "256 \<le> length b" "length b < 65536" | "65536 \<le> length b"
    by linarith
  then show ?thesis
    using body [where h = "0xc4" and s = CS_BIN_8 and lb = "[ucast (size32 b)]"]
      body [where h = "0xc5" and s = CS_BIN_16 and lb = "store16 (ucast (size32 b))"]
      body [where h = "0xc6" and s = CS_BIN_32 and lb = "store32 (size32 b)"] assms(2)
    by cases (simp_all add: value_step_def narrow_length v pack_bin_def pack_bin_body_def)
qed

lemma takes_ext:
  assumes "m_cs c = CS_HEADER" "length b < 4294967295" "Suc (length b) \<le> unat (ext_limit (m_limit (m_visitor c)))"
  shows "takes c (pack_ext (ucast (size32 b)) t @ pack_ext_body b) (set_slot (EXT t b) (m_visitor c))"
proof -
  have "unat (word_of_nat (length (t # b)) :: 32 word) = Suc (length b)"
    using assms(2) by (subst unat_of_nat) simp
  then have v: "visit_ext (t # b) (m_visitor c) = Inr (True, set_slot (EXT t b) (m_visitor c))"
    using assms(2,3) by (simp add: visit_ext_def Let_def word_less_nat_alt unat_narrow word_unat_eq_iff
      del: of_nat_Suc)
  have n: "unat (ucast (size32 b) :: 64 word) = length b"
    using assms(2) by (subst unat_narrow) auto
  have eq: "ucast (size32 b) = w \<longleftrightarrow> length b = unat w" for w :: "64 word"
    using n by (metis word_unat_eq_iff)
  note fixed = takes_tabled [OF assms(1), where bs = "t # b" and v = "set_slot (EXT t b) (m_visitor c)"]
  note body = takes_body [OF assms(1), where b = "t # b" and v = "set_slot (EXT t b) (m_visitor c)"
      and acs = ACS_EXT_VALUE and n = "Suc (length b)"]
  consider "length b \<in> {1, 2, 4, 8, 16}"
    | "length b \<notin> {1, 2, 4, 8, 16}" "length b < 256"
    | "256 \<le> length b" "length b < 65536" | "65536 \<le> length b"
    by linarith
  then show ?thesis
  proof cases
    case 1
    then show ?thesis
      using fixed [where b = "0xd4" and s = CS_FIXEXT_1] fixed [where b = "0xd5" and s = CS_FIXEXT_2]
        fixed [where b = "0xd6" and s = CS_FIXEXT_4] fixed [where b = "0xd7" and s = CS_FIXEXT_8]
        fixed [where b = "0xd8" and s = CS_FIXEXT_16]
      by (auto simp: value_step_def Let_def v pack_ext_def pack_ext_body_def eq)
  next
    case 2
    then show ?thesis
      using body [where h = "0xc7" and s = CS_EXT_8 and lb = "[ucast (ucast (size32 b) :: 64 word)]"]
      by (simp add: value_step_def narrow_length v pack_ext_def pack_ext_body_def eq n)
  next
    case 3
    then show ?thesis
      using body [where h = "0xc8" and s = CS_EXT_16 and lb = "store16 (ucast (ucast (size32 b) :: 64 word))"]
      by (simp add: value_step_def narrow_length v pack_ext_def pack_ext_body_def eq n)
  next
    case 4
    then show ?thesis
      using body [where h = "0xc9" and s = CS_EXT_32 and lb = "store32 (ucast (ucast (size32 b) :: 64 word))"] assms(2)
      by (simp add: value_step_def narrow_length v pack_ext_def pack_ext_body_def eq n)
  qed
qed

section \<open>Objects within the limits\<close>

text \<open>
  \<open>fits l k x\<close>: the parser with limits \<open>l\<close> accepts \<open>x\<close> when \<open>k\<close> blocks are open. Sizes are
  those a 32-bit header can carry (an extension also counts its type byte); a negative
  number is negative.
\<close>

function (sequential) fits :: "unpack_limit \<Rightarrow> nat \<Rightarrow> object \<Rightarrow> bool"
  and fits_items :: "unpack_limit \<Rightarrow> nat \<Rightarrow> object list \<Rightarrow> bool"
  and fits_pairs :: "unpack_limit \<Rightarrow> nat \<Rightarrow> (object \<times> object) list \<Rightarrow> bool" where
  "fits l k (NEGATIVE_INTEGER n) = (sint n < 0)"
| "fits l k (Str b) = (length b < 4294967296 \<and> length b \<le> unat (str_limit l))"
| "fits l k (BIN b) = (length b < 4294967296 \<and> length b \<le> unat (bin_limit l))"
| "fits l k (EXT t b) = (length b < 4294967295 \<and> Suc (length b) \<le> unat (ext_limit l))"
| "fits l k (ARRAY xs) =
     (length xs < 4294967296 \<and> length xs \<le> unat (array_limit l) \<and> k \<le> unat (depth_limit l) \<and>
      fits_items l (Suc k) xs)"
| "fits l k (MAP kvs) =
     (length kvs < 4294967296 \<and> length kvs \<le> unat (map_limit l) \<and> k \<le> unat (depth_limit l) \<and>
      fits_pairs l (Suc k) kvs)"
| "fits l k _ = True"
| "fits_items l k [] = True"
| "fits_items l k (x # xs) = (fits l k x \<and> fits_items l k xs)"
| "fits_pairs l k [] = True"
| "fits_pairs l k ((x, y) # kvs) = (fits l k x \<and> fits l k y \<and> fits_pairs l k kvs)"
  by pat_completeness auto
termination
  by (relation "measure (case_sum (\<lambda>(l, k, x). size x) (case_sum (\<lambda>(l, k, xs). size_list size xs)
      (\<lambda>(l, k, kvs). size_list (size_prod size size) kvs)))") auto

section \<open>Headers of arrays and maps\<close>

lemma size32_Cons: "size32 (x # xs) - 1 = size32 xs"
  by (simp add: size32_def)

lemma size32_0 [simp]: "length xs < 4294967296 \<Longrightarrow> size32 xs = 0 \<longleftrightarrow> xs = []"
  by (metis length_0_conv unat_eq_0 unat_size32)

lemma set_slot_again [simp]: "set_slot x (set_slot y v) = set_slot x v"
  by (simp add: set_slot_def split: list.split)

lemma set_slot_fields [simp]:
  "m_limit (set_slot x v) = m_limit v" "m_func (set_slot x v) = m_func v"
  "length (m_slots (set_slot x v)) = length (m_slots v)"
  by (simp_all add: set_slot_def split: list.split)

lemma small_or:
  "n < 16 \<Longrightarrow> 0x90 \<le> (0x90 OR ucast n :: byte) \<and> 0x90 OR ucast n \<le> (0x9f :: byte) \<and>
     ucast ((0x90 OR ucast n :: byte) AND 0x0f) = n"
  "n < 16 \<Longrightarrow> 0x80 \<le> (0x80 OR ucast n :: byte) \<and> 0x80 OR ucast n \<le> (0x8f :: byte) \<and>
     ucast ((0x80 OR ucast n :: byte) AND 0x0f) = n"
  for n :: "32 word"
  using fix_or(2,3) [of "ucast n"] ucast_narrow [of n, where ?'b = 8 and ?'c = 32]
  by (simp_all add: word_less_def word_le_def uint_narrow)

lemma header_small:
  "0x90 \<le> b \<Longrightarrow> b \<le> 0x9f \<Longrightarrow> header_step c b rest = start_array_aggregate (ucast (b AND 0x0f)) c rest"
  "0x80 \<le> b \<Longrightarrow> b \<le> 0x8f \<Longrightarrow> header_step c b rest = start_map_aggregate (ucast (b AND 0x0f)) c rest"
  by (simp_all add: header_step_def Let_def word_le_nat_alt)

lemma array_header:
  assumes "m_cs c = CS_HEADER"
  shows "\<exists>c1. m_stack c1 = m_stack c \<and> m_visitor c1 = m_visitor c \<and>
      loop_step c (pack_array n @ rest) = start_array_aggregate n c1 rest"
proof -
  consider "n < 16" | "\<not> n < 16" "n < 65536" | "\<not> n < 65536" by blast
  then show ?thesis
  proof cases
    case 1
    then show ?thesis
      using small_or(1) [OF 1] by (intro exI [of _ c]) (simp add: assms pack_array_def loop_header header_small)
  next
    case 2
    then show ?thesis
      by (intro exI [of _ "c\<lparr>m_trail := 2, m_cs := CS_ARRAY_16\<rparr>"])
        (simp add: assms pack_array_def loop_header header_tabled value_step_def Let_def ucast_narrow word_less_def)
  next
    case 3
    then have "\<not> n < 16"
      by (simp add: word_less_def)
    with 3 show ?thesis
      by (intro exI [of _ "c\<lparr>m_trail := 4, m_cs := CS_ARRAY_32\<rparr>"])
        (simp add: assms pack_array_def loop_header header_tabled value_step_def Let_def)
  qed
qed

lemma map_header:
  assumes "m_cs c = CS_HEADER"
  shows "\<exists>c1. m_stack c1 = m_stack c \<and> m_visitor c1 = m_visitor c \<and>
      loop_step c (pack_map n @ rest) = start_map_aggregate n c1 rest"
proof -
  consider "n < 16" | "\<not> n < 16" "n < 65536" | "\<not> n < 65536" by blast
  then show ?thesis
  proof cases
    case 1
    then show ?thesis
      using small_or(2) [OF 1] by (intro exI [of _ c]) (simp add: assms pack_map_def loop_header header_small)
  next
    case 2
    then show ?thesis
      by (intro exI [of _ "c\<lparr>m_trail := 2, m_cs := CS_MAP_16\<rparr>"])
        (simp add: assms pack_map_def loop_header header_tabled value_step_def Let_def ucast_narrow word_less_def)
  next
    case 3
    then have "\<not> n < 16"
      by (simp add: word_less_def)
    with 3 show ?thesis
      by (intro exI [of _ "c\<lparr>m_trail := 4, m_cs := CS_MAP_32\<rparr>"])
        (simp add: assms pack_map_def loop_header header_tabled value_step_def Let_def)
  qed
qed

section \<open>Items of containers\<close>

text \<open>Inside a container: the frame of its items is on top of the visitor's stack.\<close>

definition inside :: "object list \<Rightarrow> visitor \<Rightarrow> visitor" where
  "inside done v = v\<lparr>m_slots := \<lparr>filled = done, slot = NIL\<rparr> # m_slots v\<rparr>"

lemma inside_fields [simp]:
  "m_limit (inside d v) = m_limit v" "length (m_slots (inside d v)) = Suc (length (m_slots v))"
  by (simp_all add: inside_def)

lemma next_inside [simp]: "next_slot (set_slot x (inside d v)) = inside (d @ [x]) v"
  by (simp add: next_slot_def set_slot_def inside_def)

lemma end_inside [simp]:
  "end_array (inside d v) = Inr (True, set_slot (ARRAY d) v)"
  "end_map (inside d v) = Inr (True, set_slot (MAP (pairs d)) v)"
  by (simp_all add: end_array_def end_map_def inside_def)

lemma push_inside: "push_slots v = inside [] v"
  by (simp add: push_slots_def inside_def empty_slots_def)

lemma ctx_order:
  "c\<lparr>m_stack := st, m_visitor := v, m_cs := s\<rparr> = c\<lparr>m_cs := s, m_stack := st, m_visitor := v\<rparr>"
  by (cases c) simp

lemma execute_aggregate:
  assumes "loop_step c s = start_aggregate sv ev item num c1 rest"
    and "sv num (m_visitor c1) = Inr (True, v1)"
  shows "num = 0 \<Longrightarrow> ev v1 = Inr (True, v2) \<Longrightarrow>
      \<exists>c'. execute c s = resume c' (stack_consume (m_stack c1) v2) rest"
    and "num \<noteq> 0 \<Longrightarrow> item \<noteq> CT_MAP_VALUE \<Longrightarrow>
      execute c s = execute (c1\<lparr>m_cs := CS_HEADER, m_stack := (item, num) # m_stack c1, m_visitor := v1\<rparr>) rest"
  subgoal
    using assms by (intro exI [of _ c1], subst execute.simps, cases "stack_consume (m_stack c1) v2")
      (simp_all add: start_aggregate_def visit_def resume_def Let_def ctx_order split: prod.split)
  subgoal
    by (subst execute.simps, cases item) (simp_all add: assms start_aggregate_def visit_def stack_push_def Let_def
      start_array_item_def start_map_key_def ctx_order)
  done

abbreviation at_item :: "container \<Rightarrow> 'a list \<Rightarrow> object list \<Rightarrow> visitor \<Rightarrow> unpack_stack \<Rightarrow> ctx \<Rightarrow> bool" where
  "at_item item xs d v st c \<equiv>
     m_cs c = CS_HEADER \<and> m_stack c = (item, size32 xs) # st \<and> m_visitor c = inside d v"

lemma takes_item:
  assumes "takes c bs (set_slot x (m_visitor c))" "at_item CT_ARRAY_ITEM (y # ys) d v st c"
    and "length (y # ys) < 4294967296"
  shows "\<exists>c'. execute c (bs @ rest) =
     (if ys = [] then resume c' (stack_consume st (set_slot (ARRAY (d @ [x])) v)) rest else execute c' rest) \<and>
     (ys \<noteq> [] \<longrightarrow> at_item CT_ARRAY_ITEM ys (d @ [x]) v st c')"
proof -
  obtain c1 where c1: "execute c (bs @ rest) = resume c1 (stack_consume (m_stack c) (set_slot x (m_visitor c))) rest"
    using assms(1) unfolding takes_def by blast
  show ?thesis
  proof (cases "ys = []")
    case True
    with assms c1 show ?thesis
      by (intro exI [of _ c1]) (simp add: size32_Cons visit_def end_array_item_def)
  next
    case False
    with assms c1 show ?thesis
      by (intro exI [of _ "c1\<lparr>m_cs := CS_HEADER, m_stack := (CT_ARRAY_ITEM, size32 ys) # st, m_visitor := inside (d @ [x]) v\<rparr>"])
        (simp add: size32_Cons visit_def end_array_item_def start_array_item_def resume_def)
  qed
qed

lemma takes_key:
  assumes "takes c bs (set_slot x (m_visitor c))" "at_item CT_MAP_KEY kvs d v st c"
  shows "\<exists>c'. execute c (bs @ rest) = execute c' rest \<and> at_item CT_MAP_VALUE kvs (d @ [x]) v st c'"
proof -
  obtain c1 where c1: "execute c (bs @ rest) = resume c1 (stack_consume (m_stack c) (set_slot x (m_visitor c))) rest"
    using assms(1) unfolding takes_def by blast
  show ?thesis
    using assms(2) c1
    by (intro exI [of _ "c1\<lparr>m_cs := CS_HEADER, m_stack := (CT_MAP_VALUE, size32 kvs) # st, m_visitor := inside (d @ [x]) v\<rparr>"])
      (simp add: visit_def end_map_key_def start_map_value_def resume_def)
qed

lemma takes_value:
  assumes "takes c bs (set_slot x (m_visitor c))" "at_item CT_MAP_VALUE (kv # kvs) d v st c"
    and "length (kv # kvs) < 4294967296"
  shows "\<exists>c'. execute c (bs @ rest) =
     (if kvs = [] then resume c' (stack_consume st (set_slot (MAP (pairs (d @ [x]))) v)) rest else execute c' rest) \<and>
     (kvs \<noteq> [] \<longrightarrow> at_item CT_MAP_KEY kvs (d @ [x]) v st c')"
proof -
  obtain c1 where c1: "execute c (bs @ rest) = resume c1 (stack_consume (m_stack c) (set_slot x (m_visitor c))) rest"
    using assms(1) unfolding takes_def by blast
  show ?thesis
  proof (cases "kvs = []")
    case True
    with assms c1 show ?thesis
      by (intro exI [of _ c1]) (simp add: size32_Cons visit_def end_map_value_def)
  next
    case False
    with assms c1 show ?thesis
      by (intro exI [of _ "c1\<lparr>m_cs := CS_HEADER, m_stack := (CT_MAP_KEY, size32 kvs) # st, m_visitor := inside (d @ [x]) v\<rparr>"])
        (simp add: size32_Cons visit_def end_map_value_def start_map_key_def resume_def)
  qed
qed

section \<open>Every object\<close>

abbreviation fits_at :: "visitor \<Rightarrow> object \<Rightarrow> bool" where
  "fits_at v x \<equiv> fits (m_limit v) (length (m_slots v)) x"

definition flat :: "('a \<times> 'a) list \<Rightarrow> 'a list" where
  "flat kvs = concat (map (\<lambda>(x, y). [x, y]) kvs)"

lemma flat_simps [simp]: "flat [] = []" "flat ((x, y) # kvs) = x # y # flat kvs"
  by (simp_all add: flat_def)

lemma pairs_flat [simp]: "pairs (flat kvs) = kvs"
  by (induction kvs) auto

lemma unat_size_le:
  "length xs < 4294967296 \<Longrightarrow> length xs \<le> unat l \<Longrightarrow> \<not> (l :: 64 word) < ucast (size32 xs)"
  by (simp add: word_less_nat_alt unat_narrow)

lemma takes_array:
  assumes "m_cs c = CS_HEADER" "length xs < 4294967296" "length xs \<le> unat (array_limit (m_limit (m_visitor c)))"
    and "length (m_slots (m_visitor c)) \<le> unat (depth_limit (m_limit (m_visitor c)))"
    and items: "\<And>c' st v rest. xs \<noteq> [] \<Longrightarrow> at_item CT_ARRAY_ITEM xs [] v st c' \<Longrightarrow>
      m_limit v = m_limit (m_visitor c) \<Longrightarrow> length (m_slots v) = length (m_slots (m_visitor c)) \<Longrightarrow>
      \<exists>c2. execute c' (pack_items xs @ rest) = resume c2 (stack_consume st (set_slot (ARRAY xs) v)) rest"
  shows "takes c (pack_array (size32 xs) @ pack_items xs) (set_slot (ARRAY xs) (m_visitor c))"
  unfolding takes_def
proof
  fix rest
  obtain c1 where c1: "m_stack c1 = m_stack c" "m_visitor c1 = m_visitor c"
    "loop_step c (pack_array (size32 xs) @ pack_items xs @ rest) =
       start_array_aggregate (size32 xs) c1 (pack_items xs @ rest)"
    using array_header [OF assms(1)] by blast
  have start: "start_array (size32 xs) (m_visitor c1) = Inr (True, inside [] (set_slot (ARRAY []) (m_visitor c)))"
    using assms(2-4) by (simp add: start_array_def unat_size_le c1(2) push_inside)
  note run = execute_aggregate [OF c1(3) start]
  show "\<exists>c'. execute c ((pack_array (size32 xs) @ pack_items xs) @ rest) =
      resume c' (stack_consume (m_stack c) (set_slot (ARRAY xs) (m_visitor c))) rest"
  proof (cases "xs = []")
    case True
    with run(1) [of "set_slot (ARRAY xs) (m_visitor c)"] c1(1) show ?thesis
      by (simp add: size32_def)
  next
    case False
    with run(2) items [of _ "m_stack c" "set_slot (ARRAY []) (m_visitor c)" rest] assms(2) c1(1) show ?thesis
      by simp
  qed
qed

lemma takes_map:
  assumes "m_cs c = CS_HEADER" "length kvs < 4294967296" "length kvs \<le> unat (map_limit (m_limit (m_visitor c)))"
    and "length (m_slots (m_visitor c)) \<le> unat (depth_limit (m_limit (m_visitor c)))"
    and items: "\<And>c' st v rest. kvs \<noteq> [] \<Longrightarrow> at_item CT_MAP_KEY kvs [] v st c' \<Longrightarrow>
      m_limit v = m_limit (m_visitor c) \<Longrightarrow> length (m_slots v) = length (m_slots (m_visitor c)) \<Longrightarrow>
      \<exists>c2. execute c' (pack_pairs kvs @ rest) = resume c2 (stack_consume st (set_slot (MAP kvs) v)) rest"
  shows "takes c (pack_map (size32 kvs) @ pack_pairs kvs) (set_slot (MAP kvs) (m_visitor c))"
  unfolding takes_def
proof
  fix rest
  obtain c1 where c1: "m_stack c1 = m_stack c" "m_visitor c1 = m_visitor c"
    "loop_step c (pack_map (size32 kvs) @ pack_pairs kvs @ rest) =
       start_map_aggregate (size32 kvs) c1 (pack_pairs kvs @ rest)"
    using map_header [OF assms(1)] by blast
  have start: "start_map (size32 kvs) (m_visitor c1) = Inr (True, inside [] (set_slot (MAP []) (m_visitor c)))"
    using assms(2-4) by (simp add: start_map_def unat_size_le c1(2) push_inside)
  note run = execute_aggregate [OF c1(3) start]
  show "\<exists>c'. execute c ((pack_map (size32 kvs) @ pack_pairs kvs) @ rest) =
      resume c' (stack_consume (m_stack c) (set_slot (MAP kvs) (m_visitor c))) rest"
  proof (cases "kvs = []")
    case True
    with run(1) [of "set_slot (MAP kvs) (m_visitor c)"] c1(1) show ?thesis
      by (simp add: size32_def)
  next
    case False
    with run(2) items [of _ "m_stack c" "set_slot (MAP []) (m_visitor c)" rest] assms(2) c1(1) show ?thesis
      by simp
  qed
qed

lemma takes_object:
  "m_cs c = CS_HEADER \<Longrightarrow> fits_at (m_visitor c) x \<Longrightarrow>
     takes c (pack_object x) (set_slot x (m_visitor c))"
  "xs \<noteq> [] \<Longrightarrow> length xs < 4294967296 \<Longrightarrow> at_item CT_ARRAY_ITEM xs d v st c \<Longrightarrow>
     fits_items (m_limit v) (Suc (length (m_slots v))) xs \<Longrightarrow>
     \<exists>c'. execute c (pack_items xs @ rest) = resume c' (stack_consume st (set_slot (ARRAY (d @ xs)) v)) rest"
  "kvs \<noteq> [] \<Longrightarrow> length kvs < 4294967296 \<Longrightarrow> at_item CT_MAP_KEY kvs d v st c \<Longrightarrow>
     fits_pairs (m_limit v) (Suc (length (m_slots v))) kvs \<Longrightarrow>
     \<exists>c'. execute c (pack_pairs kvs @ rest) =
       resume c' (stack_consume st (set_slot (MAP (pairs (d @ flat kvs))) v)) rest"
proof (induction x and xs and kvs arbitrary: c and c d v st rest and c d v st rest
    rule: pack_object_pack_items_pack_pairs.induct)
  case 1
  then show ?case by (simp add: pack_nil_def takes_constants)
next
  case (2 b)
  then show ?case by (simp add: pack_true_def pack_false_def takes_constants)
next
  case (3 n)
  then show ?case by (simp add: pack_uint64_def takes_uint)
next
  case (4 n)
  then show ?case using takes_int(4) [of c n] by (simp add: pack_int64_def integer_object_def)
next
  case (5 f)
  then show ?case by (simp add: pack_float_def takes_numbers)
next
  case (6 f)
  then show ?case by (simp add: pack_double_def takes_numbers)
next
  case (7 b)
  then show ?case by (simp add: takes_str)
next
  case (8 b)
  then show ?case by (simp add: takes_bin)
next
  case (9 t b)
  then show ?case by (simp add: takes_ext)
next
  case (10 xs)
  then show ?case
    unfolding pack_object.simps
    by (intro takes_array) (use 10(1) [of _ _ "[]"] 10(2-) in \<open>simp_all del: stack_consume.simps\<close>)
next
  case (11 kvs)
  then show ?case
    unfolding pack_object.simps
    by (intro takes_map) (use 11(1) [of _ _ "[]"] 11(2-) in \<open>simp_all del: stack_consume.simps\<close>)
next
  case (13 x xs)
  have "takes c (pack_object x) (set_slot x (m_visitor c))"
    by (intro 13(1)) (use 13(3-) in simp_all)
  from takes_item [OF this, of x xs st d v] 13(4,5) obtain c' where
    "execute c (pack_object x @ pack_items xs @ rest) =
       (if xs = [] then resume c' (stack_consume st (set_slot (ARRAY (d @ [x])) v)) (pack_items xs @ rest)
        else execute c' (pack_items xs @ rest))"
    "xs \<noteq> [] \<longrightarrow> at_item CT_ARRAY_ITEM xs (d @ [x]) v st c'" by blast
  then show ?case
    using 13(2) [of c' st "d @ [x]" v rest] 13 by (cases "xs = []") auto
next
  case (15 k y kvs)
  have "takes c (pack_object k) (set_slot k (m_visitor c))"
    by (intro 15(1)) (use 15(4-) in simp_all)
  from takes_key [OF this 15(6)] obtain c' where k:
    "execute c (pack_object k @ pack_object y @ pack_pairs kvs @ rest) = execute c' (pack_object y @ pack_pairs kvs @ rest)"
    "at_item CT_MAP_VALUE ((k, y) # kvs) (d @ [k]) v st c'" by blast
  then have "takes c' (pack_object y) (set_slot y (m_visitor c'))"
    by (intro 15(2)) (use 15(4-) in simp_all)
  from takes_value [OF this, of "(k, y)" kvs st "d @ [k]" v] k(2) 15(5) obtain c2 where
    "execute c' (pack_object y @ pack_pairs kvs @ rest) =
       (if kvs = [] then resume c2 (stack_consume st (set_slot (MAP (pairs ((d @ [k]) @ [y]))) v)) (pack_pairs kvs @ rest)
        else execute c2 (pack_pairs kvs @ rest))"
    "kvs \<noteq> [] \<longrightarrow> at_item CT_MAP_KEY kvs ((d @ [k]) @ [y]) v st c2" by blast
  then show ?case
    using 15(3) [of c2 st "d @ [k, y]" v rest] 15 k(1) by (cases "kvs = []") auto
qed simp_all

end
