(* ===== verification/Codec.thy ===== *)
theory Codec
  imports MR_Prelude
begin

text \<open>
  The contract between a writer and a reader of a stream of records: reading back what
  was written, followed by anything, gives the record and leaves the rest. The loops
  that read a whole stream, or read it as it arrives in chunks, are verified once from
  the contract and interpreted on the temporary files of the map phase and on the
  messages of the RPC layer.
\<close>

section \<open>Reading until nothing complete is left\<close>

function parse_all :: "('c list \<Rightarrow> ('a \<times> 'c list) option) \<Rightarrow> 'c list \<Rightarrow> 'a list \<times> 'c list" where
  "parse_all get s =
     (case get s of
        None \<Rightarrow> ([], s)
      | Some (x, r) \<Rightarrow>
          if length r < length s then (case parse_all get r of (xs, t) \<Rightarrow> (x # xs, t))
          else ([], s))"
  by pat_completeness auto
termination
  by (relation "measure (\<lambda>(get, s). length s)") auto

declare parse_all.simps [simp del]

text \<open>
  A buffered reader: each chunk is appended to what was left over, every complete record
  is taken, the incomplete rest is kept for the next chunk.
\<close>

fun feed :: "('c list \<Rightarrow> ('a \<times> 'c list) option) \<Rightarrow> 'c list \<Rightarrow> 'c list list \<Rightarrow> 'a list \<times> 'c list" where
  "feed get rem [] = ([], rem)"
| "feed get rem (ch # chs) =
     (case parse_all get (rem @ ch) of (xs, rem') \<Rightarrow>
       (case feed get rem' chs of (ys, t) \<Rightarrow> (xs @ ys, t)))"

section \<open>The contract\<close>

locale stream_codec =
  fixes put :: "'a \<Rightarrow> 'c list"
    and get :: "'c list \<Rightarrow> ('a \<times> 'c list) option"
    and valid :: "'a \<Rightarrow> bool"
  assumes get_put: "valid x \<Longrightarrow> get (put x @ rest) = Some (x, rest)"
    and get_less: "get s = Some (x, r) \<Longrightarrow> length r < length s"
begin

lemma parse_all_None: "get s = None \<Longrightarrow> parse_all get s = ([], s)"
  by (simp add: parse_all.simps)

lemma parse_all_Some:
  "get s = Some (x, r) \<Longrightarrow> parse_all get s = (x # fst (parse_all get r), snd (parse_all get r))"
  by (subst parse_all.simps) (simp add: get_less case_prod_beta)

lemma put_parse_all:
  "(\<And>x. x \<in> set xs \<Longrightarrow> valid x) \<Longrightarrow>
   parse_all get (concat (map put xs) @ rest) = (xs @ fst (parse_all get rest), snd (parse_all get rest))"
  by (induction xs) (simp_all add: get_put parse_all_Some)

lemma parse_all_put:
  "(\<And>x. x \<in> set xs \<Longrightarrow> valid x) \<Longrightarrow> get rest = None \<Longrightarrow>
   parse_all get (concat (map put xs) @ rest) = (xs, rest)"
  by (simp add: put_parse_all parse_all_None)

lemma put_prefix_free:
  assumes "valid x" "valid y" "put x @ r = put y @ r'"
  shows "x = y \<and> r = r'"
  using get_put [OF assms(1), of r] get_put [OF assms(2), of r'] assms(3)
  by (metis option.inject prod.inject)

lemma put_nonempty: "valid x \<Longrightarrow> put x \<noteq> []"
  using get_put [of x "[]"] get_less [of "put x" x "[]"] by auto

lemma parse_all_rest: "get (snd (parse_all get s)) = None"
proof (induction "length s" arbitrary: s rule: less_induct)
  case less
  then show ?case
    by (cases "get s") (auto simp: parse_all_None parse_all_Some get_less)
qed

end

locale incremental_codec = stream_codec +
  assumes get_more: "get s = Some (x, r) \<Longrightarrow> get (s @ t) = Some (x, r @ t)"
begin

text \<open>Complete records are found again when more input follows.\<close>

lemma parse_all_append:
  "parse_all get (s @ t) =
     (fst (parse_all get s) @ fst (parse_all get (snd (parse_all get s) @ t)),
      snd (parse_all get (snd (parse_all get s) @ t)))"
proof (induction "length s" arbitrary: s rule: less_induct)
  case less
  show ?case
  proof (cases "get s")
    case (Some xr)
    then obtain x r where g: "get s = Some (x, r)" by (cases xr) auto
    from less [OF get_less [OF g]] show ?thesis
      by (simp add: parse_all_Some [OF g] parse_all_Some [OF get_more [OF g]])
  qed (simp add: parse_all_None)
qed

text \<open>How the bytes are cut into chunks does not matter.\<close>

lemma feed_parse_all: "get rem = None \<Longrightarrow> feed get rem chs = parse_all get (rem @ concat chs)"
proof (induction chs arbitrary: rem)
  case (Cons ch chs)
  have "feed get (snd (parse_all get (rem @ ch))) chs =
      parse_all get (snd (parse_all get (rem @ ch)) @ concat chs)"
    by (rule Cons.IH) (rule parse_all_rest)
  then show ?case
    by (simp add: parse_all_append [of "rem @ ch" "concat chs", simplified] case_prod_beta)
qed (simp add: parse_all_None)

lemma feed_put:
  assumes "\<And>x. x \<in> set xs \<Longrightarrow> valid x" "get [] = None" "concat chs = concat (map put xs)"
  shows "feed get [] chs = (xs, [])"
  using feed_parse_all [OF assms(2), of chs] parse_all_put [OF assms(1,2)] assms(3) by simp

end

end
