(* ===== verification/Msgpack_Stream.thy ===== *)
theory Msgpack_Stream
  imports Msgpack_Objects Codec "HOL-Library.Sublist"
begin

text \<open>
  The parser and the unpacker on a stream of bytes: more input never changes what has been
  found (\<open>execute_append\<close>), an object within the limits comes back as it was packed, and a
  sequence of objects comes back in order however the stream is cut into chunks. The packer
  and the parser are an instance of the codec contract.
\<close>

section \<open>More input\<close>

definition go_on :: "byte list \<Rightarrow> step \<Rightarrow> step" where
  "go_on b s =
     (case s of
        Throw e \<Rightarrow> Throw e
      | Return ret c r \<Rightarrow> if ret = PARSE_CONTINUE then value_step c (r @ b) else Return ret c (r @ b)
      | Next c r \<Rightarrow> Next c (r @ b))"

lemma go_on_after_visit [simp]:
  "go_on b (after_visit_proc r c rest) = after_visit_proc r c (rest @ b)"
  by (auto simp: go_on_def after_visit_proc_def Let_def split: sum.split)

lemma go_on_aggregate [simp]:
  "go_on b (start_aggregate sv ev item n c rest) = start_aggregate sv ev item n c (rest @ b)"
  by (auto simp: go_on_def start_aggregate_def Let_def split: sum.split)

lemma go_on_Throw [simp]: "go_on b (Throw e) = Throw e"
  by (simp add: go_on_def)

lemma acs_value_step:
  "m_cs c \<in> {ACS_STR_VALUE, ACS_BIN_VALUE, ACS_EXT_VALUE} \<Longrightarrow> value_step c cur = acs_step c cur"
  by (auto simp: value_step_def acs_step_def)

lemma acs_step_append:
  assumes "m_cs c \<in> {ACS_STR_VALUE, ACS_BIN_VALUE, ACS_EXT_VALUE}"
  shows "acs_step c (cur @ b) = go_on b (acs_step c cur)"
proof (cases "length cur < m_trail c")
  case True
  then have "acs_step c cur = Return PARSE_CONTINUE c cur"
    by (simp add: acs_step_def)
  with acs_value_step [OF assms, of "cur @ b"] show ?thesis
    by (simp add: go_on_def)
qed (use assms in \<open>auto simp: acs_step_def Let_def\<close>)

lemma with_length_append:
  assumes "acs \<in> {ACS_STR_VALUE, ACS_BIN_VALUE, ACS_EXT_VALUE}"
  shows "with_length f acs n c (cur @ b) = go_on b (with_length f acs n c cur)"
  using acs_step_append [of "c\<lparr>m_trail := n, m_cs := acs\<rparr>" cur b] assms
  by (simp add: with_length_def Let_def)

lemma value_step_append: "m_cs c \<noteq> CS_HEADER \<Longrightarrow> value_step c (cur @ b) = go_on b (value_step c cur)"
proof (cases "length cur < m_trail c")
  case True
  then have "value_step c cur = Return PARSE_CONTINUE c cur"
    by (simp add: value_step_def)
  then show ?thesis
    by (simp add: go_on_def)
next
  case False
  moreover assume "m_cs c \<noteq> CS_HEADER"
  ultimately show ?thesis
    by (cases "m_cs c") (simp_all add: value_step_def Let_def with_length_append acs_step_append)
qed

lemma cs_table_not_header: "i < 28 \<Longrightarrow> fst (cs_table ! i) \<noteq> CS_HEADER"
proof -
  have "list_all (\<lambda>x. fst x \<noteq> CS_HEADER) cs_table" "length cs_table = 28"
    by (simp_all add: cs_table_def)
  then show "i < 28 \<Longrightarrow> fst (cs_table ! i) \<noteq> CS_HEADER"
    by (simp add: list_all_length)
qed

lemma header_step_append: "header_step c h (cur @ b) = go_on b (header_step c h cur)"
proof (cases "0xc4 \<le> h \<and> h \<le> 0xdf")
  case True
  then have "unat h - 196 < 28"
    by (auto simp: word_le_nat_alt)
  with True show ?thesis
    by (simp add: header_tabled value_step_append cs_table_not_header)
next
  case False
  then show ?thesis
    by (auto simp: header_step_def Let_def with_length_append)
qed

lemma loop_step_append: "cur \<noteq> [] \<Longrightarrow> loop_step c (cur @ b) = go_on b (loop_step c cur)"
  by (cases cur) (simp_all add: loop_step_def header_step_append
      value_step_append [where cur = "x # xs" for x xs, simplified])

definition waiting :: "step \<Rightarrow> bool" where
  "waiting s = (case s of Return ret c r \<Rightarrow> ret = PARSE_CONTINUE \<longrightarrow> m_cs c \<noteq> CS_HEADER | _ \<Rightarrow> True)"

lemma waiting_visits [simp]:
  "waiting (after_visit_proc r c rest)" "waiting (start_aggregate sv ev item n c rest)" "waiting (Throw e)"
  by (auto simp: waiting_def after_visit_proc_def start_aggregate_def Let_def split: sum.split)

lemma waiting_acs: "m_cs c \<noteq> CS_HEADER \<Longrightarrow> waiting (acs_step c cur)"
  by (cases "m_cs c") (auto simp: acs_step_def Let_def, auto simp: waiting_def)

lemma waiting_length: "acs \<noteq> CS_HEADER \<Longrightarrow> waiting (with_length f acs n c cur)"
  by (simp add: with_length_def Let_def waiting_acs)

lemma waiting_value: "m_cs c \<noteq> CS_HEADER \<Longrightarrow> waiting (value_step c cur)"
proof (cases "length cur < m_trail c")
  case False
  moreover assume "m_cs c \<noteq> CS_HEADER"
  ultimately show ?thesis
    by (cases "m_cs c") (simp_all add: value_step_def Let_def waiting_length waiting_acs)
qed (simp add: value_step_def waiting_def)

lemma waiting_loop: "cur \<noteq> [] \<Longrightarrow> waiting (loop_step c cur)"
proof (cases cur)
  case (Cons h t)
  have "waiting (header_step c h t)"
  proof (cases "0xc4 \<le> h \<and> h \<le> 0xdf")
    case True
    then have "unat h - 196 < 28"
      by (auto simp: word_le_nat_alt)
    with True show ?thesis
      by (simp add: header_tabled waiting_value cs_table_not_header)
  qed (auto simp: header_step_def Let_def waiting_length)
  with Cons show ?thesis
    by (simp add: loop_step_def waiting_value)
qed simp

lemma execute_append:
  "execute c (a @ b) =
     (case execute c a of
        Inl e \<Rightarrow> Inl e
      | Inr (ret, c1, r) \<Rightarrow> if ret = PARSE_CONTINUE then execute c1 (r @ b) else Inr (ret, c1, r @ b))"
proof (induction c a rule: execute.induct)
  case (1 c a)
  note unfold = execute.simps [of c a] execute.simps [of c "a @ b"]
  have empty: "execute c' [] = Inr (PARSE_CONTINUE, c', [])" for c'
    by (simp add: execute.simps [of c'] loop_step_def)
  show ?case
  proof (cases "a = []")
    case False
    show ?thesis
    proof (cases "loop_step c a")
      case (Return ret c1 r)
      consider "ret \<noteq> PARSE_CONTINUE" | "ret = PARSE_CONTINUE" "r = []" "b = []"
        | "ret = PARSE_CONTINUE" "r @ b \<noteq> []" by auto
      then show ?thesis
      proof cases
        case 1
        with Return False show ?thesis
          by (simp add: unfold loop_step_append go_on_def)
      next
        case 2
        with Return show ?thesis
          by (simp add: unfold(1) empty)
      next
        case 3
        with Return waiting_loop [OF False, of c] have "loop_step c1 (r @ b) = value_step c1 (r @ b)"
          by (cases "r @ b") (simp_all add: waiting_def loop_step_def)
        with 3 Return False show ?thesis
          by (simp add: unfold loop_step_append go_on_def execute.simps [of c1])
      qed
    next
      case (Next c1 r)
      with 1 False show ?thesis
        by (simp add: unfold loop_step_append go_on_def)
    qed (simp add: unfold loop_step_append False)
  qed (simp add: empty)
qed

section \<open>Bytes used up\<close>

text \<open>What is left is the end of what was given, and a header is always used up.\<close>

definition leaves :: "byte list \<Rightarrow> step \<Rightarrow> bool" where
  "leaves s st = (case st of Throw e \<Rightarrow> True | Return ret c r \<Rightarrow> suffix r s | Next c r \<Rightarrow> suffix r s)"

lemma leaves_visits [simp]:
  "suffix rest s \<Longrightarrow> leaves s (after_visit_proc r c rest)"
  "suffix rest s \<Longrightarrow> leaves s (start_aggregate sv ev item k c rest)"
  "leaves s (Throw e)"
  by (auto simp: leaves_def after_visit_proc_def start_aggregate_def Let_def split: sum.split)

lemma suffix_drop_trans [simp]: "suffix cur s \<Longrightarrow> suffix (drop k cur) s"
  using suffix_drop suffix_order.trans by blast

lemma leaves_acs [simp]: "suffix cur s \<Longrightarrow> leaves s (acs_step c cur)"
proof (cases "length cur < m_trail c")
  case True
  then show "suffix cur s \<Longrightarrow> leaves s (acs_step c cur)"
    by (simp add: acs_step_def leaves_def)
qed (cases "m_cs c"; simp add: acs_step_def Let_def)

lemma leaves_length [simp]: "suffix cur s \<Longrightarrow> leaves s (with_length f acs k c cur)"
  by (simp add: with_length_def Let_def)

lemma leaves_value [simp]: "suffix cur s \<Longrightarrow> leaves s (value_step c cur)"
proof (cases "length cur < m_trail c")
  case True
  then show "suffix cur s \<Longrightarrow> leaves s (value_step c cur)"
    by (simp add: value_step_def leaves_def)
qed (cases "m_cs c"; simp add: value_step_def Let_def)

lemma leaves_header [simp]: "suffix rest s \<Longrightarrow> leaves s (header_step c h rest)"
  by (auto simp: header_step_def Let_def split: prod.split)

lemma leaves_loop: "leaves (drop (if m_cs c = CS_HEADER then 1 else 0) cur) (loop_step c cur)"
  by (cases cur) (auto simp: loop_step_def leaves_def [of _ "Return _ _ _"])

lemma execute_leaves:
  "execute c cur = Inr (ret, c1, r) \<Longrightarrow> suffix r (drop (if m_cs c = CS_HEADER then 1 else 0) cur)"
proof (induction c cur rule: execute.induct)
  case (1 c cur)
  show ?case
  proof (cases "loop_step c cur")
    case (Return ret' c' r')
    with 1(2) leaves_loop [of c cur] show ?thesis
      by (simp add: execute.simps [of c] leaves_def)
  next
    case (Next c' r')
    with 1 have "suffix r r'"
      using suffix_order.trans suffix_drop by (fastforce simp: execute.simps [of c])
    with Next leaves_loop [of c cur] show ?thesis
      using suffix_order.trans by (auto simp: leaves_def)
  qed (use 1(2) in \<open>simp add: execute.simps [of c]\<close>)
qed

section \<open>The unpacker on a stream\<close>

text \<open>
  A complete object is handed out, and the parser is as it was at the start.
\<close>

lemma execute_put:
  assumes "fits l 1 x"
  shows "\<exists>c. execute (init_ctx f l) (pack_object x @ rest) = Inr (PARSE_SUCCESS, c, rest) \<and>
     m_visitor c = set_slot x (init_visitor f l)"
proof -
  have "takes (init_ctx f l) (pack_object x) (set_slot x (init_visitor f l))"
    using takes_object(1) [of "init_ctx f l" x] assms by (simp add: init_ctx_def init_visitor_def)
  then obtain c where "execute (init_ctx f l) (pack_object x @ rest) =
      resume c (stack_consume [] (set_slot x (init_visitor f l))) rest"
    unfolding takes_def by (auto simp: init_ctx_def)
  then show ?thesis
    by (intro exI [of _ "c\<lparr>m_stack := [], m_visitor := set_slot x (init_visitor f l)\<rparr>"])
      (simp add: resume_def)
qed

lemma data_put [simp]:
  "visitor_data (set_slot x (init_visitor f l)) = x" "m_limit (init_visitor f l) = l" "m_func (init_visitor f l) = f"
  by (simp_all add: visitor_data_def set_slot_def init_visitor_def)

lemma next_put:
  "fits l 1 x \<Longrightarrow> unpacker_next (init_ctx f l) (pack_object x @ rest) = Inr (Some x, init_ctx f l, rest)"
  using execute_put [of l x f rest] by (auto simp: unpacker_next_def parser_init_def)

lemma unpack_put: "fits l 1 x \<Longrightarrow> unpack f l (pack_object x @ rest) = Inr (x, rest)"
  using execute_put [of l x f rest] execute_put [of l x f "[]"]
  by (auto simp: unpack_def unpack_imp_def parse_imp_def init_ctx_def execute.simps [of _ "[]"] loop_step_def)

text \<open>The loop \<open>while (pac.next(result))\<close> of the sessions.\<close>

lemma next_measure:
  "unpacker_next c cur = Inr (Some x, c', rest) \<Longrightarrow> round_measure c' rest < round_measure c cur"
proof -
  assume "unpacker_next c cur = Inr (Some x, c', rest)"
  then obtain c1 where c1: "execute c cur = Inr (PARSE_SUCCESS, c1, rest)" "c' = parser_init c1"
    by (auto simp: unpacker_next_def split: sum.splits if_splits)
  then have "cur \<noteq> []"
    by (auto simp: execute.simps [of c "[]"] loop_step_def)
  with suffix_length_le [OF execute_leaves [OF c1(1)]] c1(2) show ?thesis
    by (cases cur) (auto simp: round_measure_def parser_init_def init_ctx_def split: if_splits)
qed

function next_all :: "ctx \<Rightarrow> byte list \<Rightarrow> object list \<times> (unpack_error + ctx \<times> byte list)" where
  "next_all c cur =
     (case unpacker_next c cur of
        Inl e \<Rightarrow> ([], Inl e)
      | Inr (None, c', rest) \<Rightarrow> ([], Inr (c', rest))
      | Inr (Some x, c', rest) \<Rightarrow> (case next_all c' rest of (xs, res) \<Rightarrow> (x # xs, res)))"
  by pat_completeness auto
termination
  by (relation "measure (\<lambda>(c, cur). round_measure c cur)") (auto simp: next_measure)

declare next_all.simps [simp del]

fun read_chunks :: "ctx \<Rightarrow> byte list \<Rightarrow> byte list list \<Rightarrow> object list \<times> (unpack_error + ctx \<times> byte list)" where
  "read_chunks c rem [] = ([], Inr (c, rem))"
| "read_chunks c rem (ch # chs) =
     (case next_all c (rem @ ch) of
        (xs, Inl e) \<Rightarrow> (xs, Inl e)
      | (xs, Inr (c', rem')) \<Rightarrow> (case read_chunks c' rem' chs of (ys, res) \<Rightarrow> (xs @ ys, res)))"

text \<open>The visitor that builds objects never asks to stop.\<close>

definition goes :: "visit_result \<Rightarrow> bool" where
  "goes r = (case r of Inl e \<Rightarrow> True | Inr (go, v) \<Rightarrow> go)"

lemma goes_visits [simp]:
  "goes (visit_nil v)" "goes (visit_boolean b v)" "goes (visit_positive_integer n v)"
  "goes (visit_negative_integer n v)" "goes (visit_float32 f v)" "goes (visit_float64 d v)"
  "goes (visit_str s v)" "goes (visit_bin s v)" "goes (visit_ext s v)"
  "goes (start_array k v)" "goes (start_array_item v)" "goes (end_array_item v)" "goes (end_array v)"
  "goes (start_map k v)" "goes (start_map_key v)" "goes (end_map_key v)" "goes (start_map_value v)"
  "goes (end_map_value v)" "goes (end_map v)"
  by (simp_all add: goes_def visit_nil_def visit_boolean_def visit_positive_integer_def
      visit_negative_integer_def visit_float32_def visit_float64_def visit_str_def visit_bin_def
      visit_ext_def Let_def start_array_def start_array_item_def end_array_item_def end_array_def start_map_def
      start_map_key_def end_map_key_def start_map_value_def end_map_value_def end_map_def split: list.split)

definition ends :: "stack_result \<Rightarrow> bool" where
  "ends r = (case r of Inl e \<Rightarrow> True | Inr (ret, st, v) \<Rightarrow> ret \<in> {PARSE_SUCCESS, PARSE_CONTINUE})"

lemma ends_visit [simp]: "goes r \<Longrightarrow> (\<And>v. ends (k v)) \<Longrightarrow> ends (visit r st k)"
  by (cases r) (auto simp: visit_def goes_def, simp add: ends_def)

lemma ends_Inr [simp]: "ends (Inr (PARSE_SUCCESS, st, v))" "ends (Inr (PARSE_CONTINUE, st, v))" "ends (Inl e)"
  by (simp_all add: ends_def)

lemma ends_consume [simp]: "ends (stack_consume st v)"
  by (induction st v rule: stack_consume.induct) simp_all

lemma ends_push [simp]: "ends (stack_push t n st v)"
  by (cases t) (simp_all add: stack_push_def Let_def)

definition regular :: "step \<Rightarrow> bool" where
  "regular s = (case s of Return ret c r \<Rightarrow> ret \<in> {PARSE_SUCCESS, PARSE_CONTINUE} | _ \<Rightarrow> True)"

lemma regular_visit [simp]: "goes r \<Longrightarrow> regular (after_visit_proc r c rest)"
  using ends_consume [of "m_stack c"]
  by (fastforce simp: regular_def goes_def ends_def after_visit_proc_def Let_def split: sum.splits prod.splits)

lemma regular_aggregate [simp]:
  assumes "\<And>k v. goes (sv k v)" "\<And>v. goes (ev v)"
  shows "regular (start_aggregate sv ev item n c rest)"
proof -
  have "ends (if n = 0
     then visit (sv n (m_visitor c)) (m_stack c) (\<lambda>v. visit (ev v) (m_stack c) (\<lambda>v. stack_consume (m_stack c) v))
     else visit (sv n (m_visitor c)) (m_stack c) (\<lambda>v. stack_push item n (m_stack c) v))"
    using assms by simp
  then show ?thesis
    unfolding start_aggregate_def regular_def ends_def Let_def by (auto split: sum.splits prod.splits)
qed

lemma regular_waits [simp]: "regular (Return PARSE_CONTINUE c r)" "regular (Throw e)"
  by (simp_all add: regular_def)

lemma regular_acs [simp]: "regular (acs_step c cur)"
  by (cases "m_cs c") (simp_all add: acs_step_def Let_def)

lemma regular_length [simp]: "(\<And>s v. goes (f s v)) \<Longrightarrow> regular (with_length f acs n c cur)"
  by (simp add: with_length_def Let_def)

lemma regular_value [simp]: "regular (value_step c cur)"
  by (cases "m_cs c") (simp_all add: value_step_def Let_def)

lemma regular_loop [simp]: "regular (loop_step c cur)"
  by (cases cur) (auto simp: loop_step_def header_step_def Let_def split: prod.split)

lemma execute_regular: "execute c cur = Inr (ret, c1, r) \<Longrightarrow> ret = PARSE_SUCCESS \<or> ret = PARSE_CONTINUE"
proof (induction c cur rule: execute.induct)
  case (1 c cur)
  then show ?case
    using regular_loop [of c cur] by (auto simp: execute.simps [of c] regular_def split: step.splits)
qed

section \<open>The unpacker on a stream that arrives in chunks\<close>

lemma next_append:
  "unpacker_next c (a @ b) =
     (case unpacker_next c a of
        Inl e \<Rightarrow> Inl e
      | Inr (Some x, c', r) \<Rightarrow> Inr (Some x, c', r @ b)
      | Inr (None, c', r) \<Rightarrow> unpacker_next c' (r @ b))"
proof (cases "execute c a")
  case (Inr res)
  moreover obtain ret c1 r where "res = (ret, c1, r)" by (cases res)
  ultimately show ?thesis
    using execute_regular [of c a ret c1 r] by (auto simp: unpacker_next_def execute_append [of c a b])
qed (simp add: unpacker_next_def execute_append [of c a b])

lemma next_all_append:
  "next_all c (a @ b) =
     (case next_all c a of
        (xs, Inl e) \<Rightarrow> (xs, Inl e)
      | (xs, Inr (c1, r)) \<Rightarrow> (case next_all c1 (r @ b) of (ys, res) \<Rightarrow> (xs @ ys, res)))"
proof (induction c a rule: next_all.induct)
  case (1 c a)
  consider (error) e where "unpacker_next c a = Inl e"
    | (wait) c' r where "unpacker_next c a = Inr (None, c', r)"
    | (found) x c' r where "unpacker_next c a = Inr (Some x, c', r)"
    by (metis not_None_eq old.prod.exhaust sum.exhaust)
  then show ?case
  proof cases
    case wait
    then show ?thesis
      by (simp add: next_all.simps [of c] next_all.simps [of c'] next_append [of c])
  next
    case found
    with 1 show ?thesis
      by (simp add: next_all.simps [of c] next_append case_prod_beta split: sum.split)
  qed (simp add: next_all.simps [of c] next_append)
qed

lemma next_all_stable: "next_all c a = (xs, Inr (c1, r)) \<Longrightarrow> next_all c1 r = ([], Inr (c1, r))"
  using next_all_append [of c a "[]"] by (auto split: prod.splits)

lemma read_chunks_join:
  "next_all c rem = ([], Inr (c, rem)) \<Longrightarrow> read_chunks c rem chs = next_all c (rem @ concat chs)"
proof (induction chs arbitrary: c rem)
  case (Cons ch chs)
  then show ?case
    using next_all_stable [of c "rem @ ch"] next_all_append [of c "rem @ ch" "concat chs"]
    by (auto split: prod.split sum.split)
qed simp

lemma next_all_put:
  "(\<And>x. x \<in> set xs \<Longrightarrow> fits l 1 x) \<Longrightarrow>
   next_all (init_ctx f l) (concat (map pack_object xs) @ rest) =
     (xs @ fst (next_all (init_ctx f l) rest), snd (next_all (init_ctx f l) rest))"
  by (induction xs) (simp_all add: next_all.simps [of _ "pack_object _ @ _"] next_put)

lemma next_all_empty: "next_all c [] = ([], Inr (c, []))"
  by (simp add: next_all.simps unpacker_next_def execute.simps loop_step_def)

section \<open>The contract of the codec\<close>

definition get_object :: "bool \<Rightarrow> unpack_limit \<Rightarrow> byte list \<Rightarrow> (object \<times> byte list) option" where
  "get_object f l s =
     (case unpacker_next (init_ctx f l) s of Inr (Some x, _, r) \<Rightarrow> Some (x, r) | _ \<Rightarrow> None)"

interpretation msgpack: incremental_codec pack_object "get_object f l" "fits l 1"
proof
  fix x rest
  assume "fits l 1 x"
  then show "get_object f l (pack_object x @ rest) = Some (x, rest)"
    by (simp add: get_object_def next_put)
next
  fix s x r
  assume "get_object f l s = Some (x, r)"
  then obtain c where "unpacker_next (init_ctx f l) s = Inr (Some x, c, r)"
    by (auto simp: get_object_def split: sum.splits option.splits)
  from next_measure [OF this] show "length r < length s"
    by (auto simp: round_measure_def init_ctx_def split: if_splits)
next
  fix s x r t
  assume "get_object f l s = Some (x, r)"
  then obtain c where "unpacker_next (init_ctx f l) s = Inr (Some x, c, r)"
    by (auto simp: get_object_def split: sum.splits option.splits)
  then show "get_object f l (s @ t) = Some (x, r @ t)"
    by (simp add: get_object_def next_append)
qed

text \<open>What \<open>unpack\<close> makes of bytes that set the slot of the root.\<close>

lemma unpack_takes:
  assumes "takes (init_ctx f l) bs (set_slot x (init_visitor f l))"
  shows "unpack f l (bs @ rest) = Inr (x, rest)"
proof -
  obtain c where c: "execute (init_ctx f l) (bs @ rest) =
      resume c (stack_consume [] (set_slot x (init_visitor f l))) rest"
    using assms unfolding takes_def by (auto simp: init_ctx_def)
  moreover have "bs @ rest \<noteq> []"
    using c by (auto simp: execute.simps [of _ "[]"] loop_step_def resume_def)
  ultimately show ?thesis
    by (simp add: unpack_def unpack_imp_def parse_imp_def init_ctx_def resume_def)
qed

lemmas pack_number_defs = pack_char_def pack_signed_char_def pack_short_def pack_int_def pack_long_def
  pack_long_long_def pack_unsigned_char_def pack_unsigned_short_def pack_unsigned_int_def
  pack_unsigned_long_def pack_unsigned_long_long_def

section \<open>Properties\<close>

text \<open>
  C21. Packing and unpacking an object: whatever follows in the buffer, \<open>unpack\<close> gives back
  the object that was packed and the rest, for every object within the limits.
\<close>

theorem unpack_pack:
  assumes "fits l 1 x"
  shows "unpack f l (pack_object x @ rest) = Inr (x, rest)"
  using assms by (rule unpack_put)

definition sample_object :: object where
  "sample_object =
     ARRAY [POSITIVE_INTEGER 300, Str [0x6d, 0x61, 0x70], MAP [(NIL, BOOLEAN True)],
            NEGATIVE_INTEGER (- 5), EXT 7 [1, 2, 3], ARRAY []]"

lemma sample_fits: "fits default_limit 1 sample_object"
  by (simp add: sample_object_def default_limit_def)

theorem unpack_pack_witness:
  "unpack False default_limit (pack_object sample_object @ [0xff]) = Inr (sample_object, [0xff])"
  by (rule unpack_pack [OF sample_fits])

text \<open>
  C22. Framing: objects packed one after the other and received in chunks of any sizes are
  handed out in order, each once; the unpacker ends in its initial state with no bytes left.
\<close>

theorem chunks_do_not_matter:
  assumes "\<forall>x \<in> set xs. fits l 1 x"
    and "concat chunks = concat (map pack_object xs)"
  shows "read_chunks (init_ctx f l) [] chunks = (xs, Inr (init_ctx f l, []))"
  using read_chunks_join [of "init_ctx f l" "[]" chunks] next_all_put [of xs l f "[]"] assms
  by (simp add: next_all_empty)

theorem chunks_do_not_matter_witness:
  "read_chunks (init_ctx True default_limit) []
     [take 5 (pack_object sample_object), [], drop 5 (pack_object sample_object) @ [0xc0]] =
   ([sample_object, NIL], Inr (init_ctx True default_limit, []))"
  by (rule chunks_do_not_matter) (simp_all add: sample_fits [simplified] pack_nil_def)

text \<open>
  The packed form is uniquely decodable: no packed object is the start of another, and
  different objects have different packed forms.
\<close>

theorem pack_object_unique:
  assumes "fits l 1 x" "fits l 1 y" "pack_object x @ r = pack_object y @ s"
  shows "x = y \<and> r = s"
  using assms by (rule msgpack.put_prefix_free)

theorem pack_object_unique_witness:
  "pack_object (POSITIVE_INTEGER 300) @ [1] \<noteq> pack_object (POSITIVE_INTEGER 44) @ [2, 3]"
  using pack_object_unique [of default_limit "POSITIVE_INTEGER 300" "POSITIVE_INTEGER 44"] by auto

text \<open>
  Every integer the packer can write, at each type of the language, is read back with
  its value: as a positive integer when it is not negative, as a negative one otherwise,
  whichever width the packer chose.
\<close>

theorem integers_read_back:
  "unpack f default_limit (pack_char c @ rest) = Inr (integer_object (scast c), rest) \<and>
   unpack f default_limit (pack_short s @ rest) = Inr (integer_object (scast s), rest) \<and>
   unpack f default_limit (pack_int i @ rest) = Inr (integer_object (scast i), rest) \<and>
   unpack f default_limit (pack_long l @ rest) = Inr (integer_object l, rest) \<and>
   unpack f default_limit (pack_unsigned_char uc @ rest) = Inr (POSITIVE_INTEGER (ucast uc), rest) \<and>
   unpack f default_limit (pack_unsigned_short us @ rest) = Inr (POSITIVE_INTEGER (ucast us), rest) \<and>
   unpack f default_limit (pack_unsigned_int ui @ rest) = Inr (POSITIVE_INTEGER (ucast ui), rest) \<and>
   unpack f default_limit (pack_unsigned_long ul @ rest) = Inr (POSITIVE_INTEGER ul, rest)"
proof -
  let ?c = "init_ctx f default_limit"
  have "m_cs ?c = CS_HEADER" "m_visitor ?c = init_visitor f default_limit"
    by (simp_all add: init_ctx_def)
  note takes = takes_int [OF this(1), unfolded this(2)] takes_uint [OF this(1), unfolded this(2)]
  show ?thesis
    unfolding pack_number_defs by (intro conjI unpack_takes takes)
qed

end
