(* ===== verification/Msgpack_Convert.thy ===== *)
theory Msgpack_Convert
  imports Msgpack_Stream
begin

text \<open>
  Values of the language as MessagePack (the adaptors in \<open>v1/adaptor\<close>): what is packed for an
  integer, a flag, a string or a tuple, the object made from it, and the conversion of an
  object back, which fails with a type error (\<open>None\<close>). Packing a value gives the bytes of its
  object, so what holds of objects on the wire holds of values.
\<close>

section \<open>Objects of values\<close>

definition object_bool :: "bool \<Rightarrow> object" where "object_bool v = BOOLEAN v"
definition object_nil :: object where "object_nil = NIL"

definition object_signed :: "'a::len word \<Rightarrow> object" where
  "object_signed v =
     (if sint v < 0 then NEGATIVE_INTEGER (scast v) else POSITIVE_INTEGER (scast v))"

definition object_unsigned :: "'a::len word \<Rightarrow> object" where
  "object_unsigned v = POSITIVE_INTEGER (ucast v)"

text \<open>A size that does not fit the 32 bits of a header is refused.\<close>

definition checked_get_container_size :: "nat \<Rightarrow> 32 word option" where
  "checked_get_container_size n = (if 0xffffffff < n then None else Some (word_of_nat n))"

definition object_string :: "byte list \<Rightarrow> object option" where
  "object_string v = map_option (\<lambda>_. Str v) (checked_get_container_size (length v))"

definition object_tuple :: "object list \<Rightarrow> object option" where
  "object_tuple vs = map_option (\<lambda>_. ARRAY vs) (checked_get_container_size (length vs))"

section \<open>Packing values\<close>

definition pack_bool :: "bool \<Rightarrow> byte list" where
  "pack_bool v = (if v then pack_true else pack_false)"

definition pack_string :: "byte list \<Rightarrow> byte list option" where
  "pack_string v = map_option (\<lambda>n. pack_str n @ pack_str_body v) (checked_get_container_size (length v))"

fun pack_elements :: "byte list list \<Rightarrow> byte list" where
  "pack_elements [] = []"
| "pack_elements (v # vs) = v @ pack_elements vs"

definition pack_tuple :: "byte list list \<Rightarrow> byte list option" where
  "pack_tuple vs = map_option (\<lambda>n. pack_array n @ pack_elements vs) (checked_get_container_size (length vs))"

section \<open>Converting objects\<close>

definition convert_signed :: "object \<Rightarrow> 'a::len word option" where
  "convert_signed obj =
     (case obj of
        POSITIVE_INTEGER u64 \<Rightarrow>
          if 2 ^ (LENGTH('a) - 1) - 1 < uint u64 then None else Some (ucast u64)
      | NEGATIVE_INTEGER i64 \<Rightarrow>
          if sint i64 < - (2 ^ (LENGTH('a) - 1)) then None else Some (ucast i64)
      | _ \<Rightarrow> None)"

definition convert_unsigned :: "object \<Rightarrow> 'a::len word option" where
  "convert_unsigned obj =
     (case obj of
        POSITIVE_INTEGER u64 \<Rightarrow> if 2 ^ LENGTH('a) - 1 < uint u64 then None else Some (ucast u64)
      | _ \<Rightarrow> None)"

definition convert_bool :: "object \<Rightarrow> bool option" where
  "convert_bool obj = (case obj of BOOLEAN b \<Rightarrow> Some b | _ \<Rightarrow> None)"

definition convert_string :: "object \<Rightarrow> byte list option" where
  "convert_string obj = (case obj of BIN b \<Rightarrow> Some b | Str b \<Rightarrow> Some b | _ \<Rightarrow> None)"

definition convert_nil :: "object \<Rightarrow> unit option" where
  "convert_nil obj = (case obj of NIL \<Rightarrow> Some () | _ \<Rightarrow> None)"

definition convert_object :: "object \<Rightarrow> object option" where
  "convert_object obj = Some obj"

text \<open>
  A tuple takes the elements that are there; one that is not keeps its default value, and
  elements too many are ignored.
\<close>

definition convert_element :: "(object \<Rightarrow> 'a option) \<Rightarrow> 'a \<Rightarrow> object list \<Rightarrow> nat \<Rightarrow> 'a option" where
  "convert_element conv dflt xs i = (if i < length xs then conv (xs ! i) else Some dflt)"

definition convert_tuple1 :: "(object \<Rightarrow> 'a option) \<Rightarrow> 'a \<Rightarrow> object \<Rightarrow> 'a option" where
  "convert_tuple1 conv dflt obj =
     (case obj of ARRAY xs \<Rightarrow> convert_element conv dflt xs 0 | _ \<Rightarrow> None)"

section \<open>Packing a value is packing its object\<close>

lemma ucast_scast_low:
  fixes w :: "'a::len word"
  assumes "LENGTH('c) \<le> LENGTH('a)" "LENGTH('a) \<le> LENGTH('b)"
  shows "ucast (scast w :: 'b::len word) = (ucast w :: 'c::len word)"
  using assms by (intro bit_word_eqI) (auto simp: bit_simps)

lemma pack_signed_object:
  "pack_imp_int8 d8 = pack_object (object_signed d8)"
  "pack_imp_int16 d16 = pack_object (object_signed d16)"
  "pack_imp_int32 d32 = pack_object (object_signed d32)"
  "pack_imp_int64 d64 = pack_object (object_signed d64)"
  subgoal
    using sint_lt [of d8] sint_ge [of d8] sint_nonneg [of d8] sint_nonneg [of "scast d8 :: 64 word"]
    by (auto simp: object_signed_def pack_int64_def pack_uint64_def pack_imp_int8_def pack_imp_int64_def
      pack_imp_uint64_def take8_def sint_scast_up ucast_scast_low word_less_def)
  subgoal
    using sint_lt [of d16] sint_ge [of d16] sint_nonneg [of d16] sint_nonneg [of "scast d16 :: 64 word"]
    by (auto simp: object_signed_def pack_int64_def pack_uint64_def pack_imp_int16_def pack_imp_int64_def
      pack_imp_uint64_def take8_def sint_scast_up ucast_scast_low word_less_def)
  subgoal
    using sint_lt [of d32] sint_ge [of d32] sint_nonneg [of d32] sint_nonneg [of "scast d32 :: 64 word"]
    by (auto simp: object_signed_def pack_int64_def pack_uint64_def pack_imp_int32_def pack_imp_int64_def
      pack_imp_uint64_def take8_def sint_scast_up ucast_scast_low word_less_def)
  subgoal
    using sint_nonneg [of d64]
    by (auto simp: object_signed_def pack_int64_def pack_uint64_def pack_imp_int64_def
      pack_imp_uint64_def take8_def word_less_def)
  done

lemma uint_bounded: "uint (w :: 'a::len word) < 2 ^ LENGTH('a)"
  by (rule unsigned_less)

lemma ucast_up:
  fixes w :: "'a::len word"
  assumes "LENGTH('a) \<le> LENGTH('b)"
  shows "uint (ucast w :: 'b::len word) = uint w"
    and "LENGTH('c) \<le> LENGTH('a) \<Longrightarrow> ucast (ucast w :: 'b word) = (ucast w :: 'c::len word)"
proof -
  have "uint w < 2 ^ LENGTH('b)"
    using uint_bounded [of w] power_increasing [OF assms, of "2::int"] by linarith
  then show "uint (ucast w :: 'b::len word) = uint w"
    by (rule uint_narrow)
  show "LENGTH('c) \<le> LENGTH('a) \<Longrightarrow> ucast (ucast w :: 'b word) = (ucast w :: 'c::len word)"
    using assms by (intro bit_word_eqI) (auto simp: bit_simps)
qed

lemma pack_unsigned_object:
  "pack_imp_uint8 d8 = pack_object (object_unsigned d8)"
  "pack_imp_uint16 d16 = pack_object (object_unsigned d16)"
  "pack_imp_uint32 d32 = pack_object (object_unsigned d32)"
  "pack_imp_uint64 d64 = pack_object (object_unsigned d64)"
  using uint_bounded [of d8] uint_bounded [of d16] uint_bounded [of d32]
  by (simp_all add: object_unsigned_def pack_uint64_def pack_imp_uint8_def pack_imp_uint16_def
      pack_imp_uint32_def pack_imp_uint64_def take8_def word_less_def ucast_up)

lemma pack_bool_object: "pack_bool b = pack_object (object_bool b)"
  by (simp add: pack_bool_def object_bool_def)

lemma checked_size: "n < 4294967296 \<Longrightarrow> checked_get_container_size n = Some (word_of_nat n)"
  by (simp add: checked_get_container_size_def)

lemma pack_string_object: "pack_string v = map_option pack_object (object_string v)"
  by (auto simp: pack_string_def object_string_def checked_get_container_size_def size32_def)

lemma pack_elements_items: "pack_elements (map pack_object vs) = pack_items vs"
  by (induction vs) simp_all

lemma pack_tuple_object: "pack_tuple (map pack_object vs) = map_option pack_object (object_tuple vs)"
  by (auto simp: pack_tuple_def object_tuple_def checked_get_container_size_def size32_def pack_elements_items)

section \<open>Converting back\<close>

text \<open>The number an integer object stands for, and what a conversion makes of it.\<close>

definition int_value :: "object \<Rightarrow> int option" where
  "int_value obj =
     (case obj of POSITIVE_INTEGER u \<Rightarrow> Some (uint u) | NEGATIVE_INTEGER i \<Rightarrow> Some (sint i) | _ \<Rightarrow> None)"

lemma ucast_low_sint:
  fixes w :: "'b::len word"
  assumes "LENGTH('a) \<le> LENGTH('b)"
  shows "(ucast w :: 'a::len word) = word_of_int (sint w)"
proof -
  have "ucast w = (scast w :: 'a word)"
  proof (rule bit_word_eqI)
    fix n
    assume "n < LENGTH('a)"
    with assms show "bit (ucast w :: 'a word) n = bit (scast w :: 'a word) n"
      by (cases "n = LENGTH('b) - 1") (auto simp: bit_simps min_def)
  qed
  then show ?thesis by simp
qed

lemma convert_signed_value:
  assumes "int_value obj = Some n" "fits l k obj" "LENGTH('a::len) \<le> 64"
  shows "(convert_signed obj :: 'a word option) =
     (if - (2 ^ (LENGTH('a) - 1)) \<le> n \<and> n < 2 ^ (LENGTH('a) - 1) then Some (word_of_int n) else None)"
proof (cases obj)
  case (POSITIVE_INTEGER u)
  moreover have "(0::int) < 2 ^ (LENGTH('a) - 1)" "0 \<le> uint u"
    by simp_all
  then have "- (2 ^ (LENGTH('a) - 1)) \<le> uint u"
    by linarith
  ultimately show ?thesis
    using assms(1) by (simp add: convert_signed_def int_value_def, hypsubst, simp)
next
  case (NEGATIVE_INTEGER i)
  then have n: "sint i = n" "n < 0"
    using assms by (simp_all add: int_value_def)
  have "(0::int) < 2 ^ (LENGTH('a) - 1)"
    by simp
  with n(2) have "n < 2 ^ (LENGTH('a) - 1)"
    by linarith
  moreover have "(ucast i :: 'a word) = word_of_int n"
    using ucast_low_sint [of i, where ?'a = 'a] assms(3) n(1) by simp
  ultimately show ?thesis
    by (simp add: convert_signed_def NEGATIVE_INTEGER n(1) not_less)
qed (use assms in \<open>simp_all add: int_value_def\<close>)

lemma convert_unsigned_value:
  assumes "int_value obj = Some n" "fits l k obj"
  shows "(convert_unsigned obj :: 'a::len word option) =
     (if 0 \<le> n \<and> n < 2 ^ LENGTH('a) then Some (word_of_int n) else None)"
  using assms by (cases obj) (auto simp: convert_unsigned_def int_value_def)

lemma convert_not_integer:
  "int_value obj = None \<Longrightarrow> convert_signed obj = None \<and> convert_unsigned obj = None"
  by (cases obj) (simp_all add: int_value_def convert_signed_def convert_unsigned_def)

lemma object_signed_fits:
  fixes v :: "'a::len word"
  assumes "LENGTH('a) \<le> 64"
  shows "int_value (object_signed v) = Some (sint v)" "fits l k (object_signed v)"
  using assms sint_nonneg [of "scast v :: 64 word"]
  by (auto simp: object_signed_def int_value_def sint_scast_up)

lemma convert_signed_back:
  fixes v :: "'a::len word"
  assumes "LENGTH('a) \<le> 64"
  shows "convert_signed (object_signed v) = Some v"
  using convert_signed_value [OF object_signed_fits(1) [OF assms, of v]
      object_signed_fits(2) [OF assms, of l k v] assms]
    sint_ge [of v] sint_lt [of v] by simp

lemma convert_unsigned_back:
  fixes v :: "'a::len word"
  assumes "LENGTH('a) \<le> 64"
  shows "convert_unsigned (object_unsigned v) = Some v"
proof -
  have "\<not> 2 ^ LENGTH('a) - 1 < uint v"
    using uint_bounded [of v] by linarith
  then show ?thesis
    using assms ucast_up(1) [of v, where ?'b = 64]
      ucast_up(2) [of v, where ?'b = 64 and ?'c = 'a]
    by (simp add: object_unsigned_def convert_unsigned_def)
qed

section \<open>Properties\<close>

text \<open>
  C27. Integers are typed by value: a conversion to a signed or unsigned type of at most 64 bits
  gives the number the object stands for when the type has it, and fails otherwise, as it does
  for an object that is no integer; a value made into an object converts back to itself.
\<close>
theorem conversions_exact:
  fixes v :: "'a::len word"
  assumes "fits l k obj" "LENGTH('a) \<le> 64"
  shows "(convert_signed obj :: 'a word option) =
      (case int_value obj of
         Some n \<Rightarrow> if - (2 ^ (LENGTH('a) - 1)) \<le> n \<and> n < 2 ^ (LENGTH('a) - 1) then Some (word_of_int n) else None
       | None \<Rightarrow> None)
    \<and> (convert_unsigned obj :: 'a word option) =
      (case int_value obj of
         Some n \<Rightarrow> if 0 \<le> n \<and> n < 2 ^ LENGTH('a) then Some (word_of_int n) else None
       | None \<Rightarrow> None)
    \<and> convert_signed (object_signed v) = Some v \<and> convert_unsigned (object_unsigned v) = Some v"
  using assms convert_not_integer [of obj]
  by (auto simp: convert_signed_value convert_unsigned_value convert_signed_back convert_unsigned_back
      split: option.split)

theorem conversions_exact_witness:
  "(convert_signed (POSITIVE_INTEGER 200) :: 8 word option) = None \<and>
   (convert_unsigned (POSITIVE_INTEGER 200) :: 8 word option) = Some 200"
  using conversions_exact [of default_limit 1 "POSITIVE_INTEGER 200", where ?'a = 8]
  by (simp add: int_value_def)

end
