(* ===== verification/Cpp_Lib.thy ===== *)
theory Cpp_Lib
  imports MR_Prelude "HOL-Library.Word" "HOL-Library.Char_ord" "HOL-Library.List_Lexorder"
begin

text \<open>
  What the source uses of the C++ language and its standard library: the outcomes of an
  expression (an \<open>int\<close> exception, an exception derived from \<open>std::exception\<close>, undefined
  behaviour), 32-bit signed arithmetic, \<open>to_string\<close> and \<open>stoi\<close>, formatted extraction
  \<open>operator>>\<close> and \<open>getline\<close> on input streams, and file streams over a file system.
  A \<open>std::string\<close> is a list of 8-bit characters; the order of \<open>std::string\<close> compares
  them as unsigned bytes, which is the lexicographic order of the library.
\<close>

section \<open>Outcomes\<close>

datatype cpp_error =
    IntExn int       \<comment> \<open>\<open>throw\<close> of an \<open>int\<close>\<close>
  | StdExn string    \<comment> \<open>an exception that no \<open>catch (int)\<close> handles\<close>
  | UB string        \<comment> \<open>undefined behaviour: the program has no meaning from here\<close>

section \<open>int and size_t\<close>

definition INT_MAX :: int where "INT_MAX = 2147483647"

definition INT_MIN :: int where "INT_MIN = - 2147483648"

definition in_int :: "int \<Rightarrow> bool" where
  "in_int n \<longleftrightarrow> INT_MIN \<le> n \<and> n \<le> INT_MAX"

text \<open>Addition of two \<open>int\<close>s: overflow is undefined.\<close>

definition int_add :: "int \<Rightarrow> int \<Rightarrow> cpp_error + int" where
  "int_add a b = (if in_int (a + b) then Inr (a + b) else Inl (UB ''signed overflow''))"

text \<open>The conversion of an \<open>int\<close> to \<open>size_t\<close>, and back (modulo \<open>2 ^ 32\<close>).\<close>

definition size_t_of_int :: "int \<Rightarrow> 64 word" where
  "size_t_of_int n = word_of_int n"

definition int_of_size_t :: "64 word \<Rightarrow> int" where
  "int_of_size_t w = sint (ucast w :: 32 word)"

lemma in_int_nonneg: "0 \<le> n \<Longrightarrow> n \<le> INT_MAX \<Longrightarrow> in_int n"
  by (simp add: in_int_def INT_MIN_def)

lemma uint_size_t_of_int: "0 \<le> n \<Longrightarrow> n \<le> INT_MAX \<Longrightarrow> uint (size_t_of_int n) = n"
  by (simp add: size_t_of_int_def INT_MAX_def uint_word_of_int)

lemma int_of_size_t_small: "uint w \<le> INT_MAX \<Longrightarrow> int_of_size_t w = uint w"
proof -
  assume le: "uint w \<le> INT_MAX"
  have "uint (ucast w :: 32 word) = uint w"
    using le by (simp add: INT_MAX_def unsigned_ucast_eq take_bit_int_eq_self_iff)
  moreover have "signed_take_bit 31 (uint w) = uint w"
    by (rule signed_take_bit_int_eq_self)
      (use le order_trans [OF _ uint_ge_0 [of w]] in \<open>simp_all add: INT_MAX_def\<close>)
  ultimately show ?thesis
    by (simp add: int_of_size_t_def sint_uint)
qed

section \<open>Characters\<close>

text \<open>\<open>std::isspace\<close> in the C locale, which the streams of the source use.\<close>

definition isspace :: "char \<Rightarrow> bool" where
  "isspace c \<longleftrightarrow> c \<in> set [CHR '' '', CHR 0x09, CHR 0x0A, CHR 0x0B, CHR 0x0C, CHR 0x0D]"

definition is_digit :: "char \<Rightarrow> bool" where
  "is_digit c \<longleftrightarrow> 48 \<le> (of_char c :: nat) \<and> (of_char c :: nat) \<le> 57"

definition digit_char :: "nat \<Rightarrow> char" where
  "digit_char d = char_of (48 + d)"

lemma isspace_consts [simp]:
  "isspace (CHR '' '')" "isspace (CHR 0x0A)"
  by (simp_all add: isspace_def)

lemma of_digit_char: "d < 10 \<Longrightarrow> (of_char (digit_char d) :: nat) = 48 + d"
  by (simp add: digit_char_def)

lemma is_digit_digit_char [simp]: "d < 10 \<Longrightarrow> is_digit (digit_char d)"
  by (simp add: is_digit_def of_digit_char)

lemma digit_not_space: "is_digit c \<Longrightarrow> \<not> isspace c"
  by (auto simp: is_digit_def isspace_def)

section \<open>to_string and stoi\<close>

fun nat_digits :: "nat \<Rightarrow> string" where
  "nat_digits n =
     (if n < 10 then [digit_char n] else nat_digits (n div 10) @ [digit_char (n mod 10)])"

declare nat_digits.simps [simp del]

definition to_string :: "int \<Rightarrow> string" where
  "to_string n = (if n < 0 then CHR ''-'' # nat_digits (nat (- n)) else nat_digits (nat n))"

definition digit_val :: "char \<Rightarrow> int" where
  "digit_val c = int (of_char c) - 48"

fun digits_val :: "int \<Rightarrow> string \<Rightarrow> int" where
  "digits_val acc [] = acc"
| "digits_val acc (c # cs) = digits_val (10 * acc + digit_val c) cs"

text \<open>
  \<open>stoi\<close>: leading space is skipped, one sign is taken, then the longest run of digits;
  no digit throws \<open>std::invalid_argument\<close>, a value that is no \<open>int\<close> \<open>std::out_of_range\<close>.
  What follows the digits is ignored.
\<close>

definition stoi :: "string \<Rightarrow> cpp_error + int" where
  "stoi s =
     (let t = dropWhile isspace s;
          neg = (t \<noteq> [] \<and> hd t = CHR ''-'');
          u = (if t \<noteq> [] \<and> (hd t = CHR ''-'' \<or> hd t = CHR ''+'') then tl t else t);
          ds = takeWhile is_digit u;
          v = (if neg then - digits_val 0 ds else digits_val 0 ds)
      in if ds = [] then Inl (StdExn ''invalid_argument'')
         else if in_int v then Inr v else Inl (StdExn ''out_of_range''))"

lemma nat_digits_nonempty [simp]: "nat_digits n \<noteq> []"
  by (subst nat_digits.simps) simp

lemma nat_digits_all_digit: "\<forall>c\<in>set (nat_digits n). is_digit c"
proof (induction n rule: nat_digits.induct)
  case (1 n)
  then show ?case by (subst nat_digits.simps) auto
qed

lemma digits_val_append: "digits_val acc (xs @ ys) = digits_val (digits_val acc xs) ys"
  by (induction xs arbitrary: acc) auto

lemma digits_val_nat_digits: "digits_val 0 (nat_digits n) = int n"
proof (induction n rule: nat_digits.induct)
  case (1 n)
  show ?case
  proof (cases "n < 10")
    case True
    then show ?thesis
      by (subst nat_digits.simps) (simp add: digit_val_def of_digit_char)
  next
    case False
    with 1 have "digits_val 0 (nat_digits (n div 10)) = int (n div 10)" by simp
    then have "digits_val 0 (nat_digits n) = 10 * int (n div 10) + int (n mod 10)"
      using False
      by (subst nat_digits.simps) (simp add: digits_val_append digit_val_def of_digit_char)
    also have "\<dots> = int n" by presburger
    finally show ?thesis .
  qed
qed

lemma nat_digits_hd: "is_digit (hd (nat_digits n))"
  using nat_digits_all_digit [of n] hd_in_set [OF nat_digits_nonempty] by blast

lemma to_string_no_space: "\<forall>c\<in>set (to_string n). \<not> isspace c"
  using nat_digits_all_digit digit_not_space
  by (auto simp: to_string_def isspace_def [of "CHR ''-''"])

lemma to_string_nonempty [simp]: "to_string n \<noteq> []"
  by (simp add: to_string_def)

lemma is_digit_sign: "\<not> is_digit (CHR ''-'')" "\<not> is_digit (CHR ''+'')"
  by (simp_all add: is_digit_def)

lemma takeWhile_nat_digits [simp]: "takeWhile is_digit (nat_digits n) = nat_digits n"
  by (rule takeWhile_all) (rule nat_digits_all_digit)

lemma dropWhile_to_string [simp]: "dropWhile isspace (to_string n) = to_string n"
  using to_string_no_space [of n] by (cases "to_string n") auto

lemma stoi_to_string: "in_int n \<Longrightarrow> stoi (to_string n) = Inr n"
proof -
  assume n: "in_int n"
  have hd: "hd (nat_digits (nat n)) \<noteq> CHR ''-''" "hd (nat_digits (nat n)) \<noteq> CHR ''+''"
    using nat_digits_hd [of "nat n"] is_digit_sign by metis+
  show ?thesis
  proof (cases "n < 0")
    case True
    then have "to_string n = CHR ''-'' # nat_digits (nat (- n))" by (simp add: to_string_def)
    with True n show ?thesis
      using dropWhile_to_string [of n]
      by (simp add: stoi_def Let_def digits_val_nat_digits del: dropWhile.simps)
  next
    case False
    then have "to_string n = nat_digits (nat n)" by (simp add: to_string_def)
    with False n hd show ?thesis
      using dropWhile_to_string [of n]
      by (simp add: stoi_def Let_def digits_val_nat_digits)
  qed
qed

lemma to_string_inject:
  assumes "in_int m" "in_int n" "to_string m = to_string n"
  shows "m = n"
proof -
  have "Inr m = (Inr n :: cpp_error + int)"
    using assms stoi_to_string [of m] stoi_to_string [of n] by metis
  then show ?thesis by simp
qed

lemma nat_digits_minus: "hd (nat_digits n) \<noteq> CHR ''-''" "hd (nat_digits n) \<noteq> CHR ''+''"
  using nat_digits_hd [of n] is_digit_sign by metis+

lemma takeWhile_digits_rest:
  "rest = [] \<or> \<not> is_digit (hd rest) \<Longrightarrow> takeWhile is_digit (nat_digits n @ rest) = nat_digits n"
  using nat_digits_all_digit [of n] by (cases rest) (auto simp: takeWhile_append)

text \<open>
  \<open>stoi\<close> undoes \<open>to_string\<close>, on every integer that is an \<open>int\<close>, after any blanks
  and before any text that does not go on with a digit; the decimal text of an integer
  that is no \<open>int\<close> is rejected.
\<close>

theorem stoi_reads_to_string:
  assumes "\<forall>c\<in>set blanks. isspace c" "rest = [] \<or> \<not> is_digit (hd rest)"
  shows "stoi (blanks @ to_string n @ rest) =
    (if in_int n then Inr n else Inl (StdExn ''out_of_range''))"
proof -
  have "hd (to_string n @ rest) \<in> set (to_string n)"
    by (simp add: hd_append)
  then have "\<not> isspace (hd (to_string n @ rest))" using to_string_no_space by blast
  then have self: "dropWhile isspace (to_string n @ rest) = to_string n @ rest"
    by (cases "to_string n @ rest") auto
  then have "dropWhile isspace (blanks @ to_string n @ rest) = to_string n @ rest"
    using assms(1) dropWhile_append2 [of blanks isspace "to_string n @ rest"] by simp
  then have "stoi (blanks @ to_string n @ rest) = stoi (to_string n @ rest)"
    unfolding stoi_def self by simp
  also have "\<dots> = (if in_int n then Inr n else Inl (StdExn ''out_of_range''))"
  proof (cases "n < 0")
    case True
    then have t: "to_string n = CHR ''-'' # nat_digits (nat (- n))" by (simp add: to_string_def)
    from True show ?thesis
      unfolding stoi_def self
      by (simp add: Let_def t digits_val_nat_digits takeWhile_digits_rest [OF assms(2)])
  next
    case False
    then have t: "to_string n = nat_digits (nat n)" by (simp add: to_string_def)
    from False show ?thesis
      unfolding stoi_def self
      by (simp add: Let_def t digits_val_nat_digits takeWhile_digits_rest [OF assms(2)]
          nat_digits_minus hd_append)
  qed
  finally show ?thesis .
qed

theorem stoi_reads_to_string_witness:
  "stoi ('' '' @ to_string (- 12) @ ''x9'') = Inr (- 12)"
proof -
  have "\<forall>c\<in>set '' ''. isspace c" "''x9'' = [] \<or> \<not> is_digit (hd ''x9'')" "in_int (- 12)"
    by code_simp+
  with stoi_reads_to_string [OF this(1,2), of "- 12"] show ?thesis by simp
qed

end
