(* ===== verification/Rpc_Messages.thy ===== *)
theory Rpc_Messages
  imports Msgpack_Convert Cpp_Lib
begin

text \<open>
  The messages of the RPC layer: the request and the notification a client packs
  (\<open>client.inl\<close>) and the response (\<open>response.h\<close>, \<open>response.cc\<close>), as bytes and as the objects
  they are on the other side.
\<close>

definition bytes_of :: "string \<Rightarrow> byte list" where
  "bytes_of s = map of_char s"

section \<open>Requests\<close>

datatype request_type = call | notification

definition request_code :: "request_type \<Rightarrow> byte" where
  "request_code t = (case t of call \<Rightarrow> 0 | notification \<Rightarrow> 2)"

definition pack_call :: "32 word \<Rightarrow> byte list \<Rightarrow> object list \<Rightarrow> byte list option" where
  "pack_call idx func_name args =
     Option.bind (pack_string func_name) (\<lambda>name.
     Option.bind (pack_tuple (map pack_object args)) (\<lambda>args_obj.
       pack_tuple [pack_unsigned_char (request_code call), pack_int idx, name, args_obj]))"

definition pack_notification :: "byte list \<Rightarrow> object list \<Rightarrow> byte list option" where
  "pack_notification func_name args =
     Option.bind (pack_string func_name) (\<lambda>name.
     Option.bind (pack_tuple (map pack_object args)) (\<lambda>args_obj.
       pack_tuple [pack_unsigned_char (request_code notification), name, args_obj]))"

text \<open>The objects on the wire.\<close>

definition call_object :: "32 word \<Rightarrow> byte list \<Rightarrow> object list \<Rightarrow> object" where
  "call_object idx name args = ARRAY [POSITIVE_INTEGER 0, object_signed idx, Str name, ARRAY args]"

definition notification_object :: "byte list \<Rightarrow> object list \<Rightarrow> object" where
  "notification_object name args = ARRAY [POSITIVE_INTEGER 2, Str name, ARRAY args]"

lemma pack_small: "pack_unsigned_char c = pack_object (POSITIVE_INTEGER (ucast c))"
  using pack_unsigned_object(1) [of c] by (simp add: pack_unsigned_char_def object_unsigned_def)

lemma pack_tuple_small:
  "length vs < 16 \<Longrightarrow> pack_tuple (map pack_object vs) = Some (pack_object (ARRAY vs))"
  by (simp add: pack_tuple_object object_tuple_def checked_size)

lemma pack_call_object:
  assumes "length name < 4294967296" "length args < 4294967296"
  shows "pack_call idx name args = Some (pack_object (call_object idx name args))"
  using pack_tuple_small [of "[POSITIVE_INTEGER 0, object_signed idx, Str name, ARRAY args]"] assms
  by (simp add: pack_call_def pack_string_object object_string_def pack_tuple_object [of args]
      object_tuple_def [of args] checked_size pack_small pack_int_def pack_signed_object
      call_object_def request_code_def del: pack_object.simps)

lemma pack_notification_object:
  assumes "length name < 4294967296" "length args < 4294967296"
  shows "pack_notification name args = Some (pack_object (notification_object name args))"
  using pack_tuple_small [of "[POSITIVE_INTEGER 2, Str name, ARRAY args]"] assms
  by (simp add: pack_notification_def pack_string_object object_string_def pack_tuple_object [of args]
      object_tuple_def [of args] checked_size pack_small
      notification_object_def request_code_def del: pack_object.simps)

text \<open>The types the server converts them to; an element that is missing has its default.\<close>

type_synonym call_t = "8 word \<times> 32 word \<times> byte list \<times> object"
type_synonym notification_t = "8 word \<times> byte list \<times> object"

definition convert_call :: "object \<Rightarrow> call_t option" where
  "convert_call msg =
     (case msg of
        ARRAY xs \<Rightarrow>
          Option.bind (convert_element convert_signed 0 xs 0) (\<lambda>type.
          Option.bind (convert_element convert_unsigned 0 xs 1) (\<lambda>id.
          Option.bind (convert_element convert_string [] xs 2) (\<lambda>name.
          Option.bind (convert_element convert_object NIL xs 3) (\<lambda>args.
            Some (type, id, name, args)))))
      | _ \<Rightarrow> None)"

definition convert_notification :: "object \<Rightarrow> notification_t option" where
  "convert_notification msg =
     (case msg of
        ARRAY xs \<Rightarrow>
          Option.bind (convert_element convert_signed 0 xs 0) (\<lambda>type.
          Option.bind (convert_element convert_string [] xs 1) (\<lambda>name.
          Option.bind (convert_element convert_object NIL xs 2) (\<lambda>args.
            Some (type, name, args))))
      | _ \<Rightarrow> None)"

lemma convert_unsigned_signed:
  assumes "0 \<le> sint (idx :: 32 word)"
  shows "convert_unsigned (object_signed idx) = Some idx"
proof -
  have "sint idx = uint idx" "uint idx < 4294967296"
    using assms sint_nonneg [of idx] uint_bounded [of idx] by simp_all
  with assms show ?thesis
    using convert_unsigned_value [of "object_signed idx" "uint idx" default_limit 0, where ?'a = 32]
    by (simp add: object_signed_def int_value_def sint_nonneg [of "scast idx :: 64 word"] sint_scast_up)
qed

lemma convert_small_signed: "convert_signed (POSITIVE_INTEGER 0) = Some (0 :: 8 word)"
    "convert_signed (POSITIVE_INTEGER 2) = Some (2 :: 8 word)"
  by (simp_all add: convert_signed_def)

lemma convert_call_object:
  "0 \<le> sint idx \<Longrightarrow> convert_call (call_object idx name args) = Some (0, idx, name, ARRAY args)"
  by (simp add: convert_call_def call_object_def convert_element_def convert_small_signed
      convert_unsigned_signed convert_string_def convert_object_def)

lemma convert_notification_object:
  "convert_notification (notification_object name args) = Some (2, name, ARRAY args)"
  by (simp add: convert_notification_def notification_object_def convert_element_def convert_small_signed
      convert_string_def convert_object_def)

section \<open>Responses\<close>

text \<open>\<open>None\<close> is the null pointer.\<close>

record response =
  resp_id :: "32 word"
  resp_error :: "object option"
  resp_result :: "object option"
  resp_empty :: bool

definition new_response :: response where
  "new_response = \<lparr>resp_id = 0, resp_error = None, resp_result = None, resp_empty = False\<rparr>"

definition make_result :: "32 word \<Rightarrow> object \<Rightarrow> response" where
  "make_result call_id r = new_response\<lparr>resp_id := call_id, resp_result := Some r\<rparr>"

definition make_error :: "32 word \<Rightarrow> object \<Rightarrow> response" where
  "make_error call_id e = new_response\<lparr>resp_id := call_id, resp_error := Some e\<rparr>"

definition empty_response :: response where
  "empty_response = new_response\<lparr>resp_empty := True\<rparr>"

definition capture_result :: "object \<Rightarrow> response \<Rightarrow> response" where
  "capture_result r resp = resp\<lparr>resp_result := Some r\<rparr>"

text \<open>
  Setting an error in a response that has none goes through the null pointer the function
  has just assigned: undefined behaviour, \<open>None\<close> here.
\<close>

definition capture_error :: "object \<Rightarrow> response \<Rightarrow> response option" where
  "capture_error e resp =
     (case resp_error resp of None \<Rightarrow> None | Some _ \<Rightarrow> Some (resp\<lparr>resp_error := Some e\<rparr>))"

definition is_nil :: "object \<Rightarrow> bool" where "is_nil obj = (obj = NIL)"

definition get_data :: "response \<Rightarrow> byte list option" where
  "get_data resp =
     pack_tuple
       [pack_unsigned_int 1, pack_unsigned_int (resp_id resp),
        pack_object (case resp_error resp of Some e \<Rightarrow> e | None \<Rightarrow> NIL),
        pack_object (case resp_result resp of Some r \<Rightarrow> r | None \<Rightarrow> NIL)]"

definition response_object :: "response \<Rightarrow> object" where
  "response_object resp =
     ARRAY [POSITIVE_INTEGER 1, POSITIVE_INTEGER (ucast (resp_id resp)),
            case resp_error resp of Some e \<Rightarrow> e | None \<Rightarrow> NIL,
            case resp_result resp of Some r \<Rightarrow> r | None \<Rightarrow> NIL]"

definition response_of_object :: "object \<Rightarrow> response option" where
  "response_of_object obj =
     (case obj of
        ARRAY xs \<Rightarrow>
          Option.bind (convert_element convert_unsigned (0 :: 32 word) xs 0) (\<lambda>type.
          Option.bind (convert_element convert_unsigned 0 xs 1) (\<lambda>id.
          Option.bind (convert_element convert_object NIL xs 2) (\<lambda>error_obj.
          Option.bind (convert_element convert_object NIL xs 3) (\<lambda>result_obj.
            Some (new_response\<lparr>resp_id := id,
                    resp_error := if is_nil error_obj then None else Some error_obj,
                    resp_result := Some result_obj\<rparr>)))))
      | _ \<Rightarrow> None)"

lemma get_data_object: "get_data resp = Some (pack_object (response_object resp))"
  using pack_tuple_small [of "[POSITIVE_INTEGER 1, POSITIVE_INTEGER (ucast (resp_id resp)),
      case resp_error resp of Some e \<Rightarrow> e | None \<Rightarrow> NIL, case resp_result resp of Some r \<Rightarrow> r | None \<Rightarrow> NIL]"]
    pack_unsigned_object(3) [of 1] pack_unsigned_object(3) [of "resp_id resp"]
  by (simp add: get_data_def response_object_def pack_unsigned_int_def object_unsigned_def
      del: pack_object.simps)

lemma response_of_response_object:
  "response_of_object (response_object resp) =
     Some \<lparr>resp_id = resp_id resp,
           resp_error = (if resp_error resp = Some NIL then None else resp_error resp),
           resp_result = Some (case resp_result resp of Some r \<Rightarrow> r | None \<Rightarrow> NIL),
           resp_empty = False\<rparr>"
  using uint_bounded [of "resp_id resp"]
  by (auto simp: response_of_object_def response_object_def convert_element_def convert_unsigned_def
      convert_object_def new_response_def is_nil_def ucast_up split: option.split)

end
