(* ===== verification/Rpc_Dispatcher.thy ===== *)
theory Rpc_Dispatcher
  imports Rpc_Messages MR_Prelude
begin

text \<open>
  The dispatcher of the RPC server (\<open>dispatcher.h\<close>, \<open>dispatcher.inl\<close>, \<open>dispatcher.cc\<close>,
  \<open>client_error.cc\<close>) with the thread-local objects a handler talks to (\<open>this_handler\<close>,
  \<open>this_session\<close>, \<open>this_server\<close>). A bound function is an action on the state of the server
  process; how it ends is an outcome.
\<close>

section \<open>Actions and how they end\<close>

text \<open>
  What a handler can throw, in the classes the dispatcher tells apart. \<open>Exited\<close> is a process
  that is gone (\<open>exit\<close>); \<open>Undefined\<close> is undefined behaviour.
\<close>

datatype thrown =
    Client_error "byte list"
  | Std_exception "byte list"
  | Handler_error
  | Handler_spec_response
  | Other_exception

datatype 'a outcome = Returned 'a | Thrown thrown | Exited | Undefined

type_synonym ('w, 'a) action = "'w \<Rightarrow> 'a outcome \<times> 'w"

definition return_with :: "'a \<Rightarrow> ('w, 'a) action" where
  "return_with x w = (Returned x, w)"

definition throw :: "thrown \<Rightarrow> ('w, 'a) action" where
  "throw e w = (Thrown e, w)"

definition undefined_behaviour :: "('w, 'a) action" where
  "undefined_behaviour w = (Undefined, w)"

definition andthen :: "('w, 'a) action \<Rightarrow> ('a \<Rightarrow> ('w, 'b) action) \<Rightarrow> ('w, 'b) action" where
  "andthen m k w =
     (case m w of
        (Returned x, w') \<Rightarrow> k x w'
      | (Thrown e, w') \<Rightarrow> (Thrown e, w')
      | (Exited, w') \<Rightarrow> (Exited, w')
      | (Undefined, w') \<Rightarrow> (Undefined, w'))"

lemma action_simps [simp]:
  "andthen (return_with x) k = k x"
  "andthen (throw e) k = throw e"
  "andthen undefined_behaviour k = undefined_behaviour"
  by (simp_all add: fun_eq_iff andthen_def return_with_def throw_def undefined_behaviour_def)

lemma andthen_assoc: "andthen (andthen m k) l = andthen m (\<lambda>x. andthen (k x) l)"
  by (auto simp: fun_eq_iff andthen_def split: prod.split outcome.split)

section \<open>Sizes and texts\<close>

text \<open>
  \<open>via.array.size\<close> of an object: the containers all begin with their 32-bit size, so the field
  can be read whichever it is (the size of \<open>EXT\<close> leaves out its type byte). In any other
  object another member of the union is active.
\<close>

definition via_array_size :: "object \<Rightarrow> nat option" where
  "via_array_size obj =
     (case obj of
        ARRAY xs \<Rightarrow> Some (length xs)
      | MAP kvs \<Rightarrow> Some (length kvs)
      | Str s \<Rightarrow> Some (length s)
      | BIN s \<Rightarrow> Some (length s)
      | EXT t s \<Rightarrow> Some (length s)
      | _ \<Rightarrow> None)"

definition with_array_size :: "object \<Rightarrow> (nat \<Rightarrow> ('w, 'a) action) \<Rightarrow> ('w, 'a) action" where
  "with_array_size obj k = (case via_array_size obj of None \<Rightarrow> undefined_behaviour | Some n \<Rightarrow> k n)"

definition decimal :: "nat \<Rightarrow> byte list" where
  "decimal n = bytes_of (to_string (int n))"

text \<open>A text handed on as \<open>const char *\<close> ends at its first zero byte.\<close>

definition c_str :: "byte list \<Rightarrow> byte list" where
  "c_str s = takeWhile (\<lambda>b. b \<noteq> 0) s"

definition client_error_wrong_arity :: "byte list \<Rightarrow> thrown" where
  "client_error_wrong_arity msg = Client_error (bytes_of ''client error C0002: '' @ msg)"

definition type_error :: thrown where
  "type_error = Std_exception (bytes_of ''std::bad_cast'')"

definition container_size_overflow :: thrown where
  "container_size_overflow = Std_exception (bytes_of ''container size overflow'')"

section \<open>Binding functions\<close>

type_synonym 'w adaptor = "object \<Rightarrow> ('w, object) action"
type_synonym 'w dispatcher = "byte list \<rightharpoonup> 'w adaptor"

definition enforce_arg_count :: "byte list \<Rightarrow> nat \<Rightarrow> nat \<Rightarrow> ('w, unit) action" where
  "enforce_arg_count func found expected =
     (if found \<noteq> expected
      then throw (client_error_wrong_arity
             (bytes_of ''Function '' @ bytes_of [CHR 0x27] @ func @ bytes_of [CHR 0x27] @
              bytes_of '' was called with an invalid number of arguments. Expected: '' @
              decimal expected @ bytes_of '', got: '' @ decimal found))
      else return_with ())"

text \<open>The message of the \<open>logic_error\<close> for a name that is taken.\<close>

definition enforce_unique_name :: "byte list \<Rightarrow> 'w dispatcher \<Rightarrow> byte list option" where
  "enforce_unique_name func funcs =
     (case funcs func of
        None \<Rightarrow> None
      | Some _ \<Rightarrow> Some (bytes_of ''Function name already bound: '' @ bytes_of [CHR 0x27] @ func @
                       bytes_of [CHR 0x27] @ bytes_of ''. Please use unique function names''))"

definition insert_func :: "byte list \<Rightarrow> 'w adaptor \<Rightarrow> 'w dispatcher \<Rightarrow> byte list + 'w dispatcher" where
  "insert_func name f funcs =
     (case enforce_unique_name name funcs of Some e \<Rightarrow> Inl e | None \<Rightarrow> Inr (funcs(name \<mapsto> f)))"

definition convert_args :: "(object \<Rightarrow> 'a option) \<Rightarrow> object \<Rightarrow> ('w, 'a) action" where
  "convert_args conv args = (case conv args of None \<Rightarrow> throw type_error | Some x \<Rightarrow> return_with x)"

definition object_of_result :: "('r \<Rightarrow> object option) \<Rightarrow> 'r \<Rightarrow> ('w, object) action" where
  "object_of_result to_object r =
     (case to_object r of None \<Rightarrow> throw container_size_overflow | Some x \<Rightarrow> return_with x)"

text \<open>The four kinds of function: with a result or without, with arguments or without.\<close>

definition void_zero_adaptor :: "byte list \<Rightarrow> ('w, unit) action \<Rightarrow> 'w adaptor" where
  "void_zero_adaptor name func args =
     with_array_size args (\<lambda>n.
       andthen (enforce_arg_count name 0 n) (\<lambda>_.
       andthen func (\<lambda>_. return_with NIL)))"

definition void_nonzero_adaptor ::
    "byte list \<Rightarrow> nat \<Rightarrow> (object \<Rightarrow> 'a option) \<Rightarrow> ('a \<Rightarrow> ('w, unit) action) \<Rightarrow> 'w adaptor" where
  "void_nonzero_adaptor name args_count conv func args =
     with_array_size args (\<lambda>n.
       andthen (enforce_arg_count name args_count n) (\<lambda>_.
       andthen (convert_args conv args) (\<lambda>args_real.
       andthen (func args_real) (\<lambda>_. return_with NIL))))"

definition nonvoid_zero_adaptor ::
    "byte list \<Rightarrow> ('r \<Rightarrow> object option) \<Rightarrow> ('w, 'r) action \<Rightarrow> 'w adaptor" where
  "nonvoid_zero_adaptor name to_object func args =
     with_array_size args (\<lambda>n.
       andthen (enforce_arg_count name 0 n) (\<lambda>_.
       andthen func (object_of_result to_object)))"

definition nonvoid_nonzero_adaptor ::
    "byte list \<Rightarrow> nat \<Rightarrow> (object \<Rightarrow> 'a option) \<Rightarrow> ('r \<Rightarrow> object option) \<Rightarrow>
     ('a \<Rightarrow> ('w, 'r) action) \<Rightarrow> 'w adaptor" where
  "nonvoid_nonzero_adaptor name args_count conv to_object func args =
     with_array_size args (\<lambda>n.
       andthen (enforce_arg_count name args_count n) (\<lambda>_.
       andthen (convert_args conv args) (\<lambda>args_real.
       andthen (func args_real) (object_of_result to_object))))"

definition bind_void_zero ::
    "byte list \<Rightarrow> ('w, unit) action \<Rightarrow> 'w dispatcher \<Rightarrow> byte list + 'w dispatcher" where
  "bind_void_zero name func = insert_func name (void_zero_adaptor name func)"

definition bind_void_nonzero ::
    "byte list \<Rightarrow> nat \<Rightarrow> (object \<Rightarrow> 'a option) \<Rightarrow> ('a \<Rightarrow> ('w, unit) action) \<Rightarrow>
     'w dispatcher \<Rightarrow> byte list + 'w dispatcher" where
  "bind_void_nonzero name args_count conv func =
     insert_func name (void_nonzero_adaptor name args_count conv func)"

definition bind_nonvoid_zero ::
    "byte list \<Rightarrow> ('r \<Rightarrow> object option) \<Rightarrow> ('w, 'r) action \<Rightarrow>
     'w dispatcher \<Rightarrow> byte list + 'w dispatcher" where
  "bind_nonvoid_zero name to_object func =
     insert_func name (nonvoid_zero_adaptor name to_object func)"

definition bind_nonvoid_nonzero ::
    "byte list \<Rightarrow> nat \<Rightarrow> (object \<Rightarrow> 'a option) \<Rightarrow> ('r \<Rightarrow> object option) \<Rightarrow>
     ('a \<Rightarrow> ('w, 'r) action) \<Rightarrow> 'w dispatcher \<Rightarrow> byte list + 'w dispatcher" where
  "bind_nonvoid_nonzero name args_count conv to_object func =
     insert_func name (nonvoid_nonzero_adaptor name args_count conv to_object func)"

section \<open>Dispatching\<close>

definition make_error_text :: "32 word \<Rightarrow> byte list \<Rightarrow> ('w, response) action" where
  "make_error_text call_id text =
     (case object_string text of
        None \<Rightarrow> throw container_size_overflow
      | Some e \<Rightarrow> return_with (make_error call_id e))"

definition could_not_find :: "32 word \<Rightarrow> byte list \<Rightarrow> object \<Rightarrow> ('w, response) action" where
  "could_not_find call_id name args =
     with_array_size args (\<lambda>n. make_error_text call_id
       (bytes_of ''rpclib: server could not find function '' @ bytes_of [CHR 0x27] @ name @
        bytes_of [CHR 0x27] @ bytes_of '' with argument count '' @ decimal n @ bytes_of ''.''))"

definition threw_an_exception :: "byte list \<Rightarrow> nat \<Rightarrow> byte list" where
  "threw_an_exception name n =
     bytes_of ''rpclib: function '' @ bytes_of [CHR 0x27] @ name @ bytes_of [CHR 0x27] @
     bytes_of '' (called with '' @ decimal n @ bytes_of '' arg(s)) threw an exception. ''"

definition catch_call ::
    "bool \<Rightarrow> 32 word \<Rightarrow> byte list \<Rightarrow> object \<Rightarrow> object outcome \<Rightarrow> ('w, response) action" where
  "catch_call suppress_exceptions call_id name args res =
     (case res of
        Returned result \<Rightarrow> return_with (make_result call_id result)
      | Thrown (Client_error e) \<Rightarrow> make_error_text call_id (bytes_of ''rpclib: '' @ c_str e)
      | Thrown (Std_exception e) \<Rightarrow>
          if \<not> suppress_exceptions then throw (Std_exception e)
          else with_array_size args (\<lambda>n. make_error_text call_id
            (threw_an_exception name n @
             bytes_of ''The exception contained this information: '' @ c_str e @ bytes_of ''.''))
      | Thrown Handler_error \<Rightarrow> could_not_find call_id name args
      | Thrown Handler_spec_response \<Rightarrow> could_not_find call_id name args
      | Thrown Other_exception \<Rightarrow>
          if \<not> suppress_exceptions then throw Other_exception
          else with_array_size args (\<lambda>n. make_error_text call_id
            (threw_an_exception name n @
             bytes_of ''The exception is not derived from std::exception. No further information available.''))
      | Exited \<Rightarrow> Pair Exited
      | Undefined \<Rightarrow> undefined_behaviour)"

definition dispatch_call :: "bool \<Rightarrow> 'w dispatcher \<Rightarrow> object \<Rightarrow> ('w, response) action" where
  "dispatch_call suppress_exceptions funcs msg w =
     (case convert_call msg of
        None \<Rightarrow> throw type_error w
      | Some (type, call_id, name, args) \<Rightarrow>
          (case funcs name of
             None \<Rightarrow> could_not_find call_id name args w
           | Some f \<Rightarrow>
               let (res, w') = f args w
               in catch_call suppress_exceptions call_id name args res w'))"

definition catch_notification :: "bool \<Rightarrow> object outcome \<Rightarrow> ('w, response) action" where
  "catch_notification suppress_exceptions res =
     (case res of
        Returned _ \<Rightarrow> return_with empty_response
      | Thrown Handler_error \<Rightarrow> return_with empty_response
      | Thrown Handler_spec_response \<Rightarrow> return_with empty_response
      | Thrown e \<Rightarrow> if \<not> suppress_exceptions then throw e else return_with empty_response
      | Exited \<Rightarrow> Pair Exited
      | Undefined \<Rightarrow> undefined_behaviour)"

definition dispatch_notification :: "bool \<Rightarrow> 'w dispatcher \<Rightarrow> object \<Rightarrow> ('w, response) action" where
  "dispatch_notification suppress_exceptions funcs msg w =
     (case convert_notification msg of
        None \<Rightarrow> throw type_error w
      | Some (type, name, args) \<Rightarrow>
          (case funcs name of
             None \<Rightarrow> return_with empty_response w
           | Some f \<Rightarrow>
               let (res, w') = f args w
               in catch_notification suppress_exceptions res w'))"

definition dispatch :: "bool \<Rightarrow> 'w dispatcher \<Rightarrow> object \<Rightarrow> ('w, response) action" where
  "dispatch suppress_exceptions funcs msg =
     with_array_size msg (\<lambda>n.
       if n = 3 then dispatch_notification suppress_exceptions funcs msg
       else if n = 4 then dispatch_call suppress_exceptions funcs msg
       else return_with empty_response)"

text \<open>A whole message in a buffer: its response is dropped.\<close>

definition unpack_exception :: "unpack_error \<Rightarrow> 'a outcome" where
  "unpack_exception e =
     (case e of
        parse_error \<Rightarrow> Thrown (Std_exception (bytes_of ''parse error''))
      | insufficient_bytes \<Rightarrow> Thrown (Std_exception (bytes_of ''insufficient bytes''))
      | array_size_overflow \<Rightarrow> Thrown (Std_exception (bytes_of ''array size overflow''))
      | map_size_overflow \<Rightarrow> Thrown (Std_exception (bytes_of ''map size overflow''))
      | str_size_overflow \<Rightarrow> Thrown (Std_exception (bytes_of ''str size overflow''))
      | bin_size_overflow \<Rightarrow> Thrown (Std_exception (bytes_of ''bin size overflow''))
      | ext_size_overflow \<Rightarrow> Thrown (Std_exception (bytes_of ''ext size overflow''))
      | depth_size_overflow \<Rightarrow> Thrown (Std_exception (bytes_of ''depth size overflow''))
      | unpack_error.undefined_behaviour \<Rightarrow> Undefined)"

definition dispatch_buffer :: "'w dispatcher \<Rightarrow> byte list \<Rightarrow> ('w, unit) action" where
  "dispatch_buffer funcs msg =
     (case unpack False default_limit msg of
        Inl e \<Rightarrow> Pair (unpack_exception e)
      | Inr (unpacked, _) \<Rightarrow> andthen (dispatch False funcs unpacked) (\<lambda>_. return_with ()))"

lemma dispatch_buffer_packed:
  "fits default_limit 1 obj \<Longrightarrow>
   dispatch_buffer funcs (pack_object obj) = andthen (dispatch False funcs obj) (\<lambda>_. return_with ())"
  using unpack_put [of default_limit obj False "[]"] by (simp add: dispatch_buffer_def)

section \<open>Dispatching a request that was packed by a client\<close>

lemma via_array_size_requests [simp]:
  "via_array_size (ARRAY xs) = Some (length xs)"
  "via_array_size (call_object idx name args) = Some 4"
  "via_array_size (notification_object name args) = Some 3"
  by (simp_all add: via_array_size_def call_object_def notification_object_def)

lemma with_array_size_Some [simp]: "via_array_size obj = Some n \<Longrightarrow> with_array_size obj k = k n"
  by (simp add: with_array_size_def)

lemma dispatch_call_object:
  assumes "0 \<le> sint idx"
  shows "dispatch suppress funcs (call_object idx name args) w =
     (case funcs name of
        None \<Rightarrow> could_not_find idx name (ARRAY args) w
      | Some f \<Rightarrow> catch_call suppress idx name (ARRAY args) (fst (f (ARRAY args) w)) (snd (f (ARRAY args) w)))"
  using assms by (auto simp: dispatch_def dispatch_call_def convert_call_object case_prod_beta
      split: option.split)

lemma dispatch_notification_object:
  "dispatch suppress funcs (notification_object name args) w =
     (case funcs name of
        None \<Rightarrow> (Returned empty_response, w)
      | Some f \<Rightarrow> catch_notification suppress (fst (f (ARRAY args) w)) (snd (f (ARRAY args) w)))"
  by (auto simp: dispatch_def dispatch_notification_def convert_notification_object case_prod_beta
      return_with_def split: option.split)

text \<open>The numbers of the message are the other way round: it expects what it got.\<close>

definition wrong_arity_text :: "byte list \<Rightarrow> nat \<Rightarrow> nat \<Rightarrow> byte list" where
  "wrong_arity_text name arity got =
     bytes_of ''client error C0002: Function '' @ bytes_of [CHR 0x27] @ name @ bytes_of [CHR 0x27] @
     bytes_of '' was called with an invalid number of arguments. Expected: '' @
     decimal got @ bytes_of '', got: '' @ decimal arity"

text \<open>
  What every bound function promises the dispatcher: on an array of the right length it is its
  action, on any other it throws the client error and leaves the state alone.
\<close>

locale bound_function =
  fixes f :: "'w adaptor" and name :: "byte list" and arity :: nat
    and run :: "object list \<Rightarrow> ('w, object) action"
  assumes bound_arity: "length xs \<noteq> arity \<Longrightarrow>
      f (ARRAY xs) w = (Thrown (Client_error (wrong_arity_text name arity (length xs))), w)"
    and bound_run: "length xs = arity \<Longrightarrow> f (ARRAY xs) w = run xs w"
begin

lemma call_runs:
  "funcs name = Some f \<Longrightarrow> 0 \<le> sint idx \<Longrightarrow> length xs = arity \<Longrightarrow>
   dispatch suppress funcs (call_object idx name xs) w =
     catch_call suppress idx name (ARRAY xs) (fst (run xs w)) (snd (run xs w))"
  by (simp add: dispatch_call_object bound_run)

lemma call_returns:
  "funcs name = Some f \<Longrightarrow> 0 \<le> sint idx \<Longrightarrow> length xs = arity \<Longrightarrow> run xs w = (Returned r, w') \<Longrightarrow>
   dispatch suppress funcs (call_object idx name xs) w = (Returned (make_result idx r), w')"
  by (simp add: call_runs catch_call_def return_with_def)

lemma call_wrong_arity:
  "funcs name = Some f \<Longrightarrow> 0 \<le> sint idx \<Longrightarrow> length xs \<noteq> arity \<Longrightarrow>
   dispatch suppress funcs (call_object idx name xs) w =
     make_error_text idx (bytes_of ''rpclib: '' @ c_str (wrong_arity_text name arity (length xs))) w"
  by (simp add: dispatch_call_object bound_arity catch_call_def)

lemma notification_wrong_arity:
  "funcs name = Some f \<Longrightarrow> length xs \<noteq> arity \<Longrightarrow>
   dispatch False funcs (notification_object name xs) w =
     (Thrown (Client_error (wrong_arity_text name arity (length xs))), w)"
  by (simp add: dispatch_notification_object bound_arity catch_notification_def throw_def)

end

lemma enforce_arg_count_result:
  "enforce_arg_count name arity n =
     (if n = arity then return_with () else throw (Client_error (wrong_arity_text name arity n)))"
  by (simp add: enforce_arg_count_def client_error_wrong_arity_def wrong_arity_text_def bytes_of_def)

lemmas adaptor_defs = void_zero_adaptor_def void_nonzero_adaptor_def nonvoid_zero_adaptor_def
  nonvoid_nonzero_adaptor_def

lemmas action_defs = return_with_def throw_def

interpretation void_zero: bound_function "void_zero_adaptor name func" name 0
    "\<lambda>_. andthen func (\<lambda>_. return_with NIL)" for name func
  by unfold_locales (simp_all add: adaptor_defs enforce_arg_count_result action_defs)

interpretation void_nonzero: bound_function "void_nonzero_adaptor name n conv func" name n
    "\<lambda>xs. andthen (convert_args conv (ARRAY xs)) (\<lambda>a. andthen (func a) (\<lambda>_. return_with NIL))"
    for name n conv func
  by unfold_locales (simp_all add: adaptor_defs enforce_arg_count_result action_defs)

interpretation nonvoid_zero: bound_function "nonvoid_zero_adaptor name to_obj func" name 0
    "\<lambda>_. andthen func (object_of_result to_obj)" for name to_obj func
  by unfold_locales (simp_all add: adaptor_defs enforce_arg_count_result action_defs)

interpretation nonvoid_nonzero: bound_function "nonvoid_nonzero_adaptor name n conv to_obj func" name n
    "\<lambda>xs. andthen (convert_args conv (ARRAY xs)) (\<lambda>a. andthen (func a) (object_of_result to_obj))"
    for name n conv to_obj func
  by unfold_locales (simp_all add: adaptor_defs enforce_arg_count_result action_defs)

section \<open>Binding\<close>

lemma insert_func_Inr:
  "insert_func name f funcs = Inr funcs' \<longleftrightarrow> funcs name = None \<and> funcs' = funcs(name \<mapsto> f)"
  by (auto simp: insert_func_def enforce_unique_name_def split: option.splits)

lemma insert_func_taken: "funcs name = Some g \<Longrightarrow> \<exists>e. insert_func name f funcs = Inl e"
  by (simp add: insert_func_def enforce_unique_name_def)

lemmas bind_defs = bind_void_zero_def bind_void_nonzero_def bind_nonvoid_zero_def bind_nonvoid_nonzero_def

text \<open>What a dispatch can answer, and what becomes of the state.\<close>

lemma dispatch_shape:
  assumes "dispatch suppress funcs msg w = (Returned resp, w')"
  shows "(resp = empty_response \<or> (\<exists>i t. resp = make_error i (Str t) \<and> length t \<le> 4294967295) \<or>
      (\<exists>i name f args r. funcs name = Some f \<and> f args w = (Returned r, w') \<and> resp = make_result i r)) \<and>
    (w' = w \<or> (\<exists>name f args res. funcs name = Some f \<and> f args w = (res, w') \<and> res \<noteq> Exited))"
proof -
  have text_shape: "make_error_text i t v = (Returned resp, w') \<Longrightarrow>
      (\<exists>i t. resp = make_error i (Str t) \<and> length t \<le> 4294967295) \<and> w' = v" for i t v
    by (auto simp: make_error_text_def object_string_def checked_get_container_size_def throw_def return_with_def
        not_less split: if_splits)
  have size_shape: "(\<And>n v. k n v = (Returned resp, w') \<Longrightarrow> Q v) \<Longrightarrow> with_array_size x k v = (Returned resp, w') \<Longrightarrow> Q v"
    for k :: "nat \<Rightarrow> ('a, response) action" and x v Q
    by (auto simp: with_array_size_def undefined_behaviour_def split: option.splits)
  have missing: "could_not_find i name args v = (Returned resp, w') \<Longrightarrow>
      (\<exists>i t. resp = make_error i (Str t) \<and> length t \<le> 4294967295) \<and> w' = v" for i name args v
    unfolding could_not_find_def by (rule size_shape, rule text_shape)
  have caught: "catch_call suppress i name args res v = (Returned resp, w') \<Longrightarrow>
      w' = v \<and> ((\<exists>i t. resp = make_error i (Str t) \<and> length t \<le> 4294967295) \<or>
        (\<exists>r. res = Returned r \<and> resp = make_result i r)) \<and> res \<noteq> Exited" for i name args res v
    by (cases res; cases suppress)
      (auto simp: catch_call_def throw_def return_with_def undefined_behaviour_def with_array_size_def
        dest!: missing text_shape split: thrown.splits option.splits)
  have noted: "catch_notification suppress res v = (Returned resp, w') \<Longrightarrow>
      w' = v \<and> resp = empty_response \<and> res \<noteq> Exited" for res v
    by (cases res; cases suppress)
      (auto simp: catch_notification_def throw_def return_with_def undefined_behaviour_def split: thrown.splits)
  have called: "dispatch_call suppress funcs msg w = (Returned resp, w') \<Longrightarrow> ?thesis"
    by (auto simp: dispatch_call_def throw_def split: option.splits prod.splits dest!: missing caught) blast+
  have notified: "dispatch_notification suppress funcs msg w = (Returned resp, w') \<Longrightarrow> ?thesis"
    by (auto simp: dispatch_notification_def throw_def return_with_def split: option.splits prod.splits dest!: noted)
  show ?thesis
    using assms called notified
    by (auto simp: dispatch_def with_array_size_def undefined_behaviour_def return_with_def
        split: option.splits if_splits)
qed

section \<open>Properties\<close>

text \<open>
  C28. Once a function is bound under a name, a call of that name with the right number of
  arguments, which convert, runs it once on the converted arguments and answers with the
  object of its result; the other names keep their functions, and the name cannot be bound again.
\<close>
theorem bind_then_call:
  assumes "bind_nonvoid_nonzero name n conv to_obj func funcs = Inr funcs'"
    and "0 \<le> sint idx" and "length xs = n" and "conv (ARRAY xs) = Some a"
    and "func a w = (Returned r, w')" and "to_obj r = Some obj"
  shows "dispatch suppress funcs' (call_object idx name xs) w = (Returned (make_result idx obj), w')
    \<and> (\<forall>other. other \<noteq> name \<longrightarrow> funcs' other = funcs other)
    \<and> (\<exists>e. bind_nonvoid_nonzero name n conv to_obj func funcs' = Inl e)"
proof (intro conjI)
  have funcs': "funcs' = funcs(name \<mapsto> nonvoid_nonzero_adaptor name n conv to_obj func)"
    using assms(1) by (simp add: bind_defs insert_func_Inr)
  then have bound: "funcs' name = Some (nonvoid_nonzero_adaptor name n conv to_obj func)"
    by simp
  have "andthen (convert_args conv (ARRAY xs)) (\<lambda>a. andthen (func a) (object_of_result to_obj)) w =
      (Returned obj, w')"
    using assms(4-6) by (simp add: convert_args_def andthen_def object_of_result_def return_with_def)
  then show "dispatch suppress funcs' (call_object idx name xs) w = (Returned (make_result idx obj), w')"
    by (rule nonvoid_nonzero.call_returns [where funcs = funcs', OF bound assms(2,3)])
  from funcs' show "\<forall>other. other \<noteq> name \<longrightarrow> funcs' other = funcs other"
    by simp
  from funcs' show "\<exists>e. bind_nonvoid_nonzero name n conv to_obj func funcs' = Inl e"
    by (simp add: bind_defs insert_func_taken)
qed

text \<open>
  C29. A call of a bound function with a wrong number of arguments is answered by an error,
  without running it and whether or not exceptions are suppressed; the text exchanges the two
  numbers. The same mistake in a notification throws the error out of the server's thread
  unless exceptions are suppressed.
\<close>
theorem wrong_arity:
  assumes "bind_nonvoid_nonzero name n conv to_obj func funcs = Inr funcs'"
    and "0 \<le> sint idx" and "length xs \<noteq> n"
    and "object_string (bytes_of ''rpclib: '' @ c_str (wrong_arity_text name n (length xs))) = Some e"
  shows "dispatch suppress funcs' (call_object idx name xs) w = (Returned (make_error idx e), w)
    \<and> dispatch False funcs' (notification_object name xs) w =
        (Thrown (Client_error (wrong_arity_text name n (length xs))), w)"
proof -
  have funcs': "funcs' name = Some (nonvoid_nonzero_adaptor name n conv to_obj func)"
    using assms(1) by (auto simp: bind_defs insert_func_Inr)
  with assms show ?thesis
    by (simp add: nonvoid_nonzero.call_wrong_arity nonvoid_nonzero.notification_wrong_arity
        make_error_text_def return_with_def)
qed

text \<open>A number of \<open>k\<close> digits, so the texts of the errors stay small.\<close>

lemma length_nat_digits: "n < 10 ^ Suc k \<Longrightarrow> length (nat_digits n) \<le> Suc k"
proof (induction k arbitrary: n)
  case 0
  then show ?case by (simp add: nat_digits.simps [of n])
next
  case (Suc k)
  show ?case
  proof (cases "n < 10")
    case False
    have "n div 10 < 10 ^ Suc k"
      using Suc.prems by (simp add: less_mult_imp_div_less)
    from Suc.IH [OF this] False show ?thesis
      by (simp add: nat_digits.simps [of n])
  qed (simp add: nat_digits.simps [of n])
qed

lemma length_decimal: "n < 4294967296 \<Longrightarrow> length (decimal n) \<le> 10"
  using length_nat_digits [of n 9] by (simp add: decimal_def bytes_of_def to_string_def)

lemma make_error_text_returns:
  "length text < 4294967296 \<Longrightarrow> make_error_text idx text w = (Returned (make_error idx (Str text)), w)"
  by (simp add: make_error_text_def object_string_def checked_size return_with_def)

lemma catch_call_suppressed:
  assumes "length name < 2147483000" "length xs < 4294967296"
    and "res \<noteq> Exited" "res \<noteq> Undefined"
    and "\<And>e. res = Thrown (Std_exception e) \<or> res = Thrown (Client_error e) \<Longrightarrow> length (c_str e) < 2147483000"
  shows "\<exists>resp. catch_call True idx name (ARRAY xs) res w = (Returned resp, w) \<and>
      resp_id resp = idx \<and> \<not> resp_empty resp"
proof (cases res)
  case (Thrown e)
  have "length (decimal (length xs)) \<le> 10"
    using assms(2) by (rule length_decimal)
  with Thrown assms(1) assms(5) show ?thesis
    by (cases e) (fastforce simp: catch_call_def could_not_find_def threw_an_exception_def
        make_error_text_returns bytes_of_def make_error_def new_response_def)+
qed (use assms in \<open>simp_all add: catch_call_def return_with_def make_result_def new_response_def\<close>)

text \<open>
  With exceptions suppressed no call escapes: whatever the bound function does, short of
  ending the process or undefined behaviour, dispatching a call gives a response that carries
  the call's number (the texts stay under 4 GB).
\<close>
theorem suppressed_calls_answer:
  assumes "0 \<le> sint idx" "length name < 2147483000" "length xs < 4294967296"
    and "\<And>f. funcs name = Some f \<Longrightarrow> fst (f (ARRAY xs) w) \<notin> {Exited, Undefined}"
    and "\<And>f e. funcs name = Some f \<Longrightarrow> fst (f (ARRAY xs) w) \<in> {Thrown (Std_exception e), Thrown (Client_error e)} \<Longrightarrow>
           length (c_str e) < 2147483000"
  shows "\<exists>resp w'. dispatch True funcs (call_object idx name xs) w = (Returned resp, w') \<and>
      resp_id resp = idx \<and> \<not> resp_empty resp"
proof (cases "funcs name")
  case None
  have "length (decimal (length xs)) \<le> 10"
    using assms(3) by (rule length_decimal)
  with None assms(1,2) show ?thesis
    by (simp add: dispatch_call_object could_not_find_def make_error_text_returns bytes_of_def
        make_error_def new_response_def)
next
  case (Some f)
  have "\<exists>resp. catch_call True idx name (ARRAY xs) (fst (f (ARRAY xs) w)) (snd (f (ARRAY xs) w)) =
      (Returned resp, snd (f (ARRAY xs) w)) \<and> resp_id resp = idx \<and> \<not> resp_empty resp"
    using assms(4,5) [OF Some] by (intro catch_call_suppressed assms(2,3)) auto
  with Some assms(1) show ?thesis
    by (auto simp: dispatch_call_object)
qed

text \<open>A counter as the application: \<open>add\<close> adds its argument and answers with the sum.\<close>

definition add_name :: "byte list" where "add_name = bytes_of ''add''"

definition add_func :: "32 word \<Rightarrow> (32 word, 32 word) action" where
  "add_func a w = (Returned (w + a), w + a)"

definition bind_add :: "32 word dispatcher \<Rightarrow> byte list + 32 word dispatcher" where
  "bind_add = bind_nonvoid_nonzero add_name 1 (convert_tuple1 convert_signed 0)
     (\<lambda>r. Some (object_signed r)) add_func"

definition add_server :: "32 word dispatcher" where
  "add_server = [add_name \<mapsto> nonvoid_nonzero_adaptor add_name 1 (convert_tuple1 convert_signed 0)
     (\<lambda>r. Some (object_signed r)) add_func]"

lemma bind_add_server: "bind_add Map.empty = Inr add_server"
  by (simp add: bind_add_def bind_nonvoid_nonzero_def insert_func_Inr add_server_def)

lemma bind_then_call_witness:
  "dispatch False add_server (call_object 7 add_name [POSITIVE_INTEGER 2]) 40 =
     (Returned (make_result 7 (POSITIVE_INTEGER 42)), 42)"
  using bind_then_call [of add_name 1 "convert_tuple1 convert_signed 0" "\<lambda>r. Some (object_signed r)"
      add_func Map.empty add_server 7 "[POSITIVE_INTEGER 2]" 2 40 42 42 "POSITIVE_INTEGER 42" False]
    bind_add_server
  by (simp add: bind_add_def convert_tuple1_def convert_element_def convert_signed_def add_func_def
      object_signed_def)

lemma object_string_small: "length s < 4294967296 \<Longrightarrow> object_string s = Some (Str s)"
  by (simp add: object_string_def checked_size)

lemma wrong_arity_witness:
  "(\<exists>e. dispatch True add_server (call_object 7 add_name []) 40 = (Returned (make_error 7 e), 40))
    \<and> dispatch False add_server (notification_object add_name []) 40 =
        (Thrown (Client_error (wrong_arity_text add_name 1 0)), 40)"
proof -
  let ?e = "bytes_of ''rpclib: '' @ c_str (wrong_arity_text add_name 1 0)"
  have "length ?e < 4294967296"
    by (simp add: bytes_of_def c_str_def wrong_arity_text_def add_name_def decimal_def to_string_def
        nat_digits.simps)
  then have "object_string ?e = Some (Str ?e)"
    by (rule object_string_small)
  then show ?thesis
    using wrong_arity [of add_name 1 "convert_tuple1 convert_signed 0" "\<lambda>r. Some (object_signed r)"
        add_func Map.empty add_server 7 "[]" "Str ?e" True 40] bind_add_server
    unfolding bind_add_def by fastforce
qed

lemma suppressed_calls_answer_witness:
  "\<exists>resp w'. dispatch True add_server (call_object 7 add_name [NIL]) 40 = (Returned resp, w') \<and>
      resp_id resp = 7 \<and> \<not> resp_empty resp"
  by (rule suppressed_calls_answer) (auto simp: add_name_def bytes_of_def add_server_def
      nonvoid_nonzero_adaptor_def enforce_arg_count_result convert_args_def convert_tuple1_def
      convert_element_def convert_signed_def throw_def type_error_def c_str_def)

end
