(* ===== verification/Rpc_Session.thy ===== *)
theory Rpc_Session
  imports Rpc_Dispatcher
begin

text \<open>
  What the server does with one message (\<open>server_session::do_read\<close> in \<open>server_session.cc\<close>): the
  task a worker thread runs, from clearing the thread-local objects (\<open>this_handler.cc\<close>,
  \<open>this_session.cc\<close>, \<open>this_server.cc\<close>) through the dispatch to the writes and requests it
  posts. The task of one message runs to its end before another on the same thread.
\<close>

section \<open>The thread-local objects\<close>

record 'app world =
  handler_error_obj :: object
  handler_resp_obj :: object
  resp_enabled :: bool
  session_exit :: bool
  session_id :: nat
  server_stopping :: bool
  app :: 'app

definition disable_response :: "('app world, unit) action" where
  "disable_response w = (Returned (), w\<lparr>resp_enabled := False\<rparr>)"

definition enable_response :: "('app world, unit) action" where
  "enable_response w = (Returned (), w\<lparr>resp_enabled := True\<rparr>)"

definition handler_clear :: "'app world \<Rightarrow> 'app world" where
  "handler_clear w = w\<lparr>handler_error_obj := NIL, handler_resp_obj := NIL, resp_enabled := True\<rparr>"

text \<open>The argument is packed into an object first, which can overflow a size.\<close>

definition respond_error :: "('r \<Rightarrow> object option) \<Rightarrow> 'r \<Rightarrow> ('app world, 'a) action" where
  "respond_error to_object err =
     (case to_object err of
        None \<Rightarrow> throw container_size_overflow
      | Some e \<Rightarrow> (\<lambda>w. (Thrown Handler_error, w\<lparr>handler_error_obj := e\<rparr>)))"

definition respond :: "('r \<Rightarrow> object option) \<Rightarrow> 'r \<Rightarrow> ('app world, unit) action" where
  "respond to_object resp =
     (case to_object resp of
        None \<Rightarrow> throw container_size_overflow
      | Some r \<Rightarrow> (\<lambda>w. (Returned (), w\<lparr>handler_resp_obj := r\<rparr>)))"

definition post_exit :: "('app world, unit) action" where
  "post_exit w = (Returned (), w\<lparr>session_exit := True\<rparr>)"

definition session_clear :: "'app world \<Rightarrow> 'app world" where
  "session_clear w = w\<lparr>session_exit := False\<rparr>"

definition set_id :: "nat \<Rightarrow> 'app world \<Rightarrow> 'app world" where
  "set_id value w = w\<lparr>session_id := value\<rparr>"

definition server_stop :: "('app world, unit) action" where
  "server_stop w = (Returned (), w\<lparr>server_stopping := True\<rparr>)"

definition cancel_stop :: "'app world \<Rightarrow> 'app world" where
  "cancel_stop w = w\<lparr>server_stopping := False\<rparr>"

section \<open>One message\<close>

text \<open>What the task posts to the write strand, in this order.\<close>

datatype post = Write "byte list" | Exit_session | Close_sessions

definition prepare :: "nat \<Rightarrow> 'app world \<Rightarrow> 'app world" where
  "prepare sid w = cancel_stop (set_id sid (session_clear (handler_clear w)))"

text \<open>An error set in the handler comes before a result set there, which comes before the response.\<close>

definition capture_special :: "response \<Rightarrow> 'app world \<Rightarrow> response option" where
  "capture_special resp w =
     (if \<not> is_nil (handler_error_obj w) then capture_error (handler_error_obj w) resp
      else if \<not> is_nil (handler_resp_obj w) then Some (capture_result (handler_resp_obj w) resp)
      else Some resp)"

definition post_write :: "response \<Rightarrow> post list" where
  "post_write resp =
     (if resp_empty resp then [] else case get_data resp of Some data \<Rightarrow> [Write data] | None \<Rightarrow> [])"

definition after_dispatch :: "response \<Rightarrow> ('app world, post list) action" where
  "after_dispatch resp w =
     (if \<not> resp_enabled w then (Returned [], w)
      else case capture_special resp w of
        None \<Rightarrow> (Undefined, w)
      | Some resp' \<Rightarrow>
          (Returned (post_write resp' @ (if session_exit w then [Exit_session] else []) @
             (if server_stopping w then [Close_sessions] else [])), w))"

definition process_message ::
    "nat \<Rightarrow> bool \<Rightarrow> 'app world dispatcher \<Rightarrow> object \<Rightarrow> ('app world, post list) action" where
  "process_message sid suppress_exceptions disp msg w =
     andthen (dispatch suppress_exceptions disp msg) after_dispatch (prepare sid w)"

section \<open>Lemmas\<close>

lemma prepare_sel [simp]:
  "handler_error_obj (prepare sid w) = NIL" "handler_resp_obj (prepare sid w) = NIL"
  "resp_enabled (prepare sid w)" "\<not> session_exit (prepare sid w)"
  "\<not> server_stopping (prepare sid w)" "app (prepare sid w) = app w" "session_id (prepare sid w) = sid"
  by (simp_all add: prepare_def cancel_stop_def set_id_def session_clear_def handler_clear_def)

lemma post_write_object [simp]:
  "post_write resp = (if resp_empty resp then [] else [Write (pack_object (response_object resp))])"
  by (simp add: post_write_def get_data_object)

text \<open>A handler that leaves the three objects alone.\<close>

definition plain :: "'app world \<Rightarrow> bool" where
  "plain w \<longleftrightarrow> handler_error_obj w = NIL \<and> handler_resp_obj w = NIL \<and> resp_enabled w \<and>
     \<not> session_exit w \<and> \<not> server_stopping w"

lemma after_dispatch_plain:
  "plain w \<Longrightarrow> after_dispatch resp w = (Returned (post_write resp), w)"
  by (simp add: after_dispatch_def plain_def capture_special_def is_nil_def)

text \<open>A clean start: what earlier messages left in the thread-local objects has no effect.\<close>

lemma prepare_determined: "app v = app w \<Longrightarrow> prepare sid v = prepare sid w"
  by (simp add: prepare_def cancel_stop_def set_id_def session_clear_def handler_clear_def)

lemma process_message_determined:
  "app v = app w \<Longrightarrow> process_message sid suppress disp msg v = process_message sid suppress disp msg w"
  by (simp add: process_message_def prepare_determined [of v w])

lemma process_message_returned:
  "dispatch suppress disp msg (prepare sid w) = (Returned resp, w') \<Longrightarrow>
   process_message sid suppress disp msg w = after_dispatch resp w'"
  by (simp add: process_message_def andthen_def)

section \<open>Properties\<close>

lemma sent_for_message:
  assumes "dispatch suppress disp msg (prepare sid w) = (Returned resp, w')"
  shows "process_message sid suppress disp msg w =
    (if \<not> resp_enabled w' then (Returned [], w')
     else if handler_error_obj w' \<noteq> NIL \<and> resp_error resp = None then (Undefined, w')
     else (Returned
        ((if resp_empty resp then []
          else [Write (pack_object (ARRAY
             [POSITIVE_INTEGER 1, POSITIVE_INTEGER (ucast (resp_id resp)),
              if handler_error_obj w' \<noteq> NIL then handler_error_obj w'
              else (case resp_error resp of Some e \<Rightarrow> e | None \<Rightarrow> NIL),
              if handler_error_obj w' = NIL \<and> handler_resp_obj w' \<noteq> NIL then handler_resp_obj w'
              else (case resp_result resp of Some r \<Rightarrow> r | None \<Rightarrow> NIL)]))]) @
         (if session_exit w' then [Exit_session] else []) @
         (if server_stopping w' then [Close_sessions] else [])), w'))"
  using assms
  by (auto simp: process_message_returned after_dispatch_def capture_special_def capture_error_def
      capture_result_def is_nil_def response_object_def split: option.split)

text \<open>
  What is sent for a message whose dispatch returned. With the response enabled, it is the
  response with the error the handler has set, or else the result it has set; nothing is sent
  for an empty response without an error; a request to exit the session or to stop the server
  is posted after the write. With the response disabled nothing is posted, not even the
  requests to exit or to stop.
\<close>
theorem reply_precedence:
  assumes "dispatch suppress disp msg (prepare sid w) = (Returned resp, w')"
  shows "process_message sid suppress disp msg w =
    (if \<not> resp_enabled w' then (Returned [], w')
     else if handler_error_obj w' \<noteq> NIL \<and> resp_error resp = None then (Undefined, w')
     else (Returned
        ((if resp_empty resp then []
          else [Write (pack_object (ARRAY
             [POSITIVE_INTEGER 1, POSITIVE_INTEGER (ucast (resp_id resp)),
              if handler_error_obj w' \<noteq> NIL then handler_error_obj w'
              else (case resp_error resp of Some e \<Rightarrow> e | None \<Rightarrow> NIL),
              if handler_error_obj w' = NIL \<and> handler_resp_obj w' \<noteq> NIL then handler_resp_obj w'
              else (case resp_result resp of Some r \<Rightarrow> r | None \<Rightarrow> NIL)]))]) @
         (if session_exit w' then [Exit_session] else []) @
         (if server_stopping w' then [Close_sessions] else [])), w'))"
  using assms by (rule sent_for_message)

text \<open>
  A handler that reports an error with \<open>respond_error\<close> answers a call with that error and
  no result. Invoked by a notification, the same handler makes the server write through a null
  pointer.
\<close>
theorem respond_error_reply:
  assumes "disp name = Some f" and "f (ARRAY args) (prepare sid w) = (Thrown Handler_error, w')"
    and "handler_error_obj w' = e" "e \<noteq> NIL" "resp_enabled w'" "\<not> session_exit w'" "\<not> server_stopping w'"
    and "0 \<le> sint idx" "length name < 2147483000" "length args < 4294967296"
  shows "process_message sid suppress disp (call_object idx name args) w =
      (Returned [Write (pack_object (ARRAY [POSITIVE_INTEGER 1, POSITIVE_INTEGER (ucast idx), e, NIL]))], w')
    \<and> process_message sid suppress disp (notification_object name args) w = (Undefined, w')"
proof (intro conjI)
  have "length (decimal (length args)) \<le> 10"
    using assms(10) by (rule length_decimal)
  then obtain msg_text where "dispatch suppress disp (call_object idx name args) (prepare sid w) =
      (Returned (make_error idx (Str msg_text)), w')"
    using assms by (simp add: dispatch_call_object catch_call_def could_not_find_def
        make_error_text_returns bytes_of_def)
  from sent_for_message [OF this] assms
  show "process_message sid suppress disp (call_object idx name args) w =
      (Returned [Write (pack_object (ARRAY [POSITIVE_INTEGER 1, POSITIVE_INTEGER (ucast idx), e, NIL]))], w')"
    by (simp add: make_error_def new_response_def del: pack_object.simps)
next
  have "dispatch suppress disp (notification_object name args) (prepare sid w) = (Returned empty_response, w')"
    using assms by (simp add: dispatch_notification_object catch_notification_def return_with_def)
  from sent_for_message [OF this] assms
  show "process_message sid suppress disp (notification_object name args) w = (Undefined, w')"
    by (simp add: empty_response_def new_response_def)
qed

text \<open>A server with a function that fails and one that answers twice, with flags set on the way.\<close>

definition fail_name :: "byte list" where "fail_name = bytes_of ''fail''"
definition twice_name :: "byte list" where "twice_name = bytes_of ''twice''"

definition session_server :: "unit world dispatcher" where
  "session_server =
     [fail_name \<mapsto> void_zero_adaptor fail_name (respond_error (\<lambda>r. Some (object_bool r)) True),
      twice_name \<mapsto> void_zero_adaptor twice_name
        (andthen (respond (\<lambda>r. Some (object_bool r)) True) (\<lambda>_. post_exit))]"

definition start_world :: "unit world" where
  "start_world = \<lparr>handler_error_obj = NIL, handler_resp_obj = NIL, resp_enabled = True,
     session_exit = False, session_id = 0, server_stopping = False, app = ()\<rparr>"

lemma session_server_runs:
  "void_zero_adaptor fail_name (respond_error (\<lambda>r. Some (object_bool r)) True) (ARRAY []) (w :: unit world) =
     (Thrown Handler_error, w\<lparr>handler_error_obj := BOOLEAN True\<rparr>)"
  "void_zero_adaptor twice_name (andthen (respond (\<lambda>r. Some (object_bool r)) True) (\<lambda>_. post_exit)) (ARRAY []) w =
     (Returned NIL, w\<lparr>handler_resp_obj := BOOLEAN True, session_exit := True\<rparr>)"
  by (simp_all add: void_zero.bound_run andthen_def respond_error_def respond_def post_exit_def
      object_bool_def return_with_def)

lemma session_names [simp]: "fail_name \<noteq> twice_name" "twice_name \<noteq> fail_name"
    "length fail_name = 4" "length twice_name = 5"
  by (simp_all add: fail_name_def twice_name_def bytes_of_def)

lemma reply_precedence_witness:
  "process_message 1 False session_server (call_object 5 twice_name []) start_world =
     (Returned [Write (pack_object (ARRAY [POSITIVE_INTEGER 1, POSITIVE_INTEGER 5, NIL, BOOLEAN True])),
        Exit_session],
      (prepare 1 start_world)\<lparr>handler_resp_obj := BOOLEAN True, session_exit := True\<rparr>)"
proof -
  have "dispatch False session_server (call_object 5 twice_name []) (prepare 1 start_world) =
      (Returned (make_result 5 NIL),
       (prepare 1 start_world)\<lparr>handler_resp_obj := BOOLEAN True, session_exit := True\<rparr>)"
    by (simp add: dispatch_call_object session_server_def session_server_runs catch_call_def return_with_def)
  from reply_precedence [OF this] show ?thesis
    by (simp add: make_result_def new_response_def del: pack_object.simps)
qed

lemma respond_error_reply_witness:
  "process_message 1 False session_server (call_object 5 fail_name []) start_world =
     (Returned [Write (pack_object (ARRAY [POSITIVE_INTEGER 1, POSITIVE_INTEGER 5, BOOLEAN True, NIL]))],
      (prepare 1 start_world)\<lparr>handler_error_obj := BOOLEAN True\<rparr>) \<and>
   process_message 1 False session_server (notification_object fail_name []) start_world =
     (Undefined, (prepare 1 start_world)\<lparr>handler_error_obj := BOOLEAN True\<rparr>)"
proof -
  let ?f = "void_zero_adaptor fail_name (respond_error (\<lambda>r. Some (object_bool r)) True) :: unit world adaptor"
  have "session_server fail_name = Some ?f"
    by (simp add: session_server_def)
  then show ?thesis
    using respond_error_reply [of session_server fail_name ?f "[]" 1 start_world
        "(prepare 1 start_world)\<lparr>handler_error_obj := BOOLEAN True\<rparr>" "BOOLEAN True" 5 False]
      session_server_runs(1) [of "prepare 1 start_world"]
    by (simp del: pack_object.simps)
qed

end
