(* ===== verification/Rpc_Writer.thy ===== *)
theory Rpc_Writer
  imports MR_Prelude "HOL-Library.Word" "HOL-Library.Sublist"
begin

text \<open>
  The write queue both ends of a connection use (\<open>async_writer.h\<close>): writes are queued, one
  asynchronous write is under way at a time, and its completion starts the next. The socket
  takes the bytes of an item in pieces of any size; a write can fail, and the session can be
  asked to exit, at any time. All functions here run one at a time, in the strand.
\<close>

section \<open>The writer\<close>

text \<open>
  \<open>writing\<close> is an \<open>async_write\<close> whose handler has not run, \<open>sent\<close> the bytes of the front item
  the socket has taken and \<open>wire\<close> all the bytes it has taken. \<open>None\<close> is undefined behaviour
  (\<open>front\<close> or \<open>pop_front\<close> of an empty queue).
\<close>

record writer =
  write_queue :: "8 word list list"
  writing :: bool
  sent :: nat
  wire :: "8 word list"
  writer_exit :: bool
  socket_open :: bool

definition new_writer :: writer where
  "new_writer = \<lparr>write_queue = [], writing = False, sent = 0, wire = [], writer_exit = False, socket_open = True\<rparr>"

definition do_write :: "writer \<Rightarrow> writer option" where
  "do_write w =
     (if writer_exit w then Some w
      else if write_queue w = [] then None
      else Some (w\<lparr>writing := True, sent := 0\<rparr>))"

definition writer_write :: "8 word list \<Rightarrow> writer \<Rightarrow> writer option" where
  "writer_write data w =
     (let w' = w\<lparr>write_queue := write_queue w @ [data]\<rparr>
      in if length (write_queue w') > 1 then Some w' else do_write w')"

text \<open>The socket takes the next \<open>n\<close> bytes of the item being written.\<close>

definition transfer :: "nat \<Rightarrow> writer \<Rightarrow> writer" where
  "transfer n w =
     w\<lparr>wire := wire w @ take n (drop (sent w) (hd (write_queue w))), sent := sent w + n\<rparr>"

definition close_on_exit :: "writer \<Rightarrow> writer" where
  "close_on_exit w = (if writer_exit w then w\<lparr>socket_open := False\<rparr> else w)"

definition write_handler :: "bool \<Rightarrow> writer \<Rightarrow> writer option" where
  "write_handler ok w =
     (let w = w\<lparr>writing := False\<rparr>
      in map_option close_on_exit
        (if ok then
           (if write_queue w = [] then None
            else let w = w\<lparr>write_queue := tl (write_queue w), sent := 0\<rparr>
                 in if write_queue w \<noteq> [] then (if \<not> writer_exit w then do_write w else Some w)
                    else Some w)
         else Some w))"

text \<open>Setting \<open>exit_\<close>, and \<open>server_session::close\<close>.\<close>

definition request_exit :: "writer \<Rightarrow> writer" where
  "request_exit w = w\<lparr>writer_exit := True\<rparr>"

definition close_session :: "writer \<Rightarrow> writer" where
  "close_session w = w\<lparr>writer_exit := True, socket_open := False\<rparr>"

section \<open>Its steps\<close>

datatype writer_event = Put "8 word list" | Transfer nat | Complete | Fail | Exit | Close

inductive writer_step :: "writer \<Rightarrow> writer_event \<Rightarrow> writer option \<Rightarrow> bool" where
  put: "writer_step w (Put data) (writer_write data w)"
| transfer: "writing w \<Longrightarrow> 0 < n \<Longrightarrow> sent w + n \<le> length (hd (write_queue w)) \<Longrightarrow>
    writer_step w (Transfer n) (Some (transfer n w))"
| complete: "writing w \<Longrightarrow> sent w = length (hd (write_queue w)) \<Longrightarrow>
    writer_step w Complete (write_handler True w)"
| failure: "writing w \<Longrightarrow> writer_step w Fail (write_handler False w)"
| exit: "writer_step w Exit (Some (request_exit w))"
| close: "writer_step w Close (Some (close_session w))"

inductive_simps put_simps: "writer_step w (Put data) r"
inductive_simps transfer_simps: "writer_step w (Transfer n) r"
inductive_simps complete_simps: "writer_step w Complete r"
inductive_simps fail_simps: "writer_step w Fail r"
inductive_simps exit_simps: "writer_step w Exit r"
inductive_simps close_simps: "writer_step w Close r"

lemmas writer_step_simps = put_simps transfer_simps complete_simps fail_simps exit_simps close_simps

inductive writer_steps :: "writer \<Rightarrow> writer_event list \<Rightarrow> writer \<Rightarrow> bool" where
  start: "writer_steps w [] w"
| step: "writer_steps w es u \<Longrightarrow> writer_step u e (Some v) \<Longrightarrow> writer_steps w (es @ [e]) v"

abbreviation writer_run :: "writer_event list \<Rightarrow> writer \<Rightarrow> bool" where
  "writer_run \<equiv> writer_steps new_writer"

lemmas writer_ops = do_write_def writer_write_def transfer_def close_on_exit_def write_handler_def
  request_exit_def close_session_def Let_def

text \<open>The bytes that were handed over and are not yet on the wire.\<close>

definition pending :: "writer \<Rightarrow> 8 word list" where
  "pending w = drop (sent w) (concat (write_queue w))"

definition puts :: "writer_event list \<Rightarrow> 8 word list list" where
  "puts es = concat (map (\<lambda>e. case e of Put data \<Rightarrow> [data] | _ \<Rightarrow> []) es)"

lemma puts_simps [simp]:
  "puts [] = []" "puts (es @ [Put data]) = puts es @ [data]"
  "puts (es @ [Transfer n]) = puts es" "puts (es @ [Complete]) = puts es" "puts (es @ [Fail]) = puts es"
  "puts (es @ [Exit]) = puts es" "puts (es @ [Close]) = puts es"
  by (simp_all add: puts_def)

section \<open>The invariant\<close>

text \<open>
  At most one write, of the front item; while neither an exit was requested nor a write has
  failed, a queue that is not empty is being written.
\<close>

definition writer_inv :: "bool \<Rightarrow> writer \<Rightarrow> bool" where
  "writer_inv failed w \<longleftrightarrow>
     (writing w \<longrightarrow> write_queue w \<noteq> []) \<and>
     (write_queue w = [] \<longrightarrow> sent w = 0) \<and>
     (write_queue w \<noteq> [] \<longrightarrow> sent w \<le> length (hd (write_queue w))) \<and>
     (\<not> failed \<longrightarrow> \<not> writing w \<longrightarrow> sent w = 0) \<and>
     (\<not> writer_exit w \<longrightarrow> \<not> failed \<longrightarrow> write_queue w \<noteq> [] \<longrightarrow> writing w)"

definition is_failure :: "writer_event \<Rightarrow> bool" where
  "is_failure e = (case e of Fail \<Rightarrow> True | _ \<Rightarrow> False)"

lemma writer_inv_step:
  assumes "writer_inv failed w" "writer_step w e r"
  shows "\<exists>w'. r = Some w' \<and> writer_inv (failed \<or> is_failure e) w'"
  using assms(2)
proof cases
  case (put data)
  with assms(1) show ?thesis
    by (cases "write_queue w") (auto simp: writer_inv_def writer_ops is_failure_def)
next
  case (transfer n)
  with assms(1) show ?thesis
    by (auto simp: writer_inv_def writer_ops is_failure_def)
next
  case complete
  with assms(1) show ?thesis
    by (cases "write_queue w"; cases "tl (write_queue w)")
      (auto simp: writer_inv_def writer_ops is_failure_def)
qed (use assms(1) in \<open>auto simp: writer_inv_def writer_ops is_failure_def\<close>)

section \<open>Refinement of a pipe\<close>

text \<open>
  What a writer promises is a pipe: bytes put in at one end come out at the other in the same
  order. The pipe is the bytes still inside and the bytes that have come out.
\<close>

definition pipe :: "writer_event \<Rightarrow> 8 word list \<times> 8 word list \<Rightarrow> 8 word list \<times> 8 word list" where
  "pipe e p =
     (case e of
        Put data \<Rightarrow> (fst p @ data, snd p)
      | Transfer n \<Rightarrow> (drop n (fst p), snd p @ take n (fst p))
      | _ \<Rightarrow> p)"

definition pipe_of :: "writer \<Rightarrow> 8 word list \<times> 8 word list" where
  "pipe_of w = (pending w, wire w)"

lemma pipe_step:
  assumes "writer_inv failed w" "writer_step w e (Some w')"
  shows "pipe_of w' = pipe e (pipe_of w)"
  using assms(2)
proof cases
  case (put data)
  with assms(1) show ?thesis
    by (cases "write_queue w")
      (auto simp: writer_inv_def writer_ops pipe_of_def pipe_def pending_def split: if_splits)
next
  case (transfer n)
  with assms(1) show ?thesis
    by (cases "write_queue w")
      (auto simp: writer_inv_def writer_ops pipe_of_def pipe_def pending_def add.commute)
next
  case complete
  with assms(1) show ?thesis
    by (cases "write_queue w")
      (auto simp: writer_inv_def writer_ops pipe_of_def pipe_def pending_def split: if_splits)
qed (use assms(1) in \<open>auto simp: writer_inv_def writer_ops pipe_of_def pipe_def pending_def split: if_splits\<close>)

definition has_failed :: "writer_event list \<Rightarrow> bool" where
  "has_failed es \<longleftrightarrow> (\<exists>e \<in> set es. is_failure e)"

lemma has_failed_simps [simp]: "\<not> has_failed []" "has_failed (es @ es') \<longleftrightarrow> has_failed es \<or> has_failed es'"
    "has_failed [e] \<longleftrightarrow> is_failure e"
  by (auto simp: has_failed_def)

lemma run_inv: "writer_run es w \<Longrightarrow> writer_inv (has_failed es) w"
proof (induction new_writer es w rule: writer_steps.induct)
  case start
  show ?case by (simp add: writer_inv_def new_writer_def)
next
  case (step es w e w')
  then show ?case
    using writer_inv_step [of "has_failed es" w e "Some w'"] by auto
qed

lemma run_bytes: "writer_run es w \<Longrightarrow> wire w @ pending w = concat (puts es)"
proof (induction new_writer es w rule: writer_steps.induct)
  case start
  show ?case by (simp add: new_writer_def pending_def)
next
  case (step es w e w')
  then show ?case
    using pipe_step [OF run_inv [OF step(1)] step(3)]
    by (cases e) (auto simp: pipe_of_def pipe_def)
qed

text \<open>Nothing but the socket at work: it takes bytes or reports that an item is written.\<close>

definition socket_event :: "writer_event \<Rightarrow> bool" where
  "socket_event e = (case e of Transfer n \<Rightarrow> True | Complete \<Rightarrow> True | _ \<Rightarrow> False)"

definition clean :: "writer_event \<Rightarrow> bool" where
  "clean e = (case e of Fail \<Rightarrow> False | Exit \<Rightarrow> False | Close \<Rightarrow> False | _ \<Rightarrow> True)"

lemma socket_clean: "socket_event e \<Longrightarrow> clean e"
  by (cases e) (simp_all add: socket_event_def clean_def)

lemma clean_not_failed: "list_all clean es \<Longrightarrow> \<not> has_failed es"
  by (auto simp: has_failed_def list_all_iff clean_def is_failure_def split: writer_event.splits)

lemma clean_exit: "writer_run es w \<Longrightarrow> list_all clean es \<Longrightarrow> \<not> writer_exit w"
proof (induction new_writer es w rule: writer_steps.induct)
  case (step es w e w')
  then show ?case
    by (cases e) (auto simp: clean_def writer_step_simps writer_ops split: if_splits)
qed (simp add: new_writer_def)

definition work_left :: "writer \<Rightarrow> nat" where
  "work_left w = length (pending w) + length (write_queue w)"

lemma socket_step_work:
  assumes "writer_inv failed w" "writer_step w e (Some w')" "socket_event e"
  shows "work_left w' < work_left w"
proof (cases e)
  case (Transfer n)
  with assms show ?thesis
    by (cases "write_queue w")
      (auto simp: transfer_simps writer_inv_def writer_ops work_left_def pending_def)
next
  case Complete
  with assms show ?thesis
    by (cases "write_queue w")
      (auto simp: complete_simps writer_inv_def writer_ops work_left_def pending_def split: if_splits)
qed (use assms in \<open>simp_all add: socket_event_def\<close>)

lemma socket_goes_on:
  assumes "writer_inv False w" "\<not> writer_exit w" "write_queue w \<noteq> []"
  shows "\<exists>e w'. socket_event e \<and> writer_step w e (Some w')"
proof -
  have w: "writing w" "sent w \<le> length (hd (write_queue w))"
    using assms by (auto simp: writer_inv_def)
  show ?thesis
  proof (cases "sent w = length (hd (write_queue w))")
    case True
    then have "writer_step w Complete (write_handler True w)"
      using w by (intro complete)
    moreover have "\<exists>w'. write_handler True w = Some w'"
      using writer_inv_step [OF assms(1) calculation] by blast
    ultimately show ?thesis
      by (intro exI [of _ Complete]) (auto simp: socket_event_def)
  next
    case False
    then have "writer_step w (Transfer 1) (Some (transfer 1 w))"
      using w by (intro writer_step.transfer) auto
    then show ?thesis
      by (intro exI [of _ "Transfer 1"] exI) (simp add: socket_event_def)
  qed
qed

lemma steps_append: "writer_steps w es' w' \<Longrightarrow> writer_run es w \<Longrightarrow> writer_run (es @ es') w'"
  by (induction rule: writer_steps.induct) (auto simp flip: append_assoc intro: step)

lemma puts_socket: "list_all socket_event es' \<Longrightarrow> puts (es @ es') = puts es"
  by (auto simp: puts_def list_all_iff socket_event_def split: writer_event.splits)

lemma socket_work:
  "writer_steps w socket w' \<Longrightarrow> list_all socket_event socket \<Longrightarrow> writer_run es w \<Longrightarrow> list_all clean es \<Longrightarrow>
   length socket + work_left w' \<le> work_left w"
proof (induction rule: writer_steps.induct)
  case (step w socket u e v)
  have "writer_run (es @ socket) u"
    using steps_append [OF step(1)] step by blast
  then have "work_left v < work_left u"
    using socket_step_work [OF run_inv step(2)] step by simp
  then show ?case
    using step by simp
qed simp

section \<open>Properties\<close>

text \<open>
  C33. The write queue is a pipe: every operation does to the bytes inside and the bytes that
  came out what the pipe does, and none of them touches an empty queue.
\<close>
theorem writer_refines_pipe:
  assumes "writer_run es w" "writer_step w e r"
  shows "\<exists>w'. r = Some w' \<and> pipe_of w' = pipe e (pipe_of w)"
  using writer_inv_step [OF run_inv [OF assms(1)] assms(2)] pipe_step [OF run_inv [OF assms(1)]] assms(2)
  by blast

text \<open>
  C34. No write is lost or forgotten: as long as no write fails and no exit is requested, the
  bytes on the wire are a start of what was written, in order; however the socket goes on, it
  comes to an end within the given number of steps, and only with everything on the wire.
\<close>
theorem writer_drains:
  assumes "writer_run es w" "list_all clean es" "writer_steps w socket w'" "list_all socket_event socket"
  shows "prefix (wire w') (concat (puts es))
    \<and> length socket \<le> length (pending w) + length (write_queue w)
    \<and> (wire w' = concat (puts es) \<and> write_queue w' = [] \<or>
       (\<exists>e w''. socket_event e \<and> writer_step w' e (Some w'')))"
proof -
  have run: "writer_run (es @ socket) w'"
    using assms(3,1) by (rule steps_append)
  have clean: "list_all clean (es @ socket)"
    using assms(2,4) by (auto simp: list_all_iff socket_clean)
  have inv: "writer_inv False w'"
    using run_inv [OF run] clean_not_failed [OF clean] by simp
  have bytes: "wire w' @ pending w' = concat (puts es)"
    using run_bytes [OF run] puts_socket [OF assms(4)] by simp
  have "length socket + work_left w' \<le> work_left w"
    using assms(3,4,1,2) by (rule socket_work)
  moreover have "wire w' = concat (puts es)" if "write_queue w' = []"
    using bytes that by (simp add: pending_def)
  ultimately show ?thesis
    using bytes socket_goes_on [OF inv clean_exit [OF run clean]]
    by (auto simp: work_left_def intro: prefixI [OF sym])
qed

text \<open>Two items, the first of which is on its way.\<close>

definition sample_writer :: writer where
  "sample_writer = \<lparr>write_queue = [[1, 2], [3]], writing = True, sent = 1, wire = [1], writer_exit = False,
     socket_open = True\<rparr>"

definition drained_writer :: writer where
  "drained_writer = sample_writer\<lparr>write_queue := [], writing := False, sent := 0, wire := [1, 2, 3]\<rparr>"

lemma sample_run: "writer_run [Put [1, 2], Put [3], Transfer 1] sample_writer"
proof -
  have "writer_run ((([] @ [Put [1, 2]]) @ [Put [3]]) @ [Transfer 1]) sample_writer"
    by (rule step, rule step, rule step, rule start)
      ((simp add: writer_step_simps writer_ops new_writer_def sample_writer_def; fail)+)
  then show ?thesis by simp
qed

lemma sample_drain: "writer_steps sample_writer [Transfer 1, Complete, Transfer 1, Complete] drained_writer"
proof -
  have "writer_steps sample_writer (((([] @ [Transfer 1]) @ [Complete]) @ [Transfer 1]) @ [Complete]) drained_writer"
    by (rule step, rule step, rule step, rule step, rule start)
      ((simp add: writer_step_simps writer_ops sample_writer_def drained_writer_def; fail)+)
  then show ?thesis by simp
qed

lemma writer_refines_pipe_witness:
  "\<exists>w'. write_handler False sample_writer = Some w' \<and> pipe_of w' = ([2, 3], [1])"
  using writer_refines_pipe [OF sample_run failure]
  by (simp add: sample_writer_def pipe_def pipe_of_def pending_def)

lemma writer_drains_witness:
  "prefix (wire drained_writer) [1, 2, 3] \<and> (4 :: nat) \<le> length (pending sample_writer) + 2"
  using writer_drains [OF sample_run _ sample_drain]
  by (simp add: clean_def socket_event_def sample_writer_def puts_def)

end
