(* ===== verification/Rpc_Client.thy ===== *)
theory Rpc_Client
  imports Rpc_Session Rpc_Writer
begin

text \<open>
  The RPC client (\<open>client.h\<close>, \<open>client.inl\<close>, \<open>client.cc\<close>): numbering the calls, the table of
  ongoing calls, the promises behind the futures, and what the input/output thread does with a
  posted call and with a response. That thread is one, so its handlers do not overlap.
\<close>

section \<open>State\<close>

text \<open>
  An entry of \<open>ongoing_calls_\<close>: the name and the promise. The promise is one a caller holds the
  future of, or (\<open>None\<close>) the fresh one \<open>operator[]\<close> makes for a number that is not there.
\<close>

record call_entry =
  func_name :: "byte list"
  promise :: "nat option"
  satisfied :: bool

datatype future_state = Waiting | Value object | Rpc_error "byte list" object | Broken_promise

datatype client_task = Post_call "32 word" "byte list" nat "byte list" | Post_send "byte list" | Erase "32 word"

record client =
  call_idx :: "32 word"
  ongoing_calls :: "32 word \<rightharpoonup> call_entry"
  io_tasks :: "client_task list"
  futures :: "nat \<Rightarrow> future_state"
  promises :: nat
  writer_of :: writer
  call_timeout :: "int option"

definition new_client :: client where
  "new_client = \<lparr>call_idx = 0, ongoing_calls = Map.empty, io_tasks = [], futures = (\<lambda>_. Waiting),
     promises = 0, writer_of = new_writer, call_timeout = None\<rparr>"

section \<open>The callers' side\<close>

definition get_next_call_idx :: "client \<Rightarrow> 32 word \<times> client" where
  "get_next_call_idx c = (let c' = c\<lparr>call_idx := call_idx c + 1\<rparr> in (call_idx c', c'))"

definition post_call :: "byte list \<Rightarrow> 32 word \<Rightarrow> byte list \<Rightarrow> nat \<Rightarrow> client \<Rightarrow> client" where
  "post_call buffer idx name p c = c\<lparr>io_tasks := io_tasks c @ [Post_call idx name p buffer]\<rparr>"

definition post_buffer :: "byte list \<Rightarrow> client \<Rightarrow> client" where
  "post_buffer buffer c = c\<lparr>io_tasks := io_tasks c @ [Post_send buffer]\<rparr>"

text \<open>The future of the call, or \<open>None\<close> when packing throws; the number is used up either way.\<close>

definition client_async_call :: "byte list \<Rightarrow> object list \<Rightarrow> client \<Rightarrow> nat option \<times> client" where
  "client_async_call name args c =
     (let (idx, c) = get_next_call_idx c
      in case pack_call idx name args of
        None \<Rightarrow> (None, c)
      | Some buffer \<Rightarrow>
          let p = promises c; c = c\<lparr>promises := p + 1\<rparr>
          in (Some p, post_call buffer idx name p c))"

definition client_send :: "byte list \<Rightarrow> object list \<Rightarrow> client \<Rightarrow> client option" where
  "client_send name args c =
     (case pack_notification name args of None \<Rightarrow> None | Some buffer \<Rightarrow> Some (post_buffer buffer c))"

definition set_timeout :: "int \<Rightarrow> client \<Rightarrow> client" where
  "set_timeout value_ms c = c\<lparr>call_timeout := Some value_ms\<rparr>"

definition clear_timeout :: "client \<Rightarrow> client" where
  "clear_timeout c = c\<lparr>call_timeout := None\<rparr>"

definition timeout_text :: "int \<Rightarrow> byte list \<Rightarrow> byte list" where
  "timeout_text ms name =
     bytes_of ''rpc::timeout: Timeout of '' @ bytes_of (to_string ms) @
     bytes_of ''ms while calling RPC function '' @ bytes_of [CHR 0x27] @ name @ bytes_of [CHR 0x27]"

text \<open>
  How \<open>client::call\<close> ends, in the client as it is when the waiting is over: with a timeout set
  it gives up on a future that is not ready, without one it waits on.
\<close>

datatype call_result = Got object | Failed "byte list" object | Broken | Timed_out "byte list" | Waits

definition client_await :: "byte list \<Rightarrow> nat \<Rightarrow> client \<Rightarrow> call_result" where
  "client_await name p c =
     (case futures c p of
        Value v \<Rightarrow> Got v
      | Rpc_error n e \<Rightarrow> Failed n e
      | Broken_promise \<Rightarrow> Broken
      | Waiting \<Rightarrow>
          (case call_timeout c of Some ms \<Rightarrow> Timed_out (timeout_text ms name) | None \<Rightarrow> Waits))"

section \<open>The input/output thread\<close>

definition write_out :: "byte list \<Rightarrow> client \<Rightarrow> client option" where
  "write_out buffer c = map_option (\<lambda>w. c\<lparr>writer_of := w\<rparr>) (writer_write buffer (writer_of c))"

text \<open>A promise that is destroyed before it has a value.\<close>

definition drop_promise :: "call_entry \<Rightarrow> client \<Rightarrow> client" where
  "drop_promise e c =
     (case promise e of
        Some p \<Rightarrow> if satisfied e then c else c\<lparr>futures := (futures c)(p := Broken_promise)\<rparr>
      | None \<Rightarrow> c)"

text \<open>\<open>insert\<close> keeps an entry that is there; the promise of the new one goes.\<close>

definition insert_call :: "32 word \<Rightarrow> byte list \<Rightarrow> nat \<Rightarrow> client \<Rightarrow> client" where
  "insert_call idx name p c =
     (let e = \<lparr>func_name = name, promise = Some p, satisfied = False\<rparr>
      in case ongoing_calls c idx of
        None \<Rightarrow> c\<lparr>ongoing_calls := (ongoing_calls c)(idx \<mapsto> e)\<rparr>
      | Some _ \<Rightarrow> drop_promise e c)"

definition erase_call :: "32 word \<Rightarrow> client \<Rightarrow> client" where
  "erase_call i c =
     (case ongoing_calls c i of
        None \<Rightarrow> c
      | Some e \<Rightarrow> (drop_promise e c)\<lparr>ongoing_calls := (ongoing_calls c)(i := None)\<rparr>)"

definition run_task :: "client_task \<Rightarrow> client \<Rightarrow> client option" where
  "run_task t c =
     (case t of
        Post_call idx name p buffer \<Rightarrow> write_out buffer (insert_call idx name p c)
      | Post_send buffer \<Rightarrow> write_out buffer c
      | Erase i \<Rightarrow> Some (erase_call i c))"

text \<open>
  The value or the exception a response puts into the promise. Setting one that is satisfied
  throws, from the handler of the exception too: the thread, and with it the process, ends.
\<close>

definition outcome_of :: "byte list \<Rightarrow> response \<Rightarrow> future_state" where
  "outcome_of name r =
     (case resp_error r of
        Some e \<Rightarrow> Rpc_error name e
      | None \<Rightarrow> Value (case resp_result r of Some v \<Rightarrow> v | None \<Rightarrow> NIL))"

definition set_promise :: "32 word \<Rightarrow> call_entry \<Rightarrow> future_state \<Rightarrow> client \<Rightarrow> client option" where
  "set_promise i e v c =
     (if satisfied e then None
      else Some (c\<lparr>ongoing_calls := (ongoing_calls c)(i \<mapsto> e\<lparr>satisfied := True\<rparr>),
                  futures := (case promise e of Some p \<Rightarrow> (futures c)(p := v) | None \<Rightarrow> futures c)\<rparr>))"

definition current_call :: "32 word \<Rightarrow> client \<Rightarrow> call_entry" where
  "current_call i c =
     (case ongoing_calls c i of
        Some e \<Rightarrow> e
      | None \<Rightarrow> \<lparr>func_name = [], promise = None, satisfied = False\<rparr>)"

definition handle_response :: "response \<Rightarrow> client \<Rightarrow> client option" where
  "handle_response r c =
     (let i = resp_id r; e = current_call i c
      in map_option (\<lambda>c. c\<lparr>io_tasks := io_tasks c @ [Erase i]\<rparr>)
           (set_promise i e (outcome_of (func_name e) r) c))"

definition receive_object :: "object \<Rightarrow> client \<Rightarrow> client option" where
  "receive_object obj c =
     (case response_of_object obj of None \<Rightarrow> None | Some r \<Rightarrow> handle_response r c)"

section \<open>Runs\<close>

text \<open>What the callers asked for, in the order they did, with the number and the promise of a call.\<close>

datatype request = Call_req "32 word" "byte list" "object list" nat | Send_req "byte list" "object list"

definition request_object :: "request \<Rightarrow> object" where
  "request_object q =
     (case q of
        Call_req i name args p \<Rightarrow> call_object i name args
      | Send_req name args \<Rightarrow> notification_object name args)"

definition post_of :: "request \<Rightarrow> client_task" where
  "post_of q =
     (case q of
        Call_req i name args p \<Rightarrow> Post_call i name p (pack_object (request_object q))
      | Send_req name args \<Rightarrow> Post_send (pack_object (request_object q)))"

text \<open>An entry that waits for its response.\<close>

definition awaited :: "32 word \<Rightarrow> client \<Rightarrow> bool" where
  "awaited i c \<longleftrightarrow> (\<exists>e. ongoing_calls c i = Some e \<and> \<not> satisfied e)"

text \<open>
  The steps of a client whose server answers a call at most once, and only after it was sent.
  The numbers are those before \<open>int\<close> overflows.
\<close>

inductive client_run :: "request list \<Rightarrow> response list \<Rightarrow> client \<Rightarrow> bool" where
  start: "client_run [] [] new_client"
| call: "client_run qs rs c \<Longrightarrow> uint (call_idx c) < 2147483647 \<Longrightarrow>
    length name < 4294967296 \<Longrightarrow> length args < 4294967296 \<Longrightarrow>
    client_async_call name args c = (Some p, c') \<Longrightarrow>
    client_run (qs @ [Call_req (call_idx c') name args p]) rs c'"
| send: "client_run qs rs c \<Longrightarrow> length name < 4294967296 \<Longrightarrow> length args < 4294967296 \<Longrightarrow>
    client_send name args c = Some c' \<Longrightarrow> client_run (qs @ [Send_req name args]) rs c'"
| task: "client_run qs rs c \<Longrightarrow> io_tasks c = t # ts \<Longrightarrow> run_task t (c\<lparr>io_tasks := ts\<rparr>) = Some c' \<Longrightarrow>
    client_run qs rs c'"
| socket: "client_run qs rs c \<Longrightarrow> socket_event e \<Longrightarrow> writer_step (writer_of c) e (Some w) \<Longrightarrow>
    client_run qs rs (c\<lparr>writer_of := w\<rparr>)"
| response: "client_run qs rs c \<Longrightarrow> awaited (resp_id r) c \<Longrightarrow> handle_response r c = Some c' \<Longrightarrow>
    client_run qs (rs @ [r]) c'"

section \<open>The invariant\<close>

text \<open>Numbers and promises belong to one call each.\<close>

definition idxs :: "request list \<Rightarrow> 32 word list" where
  "idxs qs = concat (map (\<lambda>q. case q of Call_req i _ _ _ \<Rightarrow> [i] | _ \<Rightarrow> []) qs)"

definition proms :: "request list \<Rightarrow> nat list" where
  "proms qs = concat (map (\<lambda>q. case q of Call_req _ _ _ p \<Rightarrow> [p] | _ \<Rightarrow> []) qs)"

definition is_post :: "client_task \<Rightarrow> bool" where
  "is_post t = (case t of Erase _ \<Rightarrow> False | _ \<Rightarrow> True)"

definition numbered :: "request list \<Rightarrow> client \<Rightarrow> bool" where
  "numbered qs c \<longleftrightarrow> distinct (idxs qs) \<and> distinct (proms qs) \<and> uint (call_idx c) \<le> 2147483647 \<and>
     (\<forall>i \<in> set (idxs qs). 0 < uint i \<and> uint i \<le> uint (call_idx c)) \<and> (\<forall>p \<in> set (proms qs). p < promises c) \<and>
     (\<forall>p. promises c \<le> p \<longrightarrow> futures c p = Waiting)"

text \<open>What is asked for is either written, in order, or still to be posted.\<close>

definition flows :: "request list \<Rightarrow> request list \<Rightarrow> client \<Rightarrow> bool" where
  "flows sent_qs todo c \<longleftrightarrow> filter is_post (io_tasks c) = map post_of todo \<and>
     (\<exists>es. writer_run es (writer_of c) \<and> list_all clean es \<and>
        puts es = map (\<lambda>q. pack_object (request_object q)) sent_qs)"

text \<open>A call without a response waits; one with a response has it, in the table or not.\<close>

definition answered :: "request list \<Rightarrow> request list \<Rightarrow> response list \<Rightarrow> client \<Rightarrow> bool" where
  "answered sent_qs todo rs c \<longleftrightarrow>
     (\<forall>i name args p. Call_req i name args p \<in> set sent_qs \<longrightarrow> i \<notin> resp_id ` set rs \<longrightarrow>
        futures c p = Waiting \<and>
        ongoing_calls c i = Some \<lparr>func_name = name, promise = Some p, satisfied = False\<rparr>) \<and>
     (\<forall>i name args p. Call_req i name args p \<in> set todo \<longrightarrow>
        i \<notin> resp_id ` set rs \<and> futures c p = Waiting \<and> ongoing_calls c i = None) \<and>
     (\<forall>name args p. \<forall>r \<in> set rs. Call_req (resp_id r) name args p \<in> set sent_qs \<longrightarrow>
        futures c p = outcome_of name r \<and>
        (ongoing_calls c (resp_id r) = None \<or>
         ongoing_calls c (resp_id r) = Some \<lparr>func_name = name, promise = Some p, satisfied = True\<rparr>)) \<and>
     (\<forall>i. Erase i \<in> set (io_tasks c) \<longrightarrow> i \<in> resp_id ` set rs) \<and>
     (\<forall>i e. ongoing_calls c i = Some e \<longrightarrow> i \<in> set (idxs sent_qs)) \<and>
     (\<forall>r \<in> set rs. resp_id r \<in> set (idxs sent_qs)) \<and> distinct (map resp_id rs)"

definition client_inv :: "request list \<Rightarrow> response list \<Rightarrow> client \<Rightarrow> bool" where
  "client_inv qs rs c \<longleftrightarrow> numbered qs c \<and>
     (\<exists>sent_qs todo. qs = sent_qs @ todo \<and> flows sent_qs todo c \<and> answered sent_qs todo rs c)"

lemma idxs_simps [simp]:
  "idxs [] = []" "idxs (xs @ ys) = idxs xs @ idxs ys"
  "idxs (Call_req i name args p # qs) = i # idxs qs" "idxs (Send_req name args # qs) = idxs qs"
  by (simp_all add: idxs_def)

lemma proms_simps [simp]:
  "proms [] = []" "proms (xs @ ys) = proms xs @ proms ys"
  "proms (Call_req i name args p # qs) = p # proms qs" "proms (Send_req name args # qs) = proms qs"
  by (simp_all add: proms_def)

lemma in_idxs: "Call_req i name args p \<in> set qs \<Longrightarrow> i \<in> set (idxs qs) \<and> p \<in> set (proms qs)"
  by (force simp: idxs_def proms_def)

lemma idxs_in: "i \<in> set (idxs qs) \<Longrightarrow> \<exists>name args p. Call_req i name args p \<in> set qs"
  by (auto simp: idxs_def split: request.splits)

lemma same_call:
  "distinct (idxs qs) \<Longrightarrow> Call_req i name args p \<in> set qs \<Longrightarrow> Call_req i name' args' p' \<in> set qs \<Longrightarrow>
   name' = name \<and> args' = args \<and> p' = p"
proof (induction qs)
  case (Cons q qs)
  then show ?case by (cases q) (auto dest: in_idxs)
qed simp

lemma same_promise:
  "distinct (proms qs) \<Longrightarrow> Call_req i name args p \<in> set qs \<Longrightarrow> Call_req i' name' args' p \<in> set qs \<Longrightarrow> i' = i"
proof (induction qs)
  case (Cons q qs)
  then show ?case by (cases q) (auto dest: in_idxs)
qed simp

lemma client_invI:
  "numbered qs c \<Longrightarrow> flows sent_qs todo c \<Longrightarrow> answered sent_qs todo rs c \<Longrightarrow> qs = sent_qs @ todo \<Longrightarrow>
   client_inv qs rs c"
  by (auto simp: client_inv_def)

lemma flowsI:
  "filter is_post (io_tasks c) = map post_of todo \<Longrightarrow> writer_run es (writer_of c) \<Longrightarrow> list_all clean es \<Longrightarrow>
   puts es = map (\<lambda>q. pack_object (request_object q)) sent_qs \<Longrightarrow> flows sent_qs todo c"
  by (auto simp: flows_def)

lemma answeredD:
  assumes "answered sent_qs todo rs c"
  shows "Call_req i name args p \<in> set sent_qs \<Longrightarrow> i \<notin> resp_id ` set rs \<Longrightarrow>
      futures c p = Waiting \<and> ongoing_calls c i = Some \<lparr>func_name = name, promise = Some p, satisfied = False\<rparr>"
    and "Call_req i name args p \<in> set todo \<Longrightarrow>
      i \<notin> resp_id ` set rs \<and> futures c p = Waiting \<and> ongoing_calls c i = None"
    and "r \<in> set rs \<Longrightarrow> Call_req (resp_id r) name args p \<in> set sent_qs \<Longrightarrow>
      futures c p = outcome_of name r \<and> (ongoing_calls c (resp_id r) = None \<or>
        ongoing_calls c (resp_id r) = Some \<lparr>func_name = name, promise = Some p, satisfied = True\<rparr>)"
    and "Erase i \<in> set (io_tasks c) \<Longrightarrow> i \<in> resp_id ` set rs"
    and "ongoing_calls c i = Some e \<Longrightarrow> i \<in> set (idxs sent_qs)"
    and "r \<in> set rs \<Longrightarrow> resp_id r \<in> set (idxs sent_qs)"
    and "distinct (map resp_id rs)"
  using assms by (simp_all add: answered_def)

lemma answeredI:
  assumes "\<And>i name args p. Call_req i name args p \<in> set sent_qs \<Longrightarrow> i \<notin> resp_id ` set rs \<Longrightarrow>
      futures c p = Waiting \<and> ongoing_calls c i = Some \<lparr>func_name = name, promise = Some p, satisfied = False\<rparr>"
    and "\<And>i name args p. Call_req i name args p \<in> set todo \<Longrightarrow>
      i \<notin> resp_id ` set rs \<and> futures c p = Waiting \<and> ongoing_calls c i = None"
    and "\<And>r name args p. r \<in> set rs \<Longrightarrow> Call_req (resp_id r) name args p \<in> set sent_qs \<Longrightarrow>
      futures c p = outcome_of name r \<and> (ongoing_calls c (resp_id r) = None \<or>
        ongoing_calls c (resp_id r) = Some \<lparr>func_name = name, promise = Some p, satisfied = True\<rparr>)"
    and "\<And>i. Erase i \<in> set (io_tasks c) \<Longrightarrow> i \<in> resp_id ` set rs"
    and "\<And>i e. ongoing_calls c i = Some e \<Longrightarrow> i \<in> set (idxs sent_qs)"
    and "\<And>r. r \<in> set rs \<Longrightarrow> resp_id r \<in> set (idxs sent_qs)"
    and "distinct (map resp_id rs)"
  shows "answered sent_qs todo rs c"
  unfolding answered_def using assms by meson

section \<open>The steps keep the invariant\<close>

lemma inv_start: "client_inv [] [] new_client"
proof -
  have "writer_run [] new_writer" by (rule writer_steps.start)
  then show ?thesis
    by (auto simp: client_inv_def numbered_def flows_def answered_def new_client_def)
qed

lemma async_call_result:
  assumes "client_async_call name args c = (Some p, c')" "length name < 4294967296" "length args < 4294967296"
  shows "p = promises c \<and> c' = c\<lparr>call_idx := call_idx c + 1, promises := p + 1,
    io_tasks := io_tasks c @ [post_of (Call_req (call_idx c + 1) name args p)]\<rparr>"
  using assms by (auto simp: client_async_call_def get_next_call_idx_def pack_call_object post_call_def
      post_of_def request_object_def Let_def)

lemma idx_successor: "uint (i :: 32 word) < 2147483647 \<Longrightarrow> uint (i + 1) = uint i + 1"
  by (simp add: uint_word_ariths)

lemma inv_call:
  assumes "client_inv qs rs c" "uint (call_idx c) < 2147483647"
    and "length name < 4294967296" "length args < 4294967296" "client_async_call name args c = (Some p, c')"
  shows "client_inv (qs @ [Call_req (call_idx c') name args p]) rs c'"
proof -
  obtain sent_qs todo where qs: "qs = sent_qs @ todo" "flows sent_qs todo c" "answered sent_qs todo rs c"
    and n: "numbered qs c"
    using assms(1) by (auto simp: client_inv_def)
  have c': "p = promises c" "c' = c\<lparr>call_idx := call_idx c + 1, promises := p + 1,
      io_tasks := io_tasks c @ [post_of (Call_req (call_idx c + 1) name args p)]\<rparr>"
    using async_call_result [OF assms(5,3,4)] by auto
  let ?q = "Call_req (call_idx c + 1) name args p"
  have succ: "uint (call_idx c + 1) = uint (call_idx c) + 1"
    using assms(2) by (rule idx_successor)
  have fresh: "call_idx c + 1 \<notin> set (idxs qs)" "p \<notin> set (proms qs)"
    using n succ c'(1) by (force simp: numbered_def)+
  then have "numbered (qs @ [?q]) c'"
    using n c' succ assms(2) by (force simp: numbered_def)
  moreover have "flows sent_qs (todo @ [?q]) c'"
    using qs(2) c'(2) by (auto simp: flows_def is_post_def post_of_def)
  moreover have "futures c p = Waiting" "ongoing_calls c (call_idx c + 1) = None"
      "call_idx c + 1 \<notin> resp_id ` set rs"
    using n c'(1) fresh qs(1,3) by (auto simp: numbered_def answered_def)
  then have "answered sent_qs (todo @ [?q]) rs c'"
    using qs(3) c'(2) by (auto simp: answered_def post_of_def)
  ultimately have "client_inv (qs @ [?q]) rs c'"
    using qs(1) by (intro client_invI) simp_all
  then show ?thesis
    using c'(2) by simp
qed

lemma inv_send:
  assumes "client_inv qs rs c" "length name < 4294967296" "length args < 4294967296"
    and "client_send name args c = Some c'"
  shows "client_inv (qs @ [Send_req name args]) rs c'"
proof -
  obtain sent_qs todo where qs: "qs = sent_qs @ todo" "flows sent_qs todo c" "answered sent_qs todo rs c"
    and n: "numbered qs c"
    using assms(1) by (auto simp: client_inv_def)
  let ?q = "Send_req name args"
  have c': "c' = c\<lparr>io_tasks := io_tasks c @ [post_of ?q]\<rparr>"
    using assms by (auto simp: client_send_def pack_notification_object post_buffer_def post_of_def request_object_def)
  have "numbered (qs @ [?q]) c'"
    using n c' by (simp add: numbered_def)
  moreover have "flows sent_qs (todo @ [?q]) c'"
    using qs(2) c' by (auto simp: flows_def is_post_def post_of_def)
  moreover have "answered sent_qs (todo @ [?q]) rs c'"
    using qs(3) c' by (auto simp: answered_def post_of_def)
  ultimately show ?thesis
    using qs(1) by (intro client_invI) simp_all
qed

lemma inv_socket:
  assumes "client_inv qs rs c" "socket_event e" "writer_step (writer_of c) e (Some w)"
  shows "client_inv qs rs (c\<lparr>writer_of := w\<rparr>)"
proof -
  obtain sent_qs todo es where inv: "qs = sent_qs @ todo" "numbered qs c" "answered sent_qs todo rs c"
      "filter is_post (io_tasks c) = map post_of todo" "writer_run es (writer_of c)"
      "list_all clean es" "puts es = map (\<lambda>q. pack_object (request_object q)) sent_qs"
    using assms(1) by (auto simp: client_inv_def flows_def)
  have "writer_run (es @ [e]) w" "list_all clean (es @ [e])" "puts (es @ [e]) = puts es"
    using inv assms(2,3) puts_socket [of "[e]" es] by (auto intro: step socket_clean)
  with inv have "flows sent_qs todo (c\<lparr>writer_of := w\<rparr>)"
    by (intro flowsI [of _ _ "es @ [e]"]) simp_all
  moreover have "numbered qs (c\<lparr>writer_of := w\<rparr>)" "answered sent_qs todo rs (c\<lparr>writer_of := w\<rparr>)"
    using inv(2,3) by (simp_all add: numbered_def answered_def)
  ultimately show ?thesis
    using inv(1) by (intro client_invI)
qed

text \<open>A response settles the promise of its call and leaves the others alone.\<close>

lemma answered_response:
  assumes ans: "answered sent_qs todo rs c"
    and one: "distinct (idxs (sent_qs @ todo))" "distinct (proms (sent_qs @ todo))"
    and q: "Call_req (resp_id r) name args p \<in> set sent_qs" and new: "resp_id r \<notin> resp_id ` set rs"
    and c': "c' = c\<lparr>ongoing_calls := (ongoing_calls c)(resp_id r \<mapsto>
        \<lparr>func_name = name, promise = Some p, satisfied = True\<rparr>),
      futures := (futures c)(p := outcome_of name r), io_tasks := io_tasks c @ [Erase (resp_id r)]\<rparr>"
  shows "answered sent_qs todo (rs @ [r]) c'"
proof (rule answeredI)
  fix i name' args' p'
  assume q': "Call_req i name' args' p' \<in> set sent_qs" "i \<notin> resp_id ` set (rs @ [r])"
  then have "p' \<noteq> p"
    using same_promise [OF one(2), of i name' args' p' "resp_id r" name args] q by auto
  then show "futures c' p' = Waiting \<and>
      ongoing_calls c' i = Some \<lparr>func_name = name', promise = Some p', satisfied = False\<rparr>"
    using answeredD(1) [OF ans q'(1)] q'(2) c' by simp
next
  fix i name' args' p'
  assume q': "Call_req i name' args' p' \<in> set todo"
  then have "i \<noteq> resp_id r" "p' \<noteq> p"
    using one(1) in_idxs [OF q'] in_idxs [OF q] same_promise [OF one(2), of i name' args' p' "resp_id r" name args] q
    by auto
  then show "i \<notin> resp_id ` set (rs @ [r]) \<and> futures c' p' = Waiting \<and> ongoing_calls c' i = None"
    using answeredD(2) [OF ans q'] c' by auto
next
  fix r' name' args' p'
  assume r': "r' \<in> set (rs @ [r])" "Call_req (resp_id r') name' args' p' \<in> set sent_qs"
  show "futures c' p' = outcome_of name' r' \<and> (ongoing_calls c' (resp_id r') = None \<or>
      ongoing_calls c' (resp_id r') = Some \<lparr>func_name = name', promise = Some p', satisfied = True\<rparr>)"
  proof (cases "r' \<in> set rs")
    case True
    then have other: "resp_id r' \<noteq> resp_id r"
      using new imageI [OF True, of resp_id] by metis
    then have "p' \<noteq> p"
      using same_promise [OF one(2), of "resp_id r'" name' args' p' "resp_id r" name args] q r'(2) by auto
    then show ?thesis
      using answeredD(3) [OF ans True r'(2)] other c' by simp
  next
    case False
    with r' same_call [OF one(1), of "resp_id r" name args p name' args' p'] q c' show ?thesis by auto
  qed
qed (use answeredD(4-7) [OF ans] new in_idxs [OF q] c' in \<open>auto split: if_splits\<close>)

lemma inv_response:
  assumes "client_inv qs rs c" "awaited (resp_id r) c" "handle_response r c = Some c'"
  shows "client_inv qs (rs @ [r]) c'"
proof -
  obtain sent_qs todo where qs: "qs = sent_qs @ todo" "flows sent_qs todo c" "answered sent_qs todo rs c"
    and n: "numbered qs c"
    using assms(1) by (auto simp: client_inv_def)
  obtain e where e: "ongoing_calls c (resp_id r) = Some e" "\<not> satisfied e"
    using assms(2) by (auto simp: awaited_def)
  obtain name args p where q: "Call_req (resp_id r) name args p \<in> set sent_qs"
    using answeredD(5) [OF qs(3) e(1)] idxs_in by blast
  have new: "resp_id r \<notin> resp_id ` set rs"
    using answeredD(3) [OF qs(3)] q e by fastforce
  then have e': "e = \<lparr>func_name = name, promise = Some p, satisfied = False\<rparr>"
    using answeredD(1) [OF qs(3) q] e(1) by simp
  have c': "c' = c\<lparr>ongoing_calls := (ongoing_calls c)(resp_id r \<mapsto>
        \<lparr>func_name = name, promise = Some p, satisfied = True\<rparr>),
      futures := (futures c)(p := outcome_of name r), io_tasks := io_tasks c @ [Erase (resp_id r)]\<rparr>"
    using assms(3) e e' by (simp add: handle_response_def current_call_def set_promise_def Let_def)
  have "p < promises c"
    using n in_idxs [OF q] qs(1) by (simp add: numbered_def)
  then have "numbered qs c'"
    using n c' by (simp add: numbered_def)
  moreover have "flows sent_qs todo c'"
    using qs(2) c' by (auto simp: flows_def is_post_def)
  moreover have "answered sent_qs todo (rs @ [r]) c'"
    using answered_response [OF qs(3) _ _ q new c'] n qs(1) by (simp add: numbered_def)
  ultimately show ?thesis
    using qs(1) by (auto simp: client_inv_def)
qed

text \<open>Running a posted call or notification hands its bytes to the writer.\<close>

lemma flows_post:
  assumes "flows sent_qs (q # todo) c" "io_tasks c = t # ts" "is_post t"
    and "write_out (pack_object (request_object q)) d = Some c'"
    and "writer_of d = writer_of c" "io_tasks d = ts"
  shows "flows (sent_qs @ [q]) todo c'"
proof -
  obtain es where es: "filter is_post (io_tasks c) = map post_of (q # todo)" "writer_run es (writer_of c)"
      "list_all clean es" "puts es = map (\<lambda>q. pack_object (request_object q)) sent_qs"
    using assms(1) by (auto simp: flows_def)
  obtain w where w: "writer_write (pack_object (request_object q)) (writer_of c) = Some w"
      "c' = d\<lparr>writer_of := w\<rparr>"
    using assms(4,5) by (auto simp: write_out_def)
  have "writer_step (writer_of c) (Put (pack_object (request_object q))) (Some w)"
    using put [of "writer_of c" "pack_object (request_object q)"] w(1) by simp
  then show ?thesis
    using es assms(2,3,6) w(2) step [OF es(2)]
    by (intro flowsI [of _ _ "es @ [Put (pack_object (request_object q))]"]) (simp_all add: clean_def)
qed

text \<open>A call whose post runs is entered in the table.\<close>

lemma answered_post:
  assumes ans: "answered sent_qs (Call_req i name args p # todo) rs c"
    and one: "i \<notin> set (idxs sent_qs)" "i \<notin> set (idxs todo)" and tasks: "io_tasks c = t # ts"
    and c': "c' = c\<lparr>io_tasks := ts, ongoing_calls := (ongoing_calls c)(i \<mapsto>
        \<lparr>func_name = name, promise = Some p, satisfied = False\<rparr>), writer_of := w\<rparr>"
  shows "answered (sent_qs @ [Call_req i name args p]) todo rs c'"
proof (rule answeredI)
  note free = answeredD(2) [OF ans, of i name args p]
  fix j name' args' p'
  assume j: "Call_req j name' args' p' \<in> set (sent_qs @ [Call_req i name args p])" "j \<notin> resp_id ` set rs"
  show "futures c' p' = Waiting \<and>
      ongoing_calls c' j = Some \<lparr>func_name = name', promise = Some p', satisfied = False\<rparr>"
  proof (cases "j = i")
    case True
    with j(1) one(1) in_idxs have "name' = name" "p' = p" by auto
    with True show ?thesis using c' free by simp
  next
    case False
    with j answeredD(1) [OF ans _ j(2)] c' show ?thesis by simp
  qed
next
  fix j name' args' p'
  assume j: "Call_req j name' args' p' \<in> set todo"
  then show "j \<notin> resp_id ` set rs \<and> futures c' p' = Waiting \<and> ongoing_calls c' j = None"
    using answeredD(2) [OF ans, of j name' args' p'] one(2) in_idxs [OF j] c' by auto
next
  fix r name' args' p'
  assume r: "r \<in> set rs" "Call_req (resp_id r) name' args' p' \<in> set (sent_qs @ [Call_req i name args p])"
  have "resp_id r \<noteq> i"
    using answeredD(2) [OF ans, of i name args p] imageI [OF r(1), of resp_id] by (metis list.set_intros(1))
  then show "futures c' p' = outcome_of name' r \<and> (ongoing_calls c' (resp_id r) = None \<or>
      ongoing_calls c' (resp_id r) = Some \<lparr>func_name = name', promise = Some p', satisfied = True\<rparr>)"
    using answeredD(3) [OF ans r(1), of name' args' p'] r(2) c' by auto
next
  fix j e
  assume "ongoing_calls c' j = Some e"
  then show "j \<in> set (idxs (sent_qs @ [Call_req i name args p]))"
    using answeredD(5) [OF ans, of j] c' by (auto split: if_splits)
qed (use answeredD(4,6,7) [OF ans] tasks c' in auto)

lemma inv_post:
  assumes "client_inv qs rs c" "io_tasks c = t # ts" "is_post t" "run_task t (c\<lparr>io_tasks := ts\<rparr>) = Some c'"
  shows "client_inv qs rs c'"
proof -
  obtain sent_qs todo where qs: "qs = sent_qs @ todo" "flows sent_qs todo c" "answered sent_qs todo rs c"
    and n: "numbered qs c"
    using assms(1) by (auto simp: client_inv_def)
  obtain q todo' where t: "t = post_of q" "todo = q # todo'"
    using qs(2) assms(2,3) by (cases todo) (auto simp: flows_def)
  obtain d w where d: "write_out (pack_object (request_object q)) d = Some c'" "writer_of d = writer_of c"
      "io_tasks d = ts" "numbered qs d" and c': "c' = d\<lparr>writer_of := w\<rparr>"
    and ans: "answered (sent_qs @ [q]) todo' rs c'"
  proof (cases q)
    case (Call_req i name args p)
    let ?d = "c\<lparr>io_tasks := ts, ongoing_calls := (ongoing_calls c)(i \<mapsto>
        \<lparr>func_name = name, promise = Some p, satisfied = False\<rparr>)\<rparr>"
    have out: "write_out (pack_object (request_object q)) ?d = Some c'"
      using assms(4) answeredD(2) [OF qs(3), of i name args p] t Call_req
      by (simp add: run_task_def post_of_def insert_call_def)
    then obtain w where c': "c' = ?d\<lparr>writer_of := w\<rparr>" by (auto simp: write_out_def)
    have "answered (sent_qs @ [q]) todo' rs c'"
      unfolding Call_req by (rule answered_post [OF _ _ _ assms(2)])
        (use qs t(2) n Call_req c' in \<open>auto simp: numbered_def\<close>)
    with out c' n that [of ?d w] show thesis by (simp add: numbered_def)
  next
    case (Send_req name args)
    have out: "write_out (pack_object (request_object q)) (c\<lparr>io_tasks := ts\<rparr>) = Some c'"
      using assms(4) t Send_req by (simp add: run_task_def post_of_def)
    then obtain w where c': "c' = c\<lparr>io_tasks := ts, writer_of := w\<rparr>" by (auto simp: write_out_def)
    have "answered (sent_qs @ [q]) todo' rs c'"
      using answeredD [OF qs(3)] assms(2) t(2) Send_req c' by (intro answeredI) auto
    with out c' n that [of "c\<lparr>io_tasks := ts\<rparr>" w] show thesis by (simp add: numbered_def)
  qed
  have "flows (sent_qs @ [q]) todo' c'"
    using flows_post [OF qs(2) [unfolded t(2)] assms(2,3) d(1-3)] .
  with ans d(4) c' qs(1) t(2) show ?thesis
    by (intro client_invI [of _ _ "sent_qs @ [q]" todo']) (simp_all add: numbered_def)
qed

lemma inv_erase:
  assumes "client_inv qs rs c" "io_tasks c = Erase i # ts" "run_task (Erase i) (c\<lparr>io_tasks := ts\<rparr>) = Some c'"
  shows "client_inv qs rs c'"
proof -
  obtain sent_qs todo where qs: "qs = sent_qs @ todo" "flows sent_qs todo c" "answered sent_qs todo rs c"
    and n: "numbered qs c"
    using assms(1) by (auto simp: client_inv_def)
  have done_i: "i \<in> resp_id ` set rs"
    using answeredD(4) [OF qs(3), of i] assms(2) by simp
  then obtain r where r: "r \<in> set rs" "resp_id r = i" by auto
  then obtain name args p where "Call_req i name args p \<in> set sent_qs"
    using answeredD(6) [OF qs(3) r(1)] idxs_in by blast
  then have "\<And>e. ongoing_calls c i = Some e \<Longrightarrow> satisfied e"
    using answeredD(3) [OF qs(3) r(1)] r(2) by fastforce
  then have c': "c' = c\<lparr>io_tasks := ts, ongoing_calls := (ongoing_calls c)(i := None)\<rparr>"
    using assms(3) by (cases c)
      (auto simp: run_task_def erase_call_def drop_promise_def fun_upd_idem split: option.splits)
  have "flows sent_qs todo c'"
    using qs(2) assms(2) c' by (auto simp: flows_def is_post_def)
  moreover have "answered sent_qs todo rs c'"
  proof (rule answeredI)
    fix j name args p
    assume "Call_req j name args p \<in> set sent_qs" "j \<notin> resp_id ` set rs"
    then show "futures c' p = Waiting \<and>
        ongoing_calls c' j = Some \<lparr>func_name = name, promise = Some p, satisfied = False\<rparr>"
      using answeredD(1) [OF qs(3)] done_i c' by auto
  qed (use answeredD(2-7) [OF qs(3)] assms(2) c' in \<open>auto split: if_splits\<close>)
  moreover have "numbered qs c'"
    using n c' by (simp add: numbered_def)
  ultimately show ?thesis
    using qs(1) by (intro client_invI)
qed

lemma client_run_inv: "client_run qs rs c \<Longrightarrow> client_inv qs rs c"
proof (induction rule: client_run.induct)
  case (task qs rs c t ts c')
  then show ?case
    using inv_post [of qs rs c t ts c'] inv_erase [of qs rs c _ ts c']
    by (cases t) (simp_all add: is_post_def)
qed (simp_all add: inv_start inv_call inv_send inv_socket inv_response)

lemma client_writer:
  assumes "client_run qs rs c"
  obtains es sent_qs todo where "qs = sent_qs @ todo" "filter is_post (io_tasks c) = map post_of todo"
    "writer_run es (writer_of c)" "list_all clean es"
    "puts es = map (\<lambda>q. pack_object (request_object q)) sent_qs"
  using client_run_inv [OF assms] by (auto simp: client_inv_def flows_def)

section \<open>Waiting for all responses\<close>

text \<open>
  \<open>wait_all_responses\<close> over the entries in the order of the table: it asks each promise for its
  future. A promise whose future the caller of \<open>async_call\<close> has already throws
  (\<open>future_already_retrieved\<close>); one without a value otherwise blocks.
\<close>

datatype wait_result = All_ready | Future_already_retrieved | Blocks

fun wait_all_responses :: "call_entry list \<Rightarrow> wait_result" where
  "wait_all_responses [] = All_ready"
| "wait_all_responses (e # es) =
     (if promise e \<noteq> None then Future_already_retrieved
      else if satisfied e then wait_all_responses es
      else Blocks)"

section \<open>Properties\<close>

lemma future_of_response:
  assumes "client_run qs rs c" "Call_req i name args p \<in> set qs"
  shows "futures c p =
    (case find (\<lambda>r. resp_id r = i) rs of Some r \<Rightarrow> outcome_of name r | None \<Rightarrow> Waiting)"
proof -
  obtain sent_qs todo where qs: "qs = sent_qs @ todo" "answered sent_qs todo rs c" and n: "numbered qs c"
    using client_run_inv [OF assms(1)] by (auto simp: client_inv_def)
  show ?thesis
  proof (cases "find (\<lambda>r. resp_id r = i) rs")
    case None
    then have "i \<notin> resp_id ` set rs"
      by (auto simp: find_None_iff)
    with None show ?thesis
      using answeredD(1,2) [OF qs(2)] assms(2) qs(1) by (auto 0 3)
  next
    case (Some r)
    then have r: "r \<in> set rs" "resp_id r = i"
      by (auto simp: find_Some_iff)
    then have "Call_req i name args p \<in> set sent_qs"
      using answeredD(2) [OF qs(2), of i name args p] assms(2) qs(1) by auto
    with Some r show ?thesis
      using answeredD(3) [OF qs(2) r(1)] by auto
  qed
qed

text \<open>
  C35. Futures are exact: the future of a call holds the value, or the error with the call's
  name, of the one response with its number, and waits as long as there is none, whatever
  the order in which the responses come and the posted work runs.
\<close>
theorem futures_exact:
  assumes "client_run qs rs c" "Call_req i name args p \<in> set qs"
  shows "futures c p =
    (case find (\<lambda>r. resp_id r = i) rs of Some r \<Rightarrow> outcome_of name r | None \<Rightarrow> Waiting)"
  using assms by (rule future_of_response)

text \<open>
  What a client puts on the wire is a start of its requests packed one after the other, in
  the order they were made: none is lost, doubled or overtaken.
\<close>
theorem requests_in_order:
  assumes "client_run qs rs c"
  shows "prefix (wire (writer_of c)) (concat (map (\<lambda>q. pack_object (request_object q)) qs))"
proof -
  obtain es sent_qs todo where "qs = sent_qs @ todo" "writer_run es (writer_of c)"
      "puts es = map (\<lambda>q. pack_object (request_object q)) sent_qs"
    using client_writer [OF assms] by metis
  then show ?thesis
    using run_bytes [of es "writer_of c"] by (auto simp: prefix_def) (metis append_assoc)
qed

text \<open>
  \<open>wait_all_responses\<close> does not wait: while any call is in the table it throws, whichever
  entry it meets first.
\<close>

lemma wait_all_responses_throws:
  assumes "client_run qs rs c" "set es = ran (ongoing_calls c)" "es \<noteq> []"
  shows "wait_all_responses es = Future_already_retrieved"
proof -
  obtain sent_qs todo where qs: "qs = sent_qs @ todo" "answered sent_qs todo rs c"
    using client_run_inv [OF assms(1)] by (auto simp: client_inv_def)
  obtain e es' where e: "es = e # es'"
    using assms(3) by (cases es) auto
  then obtain i where i: "ongoing_calls c i = Some e"
    using assms(2) by (auto simp: ran_def)
  then obtain name args p where q: "Call_req i name args p \<in> set sent_qs"
    using answeredD(5) [OF qs(2) i] idxs_in by blast
  have "promise e = Some p"
  proof (cases "i \<in> resp_id ` set rs")
    case True
    then show ?thesis
      using answeredD(3) [OF qs(2)] q i by fastforce
  next
    case False
    then show ?thesis
      using answeredD(1) [OF qs(2) q] i by simp
  qed
  with e show ?thesis by simp
qed

text \<open>A client that has written one call.\<close>

definition sample_name :: "byte list" where "sample_name = [0x66]"

definition sample_request :: request where "sample_request = Call_req 1 sample_name [] 0"

definition asking_client :: client where
  "asking_client = new_client\<lparr>call_idx := 1, promises := 1, io_tasks := [post_of sample_request]\<rparr>"

definition waiting_client :: client where
  "waiting_client = asking_client\<lparr>io_tasks := [],
     ongoing_calls := [1 \<mapsto> \<lparr>func_name = sample_name, promise = Some 0, satisfied = False\<rparr>],
     writer_of := new_writer\<lparr>write_queue := [pack_object (request_object sample_request)], writing := True\<rparr>\<rparr>"

lemma sample_asking: "client_run [sample_request] [] asking_client"
proof -
  have "client_async_call sample_name [] new_client = (Some 0, asking_client)"
    by (simp add: client_async_call_def get_next_call_idx_def pack_call_object post_call_def post_of_def
        request_object_def sample_request_def sample_name_def new_client_def asking_client_def Let_def)
  from call [OF start _ _ _ this] show ?thesis
    by (simp add: sample_request_def sample_name_def new_client_def asking_client_def)
qed

lemma sample_waiting: "client_run [sample_request] [] waiting_client"
proof (rule task [OF sample_asking])
  show "io_tasks asking_client = [post_of sample_request]"
    by (simp add: asking_client_def)
  show "run_task (post_of sample_request) (asking_client\<lparr>io_tasks := []\<rparr>) = Some waiting_client"
    by (simp add: run_task_def post_of_def sample_request_def insert_call_def asking_client_def new_client_def
        write_out_def writer_ops waiting_client_def request_object_def new_writer_def)
qed

lemma sample_answered:
  "\<exists>c. client_run [sample_request] [make_result 1 (BOOLEAN True)] c"
proof -
  have "awaited (resp_id (make_result 1 (BOOLEAN True))) waiting_client"
    by (simp add: awaited_def waiting_client_def make_result_def new_response_def)
  moreover obtain c' where "handle_response (make_result 1 (BOOLEAN True)) waiting_client = Some c'"
    by (auto simp: handle_response_def current_call_def set_promise_def waiting_client_def make_result_def
        new_response_def Let_def)
  ultimately have "client_run [sample_request] ([] @ [make_result 1 (BOOLEAN True)]) c'"
    by (rule response [OF sample_waiting])
  then show ?thesis by auto
qed

lemma futures_exact_witness:
  "\<exists>c. client_run [sample_request] [make_result 1 (BOOLEAN True)] c \<and> futures c 0 = Value (BOOLEAN True)"
proof -
  obtain c where c: "client_run [sample_request] [make_result 1 (BOOLEAN True)] c"
    using sample_answered by blast
  with futures_exact [OF c, of 1 sample_name "[]" 0] show ?thesis
    by (auto simp: sample_request_def make_result_def new_response_def outcome_of_def)
qed

lemma requests_in_order_witness:
  "prefix (wire (writer_of waiting_client)) (pack_object (call_object 1 sample_name []))"
  using requests_in_order [OF sample_waiting] by (simp add: sample_request_def request_object_def)

section \<open>Callers that are not alone\<close>

text \<open>
  \<open>get_next_call_idx\<close> increments the counter and then reads it: two atomic steps. Callers in two
  threads that increment before either reads get the same number, and the promise of the
  second call is dropped when it is posted.
\<close>

datatype idx_op = Increment | Load

fun interleaved :: "idx_op list \<Rightarrow> 32 word \<Rightarrow> 32 word list" where
  "interleaved [] n = []"
| "interleaved (Increment # ops) n = interleaved ops (n + 1)"
| "interleaved (Load # ops) n = n # interleaved ops n"

lemma interleaved_alone: "interleaved [Increment, Load] n = [fst (get_next_call_idx (new_client\<lparr>call_idx := n\<rparr>))]"
  by (simp add: get_next_call_idx_def Let_def)

lemma same_number_twice: "interleaved [Increment, Increment, Load, Load] n = [n + 2, n + 2]"
  by (simp add: numeral_2_eq_2)

lemma second_call_broken:
  "ongoing_calls c i = Some e \<Longrightarrow> futures (insert_call i name p c) p = Broken_promise"
  by (simp add: insert_call_def drop_promise_def)

text \<open>A second response for a call that is in the table ends the process.\<close>

lemma duplicate_response_ends:
  "handle_response r c = Some c' \<Longrightarrow> resp_id r' = resp_id r \<Longrightarrow> handle_response r' c' = None"
  by (auto simp: handle_response_def current_call_def set_promise_def Let_def split: if_splits)

end
