(* ===== verification/Rpc_Link.thy ===== *)
theory Rpc_Link
  imports Rpc_Client "HOL-Library.Multiset"
begin

text \<open>
  A client and a server session connected by two byte streams. The bytes arrive in pieces of
  any size; the server's workers take the messages in any order; what is posted to a strand
  runs in order. The runs record what was asked, executed and answered.
\<close>

section \<open>Receiving\<close>

text \<open>The unpacker of a connection, and how many bytes of the other side's stream it has had.\<close>

record receiver =
  rx_ctx :: ctx
  rx_rest :: "byte list"
  rx_got :: nat

definition new_receiver :: receiver where
  "new_receiver = \<lparr>rx_ctx = init_ctx True default_limit, rx_rest = [], rx_got = 0\<rparr>"

definition read_some :: "nat \<Rightarrow> byte list \<Rightarrow> receiver \<Rightarrow> object list \<times> (unpack_error + receiver)" where
  "read_some n stream rx =
     (case next_all (rx_ctx rx) (rx_rest rx @ take n (drop (rx_got rx) stream)) of
        (xs, Inl e) \<Rightarrow> (xs, Inl e)
      | (xs, Inr (c, rest)) \<Rightarrow> (xs, Inr \<lparr>rx_ctx = c, rx_rest = rest, rx_got = rx_got rx + n\<rparr>))"

definition rx_inv :: "byte list \<Rightarrow> object list \<Rightarrow> receiver \<Rightarrow> bool" where
  "rx_inv stream xs rx \<longleftrightarrow> rx_got rx \<le> length stream \<and>
     next_all (init_ctx True default_limit) (take (rx_got rx) stream) = (xs, Inr (rx_ctx rx, rx_rest rx))"

abbreviation sendable :: "object \<Rightarrow> bool" where
  "sendable \<equiv> fits default_limit 1"

lemma rx_start: "rx_inv stream [] new_receiver"
  by (simp add: rx_inv_def new_receiver_def next_all_empty)

lemma rx_extend: "rx_inv stream xs rx \<Longrightarrow> prefix stream stream' \<Longrightarrow> rx_inv stream' xs rx"
  by (auto simp: rx_inv_def prefix_def)

lemma decode_prefix:
  assumes "\<And>x. x \<in> set xs \<Longrightarrow> sendable x" "prefix b (concat (map pack_object xs))"
  shows "\<exists>ys c r. next_all (init_ctx True default_limit) b = (ys, Inr (c, r)) \<and> prefix ys xs
    \<and> (b = concat (map pack_object xs) \<longrightarrow> ys = xs)"
proof -
  obtain t where t: "concat (map pack_object xs) = b @ t"
    using assms(2) by (auto simp: prefix_def)
  have all: "next_all (init_ctx True default_limit) (b @ t) = (xs, Inr (init_ctx True default_limit, []))"
    using next_all_put [of xs default_limit True "[]"] assms(1) t by (simp add: next_all_empty)
  obtain ys res where ys: "next_all (init_ctx True default_limit) b = (ys, res)"
    by (cases "next_all (init_ctx True default_limit) b")
  with all obtain c r where "res = Inr (c, r)"
    using next_all_append [of "init_ctx True default_limit" b t] by (cases res) auto
  with all ys show ?thesis
    using next_all_append [of "init_ctx True default_limit" b t] t
    by (auto simp: prefix_def next_all_empty split: prod.splits)
qed

text \<open>A piece of a stream of sendable objects gives the next of them.\<close>

lemma rx_read:
  assumes "rx_inv stream ys rx" "rx_got rx + n \<le> length stream"
    and "\<And>x. x \<in> set xs \<Longrightarrow> sendable x" "prefix stream (concat (map pack_object xs))"
  shows "\<exists>new rx'. read_some n stream rx = (new, Inr rx') \<and> rx_inv stream (ys @ new) rx' \<and> prefix (ys @ new) xs"
proof -
  let ?b = "take (rx_got rx + n) stream"
  have "prefix ?b (concat (map pack_object xs))"
    using assms(4) prefix_order.trans take_is_prefix by blast
  then obtain zs c r where zs: "next_all (init_ctx True default_limit) ?b = (zs, Inr (c, r))" "prefix zs xs"
    using decode_prefix [of xs ?b] assms(3) by blast
  have "?b = take (rx_got rx) stream @ take n (drop (rx_got rx) stream)"
    by (rule take_add)
  then obtain new where new: "next_all (rx_ctx rx) (rx_rest rx @ take n (drop (rx_got rx) stream)) = (new, Inr (c, r))"
      "zs = ys @ new"
    using zs(1) assms(1) next_all_append [of "init_ctx True default_limit" "take (rx_got rx) stream"
        "take n (drop (rx_got rx) stream)"]
    by (auto simp: rx_inv_def split: prod.splits)
  with zs assms(2) show ?thesis
    by (auto simp: read_some_def rx_inv_def)
qed

lemma rx_prefix:
  assumes "rx_inv stream ys rx" "\<And>x. x \<in> set xs \<Longrightarrow> sendable x" "prefix stream (concat (map pack_object xs))"
  shows "prefix ys xs" "rx_got rx = length stream \<Longrightarrow> stream = concat (map pack_object xs) \<Longrightarrow> ys = xs"
  using rx_read [of stream ys rx 0 xs] decode_prefix [of xs stream] assms
  by (auto simp: rx_inv_def dest: append_prefixD)

section \<open>The connection\<close>

record 'app server_conf =
  conf_disp :: "'app world dispatcher"
  conf_suppress :: bool
  conf_sid :: nat

record 'app link =
  client_of :: client
  client_rx :: receiver
  server_rx :: receiver
  server_tasks :: "object list"
  server_strand :: "post list"
  server_writer :: writer
  server_world :: "'app world"
  server_up :: bool

definition new_link :: "'app world \<Rightarrow> 'app link" where
  "new_link w = \<lparr>client_of = new_client, client_rx = new_receiver, server_rx = new_receiver,
     server_tasks = [], server_strand = [], server_writer = new_writer, server_world = w, server_up = True\<rparr>"

definition work :: "'app server_conf \<Rightarrow> object \<Rightarrow> ('app world, post list) action" where
  "work K msg = process_message (conf_sid K) (conf_suppress K) (conf_disp K) msg"

definition run_post :: "post \<Rightarrow> writer \<Rightarrow> writer option" where
  "run_post p w =
     (case p of
        Write data \<Rightarrow> writer_write data w
      | Exit_session \<Rightarrow> Some (request_exit w)
      | Close_sessions \<Rightarrow> Some (close_session w))"

fun receive_all :: "object list \<Rightarrow> client \<Rightarrow> client option" where
  "receive_all [] c = Some c"
| "receive_all (x # xs) c = Option.bind (receive_object x c) (receive_all xs)"

definition remove_nth :: "nat \<Rightarrow> 'a list \<Rightarrow> 'a list" where
  "remove_nth i xs = take i xs @ drop (Suc i) xs"

text \<open>
  The steps inside: \<open>ex\<close> lists the messages executed with what they posted, \<open>rs\<close> the responses
  handled by the client. A worker that does not return takes the server down.
\<close>

type_synonym executed = "(object \<times> post list) list"

inductive link_step ::
    "'app server_conf \<Rightarrow> executed \<times> response list \<times> 'app link \<Rightarrow> executed \<times> response list \<times> 'app link \<Rightarrow> bool"
  for K where
  client_task: "io_tasks (client_of l) = t # ts \<Longrightarrow> run_task t ((client_of l)\<lparr>io_tasks := ts\<rparr>) = Some c \<Longrightarrow>
    link_step K (ex, rs, l) (ex, rs, l\<lparr>client_of := c\<rparr>)"
| client_socket: "socket_event e \<Longrightarrow> writer_step (writer_of (client_of l)) e (Some w) \<Longrightarrow>
    link_step K (ex, rs, l) (ex, rs, l\<lparr>client_of := (client_of l)\<lparr>writer_of := w\<rparr>\<rparr>)"
| server_read: "server_up l \<Longrightarrow> \<not> writer_exit (server_writer l) \<Longrightarrow> 0 < n \<Longrightarrow>
    rx_got (server_rx l) + n \<le> length (wire (writer_of (client_of l))) \<Longrightarrow>
    read_some n (wire (writer_of (client_of l))) (server_rx l) = (msgs, Inr rx) \<Longrightarrow>
    link_step K (ex, rs, l) (ex, rs, l\<lparr>server_rx := rx, server_tasks := server_tasks l @ msgs\<rparr>)"
| server_work: "server_up l \<Longrightarrow> i < length (server_tasks l) \<Longrightarrow>
    work K (server_tasks l ! i) (server_world l) = (Returned posts, w) \<Longrightarrow>
    link_step K (ex, rs, l) (ex @ [(server_tasks l ! i, posts)], rs,
      l\<lparr>server_tasks := remove_nth i (server_tasks l), server_strand := server_strand l @ posts,
        server_world := w\<rparr>)"
| server_dies: "server_up l \<Longrightarrow> i < length (server_tasks l) \<Longrightarrow>
    work K (server_tasks l ! i) (server_world l) = (res, w) \<Longrightarrow> \<forall>posts. res \<noteq> Returned posts \<Longrightarrow>
    link_step K (ex, rs, l) (ex, rs, l\<lparr>server_world := w, server_up := False\<rparr>)"
| server_post: "server_up l \<Longrightarrow> server_strand l = p # ps \<Longrightarrow> run_post p (server_writer l) = Some w \<Longrightarrow>
    link_step K (ex, rs, l) (ex, rs, l\<lparr>server_strand := ps, server_writer := w\<rparr>)"
| server_socket: "server_up l \<Longrightarrow> socket_event e \<Longrightarrow> writer_step (server_writer l) e (Some w) \<Longrightarrow>
    link_step K (ex, rs, l) (ex, rs, l\<lparr>server_writer := w\<rparr>)"
| client_read: "0 < n \<Longrightarrow> rx_got (client_rx l) + n \<le> length (wire (server_writer l)) \<Longrightarrow>
    read_some n (wire (server_writer l)) (client_rx l) = (objs, Inr rx) \<Longrightarrow>
    receive_all objs (client_of l) = Some c \<Longrightarrow>
    link_step K (ex, rs, l) (ex, rs @ map (the \<circ> response_of_object) objs, l\<lparr>client_rx := rx, client_of := c\<rparr>)"

text \<open>A run: the callers ask, and the connection goes on.\<close>

inductive link_run ::
    "'app server_conf \<Rightarrow> 'app world \<Rightarrow> request list \<Rightarrow> executed \<Rightarrow> response list \<Rightarrow> 'app link \<Rightarrow> bool"
  for K w0 where
  start: "link_run K w0 [] [] [] (new_link w0)"
| call: "link_run K w0 qs ex rs l \<Longrightarrow> uint (call_idx (client_of l)) < 2147483647 \<Longrightarrow>
    client_async_call name args (client_of l) = (Some p, c) \<Longrightarrow>
    sendable (call_object (call_idx c) name args) \<Longrightarrow>
    link_run K w0 (qs @ [Call_req (call_idx c) name args p]) ex rs (l\<lparr>client_of := c\<rparr>)"
| send: "link_run K w0 qs ex rs l \<Longrightarrow> client_send name args (client_of l) = Some c \<Longrightarrow>
    sendable (notification_object name args) \<Longrightarrow>
    link_run K w0 (qs @ [Send_req name args]) ex rs (l\<lparr>client_of := c\<rparr>)"
| step: "link_run K w0 qs ex rs l \<Longrightarrow> link_step K (ex, rs, l) (ex', rs', l') \<Longrightarrow> link_run K w0 qs ex' rs' l'"

section \<open>What a worker writes\<close>

definition written :: "post list \<Rightarrow> byte list list" where
  "written posts = concat (map (\<lambda>p. case p of Write data \<Rightarrow> [data] | _ \<Rightarrow> []) posts)"

lemma written_simps [simp]:
  "written [] = []" "written (ps @ qs) = written ps @ written qs" "written (Write data # ps) = data # written ps"
  "written (Exit_session # ps) = written ps" "written (Close_sessions # ps) = written ps"
  by (simp_all add: written_def)

text \<open>The responses of the server are within the limits of the unpacker.\<close>

definition replies_fit :: "'app server_conf \<Rightarrow> bool" where
  "replies_fit K \<longleftrightarrow> (\<forall>msg w resp w' resp'.
     dispatch (conf_suppress K) (conf_disp K) msg (prepare (conf_sid K) w) = (Returned resp, w') \<longrightarrow>
     capture_special resp w' = Some resp' \<longrightarrow> sendable (response_object resp'))"

text \<open>The number of a call, read off its message.\<close>

definition msg_ids :: "object \<Rightarrow> 32 word list" where
  "msg_ids msg = (case convert_call msg of Some (type, i, name, args) \<Rightarrow> [i] | None \<Rightarrow> [])"

lemma msg_ids_simps [simp]:
  "0 \<le> sint i \<Longrightarrow> msg_ids (call_object i name args) = [i]"
  "msg_ids (notification_object name args) = []"
  by (simp_all add: msg_ids_def convert_call_object)
    (simp add: notification_object_def convert_call_def convert_element_def convert_unsigned_def convert_signed_def)

lemma dispatch_call_id:
  assumes "dispatch suppress funcs (call_object i name args) w = (Returned resp, w')" "0 \<le> sint i"
  shows "resp_id resp = i"
proof -
  have text_id: "make_error_text i t v = (Returned resp, w') \<Longrightarrow> resp_id resp = i" for t and v
    by (auto simp: make_error_text_def throw_def return_with_def make_error_def new_response_def
        split: option.splits)
  have "catch_call suppress i name (ARRAY args) res v = (Returned resp, w') \<Longrightarrow> resp_id resp = i" for res v
    by (cases res; cases suppress)
      (auto simp: catch_call_def could_not_find_def throw_def return_with_def undefined_behaviour_def
        make_result_def new_response_def text_id split: thrown.splits)
  with assms show ?thesis
    by (auto simp: dispatch_call_object could_not_find_def text_id split: option.splits)
qed

lemma dispatch_notification_empty:
  assumes "dispatch suppress funcs (notification_object name args) w = (Returned resp, w')"
  shows "resp = empty_response"
proof -
  have "catch_notification suppress res v = (Returned resp, w') \<Longrightarrow> resp = empty_response" for res v
    by (cases res; cases suppress)
      (auto simp: catch_notification_def throw_def return_with_def undefined_behaviour_def split: thrown.splits)
  with assms show ?thesis
    by (auto simp: dispatch_notification_object split: option.splits)
qed

lemma capture_special_id:
  "capture_special resp w = Some resp' \<Longrightarrow> resp_id resp' = resp_id resp \<and> resp_empty resp' = resp_empty resp"
  by (auto simp: capture_special_def capture_error_def capture_result_def split: if_splits option.splits)

text \<open>What one message is answered with: at most one response, which carries its number.\<close>

definition answers :: "object \<times> post list \<Rightarrow> response list \<Rightarrow> bool" where
  "answers e rs \<longleftrightarrow> written (snd e) = map (\<lambda>r. pack_object (response_object r)) rs \<and>
     (\<forall>r \<in> set rs. sendable (response_object r) \<and> msg_ids (fst e) = [resp_id r]) \<and> length rs \<le> 1"

definition good_request :: "request \<Rightarrow> bool" where
  "good_request q \<longleftrightarrow> sendable (request_object q) \<and> (\<forall>i name args p. q = Call_req i name args p \<longrightarrow> 0 \<le> sint i)"

lemma work_answers:
  assumes "replies_fit K" "good_request q" "work K (request_object q) w = (Returned posts, w')"
  shows "\<exists>rs. answers (request_object q, posts) rs"
proof -
  let ?d = "dispatch (conf_suppress K) (conf_disp K) (request_object q) (prepare (conf_sid K) w)"
  obtain resp v where d: "?d = (Returned resp, v)" "after_dispatch resp v = (Returned posts, w')"
    using assms(3) by (cases ?d; cases "fst ?d") (auto simp: work_def process_message_def andthen_def)
  show ?thesis
  proof (cases "resp_enabled v")
    case False
    with d(2) show ?thesis
      by (intro exI [of _ "[]"]) (auto simp: after_dispatch_def answers_def)
  next
    case True
    with d(2) obtain resp' where resp': "capture_special resp v = Some resp'" "written posts = written (post_write resp')"
      by (auto simp: after_dispatch_def split: option.splits if_splits)
    have fit: "sendable (response_object resp')"
      using assms(1) d(1) resp'(1) unfolding replies_fit_def by blast
    show ?thesis
    proof (cases "resp_empty resp'")
      case True
      with resp'(2) show ?thesis
        by (intro exI [of _ "[]"]) (simp add: answers_def)
    next
      case False
      then have "resp \<noteq> empty_response"
        using capture_special_id [OF resp'(1)] by (auto simp: empty_response_def new_response_def)
      then obtain i name args p where q: "q = Call_req i name args p"
        using d(1) by (cases q) (auto simp: request_object_def dest: dispatch_notification_empty)
      then have "resp_id resp' = i" "0 \<le> sint i"
        using dispatch_call_id [of _ _ i name args] d(1) assms(2) capture_special_id [OF resp'(1)]
        by (auto simp: good_request_def request_object_def)
      with fit q resp'(2) False show ?thesis
        by (intro exI [of _ "[resp']"]) (simp add: answers_def request_object_def)
    qed
  qed
qed

end
