(* ===== verification/Rpc_Link_Inv.thy ===== *)
theory Rpc_Link_Inv
  imports Rpc_Link
begin

text \<open>
  The invariant of a connection: the numbers of the calls on their way, where each request and
  each answer is, and that every step of the connection and every request of a caller keeps it.
\<close>

section \<open>Numbers of messages and answers\<close>

lemma mset_concat_map_subset:
  assumes "mset xs \<subseteq># mset ys"
  shows "mset (concat (map f xs)) \<subseteq># mset (concat (map f ys))"
proof -
  obtain zs where "mset ys = mset (xs @ zs)"
    using assms by (metis ex_mset mset_append mset_subset_eq_exists_conv)
  then have "mset (map f ys) = mset (map f (xs @ zs))"
    by (metis mset_map)
  then have "mset (concat (map f ys)) = mset (concat (map f (xs @ zs)))"
    by (metis mset_concat mset_map sum_mset_sum_list)
  then show ?thesis by simp
qed

lemma msg_ids_request: "good_request q \<Longrightarrow> msg_ids (request_object q) = idxs [q]"
  by (cases q) (auto simp: good_request_def request_object_def)

lemma idxs_concat: "idxs qs = concat (map (\<lambda>q. idxs [q]) qs)"
  by (induction qs) (auto simp: idxs_def)

lemma msg_ids_requests:
  "(\<And>q. q \<in> set qs \<Longrightarrow> good_request q) \<Longrightarrow> concat (map msg_ids (map request_object qs)) = idxs qs"
  by (subst idxs_concat) (induction qs, simp_all add: msg_ids_request)

lemma answers_ids:
  "list_all2 answers ex Rs \<Longrightarrow> mset (map resp_id (concat Rs)) \<subseteq># mset (concat (map (msg_ids \<circ> fst) ex))"
proof (induction rule: list_all2_induct)
  case (Cons e ex rs Rs)
  have "mset (map resp_id rs) \<subseteq># mset (msg_ids (fst e))"
    using Cons(1) by (cases rs) (auto simp: answers_def)
  with Cons(3) show ?case
    by (simp add: subset_mset.add_mono)
qed simp

text \<open>Each number is answered once, and only after its call was written.\<close>

lemma reply_ids:
  assumes "list_all2 answers ex Rs" "mset (map fst ex) \<subseteq># mset D" "prefix D (map request_object qs)"
    and "\<And>q. q \<in> set qs \<Longrightarrow> good_request q" "distinct (idxs qs)"
  shows "distinct (map resp_id (concat Rs)) \<and> set (map resp_id (concat Rs)) \<subseteq> set (idxs qs)"
proof -
  have "mset D \<subseteq># mset (map request_object qs)"
    using assms(3) unfolding prefix_def by (metis mset_append mset_subset_eq_add_left)
  then have "mset (map fst ex) \<subseteq># mset (map request_object qs)"
    using assms(2) subset_mset.order_trans by blast
  then have "mset (concat (map msg_ids (map fst ex))) \<subseteq># mset (idxs qs)"
    using mset_concat_map_subset msg_ids_requests [OF assms(4)] by metis
  then have sub: "mset (map resp_id (concat Rs)) \<subseteq># mset (idxs qs)"
    using answers_ids [OF assms(1)] subset_mset.order_trans by (fastforce simp: comp_def)
  then obtain ys where "mset (idxs qs) = mset (map resp_id (concat Rs) @ ys)"
    by (metis ex_mset mset_append mset_subset_eq_exists_conv)
  then have "distinct (map resp_id (concat Rs) @ ys)" "set (map resp_id (concat Rs) @ ys) = set (idxs qs)"
    using assms(5) by (metis mset_eq_imp_distinct_iff, metis mset_eq_setD)
  then show ?thesis by auto
qed

section \<open>The client takes the answers\<close>

definition received :: "response \<Rightarrow> response" where
  "received r = the (response_of_object (response_object r))"

lemma received_response:
  "response_of_object (response_object r) = Some (received r)" "resp_id (received r) = resp_id r"
  by (simp_all add: received_def response_of_response_object)

text \<open>A call whose post has run and that has no response is in the table.\<close>

lemma posted_awaited:
  assumes "client_run qs rs c" "Call_req i name args p \<in> set qs" "i \<notin> resp_id ` set rs"
    and "\<forall>name p b. Post_call i name p b \<notin> set (io_tasks c)"
  shows "awaited i c"
proof -
  obtain sent_qs todo where inv: "qs = sent_qs @ todo" "filter is_post (io_tasks c) = map post_of todo"
      "answered sent_qs todo rs c"
    using client_run_inv [OF assms(1)] by (auto simp: client_inv_def flows_def)
  have "Call_req i name args p \<notin> set todo"
  proof
    assume "Call_req i name args p \<in> set todo"
    then have "post_of (Call_req i name args p) \<in> set (filter is_post (io_tasks c))"
      unfolding inv(2) by simp
    with assms(4) show False
      by (auto simp: post_of_def)
  qed
  with assms(2,3) inv(1) show ?thesis
    using answeredD(1) [OF inv(3), of i name args p] by (auto simp: awaited_def)
qed

lemma handle_awaited: "awaited (resp_id r) c \<Longrightarrow> \<exists>c'. handle_response r c = Some c'"
  by (auto simp: awaited_def handle_response_def current_call_def set_promise_def Let_def)

lemma handle_tasks: "handle_response r c = Some c' \<Longrightarrow> io_tasks c' = io_tasks c @ [Erase (resp_id r)]"
    "handle_response r c = Some c' \<Longrightarrow> writer_of c' = writer_of c"
  by (auto simp: handle_response_def set_promise_def Let_def split: if_splits)

lemma receive_all_run:
  assumes "client_run qs rs c" "distinct (map resp_id (rs @ R))"
    and "\<forall>r \<in> set R. resp_id r \<in> set (idxs qs) \<and> (\<forall>name p b. Post_call (resp_id r) name p b \<notin> set (io_tasks c))"
  shows "\<exists>c'. receive_all (map response_object R) c = Some c' \<and> client_run qs (rs @ map received R) c' \<and>
     writer_of c' = writer_of c"
  using assms
proof (induction R arbitrary: rs c)
  case (Cons r R)
  obtain name args p where q: "Call_req (resp_id r) name args p \<in> set qs"
    using Cons.prems(3) idxs_in by fastforce
  have "awaited (resp_id r) c"
    using posted_awaited [OF Cons.prems(1) q] Cons.prems(2,3) by simp
  then obtain c' where c': "handle_response (received r) c = Some c'" "awaited (resp_id (received r)) c"
    using handle_awaited [of "received r" c] by (auto simp: received_response)
  have "client_run qs (rs @ [received r]) c'"
    using response [OF Cons.prems(1) c'(2,1)] .
  moreover have "distinct (map resp_id ((rs @ [received r]) @ R))"
    using Cons.prems(2) by (simp add: received_response)
  ultimately obtain d where "receive_all (map response_object R) c' = Some d"
      "client_run qs ((rs @ [received r]) @ map received R) d" "writer_of d = writer_of c'"
    using Cons.IH [of "rs @ [received r]" c'] Cons.prems(3) handle_tasks(1) [OF c'(1)] by auto
  then show ?case
    using c'(1) handle_tasks(2) [OF c'(1)] by (simp add: receive_object_def received_response)
qed simp

section \<open>The invariant of a run\<close>

text \<open>The messages were executed one after the other, starting from \<open>w0\<close>.\<close>

fun executes :: "'app server_conf \<Rightarrow> 'app world \<Rightarrow> executed \<Rightarrow> 'app world \<Rightarrow> bool" where
  "executes K w [] w' = (w' = w)"
| "executes K w ((msg, posts) # ex) w' = (\<exists>v. work K msg w = (Returned posts, v) \<and> executes K v ex w')"

lemma executes_append:
  "executes K w (ex @ [(msg, posts)]) w' \<longleftrightarrow> (\<exists>v. executes K w ex v \<and> work K msg v = (Returned posts, w'))"
  by (induction ex arbitrary: w) (auto, blast+)

definition up_inv :: "executed \<Rightarrow> 'app link \<Rightarrow> bool" where
  "up_inv ex l \<longleftrightarrow> (\<exists>D. rx_inv (wire (writer_of (client_of l))) D (server_rx l) \<and>
     mset D = mset (server_tasks l) + mset (map fst ex))"

definition down_inv :: "executed \<Rightarrow> response list \<Rightarrow> 'app link \<Rightarrow> bool" where
  "down_inv ex rs l \<longleftrightarrow> (\<exists>Rs es. list_all2 answers ex Rs \<and> writer_run es (server_writer l) \<and> \<not> has_failed es \<and>
     puts es @ written (server_strand l) = map (\<lambda>r. pack_object (response_object r)) (concat Rs) \<and>
     rx_inv (wire (server_writer l)) (map response_object (take (length rs) (concat Rs))) (client_rx l) \<and>
     rs = map received (take (length rs) (concat Rs)))"

definition link_inv ::
    "'app server_conf \<Rightarrow> 'app world \<Rightarrow> request list \<Rightarrow> executed \<Rightarrow> response list \<Rightarrow> 'app link \<Rightarrow> bool" where
  "link_inv K w0 qs ex rs l \<longleftrightarrow> client_run qs rs (client_of l) \<and> (\<forall>q \<in> set qs. good_request q) \<and>
     up_inv ex l \<and> down_inv ex rs l \<and>
     (\<exists>w. executes K w0 ex w \<and> (server_up l \<longrightarrow> w = server_world l))"

lemma link_invI:
  "client_run qs rs (client_of l) \<Longrightarrow> (\<And>q. q \<in> set qs \<Longrightarrow> good_request q) \<Longrightarrow> up_inv ex l \<Longrightarrow> down_inv ex rs l \<Longrightarrow>
   executes K w0 ex w \<Longrightarrow> (server_up l \<Longrightarrow> w = server_world l) \<Longrightarrow> link_inv K w0 qs ex rs l"
  by (auto simp: link_inv_def)

lemma link_invD:
  assumes "link_inv K w0 qs ex rs l"
  shows "client_run qs rs (client_of l)" "q \<in> set qs \<Longrightarrow> good_request q" "up_inv ex l" "down_inv ex rs l"
    "\<exists>w. executes K w0 ex w \<and> (server_up l \<longrightarrow> w = server_world l)"
  using assms by (simp_all add: link_inv_def)

lemma wire_step: "writer_step w e (Some w') \<Longrightarrow> prefix (wire w) (wire w')"
  by (erule writer_step.cases) (auto simp: writer_ops split: if_splits)

lemma wire_write: "writer_write data w = Some w' \<Longrightarrow> wire w' = wire w"
  by (auto simp: writer_ops split: if_splits)

lemma wire_task: "run_task t c = Some c' \<Longrightarrow> wire (writer_of c') = wire (writer_of c)"
  by (cases t) (auto simp: run_task_def write_out_def wire_write insert_call_def erase_call_def drop_promise_def
      Let_def split: option.splits if_splits)

lemma up_inv_wire:
  "up_inv ex l \<Longrightarrow> prefix (wire (writer_of (client_of l))) (wire (writer_of c)) \<Longrightarrow> up_inv ex (l\<lparr>client_of := c\<rparr>)"
  by (auto simp: up_inv_def intro: rx_extend)

lemma down_inv_client: "down_inv ex rs (l\<lparr>client_of := c\<rparr>) = down_inv ex rs l"
  by (simp add: down_inv_def)

text \<open>What the server has unpacked is a start of what the client has written.\<close>

lemma unpacked_requests:
  assumes "client_run qs rs c" "\<And>q. q \<in> set qs \<Longrightarrow> good_request q" "rx_inv (wire (writer_of c)) D rx"
  shows "\<exists>sent_qs todo. qs = sent_qs @ todo \<and> filter is_post (io_tasks c) = map post_of todo \<and>
    prefix (wire (writer_of c)) (concat (map pack_object (map request_object sent_qs))) \<and>
    prefix D (map request_object sent_qs)"
proof -
  obtain es sent_qs todo where c: "qs = sent_qs @ todo" "filter is_post (io_tasks c) = map post_of todo"
      "writer_run es (writer_of c)" "puts es = map (\<lambda>q. pack_object (request_object q)) sent_qs"
    using client_writer [OF assms(1)] by metis
  have "prefix (wire (writer_of c)) (concat (map pack_object (map request_object sent_qs)))"
    using run_bytes [OF c(3)] c(4) by (metis (no_types, lifting) list.map_comp comp_def prefixI map_eq_conv)
  moreover have "\<And>x. x \<in> set (map request_object sent_qs) \<Longrightarrow> sendable x"
    using assms(2) c(1) by (auto simp: good_request_def)
  ultimately show ?thesis
    using rx_prefix(1) [OF assms(3)] c(1,2) by blast
qed

lemma posted_answers:
  assumes "client_run qs rs' c" "\<And>q. q \<in> set qs \<Longrightarrow> good_request q" "rx_inv (wire (writer_of c)) D rx"
    and "mset D = mset tasks + mset (map fst ex)" "list_all2 answers ex Rs"
  shows "distinct (map resp_id (concat Rs))"
    and "\<forall>r \<in> set (concat Rs). resp_id r \<in> set (idxs qs) \<and>
      (\<forall>name p b. Post_call (resp_id r) name p b \<notin> set (io_tasks c))"
proof -
  obtain sent_qs todo where qs: "qs = sent_qs @ todo" "filter is_post (io_tasks c) = map post_of todo"
      "prefix D (map request_object sent_qs)"
    using unpacked_requests [OF assms(1-3)] by blast
  have dist: "distinct (idxs qs)"
    using client_run_inv [OF assms(1)] by (auto simp: client_inv_def numbered_def)
  have ids: "distinct (map resp_id (concat Rs)) \<and> set (map resp_id (concat Rs)) \<subseteq> set (idxs sent_qs)"
    using assms(2,4) qs dist by (intro reply_ids [OF assms(5) _ qs(3)]) auto
  then show "distinct (map resp_id (concat Rs))" by simp
  show "\<forall>r \<in> set (concat Rs). resp_id r \<in> set (idxs qs) \<and>
      (\<forall>name p b. Post_call (resp_id r) name p b \<notin> set (io_tasks c))"
  proof (intro ballI conjI allI notI)
    fix r
    assume "r \<in> set (concat Rs)"
    then have r: "resp_id r \<in> set (idxs sent_qs)"
      using ids by auto
    then show "resp_id r \<in> set (idxs qs)"
      using qs(1) by simp
    fix name p b
    assume "Post_call (resp_id r) name p b \<in> set (io_tasks c)"
    then have "Post_call (resp_id r) name p b \<in> set (filter is_post (io_tasks c))"
      by (simp add: is_post_def)
    then obtain q where "q \<in> set todo" "post_of q = Post_call (resp_id r) name p b"
      unfolding qs(2) by auto
    moreover from this(2) obtain args where "q = Call_req (resp_id r) name args p"
      by (cases q) (auto simp: post_of_def)
    ultimately have "resp_id r \<in> set (idxs todo)"
      using in_idxs by blast
    with r dist qs(1) show False by auto
  qed
qed

section \<open>The steps keep the invariant\<close>

lemma new_link_inv: "link_inv K w0 [] [] [] (new_link w0)"
  by (rule link_invI [where w = w0])
    (auto simp: new_link_def up_inv_def down_inv_def intro: client_run.start rx_start writer_steps.start)

text \<open>A step of the client alone.\<close>

lemma client_inv_step:
  assumes "link_inv K w0 qs ex rs l" "client_run qs' rs c" "\<And>q. q \<in> set qs' \<Longrightarrow> good_request q"
    and "prefix (wire (writer_of (client_of l))) (wire (writer_of c))"
  shows "link_inv K w0 qs' ex rs (l\<lparr>client_of := c\<rparr>)"
  using link_invD(3-5) [OF assms(1)] up_inv_wire [OF _ assms(4)] assms(2,3)
  by (auto simp: link_inv_def down_inv_client)

lemma inv_link_call:
  assumes "link_inv K w0 qs ex rs l" "uint (call_idx (client_of l)) < 2147483647"
    and "client_async_call name args (client_of l) = (Some p, c)" "sendable (call_object (call_idx c) name args)"
  shows "link_inv K w0 (qs @ [Call_req (call_idx c) name args p]) ex rs (l\<lparr>client_of := c\<rparr>)"
proof -
  have len: "length name < 4294967296" "length args < 4294967296"
    using assms(4) by (auto simp: call_object_def)
  note c = async_call_result [OF assms(3) len]
  have "uint (call_idx c) = uint (call_idx (client_of l)) + 1"
    using c idx_successor [OF assms(2)] by simp
  then have "0 \<le> sint (call_idx c)"
    using assms(2) sint_uint [of "call_idx c"] by (simp add: signed_take_bit_int_eq_self)
  then have good: "good_request (Call_req (call_idx c) name args p)"
    using assms(4) by (simp add: good_request_def request_object_def)
  show ?thesis
  proof (rule client_inv_step [OF assms(1)])
    show "client_run (qs @ [Call_req (call_idx c) name args p]) rs c"
      using link_invD(1) [OF assms(1)] assms(2) len assms(3) by (rule client_run.call)
    show "prefix (wire (writer_of (client_of l))) (wire (writer_of c))"
      using c by simp
    show "good_request q" if "q \<in> set (qs @ [Call_req (call_idx c) name args p])" for q
      using that good link_invD(2) [OF assms(1)] by auto
  qed
qed

lemma inv_link_send:
  assumes "link_inv K w0 qs ex rs l" "client_send name args (client_of l) = Some c"
    and "sendable (notification_object name args)"
  shows "link_inv K w0 (qs @ [Send_req name args]) ex rs (l\<lparr>client_of := c\<rparr>)"
proof (rule client_inv_step [OF assms(1)])
  have len: "length name < 4294967296" "length args < 4294967296"
    using assms(3) by (auto simp: notification_object_def)
  show "client_run (qs @ [Send_req name args]) rs c"
    using link_invD(1) [OF assms(1)] len assms(2) by (rule client_run.send)
  show "prefix (wire (writer_of (client_of l))) (wire (writer_of c))"
    using assms(2) by (auto simp: client_send_def post_buffer_def split: option.splits)
  show "good_request q" if "q \<in> set (qs @ [Send_req name args])" for q
    using that assms(3) link_invD(2) [OF assms(1)] by (auto simp: good_request_def request_object_def)
qed

lemma inv_server_read:
  assumes "link_inv K w0 qs ex rs l" "rx_got (server_rx l) + n \<le> length (wire (writer_of (client_of l)))"
    and "read_some n (wire (writer_of (client_of l))) (server_rx l) = (msgs, Inr rx)"
  shows "link_inv K w0 qs ex rs (l\<lparr>server_rx := rx, server_tasks := server_tasks l @ msgs\<rparr>)"
proof -
  obtain D where D: "rx_inv (wire (writer_of (client_of l))) D (server_rx l)"
      "mset D = mset (server_tasks l) + mset (map fst ex)"
    using link_invD(3) [OF assms(1)] by (auto simp: up_inv_def)
  obtain sent_qs todo where qs: "qs = sent_qs @ todo"
      "prefix (wire (writer_of (client_of l))) (concat (map pack_object (map request_object sent_qs)))"
    using unpacked_requests [OF link_invD(1,2) [OF assms(1)] D(1)] by blast
  have fit: "\<And>x. x \<in> set (map request_object sent_qs) \<Longrightarrow> sendable x"
    using link_invD(2) [OF assms(1)] qs(1) by (auto simp: good_request_def)
  have "rx_inv (wire (writer_of (client_of l))) (D @ msgs) rx"
    using rx_read [OF D(1) assms(2) fit qs(2)] assms(3) by auto
  then have "up_inv ex (l\<lparr>server_rx := rx, server_tasks := server_tasks l @ msgs\<rparr>)"
    using D(2) by (auto simp: up_inv_def intro!: exI [of _ "D @ msgs"])
  then show ?thesis
    using link_invD [OF assms(1)] by (auto simp: link_inv_def down_inv_def)
qed

lemma mset_remove_nth: "i < length xs \<Longrightarrow> mset xs = add_mset (xs ! i) (mset (remove_nth i xs))"
  by (simp add: remove_nth_def) (metis id_take_nth_drop mset.simps(2) mset_append union_mset_add_mset_right)

lemma inv_server_work:
  assumes "replies_fit K" "link_inv K w0 qs ex rs l" "server_up l" "i < length (server_tasks l)"
    and "work K (server_tasks l ! i) (server_world l) = (Returned posts, w)"
  shows "link_inv K w0 qs (ex @ [(server_tasks l ! i, posts)]) rs
    (l\<lparr>server_tasks := remove_nth i (server_tasks l), server_strand := server_strand l @ posts, server_world := w\<rparr>)"
    (is "link_inv K w0 qs ?ex rs ?l")
proof -
  obtain D where D: "rx_inv (wire (writer_of (client_of l))) D (server_rx l)"
      "mset D = mset (server_tasks l) + mset (map fst ex)"
    using link_invD(3) [OF assms(2)] by (auto simp: up_inv_def)
  then have "up_inv ?ex ?l"
    using mset_remove_nth [OF assms(4)] by (auto simp: up_inv_def)
  moreover have "executes K w0 ?ex w"
    using link_invD(5) [OF assms(2)] assms(3,5) by (auto simp: executes_append)
  moreover have "down_inv ?ex rs ?l"
  proof -
    obtain sent_qs todo where qs: "qs = sent_qs @ todo" "prefix D (map request_object sent_qs)"
      using unpacked_requests [OF link_invD(1,2) [OF assms(2)] D(1)] by blast
    have "server_tasks l ! i \<in># mset D"
      using D(2) assms(4) by simp
    then obtain q where q: "q \<in> set qs" "server_tasks l ! i = request_object q"
      using qs set_mono_prefix [OF qs(2)] by auto
    then obtain R where R: "answers (server_tasks l ! i, posts) R"
      using work_answers [OF assms(1) link_invD(2) [OF assms(2)]] assms(5) by metis
    obtain Rs es where old: "list_all2 answers ex Rs" "writer_run es (server_writer l)"
        "puts es @ written (server_strand l) = map (\<lambda>r. pack_object (response_object r)) (concat Rs)"
        "rx_inv (wire (server_writer l)) (map response_object (take (length rs) (concat Rs))) (client_rx l)"
        "rs = map received (take (length rs) (concat Rs))" "\<not> has_failed es"
      using link_invD(4) [OF assms(2)] by (auto simp: down_inv_def)
    have "length rs \<le> length (concat Rs)"
      using arg_cong [OF old(5), of length] by simp
    then have "take (length rs) (concat (Rs @ [R])) = take (length rs) (concat Rs)"
      by simp
    moreover have "list_all2 answers ?ex (Rs @ [R])"
      using old(1) R by (simp add: list_all2_appendI)
    moreover have "puts es @ written (server_strand ?l) =
        map (\<lambda>r. pack_object (response_object r)) (concat (Rs @ [R]))"
      using old(3) R by (simp add: answers_def flip: append_assoc)
    ultimately show ?thesis
      unfolding down_inv_def using old(2,4,5,6) by (intro exI [of _ "Rs @ [R]"] exI [of _ es])
        (simp del: concat_append take_append)
  qed
  ultimately show ?thesis
    using link_invD(1,2) [OF assms(2)] by (intro link_invI [where w = w]) simp_all
qed

definition event_of :: "post \<Rightarrow> writer_event" where
  "event_of p = (case p of Write data \<Rightarrow> Put data | Exit_session \<Rightarrow> Exit | Close_sessions \<Rightarrow> Close)"

lemma run_post_step: "run_post p w = Some w' \<Longrightarrow> writer_step w (event_of p) (Some w')"
  by (cases p) (simp_all add: run_post_def event_of_def writer_step_simps)

lemma event_of_not_failure: "\<not> is_failure (event_of p)"
  by (cases p) (simp_all add: event_of_def is_failure_def)

lemma puts_event: "puts (es @ [event_of p]) = puts es @ written [p]" "written (p # ps) = written [p] @ written ps"
  by (cases p; simp add: event_of_def)+

lemma inv_server_post:
  assumes "link_inv K w0 qs ex rs l" "server_strand l = p # ps" "run_post p (server_writer l) = Some w"
  shows "link_inv K w0 qs ex rs (l\<lparr>server_strand := ps, server_writer := w\<rparr>)"
proof -
  obtain Rs es where old: "list_all2 answers ex Rs" "writer_run es (server_writer l)"
      "puts es @ written (server_strand l) = map (\<lambda>r. pack_object (response_object r)) (concat Rs)"
      "rx_inv (wire (server_writer l)) (map response_object (take (length rs) (concat Rs))) (client_rx l)"
      "rs = map received (take (length rs) (concat Rs))" "\<not> has_failed es"
    using link_invD(4) [OF assms(1)] by (auto simp: down_inv_def)
  note e = run_post_step [OF assms(3)] puts_event(1) [of es p]
  then have "down_inv ex rs (l\<lparr>server_strand := ps, server_writer := w\<rparr>)"
    unfolding down_inv_def using old assms(2) writer_steps.step [OF old(2) e(1)]
      rx_extend [OF old(4) wire_step [OF e(1)]]
    by (intro exI [of _ Rs] exI [of _ "es @ [event_of p]"]) (simp add: puts_event(2) [of p ps] event_of_not_failure)
  then show ?thesis
    using link_invD [OF assms(1)] by (auto simp: link_inv_def up_inv_def)
qed

lemma inv_server_socket:
  assumes "link_inv K w0 qs ex rs l" "socket_event e" "writer_step (server_writer l) e (Some w)"
  shows "link_inv K w0 qs ex rs (l\<lparr>server_writer := w\<rparr>)"
proof -
  obtain Rs es where old: "list_all2 answers ex Rs" "writer_run es (server_writer l)"
      "puts es @ written (server_strand l) = map (\<lambda>r. pack_object (response_object r)) (concat Rs)"
      "rx_inv (wire (server_writer l)) (map response_object (take (length rs) (concat Rs))) (client_rx l)"
      "rs = map received (take (length rs) (concat Rs))" "\<not> has_failed es"
    using link_invD(4) [OF assms(1)] by (auto simp: down_inv_def)
  then have "down_inv ex rs (l\<lparr>server_writer := w\<rparr>)"
    unfolding down_inv_def using writer_steps.step [OF old(2) assms(3)] puts_socket [of "[e]" es] assms(2)
      rx_extend [OF old(4) wire_step [OF assms(3)]] clean_not_failed [of "[e]"] socket_clean [OF assms(2)]
    by (intro exI [of _ Rs] exI [of _ "es @ [e]"]) simp
  then show ?thesis
    using link_invD [OF assms(1)] by (auto simp: link_inv_def up_inv_def)
qed

lemma next_taken:
  assumes "prefix (map f (take k xs) @ objs) (map f xs)" "k \<le> length xs"
  shows "\<exists>R. objs = map f R \<and> take (k + length objs) xs = take k xs @ R"
proof (intro exI conjI)
  obtain zs where "map f xs = map f (take k xs) @ objs @ zs"
    using assms(1) by (auto simp: prefix_def)
  moreover have "map f xs = map f (take k xs) @ map f (drop k xs)"
    by (simp flip: map_append)
  ultimately have "map f (drop k xs) = objs @ zs" by simp
  then show "objs = map f (take (length objs) (drop k xs))"
    by (simp flip: take_map)
  show "take (k + length objs) xs = take k xs @ take (length objs) (drop k xs)"
    by (rule take_add)
qed

text \<open>A piece of the answers is taken whole: the client survives it.\<close>

lemma client_takes:
  assumes "link_inv K w0 qs ex rs l" "rx_got (client_rx l) + n \<le> length (wire (server_writer l))"
  shows "\<exists>objs rx c. read_some n (wire (server_writer l)) (client_rx l) = (objs, Inr rx) \<and>
    receive_all objs (client_of l) = Some c \<and>
    link_inv K w0 qs ex (rs @ map (the \<circ> response_of_object) objs) (l\<lparr>client_rx := rx, client_of := c\<rparr>)"
proof -
  note inv = link_invD [OF assms(1)]
  obtain D where D: "rx_inv (wire (writer_of (client_of l))) D (server_rx l)"
      "mset D = mset (server_tasks l) + mset (map fst ex)"
    using inv(3) by (auto simp: up_inv_def)
  obtain Rs es where old: "list_all2 answers ex Rs" "writer_run es (server_writer l)"
      "puts es @ written (server_strand l) = map (\<lambda>r. pack_object (response_object r)) (concat Rs)"
      "rx_inv (wire (server_writer l)) (map response_object (take (length rs) (concat Rs))) (client_rx l)"
      "rs = map received (take (length rs) (concat Rs))" "\<not> has_failed es"
    using inv(4) by (auto simp: down_inv_def)
  let ?xs = "map response_object (concat Rs)"
  have fit: "\<And>x. x \<in> set ?xs \<Longrightarrow> sendable x"
    using old(1) by (auto simp: list_all2_conv_all_nth answers_def in_set_conv_nth) (metis nth_mem)
  have "concat (map pack_object ?xs) = concat (puts es) @ concat (written (server_strand l))"
    using arg_cong [OF old(3), of concat] by (simp add: comp_def)
  then have pre: "prefix (wire (server_writer l)) (concat (map pack_object ?xs))"
    using run_bytes [OF old(2)] by (metis append_assoc prefixI)
  obtain objs rx where new: "read_some n (wire (server_writer l)) (client_rx l) = (objs, Inr rx)"
      "rx_inv (wire (server_writer l)) (map response_object (take (length rs) (concat Rs)) @ objs) rx"
      "prefix (map response_object (take (length rs) (concat Rs)) @ objs) ?xs"
    using rx_read [OF old(4) assms(2) fit pre] by blast
  have "length rs \<le> length (concat Rs)"
    using arg_cong [OF old(5), of length] by simp
  then obtain R where R: "objs = map response_object R"
      "take (length rs + length objs) (concat Rs) = take (length rs) (concat Rs) @ R"
    using next_taken [OF new(3)] by blast
  then have upto: "take (length (rs @ map (the \<circ> response_of_object) objs)) (concat Rs) =
      take (length rs) (concat Rs) @ R"
    by simp
  have rs': "rs @ map (the \<circ> response_of_object) objs = rs @ map received R"
    by (subst R(1)) (simp add: received_def)
  have ids: "map resp_id (rs @ R) = map resp_id (take (length rs) (concat Rs) @ R)"
    by (subst old(5)) (simp add: received_response comp_def)
  also have "\<dots> = map resp_id (take (length rs + length objs) (concat Rs))"
    by (simp add: R(2))
  finally have "distinct (map resp_id (rs @ R))"
    using posted_answers(1) [OF inv(1,2) D old(1)] by (metis distinct_take take_map)
  moreover have "\<forall>r \<in> set R. resp_id r \<in> set (idxs qs) \<and>
      (\<forall>name p b. Post_call (resp_id r) name p b \<notin> set (io_tasks (client_of l)))"
    using posted_answers(2) [OF inv(1,2) D old(1)] R(2) by (metis Un_iff in_set_takeD set_append)
  ultimately obtain c where c: "receive_all (map response_object R) (client_of l) = Some c"
      "client_run qs (rs @ map received R) c" "writer_of c = writer_of (client_of l)"
    using receive_all_run [OF inv(1)] by blast
  have "rx_inv (wire (server_writer l)) (map response_object
      (take (length (rs @ map (the \<circ> response_of_object) objs)) (concat Rs))) rx"
    unfolding upto using new(2) R by simp
  moreover have "rs @ map (the \<circ> response_of_object) objs =
      map received (take (length (rs @ map (the \<circ> response_of_object) objs)) (concat Rs))"
    unfolding upto map_append
    by (rule trans [OF rs' arg_cong [OF old(5), of "\<lambda>xs. xs @ map received R"]])
  moreover have sel: "server_writer (l\<lparr>client_rx := rx, client_of := c\<rparr>) = server_writer l"
      "server_strand (l\<lparr>client_rx := rx, client_of := c\<rparr>) = server_strand l"
      "client_rx (l\<lparr>client_rx := rx, client_of := c\<rparr>) = rx"
    by simp_all
  ultimately have "down_inv ex (rs @ map (the \<circ> response_of_object) objs) (l\<lparr>client_rx := rx, client_of := c\<rparr>)"
    unfolding down_inv_def sel using old(1-3,6) by blast
  moreover have "up_inv ex (l\<lparr>client_rx := rx, client_of := c\<rparr>)"
    using D c(3) by (auto simp: up_inv_def)
  ultimately have "link_inv K w0 qs ex (rs @ map (the \<circ> response_of_object) objs) (l\<lparr>client_rx := rx, client_of := c\<rparr>)"
    using c(2) rs' inv(2,5) by (auto simp: link_inv_def)
  then show ?thesis
    using new(1) c(1) R(1) by auto
qed

lemma link_step_inv:
  assumes "replies_fit K" "link_step K (ex, rs, l) (ex', rs', l')" "link_inv K w0 qs ex rs l"
  shows "link_inv K w0 qs ex' rs' l'"
  using assms(2)
proof cases
  case (client_task t ts c)
  show ?thesis
    using client_inv_step [OF assms(3) client_run.task [OF link_invD(1) [OF assms(3)]]]
      client_task wire_task link_invD(2) [OF assms(3)] by fastforce
next
  case (client_socket e w)
  then show ?thesis
    using client_inv_step [OF assms(3) client_run.socket [OF link_invD(1) [OF assms(3)]]]
      wire_step link_invD(2) [OF assms(3)] by fastforce
next
  case (server_read n msgs rx)
  then show ?thesis
    using inv_server_read [OF assms(3)] by simp
next
  case (server_work i posts w)
  then show ?thesis
    using inv_server_work [OF assms(1,3)] by simp
next
  case (server_dies i res w)
  then show ?thesis
    using link_invD [OF assms(3)] by (auto simp: link_inv_def up_inv_def down_inv_def)
next
  case (server_post p ps w)
  then show ?thesis
    using inv_server_post [OF assms(3)] by simp
next
  case (server_socket e w)
  then show ?thesis
    using inv_server_socket [OF assms(3)] by simp
next
  case (client_read n objs rx c)
  then show ?thesis
    using client_takes [OF assms(3), of n] by auto
qed

lemma link_run_inv:
  assumes "replies_fit K" "link_run K w0 qs ex rs l"
  shows "link_inv K w0 qs ex rs l"
  using assms(2) by (induction rule: link_run.induct)
    (use assms(1) in \<open>auto intro: new_link_inv inv_link_call inv_link_send link_step_inv\<close>)

end
