(* ===== verification/Rpc_Link_Progress.thy ===== *)
theory Rpc_Link_Progress
  imports Rpc_Link_Inv
begin

text \<open>
  A connection that cannot go on has delivered everything, and it cannot go on for ever: a
  lexicographic measure of what is still to be done that each step decreases.
\<close>

section \<open>Nothing gets stuck\<close>

text \<open>Everything that was asked for is through.\<close>

definition idle :: "'app link \<Rightarrow> bool" where
  "idle l \<longleftrightarrow> io_tasks (client_of l) = [] \<and> write_queue (writer_of (client_of l)) = [] \<and>
     rx_got (server_rx l) = length (wire (writer_of (client_of l))) \<and> server_tasks l = [] \<and>
     server_strand l = [] \<and> write_queue (server_writer l) = [] \<and>
     rx_got (client_rx l) = length (wire (server_writer l))"

definition stuck :: "'app server_conf \<Rightarrow> 'app link \<Rightarrow> bool" where
  "stuck K l \<longleftrightarrow> (\<forall>ex rs s. \<not> link_step K (ex, rs, l) s)"

lemma run_task_Some:
  assumes "client_run qs rs c" "writer_of d = writer_of c"
  shows "\<exists>c'. run_task t d = Some c'"
proof -
  obtain es where "writer_run es (writer_of c)"
    using client_writer [OF assms(1)] by metis
  then have "\<exists>w. writer_write data (writer_of d) = Some w" for data
    using writer_inv_step [OF run_inv put] assms(2) by force
  then show ?thesis
    by (cases t) (auto simp: run_task_def write_out_def insert_call_def drop_promise_def Let_def
        split: option.splits)
qed

lemma stuck_has_read:
  assumes "link_inv K w0 qs ex rs l" "server_up l" "\<not> writer_exit (server_writer l)" "stuck K l"
  shows "rx_got (server_rx l) = length (wire (writer_of (client_of l)))"
    and "rx_got (client_rx l) = length (wire (server_writer l))"
proof -
  note inv = link_invD [OF assms(1)]
  have none: "\<not> link_step K (ex, rs, l) s" for s
    using assms(4) unfolding stuck_def by blast
  obtain D where D: "rx_inv (wire (writer_of (client_of l))) D (server_rx l)"
    using inv(3) by (auto simp: up_inv_def)
  show "rx_got (server_rx l) = length (wire (writer_of (client_of l)))"
  proof (rule ccontr)
    assume "rx_got (server_rx l) \<noteq> length (wire (writer_of (client_of l)))"
    then have n: "0 < length (wire (writer_of (client_of l))) - rx_got (server_rx l)"
        "rx_got (server_rx l) + (length (wire (writer_of (client_of l))) - rx_got (server_rx l)) \<le>
          length (wire (writer_of (client_of l)))"
      using D by (auto simp: rx_inv_def)
    obtain qs1 where qs1: "prefix (wire (writer_of (client_of l))) (concat (map pack_object (map request_object qs1)))"
        "set qs1 \<subseteq> set qs"
      using unpacked_requests [OF inv(1,2) D] by auto
    have "\<And>x. x \<in> set (map request_object qs1) \<Longrightarrow> sendable x"
      using inv(2) qs1(2) by (auto simp: good_request_def)
    from rx_read [OF D n(2) this qs1(1)] show False
      using none server_read [OF assms(2,3) n] by blast
  qed
  show "rx_got (client_rx l) = length (wire (server_writer l))"
  proof (rule ccontr)
    assume "rx_got (client_rx l) \<noteq> length (wire (server_writer l))"
    then have "0 < length (wire (server_writer l)) - rx_got (client_rx l)"
        "rx_got (client_rx l) + (length (wire (server_writer l)) - rx_got (client_rx l)) \<le> length (wire (server_writer l))"
      using inv(4) by (auto simp: down_inv_def rx_inv_def)
    with client_takes [OF assms(1)] show False
      using none client_read by metis
  qed
qed

lemma stuck_idle:
  assumes "replies_fit K" "link_inv K w0 qs ex rs l" "server_up l" "\<not> writer_exit (server_writer l)" "stuck K l"
  shows "idle l"
proof -
  note inv = link_invD [OF assms(2)]
  have none: "\<not> link_step K (ex, rs, l) s" for s
    using assms(5) unfolding stuck_def by blast
  obtain es sent_qs where c: "writer_run es (writer_of (client_of l))" "list_all clean es"
    using client_writer [OF inv(1)] by metis
  obtain es' where s: "writer_run es' (server_writer l)" "\<not> has_failed es'"
    using inv(4) by (auto simp: down_inv_def)
  have "io_tasks (client_of l) = []"
    using none client_task run_task_Some [OF inv(1), of "(client_of l)\<lparr>io_tasks := _\<rparr>"]
    by (cases "io_tasks (client_of l)") fastforce+
  moreover have "write_queue (writer_of (client_of l)) = []"
    using none client_socket socket_goes_on run_inv [OF c(1)] clean_not_failed [OF c(2)] clean_exit [OF c]
    by metis
  moreover have "server_tasks l = []"
  proof (rule ccontr)
    assume "server_tasks l \<noteq> []"
    then have i: "0 < length (server_tasks l)" by simp
    obtain res w where "work K (server_tasks l ! 0) (server_world l) = (res, w)"
      by (cases "work K (server_tasks l ! 0) (server_world l)")
    with none server_work [OF assms(3) i] server_dies [OF assms(3) i] show False
      by metis
  qed
  moreover have "server_strand l = []"
    using none server_post [OF assms(3)] writer_inv_step [OF run_inv [OF s(1)] put]
    by (cases "server_strand l"; cases "hd (server_strand l)") (force simp: run_post_def)+
  moreover have "write_queue (server_writer l) = []"
    using none server_socket [OF assms(3)] socket_goes_on run_inv [OF s(1)] s(2) assms(4) by metis
  ultimately show ?thesis
    using stuck_has_read [OF assms(2-5)] by (simp add: idle_def)
qed

section \<open>And it comes to an end\<close>

text \<open>Each step inside uses up something the earlier parts of the connection do not give back.\<close>

definition posts_left :: "client \<Rightarrow> nat" where
  "posts_left c = length (filter is_post (io_tasks c))"

definition link_measures :: "(executed \<times> response list \<times> 'app link \<Rightarrow> nat) list" where
  "link_measures =
     [\<lambda>(ex, rs, l). if server_up l then 1 else 0,
      \<lambda>(ex, rs, l). posts_left (client_of l),
      \<lambda>(ex, rs, l). work_left (writer_of (client_of l)),
      \<lambda>(ex, rs, l). length (wire (writer_of (client_of l))) - rx_got (server_rx l),
      \<lambda>(ex, rs, l). length (server_tasks l),
      \<lambda>(ex, rs, l). length (server_strand l),
      \<lambda>(ex, rs, l). work_left (server_writer l),
      \<lambda>(ex, rs, l). length (wire (server_writer l)) - rx_got (client_rx l),
      \<lambda>(ex, rs, l). length (io_tasks (client_of l))]"

lemma receive_object_tasks:
  "receive_object x c = Some c' \<Longrightarrow> posts_left c' = posts_left c \<and> writer_of c' = writer_of c"
  by (auto simp: receive_object_def posts_left_def is_post_def dest: handle_tasks split: option.splits)

lemma receive_all_tasks:
  "receive_all xs c = Some c' \<Longrightarrow> posts_left c' = posts_left c \<and> writer_of c' = writer_of c"
proof (induction xs arbitrary: c)
  case (Cons x xs)
  then show ?case
    by (auto simp: bind_eq_Some_conv dest: receive_object_tasks)
qed simp

lemma run_task_tasks:
  "run_task t c = Some c' \<Longrightarrow> io_tasks c' = io_tasks c \<and> (\<not> is_post t \<longrightarrow> writer_of c' = writer_of c)"
  by (cases t) (auto simp: run_task_def write_out_def insert_call_def erase_call_def drop_promise_def is_post_def
      Let_def split: option.splits if_splits)

lemma read_some_got: "read_some n stream rx = (xs, Inr rx') \<Longrightarrow> rx_got rx' = rx_got rx + n"
  by (auto simp: read_some_def split: prod.splits sum.splits)

lemma link_step_measures:
  assumes "link_step K s s'" "s = (ex, rs, l)" "link_inv K w0 qs ex rs l"
  shows "(s', s) \<in> measures link_measures"
proof -
  note inv = link_invD [OF assms(3)]
  obtain es where c: "writer_inv (has_failed es) (writer_of (client_of l))"
    using client_writer [OF inv(1)] run_inv by metis
  obtain es' where s: "writer_inv (has_failed es') (server_writer l)"
    using inv(4) run_inv by (auto simp: down_inv_def)
  show ?thesis
    using assms(1)
  proof cases
    case (client_task l' t ts c')
    then show ?thesis
      using assms(2) run_task_tasks [of t "(client_of l)\<lparr>io_tasks := ts\<rparr>" c']
      by (cases "is_post t") (auto simp: link_measures_def posts_left_def)
  next
    case (client_socket e l' w)
    then show ?thesis
      using assms(2) socket_step_work [OF c] by (auto simp: link_measures_def posts_left_def)
  next
    case (server_read l' n msgs rx)
    then show ?thesis
      using assms(2) read_some_got by (auto simp: link_measures_def)
  next
    case (server_work l' i posts w)
    then show ?thesis
      using assms(2) by (auto simp: link_measures_def remove_nth_def)
  next
    case (server_socket l' e w)
    then show ?thesis
      using assms(2) socket_step_work [OF s] by (auto simp: link_measures_def)
  next
    case (client_read n l' objs rx c')
    then show ?thesis
      using assms(2) read_some_got [of n "wire (server_writer l)" "client_rx l" objs rx]
        receive_all_tasks [of objs "client_of l" c']
      by (auto simp: link_measures_def)
  qed (use assms(2) in \<open>auto simp: link_measures_def\<close>)
qed

end
