(* ===== verification/Rpc_Calls.thy ===== *)
theory Rpc_Calls
  imports Rpc_Link_Progress
begin

text \<open>
  What a connection guarantees to the callers: a remote call is a call, every call is answered
  unless the server is gone, and the connection comes to rest. A connection with one call,
  worked out step by step, shows the guarantees at work.
\<close>

section \<open>Properties\<close>

lemma count_distinct_ids:
  "distinct (concat (map f xs)) \<Longrightarrow> f m \<noteq> [] \<Longrightarrow> count_list xs m \<le> 1"
proof (induction xs)
  case (Cons x xs)
  have "x = m \<Longrightarrow> count_list xs m = 0"
    using Cons.prems by (cases "f m") (auto simp: count_list_0_iff)
  with Cons show ?case by auto
qed simp

lemma executed_once:
  assumes "link_inv K w0 qs ex rs l" "0 \<le> sint i"
  shows "count_list (map fst ex) (call_object i name args) \<le> 1"
proof -
  note inv = link_invD [OF assms(1)]
  obtain D where D: "rx_inv (wire (writer_of (client_of l))) D (server_rx l)"
      "mset D = mset (server_tasks l) + mset (map fst ex)"
    using inv(3) by (auto simp: up_inv_def)
  obtain qs1 todo where qs: "qs = qs1 @ todo" "prefix D (map request_object qs1)"
    using unpacked_requests [OF inv(1,2) D(1)] by blast
  have "mset (map fst ex) \<subseteq># mset (map request_object qs1)"
    using D(2) qs(2) unfolding prefix_def
    by (metis mset_append mset_subset_eq_add_left mset_subset_eq_add_right subset_mset.order_trans)
  then have "mset (concat (map msg_ids (map fst ex))) \<subseteq># mset (idxs qs1)"
    using mset_concat_map_subset msg_ids_requests inv(2) qs(1) by (metis Un_iff set_append)
  then obtain ys where "mset (idxs qs1) = mset (concat (map msg_ids (map fst ex)) @ ys)"
    by (metis ex_mset mset_append mset_subset_eq_exists_conv)
  moreover have "distinct (idxs qs1)"
    using client_run_inv [OF inv(1)] qs(1) by (auto simp: client_inv_def numbered_def)
  ultimately have "distinct (concat (map msg_ids (map fst ex)) @ ys)"
    by (metis mset_eq_imp_distinct_iff)
  then show ?thesis
    using count_distinct_ids [of msg_ids "map fst ex" "call_object i name args"] assms(2) by simp
qed

lemma answers_entry: "list_all2 answers ex Rs \<Longrightarrow> e \<in> set ex \<Longrightarrow> \<exists>R \<in> set Rs. answers e R"
  by (induction rule: list_all2_induct) auto

lemma executes_split:
  "executes K w0 (before @ (msg, posts) # after) w \<Longrightarrow>
   \<exists>v v'. executes K w0 before v \<and> work K msg v = (Returned posts, v')"
proof (induction before arbitrary: w0)
  case (Cons e before)
  then show ?case
    by (cases e) (simp, blast)
qed auto

lemma written_Write: "data \<in> set (written posts) \<longleftrightarrow> Write data \<in> set posts"
  by (force simp: written_def split: post.splits)

text \<open>An entry that answers the number of a call is the execution of that call.\<close>

lemma answering_entry:
  assumes "link_inv K w0 qs ex rs l" "Call_req i name args p \<in> set qs" "(msg, posts) \<in> set ex" "msg_ids msg = [i]"
  shows "msg = call_object i name args"
proof -
  note inv = link_invD [OF assms(1)]
  obtain D where D: "rx_inv (wire (writer_of (client_of l))) D (server_rx l)"
      "mset D = mset (server_tasks l) + mset (map fst ex)"
    using inv(3) by (auto simp: up_inv_def)
  obtain qs1 todo where qs: "qs = qs1 @ todo" "prefix D (map request_object qs1)"
    using unpacked_requests [OF inv(1,2) D(1)] by blast
  have "msg \<in># mset D"
    using D(2) assms(3) by force
  then obtain q where q: "q \<in> set qs" "msg = request_object q"
    using qs set_mono_prefix [OF qs(2)] by auto
  then have "idxs [q] = [i]"
    using msg_ids_request inv(2) assms(4) by metis
  then obtain name' args' p' where "q = Call_req i name' args' p'"
    by (cases q) auto
  moreover have "distinct (idxs qs)"
    using client_run_inv [OF inv(1)] by (auto simp: client_inv_def numbered_def)
  ultimately show ?thesis
    using same_call [of qs i name args p] q assms(2) by (auto simp: request_object_def)
qed

lemma reply_entry:
  assumes "list_all2 answers ex Rs" "r \<in> set (concat Rs)"
  shows "\<exists>before msg posts after. ex = before @ (msg, posts) # after \<and> msg_ids msg = [resp_id r] \<and>
    Write (pack_object (response_object r)) \<in> set posts"
proof -
  obtain k where k: "k < length Rs" "r \<in> set (Rs ! k)"
    using assms(2) by (auto simp: in_set_conv_nth) (metis in_set_conv_nth)
  then have "answers (ex ! k) (Rs ! k)" "k < length ex"
    using assms(1) by (auto simp: list_all2_conv_all_nth)
  moreover obtain msg posts where "ex ! k = (msg, posts)"
    by (cases "ex ! k")
  ultimately show ?thesis
    using k(2) id_take_nth_drop [of k ex] by (fastforce simp: answers_def simp flip: written_Write)
qed

lemma remote_call_holds:
  assumes "replies_fit K" "link_run K w0 qs ex rs l" "Call_req i name args p \<in> set qs"
  shows "count_list (map fst ex) (call_object i name args) \<le> 1
    \<and> (futures (client_of l) p = Waiting \<or>
       (\<exists>before posts after v v' r. ex = before @ (call_object i name args, posts) # after \<and>
          executes K w0 before v \<and> work K (call_object i name args) v = (Returned posts, v') \<and>
          Write (pack_object (response_object r)) \<in> set posts \<and> resp_id r = i \<and>
          sendable (response_object r) \<and> futures (client_of l) p = outcome_of name (received r)))"
proof -
  have linv: "link_inv K w0 qs ex rs l"
    using assms(1,2) by (rule link_run_inv)
  note inv = link_invD [OF linv]
  have "0 \<le> sint i"
    using inv(2) [OF assms(3)] by (simp add: good_request_def)
  then have once: "count_list (map fst ex) (call_object i name args) \<le> 1"
    by (rule executed_once [OF linv])
  show ?thesis
  proof (cases "find (\<lambda>r. resp_id r = i) rs")
    case None
    with future_of_response [OF inv(1) assms(3)] once show ?thesis by simp
  next
    case (Some r)
    then have r: "r \<in> set rs" "resp_id r = i"
      by (auto simp: find_Some_iff)
    have ready_p: "futures (client_of l) p = outcome_of name r"
      using future_of_response [OF inv(1) assms(3)] Some by simp
    obtain Rs where Rs: "list_all2 answers ex Rs" "rs = map received (take (length rs) (concat Rs))"
      using inv(4) by (auto simp: down_inv_def)
    have "r \<in> received ` set (concat Rs)"
      using r(1) Rs(2) set_take_subset [of "length rs" "concat Rs"] by (metis image_mono set_map subsetD)
    then obtain r0 where r0: "r = received r0" "r0 \<in> set (concat Rs)"
      by (rule imageE)
    have r0_id: "resp_id r0 = i"
      using r(2) received_response(2) [of r0] r0(1) by simp
    obtain before msg posts after where e: "ex = before @ (msg, posts) # after" "msg_ids msg = [i]"
        "Write (pack_object (response_object r0)) \<in> set posts"
      using reply_entry [OF Rs(1) r0(2)] r0_id by blast
    then have msg: "msg = call_object i name args"
      using answering_entry [OF linv assms(3), of msg posts] by simp
    obtain v v' where "executes K w0 before v" "work K msg v = (Returned posts, v')"
      using executes_split inv(5) e(1) by blast
    moreover have "sendable (response_object r0)"
      using Rs(1) r0(2) by (auto simp: list_all2_conv_all_nth answers_def in_set_conv_nth) (metis nth_mem)
    ultimately show ?thesis
      using e(1,3) msg ready_p r0(1) r0_id once by blast
  qed
qed

text \<open>
  C38. A remote call is a call: whatever the pieces in which the bytes travel and the order in
  which the workers take the messages, the server runs each call at most once, and a future
  that is ready holds the answer that this one run, in the state the runs before it left,
  gave to its name and arguments.
\<close>
theorem remote_call:
  assumes "replies_fit K" "link_run K w0 qs ex rs l" "Call_req i name args p \<in> set qs"
  shows "count_list (map fst ex) (call_object i name args) \<le> 1
    \<and> (futures (client_of l) p = Waiting \<or>
       (\<exists>before posts after v v' r. ex = before @ (call_object i name args, posts) # after \<and>
          executes K w0 before v \<and> work K (call_object i name args) v = (Returned posts, v') \<and>
          Write (pack_object (response_object r)) \<in> set posts \<and> resp_id r = i \<and>
          sendable (response_object r) \<and> futures (client_of l) p = outcome_of name (received r)))"
  using assms by (rule remote_call_holds)

text \<open>With everything through, what was asked is what was executed and what was answered is received.\<close>

lemma idle_executed:
  assumes "link_inv K w0 qs ex rs l" "idle l"
  shows "set (map request_object qs) = set (map fst ex)"
proof -
  note inv = link_invD [OF assms(1)] and idle = assms(2)
  obtain es qs1 todo where c: "qs = qs1 @ todo" "filter is_post (io_tasks (client_of l)) = map post_of todo"
      "writer_run es (writer_of (client_of l))" "puts es = map (\<lambda>q. pack_object (request_object q)) qs1"
    using client_writer [OF inv(1)] by metis
  then have "qs = qs1"
    using idle by (simp add: idle_def)
  then have wire: "wire (writer_of (client_of l)) = concat (map pack_object (map request_object qs))"
    using run_bytes [OF c(3)] idle c(4) by (simp add: idle_def pending_def comp_def)
  obtain D where D: "rx_inv (wire (writer_of (client_of l))) D (server_rx l)"
      "mset D = mset (server_tasks l) + mset (map fst ex)"
    using inv(3) by (auto simp: up_inv_def)
  have "\<And>x. x \<in> set (map request_object qs) \<Longrightarrow> sendable x"
    using inv(2) by (auto simp: good_request_def)
  then have "D = map request_object qs"
    using rx_prefix(2) [OF D(1), of "map request_object qs"] idle wire by (simp add: idle_def)
  then have "mset (map request_object qs) = mset (map fst ex)"
    using D(2) idle by (simp add: idle_def)
  then show ?thesis
    by (rule mset_eq_setD)
qed

lemma idle_received:
  assumes "link_inv K w0 qs ex rs l" "idle l"
  shows "\<exists>Rs. list_all2 answers ex Rs \<and> rs = map received (concat Rs)"
proof -
  note inv = link_invD [OF assms(1)] and idle = assms(2)
  obtain Rs es where s: "list_all2 answers ex Rs" "writer_run es (server_writer l)"
      "puts es @ written (server_strand l) = map (\<lambda>r. pack_object (response_object r)) (concat Rs)"
      "rx_inv (wire (server_writer l)) (map response_object (take (length rs) (concat Rs))) (client_rx l)"
      "rs = map received (take (length rs) (concat Rs))"
    using inv(4) by (auto simp: down_inv_def)
  have "wire (server_writer l) = concat (map pack_object (map response_object (concat Rs)))"
    using run_bytes [OF s(2)] s(3) idle by (simp add: idle_def pending_def comp_def)
  moreover have "\<And>x. x \<in> set (map response_object (concat Rs)) \<Longrightarrow> sendable x"
    using s(1) by (auto simp: list_all2_conv_all_nth answers_def in_set_conv_nth) (metis nth_mem)
  ultimately have "map response_object (take (length rs) (concat Rs)) = map response_object (concat Rs)"
    using rx_prefix(2) [OF s(4), of "map response_object (concat Rs)"] idle by (simp add: idle_def)
  then have "length (take (length rs) (concat Rs)) = length (concat Rs)"
    by (metis length_map)
  then have "rs = map received (concat Rs)"
    using s(5) by (metis length_take min.absorb_iff1 take_all)
  with s(1) show ?thesis by blast
qed

text \<open>
  C39. No call is forgotten: when nothing more can happen inside while the server is up and its
  session was not asked to exit, every future is ready, provided each call that was executed
  posted a response.
\<close>
theorem all_calls_answered:
  assumes "replies_fit K" "link_run K w0 qs ex rs l" "Call_req i name args p \<in> set qs"
    and "server_up l" "\<not> writer_exit (server_writer l)" "stuck K l"
    and "\<forall>(msg, posts) \<in> set ex. msg_ids msg \<noteq> [] \<longrightarrow> written posts \<noteq> []"
  shows "futures (client_of l) p \<noteq> Waiting"
proof -
  have linv: "link_inv K w0 qs ex rs l"
    using assms(1,2) by (rule link_run_inv)
  note inv = link_invD [OF linv]
  have idle: "idle l"
    using stuck_idle [OF assms(1) linv assms(4-6)] .
  have "call_object i name args \<in> set (map fst ex)"
    using idle_executed [OF linv idle] imageI [OF assms(3), of request_object]
    by (simp add: request_object_def)
  then obtain posts where posts: "(call_object i name args, posts) \<in> set ex"
    by auto
  obtain Rs where Rs: "list_all2 answers ex Rs" "rs = map received (concat Rs)"
    using idle_received [OF linv idle] by blast
  have "0 \<le> sint i"
    using inv(2) [OF assms(3)] by (simp add: good_request_def)
  then have "written posts \<noteq> []" "msg_ids (call_object i name args) = [i]"
    using assms(7) posts by auto
  moreover obtain R where "R \<in> set Rs" "answers (call_object i name args, posts) R"
    using answers_entry [OF Rs(1) posts] by blast
  ultimately obtain r where "r \<in> set R" "resp_id r = i" "R \<in> set Rs"
    by (cases R) (simp_all add: answers_def)
  then have "\<exists>r \<in> set rs. resp_id r = i"
    using Rs(2) received_response(2) by auto
  then obtain r where "find (\<lambda>r. resp_id r = i) rs = Some r"
    by (metis (mono_tags, lifting) find_None_iff not_None_eq)
  then show ?thesis
    using future_of_response [OF inv(1) assms(3)] by (simp add: outcome_of_def split: option.split)
qed

text \<open>
  C40. The connection settles: between two requests of the callers only finitely many steps can
  happen.
\<close>
theorem connection_settles:
  assumes "replies_fit K" "link_run K w0 qs ex rs l"
  shows "\<not> (\<exists>s. s 0 = (ex, rs, l) \<and> (\<forall>n. link_step K (s n) (s (Suc n))))"
proof
  assume "\<exists>s. s 0 = (ex, rs, l) \<and> (\<forall>n. link_step K (s n) (s (Suc n)))"
  then obtain s where s: "s 0 = (ex, rs, l)" "\<And>n. link_step K (s n) (s (Suc n))"
    by blast
  have inv: "\<exists>ex rs l. s n = (ex, rs, l) \<and> link_inv K w0 qs ex rs l" for n
  proof (induction n)
    case 0
    with s(1) link_run_inv [OF assms] show ?case by simp
  next
    case (Suc n)
    with s(2) [of n] link_step_inv [OF assms(1)] show ?case
      by (cases "s (Suc n)") metis
  qed
  have "(s (Suc n), s n) \<in> measures link_measures" for n
    using inv [of n] link_step_measures [OF s(2) [of n]] by blast
  then show False
    using wf_measures [of "link_measures :: (executed \<times> response list \<times> _ \<Rightarrow> nat) list"]
    unfolding wf_iff_no_infinite_down_chain by blast
qed

section \<open>A connection at work\<close>
text \<open>Functions that return small objects and leave the special answers alone.\<close>

lemma replies_fitI:
  assumes "\<And>name f args w res w'. conf_disp K name = Some f \<Longrightarrow> f args w = (res, w') \<Longrightarrow>
      handler_error_obj w' = handler_error_obj w \<and> handler_resp_obj w' = handler_resp_obj w \<and>
      (\<forall>r. res = Returned r \<longrightarrow> fits default_limit (Suc (Suc 0)) r)"
  shows "replies_fit K"
  unfolding replies_fit_def
proof (intro allI impI)
  fix msg w resp w' resp'
  assume d: "dispatch (conf_suppress K) (conf_disp K) msg (prepare (conf_sid K) w) = (Returned resp, w')"
    and c: "capture_special resp w' = Some resp'"
  note shape = dispatch_shape [OF d]
  have "handler_error_obj w' = NIL" "handler_resp_obj w' = NIL"
    using shape assms prepare_sel(1,2) by metis+
  then have "resp' = resp"
    using c by (simp add: capture_special_def is_nil_def)
  moreover have "sendable (response_object resp)"
    using shape assms by (auto simp: response_object_def empty_response_def make_error_def make_result_def
        new_response_def default_limit_def dest!: spec)
  ultimately show "sendable (response_object resp')" by simp
qed

text \<open>One call through a connection, from the request to the future.\<close>

definition link_conf :: "unit server_conf" where
  "link_conf = \<lparr>conf_disp = [sample_name \<mapsto>
      nonvoid_zero_adaptor sample_name (\<lambda>r. Some (object_bool r)) (return_with True)],
     conf_suppress = False, conf_sid = 1\<rparr>"

definition call_bytes :: "byte list" where "call_bytes = pack_object (call_object 1 sample_name [])"
definition reply_object :: object where "reply_object = response_object (make_result 1 (BOOLEAN True))"

definition drained :: "byte list \<Rightarrow> writer" where
  "drained bs = new_writer\<lparr>wire := bs\<rparr>"

definition received_all :: "byte list \<Rightarrow> receiver" where
  "received_all bs = new_receiver\<lparr>rx_got := length bs\<rparr>"

definition done_client :: client where
  "done_client = new_client\<lparr>call_idx := 1, promises := 1, writer_of := drained call_bytes,
     futures := (\<lambda>_. Waiting)(0 := Value (BOOLEAN True))\<rparr>"

definition done_link :: "unit link" where
  "done_link = (new_link start_world)\<lparr>client_of := done_client, client_rx := received_all (pack_object reply_object),
     server_rx := received_all call_bytes, server_writer := drained (pack_object reply_object),
     server_world := prepare 1 start_world\<rparr>"

definition done_executed :: executed where
  "done_executed = [(call_object 1 sample_name [], [Write (pack_object reply_object)])]"

lemma link_conf_fit: "replies_fit link_conf"
proof (rule replies_fitI)
  fix name f args and w w' :: "unit world" and res
  assume f: "conf_disp link_conf name = Some f" "f args w = (res, w')"
  then have "f = nonvoid_zero_adaptor sample_name (\<lambda>r. Some (object_bool r)) (return_with True)"
    by (auto simp: link_conf_def split: if_splits)
  with f(2) show "handler_error_obj w' = handler_error_obj w \<and> handler_resp_obj w' = handler_resp_obj w \<and>
      (\<forall>r. res = Returned r \<longrightarrow> fits default_limit (Suc (Suc 0)) r)"
    by (auto simp: nonvoid_zero_adaptor_def with_array_size_def enforce_arg_count_result object_of_result_def
        object_bool_def return_with_def throw_def undefined_behaviour_def andthen_def
        split: option.splits if_splits)
qed

lemma sample_dispatch:
  "dispatch False (conf_disp link_conf) (call_object 1 sample_name []) w = (Returned (make_result 1 (BOOLEAN True)), w)"
  by (rule nonvoid_zero.call_returns [where to_obj = "\<lambda>r. Some (object_bool r)" and func = "return_with True"])
    (simp_all add: link_conf_def object_of_result_def object_bool_def return_with_def)

lemma sample_work:
  "work link_conf (call_object 1 sample_name []) start_world =
     (Returned [Write (pack_object reply_object)], prepare 1 start_world)"
  using process_message_returned [OF sample_dispatch [of "prepare 1 start_world"]]
  by (simp add: work_def link_conf_def reply_object_def after_dispatch_plain plain_def make_result_def
      new_response_def del: pack_object.simps)

lemma read_whole:
  "sendable x \<Longrightarrow> read_some (length (pack_object x)) (pack_object x) new_receiver =
     ([x], Inr (received_all (pack_object x)))"
  using next_all_put [of "[x]" default_limit True "[]"]
  by (simp add: read_some_def new_receiver_def received_all_def next_all_empty)

lemma socket_sends:
  assumes "0 < length bs"
  shows "writer_step (new_writer\<lparr>write_queue := [bs], writing := True\<rparr>) (Transfer (length bs))
      (Some (new_writer\<lparr>write_queue := [bs], writing := True, sent := length bs, wire := bs\<rparr>))"
    and "writer_step (new_writer\<lparr>write_queue := [bs], writing := True, sent := length bs, wire := bs\<rparr>) Complete
      (Some (drained bs))"
  using assms by (simp_all add: transfer_simps complete_simps writer_ops new_writer_def drained_def)

lemma packed_nonempty: "pack_object (ARRAY xs) \<noteq> []"
  by (simp add: pack_array_def)

lemmas link_consts = new_link_def done_link_def done_client_def waiting_client_def asking_client_def
  new_client_def received_all_def

definition sent_client :: client where
  "sent_client = waiting_client\<lparr>writer_of := drained call_bytes\<rparr>"

definition answered_client :: client where
  "answered_client = done_client\<lparr>ongoing_calls := [1 \<mapsto> \<lparr>func_name = sample_name, promise = Some 0, satisfied = True\<rparr>],
     io_tasks := [Erase 1]\<rparr>"

lemma sample_messages:
  "sendable (call_object 1 sample_name [])" "sendable reply_object"
  "0 < length call_bytes" "0 < length (pack_object reply_object)"
  by (simp_all add: call_object_def object_signed_def sample_name_def default_limit_def reply_object_def
      response_object_def make_result_def new_response_def call_bytes_def packed_nonempty del: pack_object.simps)

lemma sample_asked: "link_run link_conf start_world [sample_request] [] [] ((new_link start_world)\<lparr>client_of := sent_client\<rparr>)"
  (is "link_run _ _ ?qs _ _ _")
proof -
  let ?l = "\<lambda>c. (new_link start_world)\<lparr>client_of := c\<rparr>"
  have "client_async_call sample_name [] new_client = (Some 0, asking_client)"
    by (simp add: client_async_call_def get_next_call_idx_def pack_call_object post_call_def post_of_def
        request_object_def sample_request_def sample_name_def new_client_def asking_client_def Let_def)
  then have "link_run link_conf start_world ([] @ [Call_req (call_idx asking_client) sample_name [] 0]) [] [] (?l asking_client)"
    using sample_messages(1) by (intro link_run.call [OF link_run.start]) (simp_all add: link_consts)
  then have "link_run link_conf start_world ?qs [] [] (?l asking_client)"
    by (simp add: sample_request_def asking_client_def)
  moreover have "link_step link_conf ([], [], ?l asking_client) ([], [], (?l asking_client)\<lparr>client_of := waiting_client\<rparr>)"
    by (rule client_task [of _ "post_of sample_request" "[]"])
      (simp_all add: asking_client_def run_task_def post_of_def sample_request_def insert_call_def new_client_def
        write_out_def writer_ops waiting_client_def request_object_def new_writer_def)
  ultimately have waiting: "link_run link_conf start_world ?qs [] [] (?l waiting_client)"
    using link_run.step by fastforce
  let ?w = "new_writer\<lparr>write_queue := [call_bytes], writing := True\<rparr>"
  have w: "writer_of waiting_client = ?w"
    by (simp add: waiting_client_def sample_request_def request_object_def call_bytes_def)
  let ?c = "waiting_client\<lparr>writer_of := ?w\<lparr>sent := length call_bytes, wire := call_bytes\<rparr>\<rparr>"
  have "link_step link_conf ([], [], ?l waiting_client)
      ([], [], (?l waiting_client)\<lparr>client_of := (client_of (?l waiting_client))\<lparr>
         writer_of := ?w\<lparr>sent := length call_bytes, wire := call_bytes\<rparr>\<rparr>\<rparr>)"
    using socket_sends(1) [OF sample_messages(3)] w by (intro client_socket [of "Transfer (length call_bytes)"])
      (simp_all add: socket_event_def)
  with waiting have "link_run link_conf start_world ?qs [] [] (?l ?c)"
    using link_run.step by fastforce
  moreover have "link_step link_conf ([], [], ?l ?c) ([], [], (?l ?c)\<lparr>client_of := (client_of (?l ?c))\<lparr>writer_of := drained call_bytes\<rparr>\<rparr>)"
    using socket_sends(2) [OF sample_messages(3)] by (intro client_socket [of Complete]) (simp_all add: socket_event_def)
  ultimately show ?thesis
    using link_run.step by (fastforce simp: sent_client_def)
qed

lemma sample_served: "link_run link_conf start_world [sample_request] done_executed []
    (done_link\<lparr>client_of := sent_client, client_rx := new_receiver\<rparr>)"
proof -
  let ?l0 = "(new_link start_world)\<lparr>client_of := sent_client\<rparr>"
  let ?l1 = "?l0\<lparr>server_rx := received_all call_bytes, server_tasks := [call_object 1 sample_name []]\<rparr>"
  let ?l2 = "?l1\<lparr>server_tasks := [], server_strand := [Write (pack_object reply_object)],
      server_world := prepare 1 start_world\<rparr>"
  let ?w = "new_writer\<lparr>write_queue := [pack_object reply_object], writing := True\<rparr>"
  let ?w' = "?w\<lparr>sent := length (pack_object reply_object), wire := pack_object reply_object\<rparr>"
  let ?l3 = "?l2\<lparr>server_strand := [], server_writer := ?w\<rparr>"
  have "link_step link_conf ([], [], ?l0) ([], [], ?l0\<lparr>server_rx := received_all call_bytes,
      server_tasks := server_tasks ?l0 @ [call_object 1 sample_name []]\<rparr>)"
    using read_whole [OF sample_messages(1)] sample_messages(3)
    by (intro server_read [of _ "length call_bytes"])
      (simp_all add: new_link_def new_writer_def sent_client_def drained_def call_bytes_def new_receiver_def
        del: pack_object.simps)
  with sample_asked have "link_run link_conf start_world [sample_request] [] [] ?l1"
    using link_run.step by (fastforce simp: new_link_def)
  moreover have "link_step link_conf ([], [], ?l1) ([] @ [(server_tasks ?l1 ! 0, [Write (pack_object reply_object)])], [],
      ?l1\<lparr>server_tasks := remove_nth 0 (server_tasks ?l1),
        server_strand := server_strand ?l1 @ [Write (pack_object reply_object)], server_world := prepare 1 start_world\<rparr>)"
    using sample_work by (intro server_work) (simp_all add: new_link_def)
  ultimately have "link_run link_conf start_world [sample_request] done_executed [] ?l2"
    using link_run.step by (fastforce simp: new_link_def remove_nth_def done_executed_def)
  moreover have "link_step link_conf (done_executed, [], ?l2) (done_executed, [], ?l3)"
    by (rule server_post [of _ "Write (pack_object reply_object)" "[]"]) (simp_all add: new_link_def run_post_def writer_ops new_writer_def)
  ultimately have "link_run link_conf start_world [sample_request] done_executed [] ?l3"
    by (rule link_run.step)
  moreover have "link_step link_conf (done_executed, [], ?l3) (done_executed, [], ?l3\<lparr>server_writer := ?w'\<rparr>)"
    using socket_sends(1) [OF sample_messages(4)]
    by (intro server_socket [of _ "Transfer (length (pack_object reply_object))"])
      (simp_all add: new_link_def socket_event_def del: pack_object.simps)
  ultimately have "link_run link_conf start_world [sample_request] done_executed [] (?l3\<lparr>server_writer := ?w'\<rparr>)"
    by (rule link_run.step)
  moreover have "link_step link_conf (done_executed, [], ?l3\<lparr>server_writer := ?w'\<rparr>)
      (done_executed, [], ?l3\<lparr>server_writer := ?w'\<rparr>\<lparr>server_writer := drained (pack_object reply_object)\<rparr>)"
    using socket_sends(2) [OF sample_messages(4)]
    by (intro server_socket [of _ Complete]) (simp_all add: new_link_def socket_event_def)
  ultimately show ?thesis
    using link_run.step by (fastforce simp: done_link_def new_link_def)
qed

lemma sample_done: "\<exists>rs. link_run link_conf start_world [sample_request] done_executed rs done_link"
proof -
  let ?l0 = "done_link\<lparr>client_of := sent_client, client_rx := new_receiver\<rparr>"
  let ?l1 = "?l0\<lparr>client_rx := received_all (pack_object reply_object), client_of := answered_client\<rparr>"
  have "receive_all [reply_object] sent_client = Some answered_client"
    by (simp add: receive_object_def reply_object_def response_of_response_object handle_response_def
        current_call_def set_promise_def make_result_def new_response_def sent_client_def answered_client_def
        link_consts outcome_of_def)
  then have "link_step link_conf (done_executed, [], ?l0)
      (done_executed, [] @ map (the \<circ> response_of_object) [reply_object], ?l1)"
    using read_whole [OF sample_messages(2)] sample_messages(4)
    by (intro client_read [of "length (pack_object reply_object)"])
      (simp_all add: done_link_def drained_def new_receiver_def del: pack_object.simps)
  then have "\<exists>rs. link_run link_conf start_world [sample_request] done_executed rs ?l1"
    using link_run.step [OF sample_served] by blast
  moreover have "link_step link_conf (done_executed, rs, ?l1) (done_executed, rs, ?l1\<lparr>client_of := done_client\<rparr>)" for rs
    by (rule client_task [of _ "Erase 1" "[]"])
      (simp_all add: answered_client_def run_task_def erase_call_def drop_promise_def link_consts)
  ultimately have "\<exists>rs. link_run link_conf start_world [sample_request] done_executed rs (?l1\<lparr>client_of := done_client\<rparr>)"
    using link_run.step by blast
  then show ?thesis
    by (simp add: done_link_def new_link_def)
qed

text \<open>An idle connection is stuck.\<close>

lemma idle_stuck:
  assumes "link_inv K w0 qs ex rs l" "idle l"
  shows "stuck K l"
proof -
  note inv = link_invD [OF assms(1)]
  obtain es es' where "writer_inv (has_failed es) (writer_of (client_of l))" "writer_inv (has_failed es') (server_writer l)"
    using client_writer [OF inv(1)] inv(4) run_inv by (metis down_inv_def)
  then have quiet: "\<not> writing (writer_of (client_of l))" "\<not> writing (server_writer l)"
    using assms(2) by (auto simp: writer_inv_def idle_def)
  have "\<not> writing w \<Longrightarrow> socket_event e \<Longrightarrow> \<not> writer_step w e r" for w e r
    by (cases e) (auto simp: socket_event_def transfer_simps complete_simps)
  with quiet assms(2) show ?thesis
    unfolding stuck_def by (auto simp: idle_def elim!: link_step.cases)
qed

lemma done_idle: "idle done_link" "server_up done_link" "\<not> writer_exit (server_writer done_link)"
  by (simp_all add: idle_def link_consts drained_def new_writer_def)

lemma remote_call_witness:
  "\<exists>rs. link_run link_conf start_world [sample_request] done_executed rs done_link \<and>
     futures (client_of done_link) 0 \<noteq> Waiting \<and>
     count_list (map fst done_executed) (call_object 1 sample_name []) \<le> 1"
proof -
  obtain rs where run: "link_run link_conf start_world [sample_request] done_executed rs done_link"
    using sample_done by blast
  from remote_call [OF link_conf_fit run, of 1 sample_name "[]" 0] run show ?thesis
    by (auto simp: sample_request_def done_link_def done_client_def)
qed

lemma all_calls_answered_witness:
  "\<exists>rs. link_run link_conf start_world [sample_request] done_executed rs done_link \<and>
     stuck link_conf done_link \<and> futures (client_of done_link) 0 \<noteq> Waiting"
proof -
  obtain rs where run: "link_run link_conf start_world [sample_request] done_executed rs done_link"
    using sample_done by blast
  have stuck: "stuck link_conf done_link"
    using idle_stuck [OF link_run_inv [OF link_conf_fit run] done_idle(1)] .
  from all_calls_answered [OF link_conf_fit run, of 1 sample_name "[]" 0] stuck run done_idle show ?thesis
    by (auto simp: sample_request_def done_executed_def)
qed

lemma connection_settles_witness:
  "\<not> (\<exists>s. s 0 = ([], [], (new_link start_world)\<lparr>client_of := sent_client\<rparr>) \<and>
      (\<forall>n. link_step link_conf (s n) (s (Suc n))))"
  by (rule connection_settles [OF link_conf_fit sample_asked])

end
