(* ===== verification/Rpc_Server.thy ===== *)
theory Rpc_Server
  imports Rpc_Calls
begin

text \<open>
  The server object (\<open>server.cc\<close>) and the life of its sessions (\<open>server_session.cc\<close>): accepting,
  reading, closing, and who owns a session. The server's list and every read and write under way
  share the ownership (\<open>shared_ptr\<close>); the closures of a message and of a write strand hold a plain
  \<open>this\<close>. A session nobody owns is freed, and using it afterwards is undefined behaviour, \<open>None\<close>
  here, as is going through a null pointer.
\<close>

section \<open>Objects\<close>

text \<open>
  One session. Its dispatcher pointer can be null; the flag of suppressed exceptions is a copy.
  The unpacker is its context and the bytes not parsed; \<open>reading\<close> is a read whose handler has
  not run.
\<close>

record session =
  parent :: nat
  has_disp :: bool
  suppress :: bool
  sess_writer :: writer
  unpacker :: "ctx \<times> byte list"
  reading :: bool

text \<open>What is posted to the write strand of a session.\<close>

datatype strand_item = Posted post | Closing

text \<open>
  A server object: whether its pointers to the implementation and to the dispatcher are set.
  There is one implementation and one dispatcher; moving a server moves the pointers, but the
  implementation keeps the address of the object it was made in.
\<close>

record server_object =
  pimpl :: bool
  disp_set :: bool

record 'app process =
  object_at :: "nat \<rightharpoonup> server_object"
  impl_parent :: nat
  sessions :: "nat list"
  suppress_exceptions :: bool
  bound :: "'app world dispatcher"
  session_at :: "nat \<rightharpoonup> session"
  next_session :: nat
  messages :: "(nat \<times> object) list"
  strand :: "nat \<Rightarrow> strand_item list"
  state :: "'app world"
  running :: bool

definition new_server :: "nat \<Rightarrow> 'app world dispatcher \<Rightarrow> 'app world \<Rightarrow> 'app process" where
  "new_server a disp w =
     \<lparr>object_at = [a \<mapsto> \<lparr>pimpl = True, disp_set = True\<rparr>], impl_parent = a, sessions = [],
      suppress_exceptions = False, bound = disp, session_at = Map.empty, next_session = 0,
      messages = [], strand = (\<lambda>sid. []), state = w, running = True\<rparr>"

section \<open>Ownership\<close>

definition owned :: "'app process \<Rightarrow> nat \<Rightarrow> session \<Rightarrow> bool" where
  "owned p sid s \<longleftrightarrow> sid \<in> set (sessions p) \<or> reading s \<or> writing (sess_writer s)"

text \<open>The last owner of a session frees it.\<close>

definition free_session :: "nat \<Rightarrow> 'app process \<Rightarrow> 'app process" where
  "free_session sid p =
     (case session_at p sid of
        Some s \<Rightarrow> if owned p sid s then p else p\<lparr>session_at := (session_at p)(sid := None)\<rparr>
      | None \<Rightarrow> p)"

definition put_session :: "nat \<Rightarrow> session \<Rightarrow> 'app process \<Rightarrow> 'app process" where
  "put_session sid s p = free_session sid (p\<lparr>session_at := (session_at p)(sid \<mapsto> s)\<rparr>)"

definition post_strand :: "nat \<Rightarrow> strand_item list \<Rightarrow> 'app process \<Rightarrow> 'app process" where
  "post_strand sid xs p = p\<lparr>strand := (strand p)(sid := strand p sid @ xs)\<rparr>"

section \<open>Operations of the server\<close>

text \<open>A connection is accepted: the dispatcher is read through the object the server was made in.\<close>

definition new_server_session :: "nat \<Rightarrow> bool \<Rightarrow> bool \<Rightarrow> session" where
  "new_server_session srv disp suppress_ex =
     \<lparr>parent = srv, has_disp = disp, suppress = suppress_ex, sess_writer = new_writer,
      unpacker = (init_ctx True default_limit, []), reading = False\<rparr>"

text \<open>\<open>do_read\<close> asks the socket for bytes; a session asked to exit meanwhile closes the socket.\<close>

definition do_read :: "session \<Rightarrow> session" where
  "do_read s =
     (let s = s\<lparr>reading := True\<rparr>
      in if writer_exit (sess_writer s)
         then s\<lparr>sess_writer := (sess_writer s)\<lparr>socket_open := False\<rparr>\<rparr> else s)"

definition accept :: "'app process \<Rightarrow> 'app process option" where
  "accept p =
     (case object_at p (impl_parent p) of
        None \<Rightarrow> None
      | Some srv \<Rightarrow>
          let sid = next_session p;
              s = new_server_session (impl_parent p) (disp_set srv) (suppress_exceptions p)
          in Some (p\<lparr>session_at := (session_at p)(sid \<mapsto> do_read s), sessions := sessions p @ [sid],
                     next_session := Suc sid\<rparr>))"

definition set_suppress :: "nat \<Rightarrow> bool \<Rightarrow> 'app process \<Rightarrow> 'app process option" where
  "set_suppress a b p =
     (case object_at p a of
        Some srv \<Rightarrow> if pimpl srv then Some (p\<lparr>suppress_exceptions := b\<rparr>) else None
      | None \<Rightarrow> None)"

text \<open>\<open>server_session::close\<close>: the flag at once, the socket and the server's list in the strand.\<close>

definition session_close :: "nat \<Rightarrow> 'app process \<Rightarrow> 'app process option" where
  "session_close sid p =
     (case session_at p sid of
        None \<Rightarrow> None
      | Some s \<Rightarrow>
          Some (post_strand sid [Closing]
            (p\<lparr>session_at := (session_at p)(sid \<mapsto> s\<lparr>sess_writer := request_exit (sess_writer s)\<rparr>)\<rparr>)))"

fun close_each :: "nat list \<Rightarrow> 'app process \<Rightarrow> 'app process option" where
  "close_each [] p = Some p"
| "close_each (sid # sids) p = Option.bind (session_close sid p) (close_each sids)"

definition close_sessions :: "nat \<Rightarrow> 'app process \<Rightarrow> 'app process option" where
  "close_sessions a p =
     (case object_at p a of
        Some srv \<Rightarrow>
          if pimpl srv
          then map_option (\<lambda>p'. fold free_session (sessions p) (p'\<lparr>sessions := []\<rparr>))
                 (close_each (sessions p) p)
          else None
      | None \<Rightarrow> None)"

definition server_close_session :: "nat \<Rightarrow> nat \<Rightarrow> 'app process \<Rightarrow> 'app process option" where
  "server_close_session a sid p =
     (case object_at p a of
        Some srv \<Rightarrow> if pimpl srv then Some (p\<lparr>sessions := remove1 sid (sessions p)\<rparr>) else None
      | None \<Rightarrow> None)"

text \<open>The new object takes the pointers of the other one.\<close>

definition move_server :: "nat \<Rightarrow> nat \<Rightarrow> 'app process \<Rightarrow> 'app process option" where
  "move_server a other p =
     (case object_at p other of
        None \<Rightarrow> None
      | Some srv \<Rightarrow>
          Some (p\<lparr>object_at := (object_at p)(other \<mapsto> \<lparr>pimpl = False, disp_set = False\<rparr>, a \<mapsto> srv)\<rparr>))"

definition stop_io :: "nat \<Rightarrow> 'app process \<Rightarrow> 'app process option" where
  "stop_io a p =
     (case object_at p a of
        Some srv \<Rightarrow> if pimpl srv then Some (p\<lparr>running := False\<rparr>) else None
      | None \<Rightarrow> None)"

text \<open>Destroying the object that holds the implementation stops everything.\<close>

definition destroy_server :: "nat \<Rightarrow> 'app process \<Rightarrow> 'app process option" where
  "destroy_server a p =
     (case object_at p a of
        None \<Rightarrow> None
      | Some srv \<Rightarrow>
          Some (p\<lparr>object_at := (object_at p)(a := None), running := running p \<and> \<not> pimpl srv\<rparr>))"

section \<open>Operations of a session\<close>

text \<open>
  The handler of a read. A session asked to exit drops what was read and does not read again;
  an exception of the unpacker leaves the worker thread.
\<close>

definition on_read :: "nat \<Rightarrow> byte list \<Rightarrow> 'app process \<Rightarrow> 'app process option" where
  "on_read sid bs p =
     (case session_at p sid of
        None \<Rightarrow> None
      | Some s0 \<Rightarrow>
          let s = s0\<lparr>reading := False\<rparr> in
          if writer_exit (sess_writer s) then Some (put_session sid s p)
          else case next_all (fst (unpacker s)) (snd (unpacker s) @ bs) of
                 (msgs, Inl e) \<Rightarrow> Some (p\<lparr>messages := messages p @ map (Pair sid) msgs, running := False\<rparr>)
               | (msgs, Inr u) \<Rightarrow>
                   Some (put_session sid (do_read (s\<lparr>unpacker := u\<rparr>))
                     (p\<lparr>messages := messages p @ map (Pair sid) msgs\<rparr>)))"

text \<open>The client has hung up (\<open>eof\<close>, \<open>connection_reset\<close>): the session closes itself.\<close>

definition on_hangup :: "nat \<Rightarrow> 'app process \<Rightarrow> 'app process option" where
  "on_hangup sid p =
     (case session_at p sid of
        None \<Rightarrow> None
      | Some s0 \<Rightarrow>
          let s = s0\<lparr>reading := False\<rparr> in
          if writer_exit (sess_writer s) then Some (put_session sid s p)
          else map_option (free_session sid)
                 (session_close sid (p\<lparr>session_at := (session_at p)(sid \<mapsto> s)\<rparr>)))"

text \<open>Any other error is only logged.\<close>

definition on_read_error :: "nat \<Rightarrow> 'app process \<Rightarrow> 'app process option" where
  "on_read_error sid p =
     (case session_at p sid of
        None \<Rightarrow> None
      | Some s \<Rightarrow> Some (put_session sid (s\<lparr>reading := False\<rparr>) p))"

text \<open>A worker takes the \<open>i\<close>-th message waiting.\<close>

definition run_message :: "nat \<Rightarrow> 'app process \<Rightarrow> 'app process option" where
  "run_message i p =
     (let (sid, msg) = messages p ! i;
          p = p\<lparr>messages := take i (messages p) @ drop (Suc i) (messages p)\<rparr>
      in case session_at p sid of
           None \<Rightarrow> None
         | Some s \<Rightarrow>
             if \<not> has_disp s then None
             else case process_message sid (suppress s) (bound p) msg (state p) of
                    (Returned posts, w) \<Rightarrow> Some (post_strand sid (map Posted posts) (p\<lparr>state := w\<rparr>))
                  | (Undefined, w) \<Rightarrow> None
                  | (_, w) \<Rightarrow> Some (p\<lparr>state := w, running := False\<rparr>))"

text \<open>The write strand of a session runs what was posted to it first.\<close>

definition run_item :: "nat \<Rightarrow> strand_item \<Rightarrow> session \<Rightarrow> 'app process \<Rightarrow> 'app process option" where
  "run_item sid x s p =
     (case x of
        Posted (Write data) \<Rightarrow>
          map_option (\<lambda>w. put_session sid (s\<lparr>sess_writer := w\<rparr>) p) (writer_write data (sess_writer s))
      | Posted Exit_session \<Rightarrow> Some (put_session sid (s\<lparr>sess_writer := request_exit (sess_writer s)\<rparr>) p)
      | Posted Close_sessions \<Rightarrow> close_sessions (parent s) p
      | Closing \<Rightarrow>
          map_option (free_session sid) (server_close_session (parent s) sid
            (p\<lparr>session_at := (session_at p)(sid \<mapsto>
                 s\<lparr>sess_writer := (sess_writer s)\<lparr>socket_open := False\<rparr>\<rparr>)\<rparr>)))"

definition run_strand :: "nat \<Rightarrow> 'app process \<Rightarrow> 'app process option" where
  "run_strand sid p =
     (case strand p sid of
        [] \<Rightarrow> Some p
      | x # xs \<Rightarrow>
          let p = p\<lparr>strand := (strand p)(sid := xs)\<rparr>
          in case session_at p sid of None \<Rightarrow> None | Some s \<Rightarrow> run_item sid x s p)"

section \<open>Runs\<close>

text \<open>
  What can happen next: a connection, the completion of a read or of a piece of a write, a
  worker taking a message or the next item of a strand, and calls of the server's functions.
\<close>

datatype server_event =
    Accept | Read nat "byte list" | Hangup nat | Read_error nat | Message nat | Strand nat
  | Socket nat writer_event | Suppress nat bool | Close_all nat | Stop nat | Move nat nat | Destroy nat

inductive server_step :: "'app process \<Rightarrow> server_event \<Rightarrow> 'app process option \<Rightarrow> bool" where
  accept: "running p \<Longrightarrow> server_step p Accept (accept p)"
| read: "running p \<Longrightarrow> session_at p sid = Some s \<Longrightarrow> reading s \<Longrightarrow> server_step p (Read sid bs) (on_read sid bs p)"
| hangup: "running p \<Longrightarrow> session_at p sid = Some s \<Longrightarrow> reading s \<Longrightarrow> server_step p (Hangup sid) (on_hangup sid p)"
| read_error: "running p \<Longrightarrow> session_at p sid = Some s \<Longrightarrow> reading s \<Longrightarrow>
    server_step p (Read_error sid) (on_read_error sid p)"
| message: "running p \<Longrightarrow> i < length (messages p) \<Longrightarrow> server_step p (Message i) (run_message i p)"
| strand: "running p \<Longrightarrow> strand p sid \<noteq> [] \<Longrightarrow> server_step p (Strand sid) (run_strand sid p)"
| socket: "running p \<Longrightarrow> session_at p sid = Some s \<Longrightarrow> e \<in> {Complete, Fail} \<union> range Transfer \<Longrightarrow>
    writer_step (sess_writer s) e r \<Longrightarrow>
    server_step p (Socket sid e) (map_option (\<lambda>w. put_session sid (s\<lparr>sess_writer := w\<rparr>) p) r)"
| suppress: "running p \<Longrightarrow> object_at p a \<noteq> None \<Longrightarrow> server_step p (Suppress a b) (set_suppress a b p)"
| close_all: "running p \<Longrightarrow> object_at p a \<noteq> None \<Longrightarrow> server_step p (Close_all a) (close_sessions a p)"
| stop: "running p \<Longrightarrow> object_at p a \<noteq> None \<Longrightarrow> server_step p (Stop a) (stop_io a p)"
| move: "running p \<Longrightarrow> object_at p b \<noteq> None \<Longrightarrow> object_at p a = None \<Longrightarrow>
    server_step p (Move a b) (move_server a b p)"
| destroy: "running p \<Longrightarrow> object_at p a \<noteq> None \<Longrightarrow> server_step p (Destroy a) (destroy_server a p)"

inductive server_run :: "'app process \<Rightarrow> server_event list \<Rightarrow> 'app process \<Rightarrow> bool" for p0 where
  start: "server_run p0 [] p0"
| step: "server_run p0 es p \<Longrightarrow> server_step p e (Some q) \<Longrightarrow> server_run p0 (es @ [e]) q"

inductive_cases server_stepE: "server_step p e r"

section \<open>Ownership is exact\<close>

text \<open>
  The sessions that exist are the owned ones; those of the server's list are among them, each
  once; a session that is not in the list has been asked to exit; the writer of a session has
  been used as \<open>async_writer\<close> is meant to be. In the middle of an operation the sessions \<open>X\<close> may
  have lost their last owner.
\<close>

definition session_inv :: "'app process \<Rightarrow> nat \<Rightarrow> session \<Rightarrow> bool" where
  "session_inv p sid s \<longleftrightarrow>
     sid < next_session p \<and> parent s = impl_parent p \<and>
     (sid \<in> set (sessions p) \<or> writer_exit (sess_writer s)) \<and>
     (Closing \<in> set (strand p sid) \<longrightarrow> writer_exit (sess_writer s)) \<and>
     (\<exists>es. writer_run es (sess_writer s))"

definition inv_but :: "nat set \<Rightarrow> 'app process \<Rightarrow> bool" where
  "inv_but X p \<longleftrightarrow> distinct (sessions p) \<and> set (sessions p) \<subseteq> dom (session_at p) \<and>
     (\<forall>sid s. session_at p sid = Some s \<longrightarrow> session_inv p sid s \<and> (sid \<notin> X \<longrightarrow> owned p sid s)) \<and>
     (\<forall>sid. next_session p \<le> sid \<longrightarrow> strand p sid = []) \<and>
     (\<forall>(sid, msg) \<in> set (messages p). sid < next_session p)"

abbreviation sessions_inv :: "'app process \<Rightarrow> bool" where
  "sessions_inv \<equiv> inv_but {}"

lemma inv_session: "inv_but X p \<Longrightarrow> session_at p sid = Some s \<Longrightarrow> session_inv p sid s"
  by (simp add: inv_but_def)

lemma inv_owned: "sessions_inv p \<Longrightarrow> session_at p sid = Some s \<Longrightarrow> owned p sid s"
  by (simp add: inv_but_def)

lemma inv_message: "inv_but X p \<Longrightarrow> (sid, msg) \<in> set (messages p) \<Longrightarrow> sid < next_session p"
  by (auto simp: inv_but_def)

lemma inv_writer: "session_inv p sid s \<Longrightarrow> \<exists>es. writer_run es (sess_writer s)"
  by (simp add: session_inv_def)

lemma inv_listed: "inv_but X p \<Longrightarrow> sid \<in> set (sessions p) \<Longrightarrow> \<exists>s. session_at p sid = Some s"
  by (auto simp: inv_but_def)

lemma new_server_inv: "sessions_inv (new_server a disp w)"
  by (simp add: inv_but_def new_server_def)

lemma writer_runI: "\<exists>es. writer_run es w \<Longrightarrow> writer_step w e (Some v) \<Longrightarrow> \<exists>es. writer_run es v"
  by (blast intro: writer_steps.step)

lemma writer_exits: "\<exists>es. writer_run es w \<Longrightarrow> \<exists>es. writer_run es (request_exit w)"
  by (erule writer_runI) (rule writer_step.exit)

lemma writer_closes:
  assumes "\<exists>es. writer_run es w" "writer_exit w"
  shows "\<exists>es. writer_run es (w\<lparr>socket_open := False\<rparr>)"
proof -
  have "w\<lparr>socket_open := False\<rparr> = close_session w" using assms(2) by (cases w) (simp add: close_session_def)
  with assms(1) show ?thesis by (metis writer_runI writer_step.close)
qed

lemma writer_writes:
  assumes "\<exists>es. writer_run es w"
  shows "\<exists>v. writer_write data w = Some v \<and> (\<exists>es. writer_run es v)"
proof -
  obtain es where "writer_run es w" using assms ..
  then obtain v where "writer_write data w = Some v"
    using writer_inv_step [OF run_inv writer_step.put, of es w data] by blast
  with assms show ?thesis by (metis writer_runI writer_step.put)
qed

lemma update_inv:
  assumes "inv_but X p" "session_at p sid = Some s0" "parent s = parent s0"
    and "writer_exit (sess_writer s0) \<longrightarrow> writer_exit (sess_writer s)" "\<exists>es. writer_run es (sess_writer s)"
  shows "inv_but (insert sid X) (p\<lparr>session_at := (session_at p)(sid \<mapsto> s)\<rparr>)"
  using assms by (auto simp: inv_but_def session_inv_def owned_def)

lemma free_inv:
  assumes "inv_but X p"
  shows "inv_but (X - {sid}) (free_session sid p)"
  using assms by (auto simp: free_session_def inv_but_def session_inv_def owned_def split: option.split)

lemma fold_free_inv: "inv_but X p \<Longrightarrow> inv_but (X - set sids) (fold free_session sids p)"
proof (induction sids arbitrary: X p)
  case (Cons sid sids)
  have "X - set (sid # sids) = X - {sid} - set sids" by auto
  with Cons.IH [OF free_inv [OF Cons.prems, of sid]] show ?case by simp
qed simp

lemma put_session_inv:
  assumes "inv_but X p" "X \<subseteq> {sid}" "session_at p sid = Some s0" "parent s = parent s0"
    and "writer_exit (sess_writer s0) \<longrightarrow> writer_exit (sess_writer s)" "\<exists>es. writer_run es (sess_writer s)"
  shows "sessions_inv (put_session sid s p)"
proof -
  have "inv_but (insert sid X - {sid}) (put_session sid s p)"
    unfolding put_session_def by (rule free_inv [OF update_inv]) (use assms in auto)
  with assms(2) show ?thesis by (metis Diff_insert_absorb Diff_eq_empty_iff insert_Diff_single insert_absorb subset_singleton_iff)
qed

lemma post_strand_inv:
  assumes "inv_but X p" "sid < next_session p"
    and "\<And>s. Closing \<in> set xs \<Longrightarrow> session_at p sid = Some s \<Longrightarrow> writer_exit (sess_writer s)"
  shows "inv_but X (post_strand sid xs p)"
  using assms by (auto simp: post_strand_def inv_but_def session_inv_def owned_def)

lemma unlist_inv:
  assumes "inv_but {sid} p" "\<And>s. session_at p sid = Some s \<Longrightarrow> writer_exit (sess_writer s)"
    and "sessions p = xs"
  shows "inv_but {sid} (p\<lparr>sessions := remove1 sid xs\<rparr>)"
proof -
  have "set (remove1 sid xs) \<subseteq> set xs" by (rule set_remove1_subset)
  moreover have "i \<in> set (remove1 sid xs) \<longleftrightarrow> i \<in> set xs" if "i \<noteq> sid" for i
    using that by (simp add: in_set_remove1)
  moreover have "session_inv (p\<lparr>sessions := remove1 sid xs\<rparr>) i s"
    if "session_at p i = Some s" for i s
    using inv_session [OF assms(1) that] assms(2,3) that
    by (cases "i = sid") (auto simp: session_inv_def in_set_remove1)
  ultimately show ?thesis
    using assms(1,3) by (auto simp: inv_but_def owned_def)
qed

text \<open>Messages and strands that get shorter, and the fields the invariant does not read.\<close>

lemma shrink_inv:
  assumes "inv_but X p" "set (messages q) \<subseteq> set (messages p)" "\<And>sid. set (strand q sid) \<subseteq> set (strand p sid)"
    and "sessions q = sessions p" "session_at q = session_at p" "next_session q = next_session p"
    and "impl_parent q = impl_parent p"
  shows "inv_but X q"
proof -
  have "strand q sid = []" if "next_session p \<le> sid" for sid
    using assms(1) assms(3) [of sid] that by (auto simp: inv_but_def)
  moreover have "sid < next_session p" if "(sid, msg) \<in> set (messages q)" for sid msg
    using assms(1,2) that by (auto simp: inv_but_def)
  moreover have "session_inv q sid s \<and> (sid \<notin> X \<longrightarrow> owned q sid s)" if "session_at p sid = Some s" for sid s
    using assms that subsetD [OF assms(3) [of sid], of Closing] by (auto simp: inv_but_def session_inv_def owned_def)
  ultimately show ?thesis using assms by (auto simp: inv_but_def)
qed

lemma session_close_inv:
  assumes "inv_but X p" "session_at p sid = Some s"
  shows "\<exists>q. session_close sid p = Some q \<and> inv_but X q \<and> dom (session_at q) = dom (session_at p) \<and>
    sessions q = sessions p \<and> object_at q = object_at p \<and> impl_parent q = impl_parent p \<and>
    (\<forall>i s. session_at p i = Some s \<and> (i = sid \<or> writer_exit (sess_writer s)) \<longrightarrow>
       (\<exists>s'. session_at q i = Some s' \<and> writer_exit (sess_writer s')))"
proof -
  let ?t = "s\<lparr>sess_writer := request_exit (sess_writer s)\<rparr>"
  let ?p = "p\<lparr>session_at := (session_at p)(sid \<mapsto> ?t)\<rparr>"
  have inv: "session_inv p sid s" using inv_session [OF assms] .
  have "owned ?p sid ?t = owned p sid s" by (simp add: owned_def request_exit_def)
  moreover have "inv_but (insert sid X) ?p"
    using inv writer_exits by (intro update_inv [OF assms]) (auto simp: session_inv_def request_exit_def)
  ultimately have "inv_but X ?p"
    using assms by (auto simp: inv_but_def)
  then have "inv_but X (post_strand sid [Closing] ?p)"
    using inv by (intro post_strand_inv) (auto simp: session_inv_def request_exit_def)
  then show ?thesis
    using assms(2) by (auto simp: session_close_def post_strand_def request_exit_def)
qed

lemma close_each_inv:
  "inv_but X p \<Longrightarrow> set sids \<subseteq> dom (session_at p) \<Longrightarrow>
   \<exists>q. close_each sids p = Some q \<and> inv_but X q \<and> dom (session_at q) = dom (session_at p) \<and>
    sessions q = sessions p \<and> object_at q = object_at p \<and> impl_parent q = impl_parent p \<and>
    (\<forall>i s. session_at p i = Some s \<and> (i \<in> set sids \<or> writer_exit (sess_writer s)) \<longrightarrow>
       (\<exists>s'. session_at q i = Some s' \<and> writer_exit (sess_writer s')))"
proof (induction sids arbitrary: p)
  case (Cons sid sids)
  from Cons.prems(2) obtain s where "session_at p sid = Some s" by auto
  from session_close_inv [OF Cons.prems(1) this] obtain q where q: "session_close sid p = Some q" "inv_but X q"
      "dom (session_at q) = dom (session_at p)" "sessions q = sessions p" "object_at q = object_at p"
      "impl_parent q = impl_parent p"
    and ex: "\<And>i s. session_at p i = Some s \<Longrightarrow> i = sid \<or> writer_exit (sess_writer s) \<Longrightarrow>
       \<exists>s'. session_at q i = Some s' \<and> writer_exit (sess_writer s')" by blast
  from Cons.IH [OF q(2)] Cons.prems(2) q(3) obtain r where r: "close_each sids q = Some r" "inv_but X r"
      "dom (session_at r) = dom (session_at q)" "sessions r = sessions q" "object_at r = object_at q"
      "impl_parent r = impl_parent q"
    and ex': "\<And>i s. session_at q i = Some s \<Longrightarrow> i \<in> set sids \<or> writer_exit (sess_writer s) \<Longrightarrow>
       \<exists>s'. session_at r i = Some s' \<and> writer_exit (sess_writer s')" by auto
  have "\<exists>s'. session_at r i = Some s' \<and> writer_exit (sess_writer s')"
    if "session_at p i = Some t" "i \<in> set (sid # sids) \<or> writer_exit (sess_writer t)" for i t
  proof -
    from that(1) q(3) obtain t' where t': "session_at q i = Some t'" by (metis domD domI)
    with ex [OF that(1)] that(2) have "i \<in> set sids \<or> writer_exit (sess_writer t')" by auto
    with ex' [OF t'] show ?thesis .
  qed
  with q r show ?case by simp blast
qed auto

lemma close_sessions_inv:
  assumes "sessions_inv p" "close_sessions a p = Some q"
  shows "sessions_inv q"
proof -
  have "set (sessions p) \<subseteq> dom (session_at p)" using assms(1) by (simp add: inv_but_def)
  from close_each_inv [OF assms(1) this] obtain r where r: "close_each (sessions p) p = Some r" "sessions_inv r"
      "sessions r = sessions p" "dom (session_at r) = dom (session_at p)"
    and ex: "\<And>i s. session_at p i = Some s \<Longrightarrow> i \<in> set (sessions p) \<or> writer_exit (sess_writer s) \<Longrightarrow>
       \<exists>s'. session_at r i = Some s' \<and> writer_exit (sess_writer s')" by blast
  have "writer_exit (sess_writer s')" if s': "session_at r i = Some s'" for i s'
  proof (cases "i \<in> set (sessions p)")
    case True
    with inv_listed [OF assms(1) this] ex [of i] s' show ?thesis by fastforce
  next
    case False
    with inv_session [OF r(2) s'] r(3) show ?thesis by (simp add: session_inv_def)
  qed
  then have "inv_but (set (sessions p)) (r\<lparr>sessions := []\<rparr>)"
    using r(2,3) by (auto simp: inv_but_def session_inv_def owned_def)
  from fold_free_inv [OF this, of "sessions p"] r(1) assms(2) show ?thesis
    by (auto simp: close_sessions_def split: option.splits if_splits)
qed

lemma new_session_sel [simp]:
  "do_read (new_server_session srv disp b) = (new_server_session srv disp b)\<lparr>reading := True\<rparr>"
  "parent (new_server_session srv disp b) = srv" "sess_writer (new_server_session srv disp b) = new_writer"
  by (simp_all add: do_read_def new_server_session_def new_writer_def)

lemma new_writer_run [simp]: "\<exists>es. writer_run es new_writer"
  by (blast intro: writer_steps.start)

lemma accept_inv:
  assumes "sessions_inv p" "accept p = Some q"
  shows "sessions_inv q"
proof -
  have new: "session_at p (next_session p) = None" "next_session p \<notin> set (sessions p)"
    using assms(1) inv_listed [OF assms(1), of "next_session p"]
    by (cases "session_at p (next_session p)"; auto simp: inv_but_def session_inv_def)+
  obtain srv where srv: "object_at p (impl_parent p) = Some srv"
    using assms(2) by (auto simp: accept_def split: option.splits)
  with assms(2) have q: "q = p\<lparr>session_at := (session_at p)(next_session p \<mapsto>
      (new_server_session (impl_parent p) (disp_set srv) (suppress_exceptions p))\<lparr>reading := True\<rparr>),
      sessions := sessions p @ [next_session p], next_session := Suc (next_session p)\<rparr>"
    by (simp add: accept_def Let_def)
  have "session_inv q i s \<and> owned q i s" if "session_at q i = Some s" for i s
  proof (cases "i = next_session p")
    case True
    then show ?thesis
      using assms srv that
      by (auto simp: accept_def Let_def inv_but_def session_inv_def owned_def)
  next
    case False
    then have "session_at p i = Some s" using assms(2) srv that by (auto simp: accept_def Let_def)
    from inv_session [OF assms(1) this] inv_owned [OF assms(1) this] assms(2) srv False show ?thesis
      by (auto simp: accept_def Let_def session_inv_def owned_def)
  qed
  moreover have "\<forall>(i, msg) \<in> set (messages p). i < Suc (next_session p)"
    using inv_message [OF assms(1)] by (auto intro: less_SucI)
  ultimately show ?thesis
    using new assms(1) by (simp add: q inv_but_def subset_insertI2)
qed

lemma on_read_inv:
  assumes "sessions_inv p" "session_at p sid = Some s0" "on_read sid bs p = Some q"
  shows "sessions_inv q"
proof -
  let ?s = "s0\<lparr>reading := False\<rparr>"
  have ex: "\<exists>es. writer_run es (sess_writer s0)" "sid < next_session p"
    using inv_session [OF assms(1,2)] by (auto simp: session_inv_def)
  obtain msgs res where n: "next_all (fst (unpacker s0)) (snd (unpacker s0) @ bs) = (msgs, res)"
    by (cases "next_all (fst (unpacker s0)) (snd (unpacker s0) @ bs)")
  have more: "sessions_inv (p\<lparr>messages := messages p @ map (Pair sid) msgs, running := b\<rparr>)" for b
    using assms(1) ex(2) by (auto simp: inv_but_def session_inv_def owned_def)
  show ?thesis
  proof (cases "writer_exit (sess_writer s0)")
    case True
    with put_session_inv [OF assms(1) _ assms(2), of ?s] ex assms(2,3) show ?thesis by (simp add: on_read_def)
  next
    case False
    with put_session_inv [OF more [where b = "running p"], of sid s0 "do_read (?s\<lparr>unpacker := u\<rparr>)" for u]
      more [where b = False] n ex assms(2,3)
    show ?thesis by (auto simp: on_read_def do_read_def split: sum.splits)
  qed
qed

lemma on_hangup_inv:
  assumes "sessions_inv p" "session_at p sid = Some s0" "on_hangup sid p = Some q"
  shows "sessions_inv q"
proof -
  let ?s = "s0\<lparr>reading := False\<rparr>" and ?p = "p\<lparr>session_at := (session_at p)(sid \<mapsto> s0\<lparr>reading := False\<rparr>)\<rparr>"
  have ex: "\<exists>es. writer_run es (sess_writer s0)" using inv_session [OF assms(1,2)] by (rule inv_writer)
  show ?thesis
  proof (cases "writer_exit (sess_writer s0)")
    case True
    with put_session_inv [OF assms(1) _ assms(2), of ?s] ex assms(2,3) show ?thesis by (simp add: on_hangup_def)
  next
    case False
    have "inv_but {sid} ?p" by (rule update_inv [OF assms(1,2)]) (use ex in auto)
    from session_close_inv [OF this, of sid ?s] obtain r where "session_close sid ?p = Some r" "inv_but {sid} r"
      by auto
    with False free_inv [of "{sid}" r sid] assms(2,3) show ?thesis by (simp add: on_hangup_def)
  qed
qed

lemma on_read_error_inv:
  assumes "sessions_inv p" "session_at p sid = Some s0" "on_read_error sid p = Some q"
  shows "sessions_inv q"
  using put_session_inv [OF assms(1) _ assms(2), of "s0\<lparr>reading := False\<rparr>"]
    inv_writer [OF inv_session [OF assms(1,2)]] assms(2,3) by (simp add: on_read_error_def)

lemma run_message_inv:
  assumes "sessions_inv p" "run_message i p = Some q"
  shows "sessions_inv q"
proof -
  obtain sid msg where m: "messages p ! i = (sid, msg)" by (cases "messages p ! i")
  let ?p = "p\<lparr>messages := take i (messages p) @ drop (Suc i) (messages p)\<rparr>"
  have short: "sessions_inv (?p\<lparr>state := w, running := b\<rparr>)" for w b
    by (rule shrink_inv [OF assms(1)]) (auto dest: in_set_takeD in_set_dropD)
  obtain s where s: "session_at p sid = Some s"
    using assms(2) m by (auto simp: run_message_def Let_def split: option.splits)
  then have "sid < next_session p" using inv_session [OF assms(1) s] by (simp add: session_inv_def)
  with post_strand_inv [OF short [where b = "running p"], where sid = sid and xs = "map Posted posts" for posts] short [where b = False]
    assms(2) m s
  show ?thesis
    by (auto simp: run_message_def Let_def post_strand_def split: if_splits prod.splits outcome.splits)
qed

lemma run_item_inv:
  assumes "sessions_inv p" "session_at p sid = Some s" "x = Closing \<longrightarrow> writer_exit (sess_writer s)"
    and "run_item sid x s p = Some q"
  shows "sessions_inv q"
proof -
  have ex: "\<exists>es. writer_run es (sess_writer s)" using inv_session [OF assms(1,2)] by (rule inv_writer)
  note put = put_session_inv [OF assms(1) _ assms(2), of "s\<lparr>sess_writer := w\<rparr>" for w]
  consider data where "x = Posted (Write data)" | "x = Posted Exit_session" | "x = Posted Close_sessions" | "x = Closing"
    by (metis post.exhaust strand_item.exhaust)
  then show ?thesis
  proof cases
    case 1
    obtain w where "writer_write data (sess_writer s) = Some w" "\<exists>es. writer_run es w"
      using writer_writes [OF ex] by blast
    moreover from this(1) have "writer_exit (sess_writer s) \<longrightarrow> writer_exit w"
      by (auto simp: writer_write_def do_write_def Let_def split: if_splits)
    ultimately show ?thesis using 1 put [of w] assms(4) by (simp add: run_item_def)
  next
    case 2
    with put [of "request_exit (sess_writer s)"] writer_exits [OF ex] assms(4)
    show ?thesis by (simp add: run_item_def request_exit_def)
  next
    case 3
    with close_sessions_inv [OF assms(1)] assms(4) show ?thesis by (simp add: run_item_def)
  next
    case 4
    let ?t = "s\<lparr>sess_writer := (sess_writer s)\<lparr>socket_open := False\<rparr>\<rparr>"
    let ?p = "p\<lparr>session_at := (session_at p)(sid \<mapsto> ?t)\<rparr>"
    have "inv_but {sid} ?p"
      using writer_closes [OF ex] 4 assms(3) by (intro update_inv [OF assms(1,2)]) auto
    then have "inv_but {sid} (?p\<lparr>sessions := remove1 sid (sessions p)\<rparr>)"
      using 4 assms(3) by (intro unlist_inv) auto
    from free_inv [OF this, of sid] 4 assms(4) show ?thesis
      by (auto simp: run_item_def server_close_session_def split: option.splits if_splits)
  qed
qed

lemma run_strand_inv:
  assumes "sessions_inv p" "run_strand sid p = Some q"
  shows "sessions_inv q"
proof (cases "strand p sid")
  case (Cons x xs)
  let ?p = "p\<lparr>strand := (strand p)(sid := xs)\<rparr>"
  have "sessions_inv ?p" by (rule shrink_inv [OF assms(1)]) (auto simp: Cons)
  moreover obtain s where s: "session_at p sid = Some s" "run_item sid x s ?p = Some q"
    using assms(2) Cons by (auto simp: run_strand_def split: option.splits)
  moreover have "x = Closing \<longrightarrow> writer_exit (sess_writer s)"
    using inv_session [OF assms(1) s(1)] Cons by (simp add: session_inv_def)
  ultimately show ?thesis using run_item_inv [of ?p sid s x q] by simp
qed (use assms in \<open>simp add: run_strand_def\<close>)

lemma objects_inv:
  assumes "sessions_inv p"
  shows "set_suppress a b p = Some q \<Longrightarrow> sessions_inv q"
    and "stop_io a p = Some q \<Longrightarrow> sessions_inv q"
    and "move_server a a' p = Some q \<Longrightarrow> sessions_inv q"
    and "destroy_server a p = Some q \<Longrightarrow> sessions_inv q"
  by (rule shrink_inv [OF assms];
      auto simp: set_suppress_def stop_io_def move_server_def destroy_server_def split: option.splits if_splits)+

lemma socket_inv:
  assumes "sessions_inv p" "session_at p sid = Some s" "writer_step (sess_writer s) e (Some v)"
    and "e \<in> {Complete, Fail} \<union> range Transfer"
  shows "sessions_inv (put_session sid (s\<lparr>sess_writer := v\<rparr>) p)"
proof (rule put_session_inv [OF assms(1) _ assms(2)])
  show "\<exists>es. writer_run es (sess_writer (s\<lparr>sess_writer := v\<rparr>))"
    using writer_runI [OF inv_writer [OF inv_session [OF assms(1,2)]] assms(3)] by simp
  show "writer_exit (sess_writer s) \<longrightarrow> writer_exit (sess_writer (s\<lparr>sess_writer := v\<rparr>))"
    using assms(3,4) by (auto simp: writer_step_simps writer_ops split: if_splits)
qed simp_all

lemma server_step_inv:
  assumes "server_step p e (Some q)" "sessions_inv p"
  shows "sessions_inv q"
  using assms(1)
proof cases
  case (socket sid s e r)
  with socket_inv [OF assms(2)] show ?thesis by (cases r) auto
qed (use assms(2) in \<open>metis accept_inv on_read_inv on_hangup_inv on_read_error_inv run_message_inv
    run_strand_inv close_sessions_inv objects_inv\<close>)+

lemma server_run_inv: "server_run p0 es p \<Longrightarrow> sessions_inv p0 \<Longrightarrow> sessions_inv p"
  by (induction rule: server_run.induct) (auto dest: server_step_inv)

section \<open>Safety while nobody hangs up\<close>

text \<open>
  Events in which no session is closed and the server object stays where it was made, and
  functions that do not ask the server to stop.
\<close>

definition quiet :: "server_event \<Rightarrow> bool" where
  "quiet e = (case e of Hangup _ \<Rightarrow> False | Close_all _ \<Rightarrow> False | Move _ _ \<Rightarrow> False | Destroy _ \<Rightarrow> False | _ \<Rightarrow> True)"

definition never_stops :: "'app world dispatcher \<Rightarrow> bool" where
  "never_stops disp \<longleftrightarrow> (\<forall>sid b msg w posts w'.
     process_message sid b disp msg w = (Returned posts, w') \<longrightarrow> Close_sessions \<notin> set posts)"

text \<open>A message whose dispatch itself is undefined (a malformed one, or a function that is).\<close>

definition undefined_message :: "nat \<Rightarrow> 'app process \<Rightarrow> bool" where
  "undefined_message i p =
     (let (sid, msg) = messages p ! i
      in case session_at p sid of
           None \<Rightarrow> False
         | Some s \<Rightarrow> fst (process_message sid (suppress s) (bound p) msg (state p)) = Undefined)"

definition calm :: "nat \<Rightarrow> 'app world dispatcher \<Rightarrow> 'app process \<Rightarrow> bool" where
  "calm a disp p \<longleftrightarrow> sessions_inv p \<and> bound p = disp \<and> impl_parent p = a \<and>
     object_at p = [a \<mapsto> \<lparr>pimpl = True, disp_set = True\<rparr>] \<and> sessions p = [0..<next_session p] \<and>
     (\<forall>sid s. session_at p sid = Some s \<longrightarrow> has_disp s) \<and>
     (\<forall>sid. Closing \<notin> set (strand p sid) \<and> Posted Close_sessions \<notin> set (strand p sid))"

lemma calm_live: "calm a disp p \<Longrightarrow> sid < next_session p \<Longrightarrow> \<exists>s. session_at p sid = Some s"
  by (rule inv_listed) (auto simp: calm_def)

lemma calm_bound: "calm a disp p \<Longrightarrow> session_at p sid = Some s \<Longrightarrow> sid < next_session p"
  using inv_session [of "{}" p sid s] by (simp add: calm_def session_inv_def)

lemma new_server_calm: "calm a disp (new_server a disp w)"
  by (simp add: calm_def new_server_inv) (simp add: new_server_def)

text \<open>In a calm server no session is freed.\<close>

lemma calm_put:
  assumes "calm a disp p" "session_at p sid = Some s0"
  shows "put_session sid s p = p\<lparr>session_at := (session_at p)(sid \<mapsto> s)\<rparr>"
  using assms calm_bound [OF assms] by (simp add: put_session_def free_session_def owned_def calm_def)

lemma never_stopsI:
  assumes "\<And>name f args w res w'. disp name = Some f \<Longrightarrow> f args w = (res, w') \<Longrightarrow> res \<noteq> Exited \<Longrightarrow>
     server_stopping w' = server_stopping w"
  shows "never_stops disp"
  unfolding never_stops_def
proof (intro allI impI)
  fix sid b msg w posts w'
  assume run: "process_message sid b disp msg w = (Returned posts, w')"
  then obtain resp v where d: "dispatch b disp msg (prepare sid w) = (Returned resp, v)"
      "after_dispatch resp v = (Returned posts, w')"
    by (cases "dispatch b disp msg (prepare sid w)"; cases "fst (dispatch b disp msg (prepare sid w))")
      (auto simp: process_message_def andthen_def)
  have "\<not> server_stopping v"
    using dispatch_shape [OF d(1)] assms prepare_sel(5) by metis
  then show "Close_sessions \<notin> set posts"
    using d(2) by (auto simp: after_dispatch_def split: if_splits option.splits)
qed

lemma calm_read:
  assumes "calm a disp p" "session_at p sid = Some s"
  shows "\<exists>q. on_read sid bs p = Some q \<and> (sessions_inv q \<longrightarrow> calm a disp q)"
    and "\<exists>q. on_read_error sid p = Some q \<and> (sessions_inv q \<longrightarrow> calm a disp q)"
proof -
  have more: "put_session sid s' (p\<lparr>messages := ms\<rparr>) = p\<lparr>messages := ms, session_at := (session_at p)(sid \<mapsto> s')\<rparr>" for s' ms
    using assms calm_bound [OF assms] by (simp add: put_session_def free_session_def owned_def calm_def)
  show "\<exists>q. on_read_error sid p = Some q \<and> (sessions_inv q \<longrightarrow> calm a disp q)"
    using assms calm_put [OF assms] by (auto simp: on_read_error_def calm_def)
  show "\<exists>q. on_read sid bs p = Some q \<and> (sessions_inv q \<longrightarrow> calm a disp q)"
    using assms calm_put [OF assms] more
    by (cases "next_all (fst (unpacker s)) (snd (unpacker s) @ bs)"; cases "writer_exit (sess_writer s)")
      (auto simp: on_read_def Let_def calm_def do_read_def split: sum.splits)
qed

lemma calm_message:
  assumes "calm a disp p" "never_stops disp" "i < length (messages p)"
  shows "if undefined_message i p then run_message i p = None
    else \<exists>q. run_message i p = Some q \<and> (sessions_inv q \<longrightarrow> calm a disp q)"
proof -
  obtain sid msg where m: "messages p ! i = (sid, msg)" by (cases "messages p ! i")
  then have "sid < next_session p"
    using inv_message [of "{}" p sid msg] assms(1,3) nth_mem by (fastforce simp: calm_def)
  then obtain s where s: "session_at p sid = Some s" using calm_live [OF assms(1)] by blast
  then have "has_disp s" "bound p = disp" using assms(1) by (auto simp: calm_def)
  moreover obtain res w where r: "process_message sid (suppress s) disp msg (state p) = (res, w)" by fastforce
  moreover have "res = Returned posts \<Longrightarrow> Close_sessions \<notin> set posts" for posts
    using assms(2) r unfolding never_stops_def by blast
  ultimately show ?thesis
    using assms(1) m s
    by (cases res) (auto simp: run_message_def undefined_message_def Let_def calm_def post_strand_def)
qed

lemma calm_strand:
  assumes "calm a disp p" "strand p sid \<noteq> []"
  shows "\<exists>q. run_strand sid p = Some q \<and> (sessions_inv q \<longrightarrow> calm a disp q)"
proof -
  obtain x xs where x: "strand p sid = x # xs" using assms(2) by (cases "strand p sid") auto
  have "sid < next_session p"
    using assms by (meson calm_def inv_but_def not_le)
  then obtain s where s: "session_at p sid = Some s" using calm_live [OF assms(1)] by blast
  then obtain es where "writer_run es (sess_writer s)"
    using inv_writer [OF inv_session [of "{}" p sid s]] assms(1) by (auto simp: calm_def)
  then have written: "\<exists>w. writer_write data (sess_writer s) = Some w" for data
    using writer_writes by blast
  have put: "put_session sid s' (p\<lparr>strand := st\<rparr>) = p\<lparr>strand := st, session_at := (session_at p)(sid \<mapsto> s')\<rparr>" for s' st
    using assms calm_bound [OF assms(1) s] by (simp add: put_session_def free_session_def owned_def calm_def)
  have xs: "x \<noteq> Closing" "x \<noteq> Posted Close_sessions" "Closing \<notin> set xs" "Posted Close_sessions \<notin> set xs"
    using assms(1) x by (auto simp: calm_def dest!: spec [of _ sid])
  from xs written consider data w where "x = Posted (Write data)" "writer_write data (sess_writer s) = Some w"
    | "x = Posted Exit_session"
    by (metis post.exhaust strand_item.exhaust)
  then show ?thesis
    using assms(1) x s put xs
    by cases (auto simp: run_strand_def run_item_def Let_def calm_def)
qed

lemma calm_step:
  assumes "calm a disp p" "never_stops disp" "server_step p e r" "quiet e"
  shows "(\<exists>q. r = Some q \<and> calm a disp q) \<or> (r = None \<and> (\<exists>i. e = Message i \<and> undefined_message i p))"
proof -
  have inv: "sessions_inv p" using assms(1) by (simp add: calm_def)
  have "(\<exists>q. r = Some q \<and> (sessions_inv q \<longrightarrow> calm a disp q)) \<or>
      (r = None \<and> (\<exists>i. e = Message i \<and> undefined_message i p))"
    using assms(3)
  proof cases
    case accept
    with assms(1) show ?thesis by (auto simp: accept_def Let_def calm_def new_server_session_def do_read_def)
  next
    case (socket sid s e' w)
    obtain es where "writer_run es (sess_writer s)" using inv_writer [OF inv_session [OF inv socket(4)]] by blast
    then obtain v where "w = Some v"
      using writer_inv_step [OF run_inv socket(6)] by blast
    with socket assms(1) calm_put [OF assms(1) socket(4)] show ?thesis by (auto simp: calm_def)
  next
    case (message i)
    with calm_message [OF assms(1,2) message(4)] show ?thesis by (auto split: if_splits)
  next
    case (suppress a' b)
    with assms(1) show ?thesis by (auto simp: set_suppress_def calm_def split: if_splits)
  next
    case (stop a')
    with assms(1) show ?thesis by (auto simp: stop_io_def calm_def split: if_splits)
  qed (use assms calm_read calm_strand in \<open>auto simp: quiet_def\<close>)
  with server_step_inv [of p e] assms(3) inv show ?thesis by blast
qed

lemma calm_run:
  "server_run p0 es p \<Longrightarrow> calm a disp p0 \<Longrightarrow> never_stops disp \<Longrightarrow> \<forall>e\<in>set es. quiet e \<Longrightarrow> calm a disp p"
  by (induction rule: server_run.induct) (auto dest: calm_step)

section \<open>Properties\<close>

text \<open>
  C18. While no client hangs up, nobody closes sessions and the server object stays in place, the
  server itself does nothing undefined: every session it accepted is in its list and exists, so
  the plain pointers that messages and write strands hold are good, and the only step that can
  go wrong is a message whose dispatch is undefined. The functions bound do not stop the server.
\<close>
theorem quiet_server_safe:
  assumes "never_stops disp" "server_run (new_server a disp w) es p" "\<forall>e\<in>set es. quiet e"
    and "server_step p e r" "quiet e"
  shows "(r = None \<longrightarrow> (\<exists>i. e = Message i \<and> undefined_message i p))
    \<and> sessions p = [0..<next_session p] \<and> set (sessions p) = dom (session_at p)
    \<and> (\<forall>(sid, msg) \<in> set (messages p). session_at p sid \<noteq> None)"
proof -
  have calm: "calm a disp p" using calm_run [OF assms(2) new_server_calm assms(1,3)] .
  then have inv: "sessions_inv p" and list: "sessions p = [0..<next_session p]" by (auto simp: calm_def)
  have "r = None \<longrightarrow> (\<exists>i. e = Message i \<and> undefined_message i p)"
    using calm_step [OF calm assms(1,4,5)] by blast
  moreover have "set (sessions p) = dom (session_at p)"
    using calm_live [OF calm] calm_bound [OF calm] list by auto
  moreover have "session_at p sid \<noteq> None" if "(sid, msg) \<in> set (messages p)" for sid msg
    using calm_live [OF calm inv_message [OF inv that]] by auto
  ultimately show ?thesis using list by auto
qed

text \<open>
  C23. A client that sends a request and hangs up makes the server use a freed session: if the
  session of a waiting message has nothing else to do, the end of the stream closes it, its
  strand drops it from the server's list, which was its last owner, and the worker that takes
  the message then works on memory that is gone.
\<close>
theorem hangup_uses_freed_session:
  assumes "server_run (new_server a disp w) es p" "running p" "object_at p (impl_parent p) = Some \<lparr>pimpl = True, disp_set = d\<rparr>"
    and "session_at p sid = Some s" "reading s" "\<not> writer_exit (sess_writer s)" "\<not> writing (sess_writer s)"
    and "strand p sid = []" "i < length (messages p)" "messages p ! i = (sid, msg)"
  shows "\<exists>q r. server_step p (Hangup sid) (Some q) \<and> server_step q (Strand sid) (Some r) \<and>
    session_at r sid = None \<and> server_step r (Message i) None"
proof -
  have inv: "sessions_inv p" using server_run_inv [OF assms(1) new_server_inv] .
  have sid: "sid \<in> set (sessions p)" "parent s = impl_parent p" "distinct (sessions p)"
    using inv_session [OF inv assms(4)] assms(6) inv by (auto simp: session_inv_def inv_but_def)
  let ?s = "s\<lparr>reading := False, sess_writer := request_exit (sess_writer s)\<rparr>"
  let ?q = "p\<lparr>session_at := (session_at p)(sid \<mapsto> ?s), strand := (strand p)(sid := [Closing])\<rparr>"
  let ?r = "?q\<lparr>session_at := (session_at p)(sid := None), strand := (strand p)(sid := []),
    sessions := remove1 sid (sessions p)\<rparr>"
  have "on_hangup sid p = Some ?q"
    using assms sid by (simp add: on_hangup_def session_close_def post_strand_def free_session_def owned_def)
  moreover have "run_strand sid ?q = Some ?r"
    using assms sid by (simp add: run_strand_def run_item_def server_close_session_def free_session_def
        owned_def request_exit_def)
  moreover have "run_message i ?r = None"
    using assms by (simp add: run_message_def Let_def)
  moreover have "server_step p (Hangup sid) (on_hangup sid p)" by (rule server_step.hangup) (use assms in auto)
  moreover have "server_step ?q (Strand sid) (run_strand sid ?q)" by (rule server_step.strand) (use assms in auto)
  moreover have "server_step ?r (Message i) (run_message i ?r)" by (rule server_step.message) (use assms in auto)
  moreover have "session_at ?r sid = None" by simp
  ultimately show ?thesis by metis
qed

text \<open>
  Moving a server that has been made leaves the implementation with the old object: whatever is
  accepted then has no dispatcher, and neither its messages nor its end are defined.
\<close>

lemma moved_server_breaks:
  assumes "object_at p (impl_parent p) = Some \<lparr>pimpl = False, disp_set = False\<rparr>"
  shows "\<exists>q. accept p = Some q \<and> (\<forall>i msg. i < length (messages q) \<and> messages q ! i = (next_session p, msg) \<longrightarrow>
      run_message i q = None)
    \<and> (\<exists>s. session_at q (next_session p) = Some s \<and> run_item (next_session p) Closing s q = None)"
  using assms
  by (auto simp: accept_def Let_def run_message_def new_server_session_def do_read_def run_item_def
      server_close_session_def new_writer_def)

section \<open>A server at work\<close>

text \<open>A client has connected and sent one call.\<close>

definition called_server :: "unit process" where
  "called_server = (new_server 0 (conf_disp link_conf) start_world)
     \<lparr>session_at := [0 \<mapsto> (new_server_session 0 True False)\<lparr>reading := True\<rparr>], sessions := [0], next_session := 1,
      messages := [(0, call_object 1 sample_name [])]\<rparr>"

lemma link_never_stops: "never_stops (conf_disp link_conf)"
proof (rule never_stopsI)
  fix name f args and w w' :: "unit world" and res
  assume "conf_disp link_conf name = Some f" "f args w = (res, w')"
  then have "nonvoid_zero_adaptor sample_name (\<lambda>r. Some (object_bool r)) (return_with True) args w = (res, w')"
    by (auto simp: link_conf_def split: if_splits)
  then show "server_stopping w' = server_stopping w"
    by (auto simp: nonvoid_zero_adaptor_def with_array_size_def enforce_arg_count_result object_of_result_def
        return_with_def throw_def undefined_behaviour_def andthen_def split: option.splits if_splits)
qed

lemma called_server_run:
  "server_run (new_server 0 (conf_disp link_conf) start_world) [Accept, Read 0 call_bytes] called_server"
proof -
  let ?p0 = "new_server 0 (conf_disp link_conf) start_world"
  let ?s = "(new_server_session 0 True False)\<lparr>reading := True\<rparr>"
  let ?p1 = "?p0\<lparr>session_at := [0 \<mapsto> ?s], sessions := [0], next_session := 1\<rparr>"
  have "accept ?p0 = Some ?p1"
    by (simp add: accept_def new_server_def)
  then have one: "server_run ?p0 ([] @ [Accept]) ?p1"
    using server_step.accept [of ?p0] by (intro server_run.step [OF server_run.start]) (simp add: new_server_def)
  have "next_all (init_ctx True default_limit) call_bytes =
      ([call_object 1 sample_name []], Inr (init_ctx True default_limit, []))"
    using next_all_put [of "[call_object 1 sample_name []]" default_limit True "[]"] sample_messages
    by (simp add: call_bytes_def next_all_empty)
  then have "on_read 0 call_bytes ?p1 = Some called_server"
    by (simp add: on_read_def Let_def new_server_session_def new_writer_def do_read_def put_session_def
        free_session_def owned_def called_server_def new_server_def)
  then have "server_step ?p1 (Read 0 call_bytes) (Some called_server)"
    using server_step.read [of ?p1 0 ?s call_bytes] by (simp add: new_server_def)
  from server_run.step [OF one this] show ?thesis by simp
qed

lemma called_server_sel:
  "running called_server" "messages called_server = [(0, call_object 1 sample_name [])]"
  "session_at called_server 0 = Some ((new_server_session 0 True False)\<lparr>reading := True\<rparr>)"
  "strand called_server 0 = []" "impl_parent called_server = 0"
  "object_at called_server 0 = Some \<lparr>pimpl = True, disp_set = True\<rparr>"
  "next_session called_server = 1"
  by (simp_all add: called_server_def new_server_def)

lemma quiet_server_safe_witness:
  "never_stops (conf_disp link_conf)
    \<and> server_run (new_server 0 (conf_disp link_conf) start_world) [Accept, Read 0 call_bytes] called_server
    \<and> run_message 0 called_server \<noteq> None \<and> sessions called_server = [0..<1]"
proof -
  have "\<not> undefined_message 0 called_server"
    using process_message_returned [OF sample_dispatch [of "prepare 0 start_world"]]
    by (simp add: undefined_message_def called_server_def new_server_def new_server_session_def
        after_dispatch_plain plain_def)
  moreover have step: "server_step called_server (Message 0) (run_message 0 called_server)"
    by (rule server_step.message) (simp_all add: called_server_sel)
  ultimately show ?thesis
    using quiet_server_safe [OF link_never_stops called_server_run _ step] link_never_stops called_server_run
    by (simp add: quiet_def called_server_sel(7))
qed

lemma hangup_uses_freed_session_witness:
  "\<exists>q r. server_step called_server (Hangup 0) (Some q) \<and> server_step q (Strand 0) (Some r) \<and>
    session_at r 0 = None \<and> server_step r (Message 0) None"
  using hangup_uses_freed_session [OF called_server_run called_server_sel(1), of True 0
      "(new_server_session 0 True False)\<lparr>reading := True\<rparr>" 0]
  by (simp add: called_server_sel new_writer_def)

end
