(* ===== verification/Interface.thy ===== *)
theory Interface
  imports Cpp_Lib
begin

text \<open>
  The boundary between the library and its client programs (\<open>include/MapReduceMaster.h\<close>,
  lines 49--141 and 548--555): the object that collects what the client's functions
  emit, the class of its two virtual functions, the factory the client registers the
  class with, and the hash that distributes lines and keys over workers. The locale
  \<open>mr_app\<close> is the contract a client class meets.
\<close>

section \<open>MapReduceInterface\<close>

record mr_object =
  emitted_intermediates :: "(string \<times> string) list"
  emitted_outputs :: "(string \<times> string list) list"

definition new_MapReduceInterface :: mr_object where
  "new_MapReduceInterface = \<lparr>emitted_intermediates = [], emitted_outputs = []\<rparr>"

text \<open>The copy constructor appends the vectors of the original to empty ones.\<close>

definition copy_MapReduceInterface :: "mr_object \<Rightarrow> mr_object" where
  "copy_MapReduceInterface orig =
     (let this = new_MapReduceInterface;
          this = this\<lparr>emitted_intermediates := emitted_intermediates this @ emitted_intermediates orig\<rparr>
      in this\<lparr>emitted_outputs := emitted_outputs this @ emitted_outputs orig\<rparr>)"

definition emitIntermediate :: "string \<Rightarrow> string \<Rightarrow> mr_object \<Rightarrow> mr_object" where
  "emitIntermediate k2 v2 this =
     this\<lparr>emitted_intermediates := emitted_intermediates this @ [(k2, v2)]\<rparr>"

definition emit :: "string \<Rightarrow> string list \<Rightarrow> mr_object \<Rightarrow> mr_object" where
  "emit k2 v3_list this = this\<lparr>emitted_outputs := emitted_outputs this @ [(k2, v3_list)]\<rparr>"

text \<open>The two virtual functions a subclass overrides; either may throw.\<close>

record mr_class =
  map_fn :: "string \<Rightarrow> string \<Rightarrow> mr_object \<Rightarrow> cpp_error + mr_object"
  reduce_fn :: "string \<Rightarrow> string list \<Rightarrow> mr_object \<Rightarrow> cpp_error + mr_object"

section \<open>MapReduceInterfaceFactory\<close>

text \<open>
  A generator makes a new object of its class, so the factory maps a name to the class.
  \<open>unordered_map::insert\<close> keeps the entry that is there and reports whether it inserted.
\<close>

type_synonym factory = "string \<Rightarrow> mr_class option"

definition registerGenerator :: "string \<Rightarrow> mr_class \<Rightarrow> factory \<Rightarrow> bool \<times> factory" where
  "registerGenerator typeName funcCreate m_generators =
     (case m_generators typeName of
        Some _ \<Rightarrow> (False, m_generators)
      | None \<Rightarrow> (True, m_generators(typeName \<mapsto> funcCreate)))"

text \<open>A null pointer is \<open>None\<close>; a pointer carries the dynamic class and a new object.\<close>

type_synonym mr_pointer = "(mr_class \<times> mr_object) option"

definition getMapReduceInterface :: "string \<Rightarrow> factory \<Rightarrow> mr_pointer" where
  "getMapReduceInterface typeName m_generators =
     (case m_generators typeName of
        Some c \<Rightarrow> Some (c, new_MapReduceInterface)
      | None \<Rightarrow> None)"

text \<open>The registration object's constructor drops the result of \<open>registerGenerator\<close>.\<close>

definition MapReduceInterfaceFactoryRegistration :: "string \<Rightarrow> mr_class \<Rightarrow> factory \<Rightarrow> factory" where
  "MapReduceInterfaceFactoryRegistration id_name T m_generators =
     snd (registerGenerator id_name T m_generators)"

text \<open>
  The first registration of a name wins: after any sequence of registrations, asking
  for a name gives a new object of the class first registered under it, and a null pointer
  for a name never registered.
\<close>

theorem first_registration_wins:
  "getMapReduceInterface n
     (fold (\<lambda>(id_name, T). MapReduceInterfaceFactoryRegistration id_name T) regs Map.empty) =
   map_option (\<lambda>T. (T, new_MapReduceInterface)) (map_of regs n)"
proof -
  have "fold (\<lambda>(id_name, T). MapReduceInterfaceFactoryRegistration id_name T) regs f =
      map_of regs ++ f" for f
    by (induction regs arbitrary: f)
      (auto simp: MapReduceInterfaceFactoryRegistration_def registerGenerator_def map_add_def
        fun_eq_iff split: option.splits)
  then show ?thesis
    by (simp add: getMapReduceInterface_def split: option.split)
qed

section \<open>hash_in_range\<close>

text \<open>
  \<open>hasher(data) % max_range\<close>: the \<open>int\<close> is converted to \<open>size_t\<close>, the remainder back to
  \<open>int\<close>; a zero range divides by zero. \<open>std::hash\<close> is a parameter: the standard fixes
  only that it is a function into \<open>size_t\<close>.
\<close>

definition hash_in_range :: "('d \<Rightarrow> 64 word) \<Rightarrow> 'd \<Rightarrow> int \<Rightarrow> cpp_error + int" where
  "hash_in_range hasher data max_range =
     (if size_t_of_int max_range = 0 then Inl (UB ''division by zero'')
      else Inr (int_of_size_t (hasher data mod size_t_of_int max_range)))"

text \<open>The bucket of a datum, when the range is a valid one.\<close>

definition bucket :: "('d \<Rightarrow> 64 word) \<Rightarrow> int \<Rightarrow> 'd \<Rightarrow> int" where
  "bucket hasher n data = uint (hasher data) mod n"

lemma hash_in_range_bucket:
  assumes "0 < n" "n \<le> INT_MAX"
  shows "hash_in_range hasher d n = Inr (bucket hasher n d)"
proof -
  have n: "uint (size_t_of_int n) = n" using assms by (simp add: uint_size_t_of_int)
  then have "size_t_of_int n \<noteq> 0" using assms(1) by auto
  moreover have "uint (hasher d mod size_t_of_int n) = bucket hasher n d"
    by (simp add: bucket_def uint_mod_distrib n)
  moreover have "bucket hasher n d \<le> INT_MAX"
    unfolding bucket_def using assms pos_mod_bound [of n "uint (hasher d)"] by linarith
  ultimately show ?thesis
    by (simp add: hash_in_range_def int_of_size_t_small)
qed

lemma bucket_range: "0 < n \<Longrightarrow> 0 \<le> bucket hasher n d \<and> bucket hasher n d < n"
  by (simp add: bucket_def)

section \<open>The contract of a client class\<close>

text \<open>
  Appending to the two vectors: what a well-behaved client function does to its object.
\<close>

definition emit_all :: "(string \<times> string) list \<Rightarrow> mr_object \<Rightarrow> mr_object" where
  "emit_all kvs this = this\<lparr>emitted_intermediates := emitted_intermediates this @ kvs\<rparr>"

definition output_all :: "(string \<times> string list) list \<Rightarrow> mr_object \<Rightarrow> mr_object" where
  "output_all es this = this\<lparr>emitted_outputs := emitted_outputs this @ es\<rparr>"

lemma emit_all_simps [simp]:
  "emit_all [] this = this"
  "emit_all ys (emit_all xs this) = emit_all (xs @ ys) this"
  "emitted_intermediates (emit_all xs this) = emitted_intermediates this @ xs"
  "emitIntermediate k v this = emit_all [(k, v)] this"
  by (simp_all add: emit_all_def emitIntermediate_def)

lemma output_all_simps [simp]:
  "output_all [] this = this"
  "output_all ys (output_all xs this) = output_all (xs @ ys) this"
  "emitted_outputs (output_all xs this) = emitted_outputs this @ xs"
  "emit k vs this = output_all [(k, vs)] this"
  by (simp_all add: output_all_def emit_def)

lemma new_object_sel [simp]:
  "emitted_intermediates new_MapReduceInterface = []"
  "emitted_outputs new_MapReduceInterface = []"
  by (simp_all add: new_MapReduceInterface_def)

lemma copy_MapReduceInterface_eq: "copy_MapReduceInterface ob = ob"
  by (simp add: copy_MapReduceInterface_def Let_def new_MapReduceInterface_def)

text \<open>
  A client class \<open>cls\<close> applies the pure functions \<open>emits\<close> and \<open>outs\<close>: the map function
  always, the reduce function on the value lists it accepts.
\<close>

locale mr_app =
  fixes cls :: mr_class
    and emits :: "string \<Rightarrow> string \<Rightarrow> (string \<times> string) list"
    and outs :: "string \<Rightarrow> string list \<Rightarrow> (string \<times> string list) list"
    and accepts :: "string \<Rightarrow> string list \<Rightarrow> bool"
  assumes map_law: "map_fn cls k v this = Inr (emit_all (emits k v) this)"
    and reduce_law: "accepts k vs \<Longrightarrow> reduce_fn cls k vs this = Inr (output_all (outs k vs) this)"

end
