(* ===== verification/Cpp_IO.thy ===== *)
theory Cpp_IO
  imports Cpp_Lib
begin

text \<open>
  Streams and files. An input stream is what is left to read and the two state bits a
  read of the source can set; an output file stream is the path it was opened on, if it
  could be. The file system maps paths to contents. Reference functions \<open>words\<close> and
  \<open>lines_of\<close> say what the source's reading loops compute.
\<close>

section \<open>Input streams\<close>

record istream =
  buf :: string
  eofbit :: bool
  failbit :: bool

definition good :: "istream \<Rightarrow> bool" where
  "good s \<longleftrightarrow> \<not> eofbit s \<and> \<not> failbit s"

definition istringstream :: "string \<Rightarrow> istream" where
  "istringstream str = \<lparr>buf = str, eofbit = False, failbit = False\<rparr>"

text \<open>
  \<open>s >> w\<close>: on a stream that is not good the sentry sets \<open>failbit\<close>; leading space is
  skipped; if that reaches the end both bits are set and \<open>w\<close> keeps its value; otherwise
  \<open>w\<close> becomes the next run of non-space characters, and reaching the end sets \<open>eofbit\<close>.
\<close>

definition extract_word :: "istream \<Rightarrow> string \<Rightarrow> istream \<times> string" where
  "extract_word s w =
     (if \<not> good s then (s\<lparr>failbit := True\<rparr>, w)
      else let r = dropWhile isspace (buf s)
           in if r = [] then (s\<lparr>buf := [], eofbit := True, failbit := True\<rparr>, w)
              else let r' = dropWhile (\<lambda>c. \<not> isspace c) r
                   in (s\<lparr>buf := r', eofbit := (r' = [])\<rparr>, takeWhile (\<lambda>c. \<not> isspace c) r))"

text \<open>
  \<open>getline(s, w, d)\<close>: the characters up to the delimiter, which is taken and dropped.
  Reaching the end first sets \<open>eofbit\<close>, and \<open>failbit\<close> too if nothing was read.
\<close>

definition getline :: "istream \<Rightarrow> string \<Rightarrow> char \<Rightarrow> istream \<times> string" where
  "getline s w d =
     (if \<not> good s then (s\<lparr>failbit := True\<rparr>, w)
      else let l = takeWhile (\<lambda>c. c \<noteq> d) (buf s)
           in case dropWhile (\<lambda>c. c \<noteq> d) (buf s) of
                [] \<Rightarrow> (s\<lparr>buf := [], eofbit := True, failbit := (l = [])\<rparr>, l)
              | _ # r \<Rightarrow> (s\<lparr>buf := r\<rparr>, l))"

section \<open>The file system and file streams\<close>

record file_system =
  files :: "string \<Rightarrow> string option"
  creatable :: "string \<Rightarrow> bool"   \<comment> \<open>the path can be opened for writing\<close>

definition ifstream :: "file_system \<Rightarrow> string \<Rightarrow> istream" where
  "ifstream fs p =
     (case files fs p of
        Some c \<Rightarrow> istringstream c
      | None \<Rightarrow> \<lparr>buf = [], eofbit = False, failbit = True\<rparr>)"

type_synonym ofstream = "string option"

text \<open>Constructing an \<open>ofstream\<close> truncates or creates the file, if it can.\<close>

definition ofstream_open :: "string \<Rightarrow> file_system \<Rightarrow> ofstream \<times> file_system" where
  "ofstream_open p fs =
     (if creatable fs p then (Some p, fs\<lparr>files := (files fs)(p \<mapsto> [])\<rparr>) else (None, fs))"

text \<open>Writing to a stream that failed to open does nothing.\<close>

definition ofstream_put :: "ofstream \<Rightarrow> string \<Rightarrow> file_system \<Rightarrow> file_system" where
  "ofstream_put os txt fs =
     (case os of
        None \<Rightarrow> fs
      | Some p \<Rightarrow> fs\<lparr>files := (files fs)(p := map_option (\<lambda>c. c @ txt) (files fs p))\<rparr>)"

section \<open>Reference functions\<close>

function words :: "string \<Rightarrow> string list" where
  "words s =
     (let r = dropWhile isspace s
      in if r = [] then []
         else takeWhile (\<lambda>c. \<not> isspace c) r # words (dropWhile (\<lambda>c. \<not> isspace c) r))"
  by pat_completeness auto

lemma drop_word_shorter:
  "r = dropWhile isspace s \<Longrightarrow> r \<noteq> [] \<Longrightarrow> length (dropWhile (\<lambda>c. \<not> isspace c) r) < length s"
proof -
  assume r: "r = dropWhile isspace s" "r \<noteq> []"
  then have "\<not> isspace (hd r)" using hd_dropWhile by blast
  with r(2) have "length (dropWhile (\<lambda>c. \<not> isspace c) r) < length r"
    by (cases r) (auto simp: less_Suc_eq_le length_dropWhile_le)
  then show ?thesis using r(1) length_dropWhile_le [of isspace s] by simp
qed

termination words
  by (relation "measure length") (auto simp: drop_word_shorter)

declare words.simps [simp del]

function lines_of :: "string \<Rightarrow> string list" where
  "lines_of s =
     (if s = [] then []
      else takeWhile (\<lambda>c. c \<noteq> CHR 0x0A) s #
           (case dropWhile (\<lambda>c. c \<noteq> CHR 0x0A) s of [] \<Rightarrow> [] | _ # r \<Rightarrow> lines_of r))"
  by pat_completeness auto
termination
  by (relation "measure length") (auto dest: length_dropWhile_Cons)

declare lines_of.simps [simp del]

text \<open>A token survives being written and read back: it is not empty and has no space.\<close>

definition token :: "string \<Rightarrow> bool" where
  "token w \<longleftrightarrow> w \<noteq> [] \<and> (\<forall>c\<in>set w. \<not> isspace c)"

lemma words_Nil [simp]: "words [] = []"
  by (simp add: words.simps)

lemma words_space [simp]: "isspace c \<Longrightarrow> words (c # s) = words s"
  by (simp add: words.simps [of "c # s"] words.simps [of s])

lemma words_token:
  assumes "token w" "isspace c"
  shows "words (w @ c # s) = w # words s"
proof -
  have ne: "w @ c # s \<noteq> []" by simp
  have "dropWhile isspace (w @ c # s) = w @ c # s"
    using assms by (cases w) (auto simp: token_def)
  moreover have "takeWhile (\<lambda>c. \<not> isspace c) (w @ c # s) = w"
    using assms by (intro takeWhile_append_stop) (auto simp: token_def)
  moreover have "dropWhile (\<lambda>c. \<not> isspace c) (w @ c # s) = c # s"
    using assms by (intro dropWhile_append_stop) (auto simp: token_def)
  ultimately have "words (w @ c # s) = w # words (c # s)"
    using ne by (subst words.simps) (simp only: Let_def if_False)
  with assms(2) show ?thesis by simp
qed

lemma words_tokens: "\<forall>w\<in>set (words s). token w"
proof (induction s rule: words.induct)
  case (1 s)
  let ?r = "dropWhile isspace s"
  show ?case
  proof (cases "?r = []")
    case True
    then show ?thesis by (simp add: words.simps [of s])
  next
    case False
    then have "\<not> isspace (hd ?r)" using hd_dropWhile by blast
    with False have "token (takeWhile (\<lambda>c. \<not> isspace c) ?r)"
      by (cases ?r) (auto simp: token_def dest: set_takeWhileD)
    with 1 False show ?thesis by (subst words.simps) (simp add: Let_def)
  qed
qed

lemma token_to_string [simp]: "token (to_string n)"
  using to_string_no_space by (simp add: token_def)

section \<open>What the reading primitives do\<close>

lemma extract_word_words:
  assumes "\<not> failbit s" "eofbit s \<Longrightarrow> buf s = []"
  shows "(case words (buf s) of
      [] \<Rightarrow> failbit (fst (extract_word s w)) \<and> snd (extract_word s w) = w
    | t # ts \<Rightarrow> \<not> failbit (fst (extract_word s w)) \<and> snd (extract_word s w) = t
        \<and> words (buf (fst (extract_word s w))) = ts
        \<and> length (buf (fst (extract_word s w))) < length (buf s)
        \<and> (eofbit (fst (extract_word s w)) \<longrightarrow> buf (fst (extract_word s w)) = []))"
proof (cases "eofbit s")
  case True
  with assms show ?thesis by (simp add: extract_word_def good_def)
next
  case False
  with assms show ?thesis
    by (auto simp: extract_word_def good_def Let_def words.simps [of "buf s"] drop_word_shorter)
qed

lemma lines_of_Nil [simp]: "lines_of [] = []"
  by (simp add: lines_of.simps)

lemma lines_of_step:
  "s \<noteq> [] \<Longrightarrow> lines_of s = takeWhile (\<lambda>c. c \<noteq> CHR 0x0A) s #
     (case dropWhile (\<lambda>c. c \<noteq> CHR 0x0A) s of [] \<Rightarrow> [] | _ # r \<Rightarrow> lines_of r)"
  by (subst lines_of.simps) simp

lemma getline_lines:
  assumes "\<not> failbit s" "eofbit s \<Longrightarrow> buf s = []"
  shows "(case lines_of (buf s) of
      [] \<Rightarrow> failbit (fst (getline s w (CHR 0x0A)))
    | l # ls \<Rightarrow> \<not> failbit (fst (getline s w (CHR 0x0A))) \<and> snd (getline s w (CHR 0x0A)) = l
        \<and> lines_of (buf (fst (getline s w (CHR 0x0A)))) = ls
        \<and> length (buf (fst (getline s w (CHR 0x0A)))) < length (buf s)
        \<and> (eofbit (fst (getline s w (CHR 0x0A))) \<longrightarrow> buf (fst (getline s w (CHR 0x0A))) = []))"
proof (cases "eofbit s \<or> buf s = []")
  case True
  with assms show ?thesis by (auto simp: getline_def good_def)
next
  case False
  then have ne: "buf s \<noteq> []" and g: "good s" using assms by (simp_all add: good_def)
  show ?thesis
  proof (cases "dropWhile (\<lambda>c. c \<noteq> CHR 0x0A) (buf s)")
    case Nil
    then have all: "\<forall>c\<in>set (buf s). c \<noteq> CHR 0x0A" by simp
    show ?thesis
      using ne g by (simp add: getline_def lines_of_step [OF ne] Let_def good_def
        takeWhile_all [OF all] dropWhile_all [OF all])
  next
    case (Cons d r)
    with length_dropWhile_Cons [OF Cons] g False assms show ?thesis
      by (simp add: getline_def lines_of_step [OF ne] Let_def)
  qed
qed

lemma extract_word_shorter:
  "\<not> failbit (fst (extract_word s w)) \<Longrightarrow> length (buf (fst (extract_word s w))) < length (buf s)"
  by (auto simp: extract_word_def good_def Let_def drop_word_shorter split: if_splits)

lemma extract_word_shorter':
  "(s1, k) = extract_word s w \<Longrightarrow> \<not> failbit s1 \<Longrightarrow> length (buf s1) < length (buf s)"
  using extract_word_shorter [of s w] by (metis fst_conv)

lemma getline_shorter:
  "\<not> failbit (fst (getline s w d)) \<Longrightarrow> length (buf (fst (getline s w d))) < length (buf s)"
  by (cases "buf s")
    (auto simp: getline_def good_def Let_def dest: length_dropWhile_Cons
      split: if_splits list.splits)

lemma getline_shorter':
  "(s1, l) = getline s w d \<Longrightarrow> \<not> failbit s1 \<Longrightarrow> length (buf s1) < length (buf s)"
  using getline_shorter [of s w d] by (metis fst_conv)

lemma istringstream_sel [simp]:
  "buf (istringstream s) = s" "\<not> eofbit (istringstream s)" "\<not> failbit (istringstream s)"
  by (simp_all add: istringstream_def)

lemma ifstream_Some [fs_simps]: "files fs p = Some c \<Longrightarrow> ifstream fs p = istringstream c"
  by (simp add: ifstream_def)

lemma good_ifstream: "good (ifstream fs p) \<longleftrightarrow> files fs p \<noteq> None"
  by (auto simp: ifstream_def good_def split: option.splits)

section \<open>What the writing primitives do\<close>

lemma ofstream_open_ok [fs_simps]:
  "creatable fs p \<Longrightarrow> ofstream_open p fs = (Some p, fs\<lparr>files := (files fs)(p \<mapsto> [])\<rparr>)"
  by (simp add: ofstream_open_def)

lemma creatable_preserved [simp]:
  "creatable (snd (ofstream_open p fs)) = creatable fs"
  "creatable (ofstream_put os txt fs) = creatable fs"
  by (simp_all add: ofstream_open_def ofstream_put_def split: option.splits)

lemma files_ofstream_put [fs_simps]:
  "files (ofstream_put os txt fs) =
     (case os of None \<Rightarrow> files fs
      | Some p \<Rightarrow> (files fs)(p := map_option (\<lambda>c. c @ txt) (files fs p)))"
  by (simp add: ofstream_put_def split: option.splits)

lemma ofstream_put_append:
  "ofstream_put os (a @ b) fs = ofstream_put os b (ofstream_put os a fs)"
  by (cases os)
    (auto simp: ofstream_put_def fun_eq_iff option.map_comp comp_def intro!: option.map_cong)

lemma ofstream_put_Nil [simp]: "ofstream_put os [] fs = fs"
  by (cases os) (simp_all add: ofstream_put_def option.map_ident)

end
