(* ===== verification/Std_Map.thy ===== *)
theory Std_Map
  imports MR_Prelude "HOL-Library.Char_ord" "HOL-Library.List_Lexorder"
begin

text \<open>
  \<open>std::map\<close>: an association list whose keys increase strictly, so that iterating over
  it visits the keys in order, as the source's range-for loops rely on. The laws the
  rest of the development uses are the locale \<open>ordered_map\<close>; the lemmas about
  grouping key-value pairs are proved once inside it and interpreted on the model.
\<close>

type_synonym ('k, 'v) smap = "('k \<times> 'v) list"

section \<open>Operations\<close>

definition smap_count :: "('k, 'v) smap \<Rightarrow> 'k \<Rightarrow> nat" where
  "smap_count m k = (if map_of m k = None then 0 else 1)"

text \<open>\<open>m.insert(pair(k, v))\<close> keeps an entry that is already there.\<close>

fun smap_insert :: "'k::linorder \<Rightarrow> 'v \<Rightarrow> ('k, 'v) smap \<Rightarrow> ('k, 'v) smap" where
  "smap_insert k v [] = [(k, v)]"
| "smap_insert k v ((a, b) # m) =
     (if k < a then (k, v) # (a, b) # m
      else if k = a then (a, b) # m
      else (a, b) # smap_insert k v m)"

text \<open>
  \<open>m[k]\<close> used as a reference: a missing key is created with the default value \<open>d\<close>, then
  the update \<open>f\<close> is applied in place.
\<close>

fun smap_at :: "'k::linorder \<Rightarrow> 'v \<Rightarrow> ('v \<Rightarrow> 'v) \<Rightarrow> ('k, 'v) smap \<Rightarrow> ('k, 'v) smap" where
  "smap_at k d f [] = [(k, f d)]"
| "smap_at k d f ((a, b) # m) =
     (if k < a then (k, f d) # (a, b) # m
      else if k = a then (a, f b) # m
      else (a, b) # smap_at k d f m)"

abbreviation smap_invar :: "('k::linorder, 'v) smap \<Rightarrow> bool" where
  "smap_invar m \<equiv> sorted_wrt (<) (map fst m)"

section \<open>The interface\<close>

text \<open>The values paired with a key in a list of pairs, in the order of the list.\<close>

definition values_of :: "'k \<Rightarrow> ('k \<times> 'v) list \<Rightarrow> 'v list" where
  "values_of k kvs = map snd (filter (\<lambda>(a, b). a = k) kvs)"

lemma values_of_simps [simp]:
  "values_of k [] = []"
  "values_of k ((a, b) # kvs) = (if a = k then b # values_of k kvs else values_of k kvs)"
  "values_of k (xs @ ys) = values_of k xs @ values_of k ys"
  by (simp_all add: values_of_def)

lemma values_of_concat: "values_of k (concat xss) = concat (map (values_of k) xss)"
  by (induction xss) auto

lemma values_of_eq_Nil: "values_of k kvs = [] \<longleftrightarrow> k \<notin> fst ` set kvs"
  by (force simp: values_of_def filter_empty_conv)

text \<open>Grouping by key: the keys in increasing order, each with its values in order.\<close>

definition group_by_key :: "('k::linorder \<times> 'v) list \<Rightarrow> ('k \<times> 'v list) list" where
  "group_by_key kvs =
     map (\<lambda>k. (k, values_of k kvs)) (sorted_list_of_set (fst ` set kvs))"

lemma map_of_group_by_key:
  "map_of (group_by_key kvs) k = (if k \<in> fst ` set kvs then Some (values_of k kvs) else None)"
  by (auto simp: group_by_key_def map_of_map_restrict)

lemma map_fst_group_by_key: "map fst (group_by_key kvs) = sorted_list_of_set (fst ` set kvs)"
  by (simp add: group_by_key_def comp_def)

lemma sorted_group_by_key: "sorted_wrt (<) (map fst (group_by_key kvs))"
  by (simp add: map_fst_group_by_key)

lemma alist_by_map_of:
  "distinct (map fst xs) \<Longrightarrow> map (\<lambda>k. (k, the (map_of xs k))) (map fst xs) = xs"
  by (auto intro: map_idI)

lemma sorted_map_of_unique:
  assumes "sorted_wrt (<) (map fst xs)" "sorted_wrt (<) (map fst ys)" "map_of xs = map_of ys"
  shows "(xs :: ('k::linorder \<times> 'v) list) = ys"
proof -
  have d: "distinct (map fst xs)" "distinct (map fst ys)"
    using assms by (simp_all add: strict_sorted_iff)
  have "map fst xs = map fst ys"
  proof (rule sorted_distinct_set_unique)
    show "set (map fst xs) = set (map fst ys)"
      using assms(3) dom_map_of_conv_image_fst [of xs] dom_map_of_conv_image_fst [of ys] by simp
  qed (use assms in \<open>auto simp: strict_sorted_iff\<close>)
  then show ?thesis
    using alist_by_map_of [OF d(1)] alist_by_map_of [OF d(2)] assms(3) by simp
qed

locale ordered_map =
  fixes empty_map :: "'m"
    and look :: "'m \<Rightarrow> 'k::linorder \<Rightarrow> 'v option"
    and ins :: "'k \<Rightarrow> 'v \<Rightarrow> 'm \<Rightarrow> 'm"
    and upd :: "'k \<Rightarrow> 'v \<Rightarrow> ('v \<Rightarrow> 'v) \<Rightarrow> 'm \<Rightarrow> 'm"
    and entries :: "'m \<Rightarrow> ('k \<times> 'v) list"
    and invar :: "'m \<Rightarrow> bool"
  assumes invar_empty: "invar empty_map"
    and invar_ins: "invar m \<Longrightarrow> invar (ins k v m)"
    and invar_upd: "invar m \<Longrightarrow> invar (upd k d f m)"
    and look_empty: "look empty_map k = None"
    and look_ins: "invar m \<Longrightarrow>
          look (ins k v m) = (if look m k = None then (look m)(k \<mapsto> v) else look m)"
    and look_upd: "invar m \<Longrightarrow>
          look (upd k d f m) = (look m)(k \<mapsto> f (case look m k of None \<Rightarrow> d | Some v \<Rightarrow> v))"
    and entries_look: "invar m \<Longrightarrow> map_of (entries m) = look m"
    and entries_sorted: "invar m \<Longrightarrow> sorted_wrt (<) (map fst (entries m))"
begin

lemma entries_determined:
  "invar m \<Longrightarrow> sorted_wrt (<) (map fst xs) \<Longrightarrow> map_of xs = look m \<Longrightarrow> entries m = xs"
  using entries_look entries_sorted sorted_map_of_unique by metis

lemma invar_fold: "(\<And>x m. invar m \<Longrightarrow> invar (f x m)) \<Longrightarrow> invar m \<Longrightarrow> invar (fold f xs m)"
  by (induction xs arbitrary: m) auto

end

text \<open>
  A map whose values are lists, filled one value at a time (\<open>push\<close>) or one batch per key
  at a time (\<open>extend\<close>): the two loops of the reduce side.
\<close>

locale list_map = ordered_map empty_map look ins upd entries invar
  for empty_map :: "'m" and look :: "'m \<Rightarrow> 'k::linorder \<Rightarrow> 'v list option"
    and ins upd entries invar
begin

definition pushed :: "'k \<times> 'v \<Rightarrow> 'm \<Rightarrow> 'm" where
  "pushed kv m = (if look m (fst kv) = None then ins (fst kv) [snd kv] m
                  else upd (fst kv) [] (\<lambda>vs. vs @ [snd kv]) m)"

definition extended :: "'k \<times> 'v list \<Rightarrow> 'm \<Rightarrow> 'm" where
  "extended kvs m = upd (fst kvs) [] (\<lambda>vs. vs @ snd kvs) m"

definition grouped :: "'m \<Rightarrow> ('k \<times> 'v) list \<Rightarrow> bool" where
  "grouped m kvs \<longleftrightarrow> invar m \<and>
     look m = (\<lambda>k. if k \<in> fst ` set kvs then Some (values_of k kvs) else None)"

lemma grouped_empty: "grouped empty_map []"
  by (simp add: grouped_def invar_empty look_empty fun_eq_iff)

lemma grouped_pushed: "grouped m kvs \<Longrightarrow> grouped (pushed kv m) (kvs @ [kv])"
  by (cases kv)
    (auto simp: grouped_def pushed_def invar_ins invar_upd look_ins look_upd fun_eq_iff
      values_of_eq_Nil)

lemma grouped_fold_pushed: "grouped m kvs \<Longrightarrow> grouped (fold pushed xs m) (kvs @ xs)"
proof (induction xs arbitrary: m kvs)
  case (Cons x xs)
  from Cons.IH [OF grouped_pushed [OF Cons.prems]] show ?case by simp
qed simp

lemma grouped_entries: "grouped m kvs \<Longrightarrow> entries m = group_by_key kvs"
  by (rule entries_determined)
    (simp_all add: grouped_def sorted_group_by_key map_of_group_by_key fun_eq_iff)

text \<open>
  Extending by the groups of \<open>xs\<close>, each key once, is pushing the pairs of \<open>xs\<close> as far as
  a lookup can tell.
\<close>

lemma look_fold_extended:
  assumes "invar m" "distinct (map fst gs)"
  shows "invar (fold extended gs m) \<and>
    look (fold extended gs m) = (\<lambda>k. case map_of gs k of None \<Rightarrow> look m k
       | Some vs \<Rightarrow> Some ((case look m k of None \<Rightarrow> [] | Some us \<Rightarrow> us) @ vs))"
  using assms
proof (induction gs arbitrary: m)
  case (Cons g gs)
  have inv: "invar (extended g m)" using Cons.prems by (simp add: extended_def invar_upd)
  have lm: "look (extended g m) =
      (look m)(fst g \<mapsto> (case look m (fst g) of None \<Rightarrow> [] | Some us \<Rightarrow> us) @ snd g)"
    using Cons.prems by (simp add: extended_def look_upd)
  have fresh: "map_of gs (fst g) = None"
    using Cons.prems by (simp add: map_of_eq_None_iff)
  from Cons.IH [OF inv] Cons.prems
  have IH: "invar (fold extended gs (extended g m))"
    "look (fold extended gs (extended g m)) k = (case map_of gs k of None \<Rightarrow> look (extended g m) k
       | Some vs \<Rightarrow> Some ((case look (extended g m) k of None \<Rightarrow> [] | Some us \<Rightarrow> us) @ vs))" for k
    by simp_all
  have "look (fold extended (g # gs) m) k = (case map_of (g # gs) k of None \<Rightarrow> look m k
       | Some vs \<Rightarrow> Some ((case look m k of None \<Rightarrow> [] | Some us \<Rightarrow> us) @ vs))" for k
    by (cases "k = fst g"; cases "map_of gs k") (simp_all add: IH(2) lm fresh)
  with IH(1) show ?case by (simp add: fun_eq_iff)
qed simp

lemma grouped_extended:
  assumes "grouped m kvs"
  shows "grouped (fold extended (group_by_key xs) m) (kvs @ xs)"
proof -
  have "distinct (map fst (group_by_key xs))"
    by (simp add: map_fst_group_by_key)
  from look_fold_extended [OF _ this, of m] assms
  have inv: "invar (fold extended (group_by_key xs) m)"
    and eq: "look (fold extended (group_by_key xs) m) =
      (\<lambda>k. case map_of (group_by_key xs) k of None \<Rightarrow> look m k
        | Some vs \<Rightarrow> Some ((case look m k of None \<Rightarrow> [] | Some us \<Rightarrow> us) @ vs))"
    by (auto simp: grouped_def)
  have "look (fold extended (group_by_key xs) m) k =
      (if k \<in> fst ` set (kvs @ xs) then Some (values_of k (kvs @ xs)) else None)" for k
    using assms values_of_eq_Nil [of k kvs] values_of_eq_Nil [of k xs]
    by (cases "k \<in> fst ` set kvs"; cases "k \<in> fst ` set xs")
      (simp_all add: eq grouped_def map_of_group_by_key image_Un)
  with inv show ?thesis by (simp add: grouped_def fun_eq_iff)
qed

lemma grouped_fold_extended:
  "grouped m kvs \<Longrightarrow>
   grouped (fold (\<lambda>xs. fold extended (group_by_key xs)) xss m) (kvs @ concat xss)"
proof (induction xss arbitrary: m kvs)
  case (Cons xs xss)
  from Cons.IH [OF grouped_extended [OF Cons.prems]] show ?case by simp
qed simp

end

section \<open>The model satisfies the interface\<close>

lemma ball_smap_insert:
  "(\<forall>x\<in>set (smap_insert k v m). P (fst x)) \<longleftrightarrow> P k \<and> (\<forall>x\<in>set m. P (fst x))"
  by (induction k v m rule: smap_insert.induct) auto

lemma ball_smap_at:
  "(\<forall>x\<in>set (smap_at k d f m). P (fst x)) \<longleftrightarrow> P k \<and> (\<forall>x\<in>set m. P (fst x))"
  by (induction k d f m rule: smap_at.induct) auto

lemma smap_invar_insert: "smap_invar m \<Longrightarrow> smap_invar (smap_insert k v m)"
  by (induction k v m rule: smap_insert.induct)
    (auto simp: ball_smap_insert [where P = "\<lambda>x. _ < x"] dest: order.strict_trans)

lemma smap_invar_at: "smap_invar m \<Longrightarrow> smap_invar (smap_at k d f m)"
  by (induction k d f m rule: smap_at.induct)
    (auto simp: ball_smap_at [where P = "\<lambda>x. _ < x"] dest: order.strict_trans)

lemma map_of_below: "\<forall>x\<in>set m. k < fst x \<Longrightarrow> map_of m (k::'k::linorder) = None"
  by (force simp: map_of_eq_None_iff)

lemma map_of_below_trans:
  "k < a \<Longrightarrow> \<forall>x\<in>set m. a < fst x \<Longrightarrow> map_of m (k::'k::linorder) = None"
  by (rule map_of_below) (auto dest: order.strict_trans)

lemma map_of_smap_insert:
  "smap_invar m \<Longrightarrow>
   map_of (smap_insert k v m) = (if map_of m k = None then (map_of m)(k \<mapsto> v) else map_of m)"
  by (induction k v m rule: smap_insert.induct)
    (auto simp: fun_eq_iff map_of_below map_of_below_trans)

lemma map_of_smap_at:
  "smap_invar m \<Longrightarrow>
   map_of (smap_at k d f m) =
     (map_of m)(k \<mapsto> f (case map_of m k of None \<Rightarrow> d | Some v \<Rightarrow> v))"
  by (induction k d f m rule: smap_at.induct)
    (auto simp: fun_eq_iff map_of_below map_of_below_trans split: option.splits)

interpretation smap: list_map "[]" map_of smap_insert smap_at "\<lambda>m. m" smap_invar
  by unfold_locales
    (simp_all add: smap_invar_insert smap_invar_at map_of_smap_insert map_of_smap_at)

lemmas smap_grouped = smap.grouped_empty smap.grouped_pushed smap.grouped_fold_extended

end
