(* ===== verification/Utility.thy ===== *)
theory Utility
  imports Cpp_IO Std_Map Codec
begin

text \<open>
  \<open>include/Utility.h\<close>: reading a temporary file of key-value records into a map from
  keys to the list of their values, and writing the output files. The templates are
  modelled at the one instance the library uses, \<open>std::string\<close>.
\<close>

abbreviation newline :: string where
  "newline \<equiv> [CHR 0x0A]"

type_synonym string_multimap = "(string, string list) smap"

section \<open>read_text\<close>

text \<open>
  The loop of \<open>read_text\<close>: both extractions must succeed; an empty key is skipped; a
  new key is inserted with its first value, a known key is extended through \<open>data[key]\<close>.
\<close>

function read_text_loop ::
  "istream \<Rightarrow> string \<Rightarrow> string \<Rightarrow> string_multimap \<Rightarrow> string_multimap" where
  "read_text_loop file_temp tempKey tempValue data =
     (case extract_word file_temp tempKey of (s1, k) \<Rightarrow>
        if failbit s1 then data
        else (case extract_word s1 tempValue of (s2, v) \<Rightarrow>
          if failbit s2 then data
          else if length k = 0 then read_text_loop s2 k v data
          else if smap_count data k = 0
               then read_text_loop s2 k v (smap_insert k [v] data)
               else read_text_loop s2 k v (smap_at k [] (\<lambda>vs. vs @ [v]) data)))"
  by pat_completeness auto
termination
  by (relation "measure (\<lambda>(s, _). length (buf s))") (auto dest!: extract_word_shorter')

declare read_text_loop.simps [simp del]

definition read_text :: "string \<Rightarrow> file_system \<Rightarrow> string_multimap" where
  "read_text inputTextFile fs = read_text_loop (ifstream fs inputTextFile) [] [] []"

section \<open>write_map and write_key_val_vector\<close>

definition write_entry :: "ofstream \<Rightarrow> string \<times> string list \<Rightarrow> file_system \<Rightarrow> file_system" where
  "write_entry fout elem fs =
     (let fs1 = ofstream_put fout '' '' (ofstream_put fout (fst elem) fs);
          fs2 = fold (\<lambda>v g. ofstream_put fout '' '' (ofstream_put fout v g)) (snd elem) fs1
      in ofstream_put fout newline fs2)"

definition write_map :: "string \<Rightarrow> string_multimap \<Rightarrow> file_system \<Rightarrow> file_system" where
  "write_map outputFileName data fs =
     (case ofstream_open outputFileName fs of (fout, fs1) \<Rightarrow> fold (write_entry fout) data fs1)"

definition write_key_val_vector ::
  "string \<Rightarrow> (string \<times> string list) list \<Rightarrow> file_system \<Rightarrow> file_system" where
  "write_key_val_vector outputFileName data fs =
     (case ofstream_open outputFileName fs of (fout, fs1) \<Rightarrow> fold (write_entry fout) data fs1)"

section \<open>What read_text computes\<close>

lemma read_text_loop_pairs:
  assumes "\<not> failbit s" "eofbit s \<Longrightarrow> buf s = []" "smap.grouped data kvs"
  shows "read_text_loop s k0 v0 data = group_by_key (kvs @ pairs (words (buf s)))"
  using assms
proof (induction s k0 v0 data arbitrary: kvs rule: read_text_loop.induct)
  case (1 s k0 v0 data)
  obtain s1 k where e1: "extract_word s k0 = (s1, k)" by fastforce
  obtain s2 v where e2: "extract_word s1 v0 = (s2, v)" by fastforce
  have base: "data = group_by_key kvs" using "1.prems"(3) by (rule smap.grouped_entries)
  note w1 = extract_word_words [OF "1.prems"(1,2), of k0, unfolded e1, simplified]
  show ?case
  proof (cases "words (buf s)")
    case Nil
    with w1 e1 base show ?thesis by (simp add: read_text_loop.simps [of s])
  next
    case (Cons t ts)
    with w1 have s1: "\<not> failbit s1" "k = t" "words (buf s1) = ts" "eofbit s1 \<Longrightarrow> buf s1 = []"
      by auto
    note w2 = extract_word_words [OF s1(1,4), of v0, unfolded e2 s1(3), simplified]
    show ?thesis
    proof (cases ts)
      case Nil
      with w2 e1 e2 base Cons s1 show ?thesis
        by (simp add: read_text_loop.simps [of s])
    next
      case ts: (Cons u us)
      with w2 have s2: "\<not> failbit s2" "v = u" "words (buf s2) = us" "eofbit s2 \<Longrightarrow> buf s2 = []"
        by auto
      have ne: "k \<noteq> []" using words_tokens [of "buf s"] Cons s1(2) by (simp add: token_def)
      let ?data' = "smap.pushed (k, v) data"
      have g: "smap.grouped ?data' (kvs @ [(k, v)])" by (rule smap.grouped_pushed) fact
      have "read_text_loop s k0 v0 data = read_text_loop s2 k v ?data'"
        using e1 e2 s1 s2 ne
        by (simp add: read_text_loop.simps [of s] smap.pushed_def smap_count_def)
      also have "\<dots> = group_by_key ((kvs @ [(k, v)]) @ pairs (words (buf s2)))"
      proof (cases "smap_count data k = 0")
        case True
        then have d: "?data' = smap_insert k [v] data"
          by (simp add: smap.pushed_def smap_count_def split: if_splits)
        show ?thesis
          using "1.IH"(2) [OF e1 [symmetric]] e2 s1 s2 ne True g d by auto
      next
        case False
        then have d: "?data' = smap_at k [] (\<lambda>vs. vs @ [v]) data"
          by (auto simp: smap.pushed_def smap_count_def split: if_splits)
        show ?thesis
          using "1.IH"(3) [OF e1 [symmetric]] e2 s1 s2 ne False g d by auto
      qed
      finally show ?thesis using Cons ts s1 s2 by simp
    qed
  qed
qed

lemma read_text_words:
  "files fs p = Some c \<Longrightarrow> read_text p fs = group_by_key (pairs (words c))"
  using read_text_loop_pairs [of "istringstream c" "[]" "[]"] smap.grouped_empty
  by (simp add: read_text_def ifstream_Some)

lemma read_text_missing: "files fs p = None \<Longrightarrow> read_text p fs = []"
  by (simp add: read_text_def ifstream_def read_text_loop.simps extract_word_def good_def)

section \<open>Writing and reading records\<close>

text \<open>The record the map side writes for one emitted pair.\<close>

definition kv_line :: "string \<times> string \<Rightarrow> string" where
  "kv_line kv = fst kv @ '' '' @ snd kv @ newline"

definition token_pair :: "string \<times> string \<Rightarrow> bool" where
  "token_pair kv \<longleftrightarrow> token (fst kv) \<and> token (snd kv)"

definition put_pair :: "'a \<times> 'a \<Rightarrow> 'a list" where
  "put_pair kv = [fst kv, snd kv]"

fun get_pair :: "'a list \<Rightarrow> (('a \<times> 'a) \<times> 'a list) option" where
  "get_pair (k # v # r) = Some ((k, v), r)"
| "get_pair _ = None"

interpretation kv: incremental_codec put_pair get_pair "\<lambda>_. True"
proof unfold_locales
  fix s :: "'a list" and x r
  show "get_pair s = Some (x, r) \<Longrightarrow> length r < length s"
    by (induction s rule: get_pair.induct) auto
  show "get_pair s = Some (x, r) \<Longrightarrow> get_pair (s @ t) = Some (x, r @ t)" for t
    by (induction s rule: get_pair.induct) auto
qed (simp add: put_pair_def)

lemma pairs_parse_all: "pairs ws = fst (parse_all get_pair ws)"
  by (induction ws rule: pairs.induct)
    (simp_all add: kv.parse_all_Some kv.parse_all_None)

lemma words_kv_lines:
  "\<forall>kv\<in>set kvs. token_pair kv \<Longrightarrow>
   words (concat (map kv_line kvs)) = concat (map put_pair kvs)"
  by (induction kvs) (simp_all add: kv_line_def token_pair_def put_pair_def words_token)

lemma pairs_kv_lines:
  "\<forall>kv\<in>set kvs. token_pair kv \<Longrightarrow> pairs (words (concat (map kv_line kvs))) = kvs"
  using kv.parse_all_put [of kvs "[]"] by (simp add: words_kv_lines pairs_parse_all)

text \<open>
  C16. What a mapper writes is what a reducer reads: a file of records whose keys and
  values are not empty and have no blanks is read back as those pairs, grouped by key.
\<close>

theorem read_text_kv_lines:
  "files fs p = Some (concat (map kv_line kvs)) \<Longrightarrow> \<forall>kv\<in>set kvs. token_pair kv \<Longrightarrow>
   read_text p fs = group_by_key kvs"
  by (simp add: read_text_words pairs_kv_lines)

theorem read_text_kv_lines_witness:
  "read_text ''t'' \<lparr>files = [''t'' \<mapsto> concat (map kv_line [(''b'', ''1''), (''a'', ''2''), (''b'', ''3'')])],
      creatable = (\<lambda>p. True)\<rparr> = [(''a'', [''2'']), (''b'', [''1'', ''3''])]"
proof -
  have "\<forall>kv\<in>set [(''b'', ''1''), (''a'', ''2''), (''b'', ''3'')]. token_pair kv"
    "group_by_key [(''b'', ''1''), (''a'', ''2''), (''b'', ''3'')] = [(''a'', [''2'']), (''b'', [''1'', ''3''])]"
    by code_simp+
  with read_text_kv_lines [of "\<lparr>files = [''t'' \<mapsto> concat (map kv_line [(''b'', ''1''), (''a'', ''2''), (''b'', ''3'')])],
      creatable = (\<lambda>p. True)\<rparr>" "''t''" "[(''b'', ''1''), (''a'', ''2''), (''b'', ''3'')]"]
  show ?thesis by simp
qed

section \<open>What the writers leave in the file\<close>

definition entry_line :: "string \<times> string list \<Rightarrow> string" where
  "entry_line e = fst e @ '' '' @ concat (map (\<lambda>v. v @ '' '') (snd e)) @ newline"

lemma fold_ofstream_put:
  "fold (\<lambda>x. ofstream_put os (f x)) xs fs = ofstream_put os (concat (map f xs)) fs"
  by (induction xs arbitrary: fs) (simp_all add: ofstream_put_append)

lemma write_entry_put: "write_entry os e = ofstream_put os (entry_line e)"
  by (simp add: write_entry_def entry_line_def Let_def fun_eq_iff fold_ofstream_put
      flip: ofstream_put_append)

lemma fold_write_entry:
  "fold (write_entry os) es fs = ofstream_put os (concat (map entry_line es)) fs"
  by (simp add: write_entry_put [abs_def] fold_ofstream_put)

lemma write_key_val_vector_eq:
  "write_key_val_vector p es fs =
     (if creatable fs p then fs\<lparr>files := (files fs)(p \<mapsto> concat (map entry_line es))\<rparr> else fs)"
  by (simp add: write_key_val_vector_def ofstream_open_def fold_write_entry)
    (simp add: ofstream_put_def)

lemma write_map_eq: "write_map = write_key_val_vector"
  by (simp add: fun_eq_iff write_map_def write_key_val_vector_def)

text \<open>Every line of an output file is a key and its values, separated by spaces.\<close>

lemma lines_of_line:
  "\<forall>c\<in>set l. c \<noteq> CHR 0x0A \<Longrightarrow> lines_of (l @ CHR 0x0A # s) = l # lines_of s"
  by (subst lines_of_step) (simp_all add: takeWhile_append_stop dropWhile_append_stop)

lemma words_spaced:
  "\<forall>w\<in>set ws. token w \<Longrightarrow> words (concat (map (\<lambda>v. v @ '' '') ws)) = ws"
  by (induction ws) (simp_all add: words_token)

lemma token_no_newline: "token w \<Longrightarrow> c \<in> set w \<Longrightarrow> c \<noteq> CHR 0x0A"
  by (auto simp: token_def)

lemma entry_lines_read_back:
  assumes "\<forall>e\<in>set es. token (fst e) \<and> (\<forall>v\<in>set (snd e). token v)"
  shows "map words (lines_of (concat (map entry_line es))) = map (\<lambda>(k, vs). k # vs) es"
  using assms
proof (induction es)
  case (Cons e es)
  obtain k vs where e: "e = (k, vs)" by (cases e)
  let ?l = "concat (map (\<lambda>v. v @ '' '') (k # vs))"
  have nl: "\<forall>c\<in>set ?l. c \<noteq> CHR 0x0A"
    using Cons.prems e by (auto dest: token_no_newline)
  have "concat (map entry_line (e # es)) = ?l @ CHR 0x0A # concat (map entry_line es)"
    by (simp add: entry_line_def e)
  with lines_of_line [OF nl] words_spaced [of "k # vs"] Cons e show ?case
    by simp
qed simp

text \<open>
  C17. An output file can be read back: it has one line per entry, in order, whose words
  are the key and the values of the entry.
\<close>

theorem write_key_val_vector_read_back:
  assumes "creatable fs p" "\<forall>e\<in>set es. token (fst e) \<and> (\<forall>v\<in>set (snd e). token v)"
  shows "\<exists>c. files (write_key_val_vector p es fs) p = Some c \<and>
    map words (lines_of c) = map (\<lambda>(k, vs). k # vs) es"
  using assms entry_lines_read_back [OF assms(2)] by (simp add: write_key_val_vector_eq)

theorem write_key_val_vector_read_back_witness:
  "\<exists>c. files (write_key_val_vector ''o'' [(''a'', [''1'', ''2'']), (''b'', [])]
       \<lparr>files = Map.empty, creatable = (\<lambda>p. True)\<rparr>) ''o'' = Some c \<and>
    map words (lines_of c) = [[''a'', ''1'', ''2''], [''b'']]"
proof -
  have "\<forall>e\<in>set [(''a'', [''1'', ''2'']), (''b'', [])]. token (fst e) \<and> (\<forall>v\<in>set (snd e). token v)"
    by code_simp
  from write_key_val_vector_read_back [OF _ this, of "\<lparr>files = Map.empty, creatable = (\<lambda>p. True)\<rparr>" "''o''"]
  show ?thesis by simp
qed

end
