(* ===== verification/Controllers.thy ===== *)
theory Controllers
  imports Interface Utility
begin

text \<open>
  \<open>map_controller_module\<close> and \<open>reduce_controller_module\<close> of \<open>include/MapReduceMaster.h\<close>:
  one map worker reads its share of the input lines and writes one temporary file per
  reducer; one reduce worker reads its temporary file of every mapper, groups, reduces
  and writes its output file. Each takes and returns the file system; the result is the
  returned code, or the exception or undefined behaviour that ends it.
\<close>

type_synonym ctrl_result = "(cpp_error + int) \<times> file_system"

section \<open>Path names\<close>

definition input_path :: "string \<Rightarrow> string \<Rightarrow> string" where
  "input_path dataDirectory inputFileName = dataDirectory @ ''/'' @ inputFileName"

definition temp_path :: "string \<Rightarrow> int \<Rightarrow> int \<Rightarrow> string" where
  "temp_path dataDirectory mapper_id reducer_id =
     dataDirectory @ ''/temp_'' @ to_string mapper_id @ ''_'' @ to_string reducer_id @ ''.txt''"

definition output_path :: "string \<Rightarrow> int \<Rightarrow> string" where
  "output_path dataDirectory reducer_id =
     dataDirectory @ ''/output_'' @ to_string reducer_id @ ''.txt''"

section \<open>map_controller_module\<close>

text \<open>
  The loop over the lines. \<open>Inl r\<close>: the function ends here with \<open>r\<close>, a thrown exception or
  the code \<open>-2\<close> after an \<open>int\<close> exception of the map function; \<open>Inr\<close>: the end of the file
  was reached with this object.
\<close>

definition apply_map_fn :: "mr_pointer \<Rightarrow> int \<Rightarrow> string \<Rightarrow> (cpp_error + int) + mr_pointer" where
  "apply_map_fn map_reduce_fn record_number str =
     (case map_reduce_fn of
        None \<Rightarrow> Inl (Inl (UB ''null pointer''))
      | Some (c, ob) \<Rightarrow>
          (case map_fn c (to_string record_number) str ob of
             Inl (IntExn e) \<Rightarrow> Inl (Inr (- 2))
           | Inl e \<Rightarrow> Inl (Inl e)
           | Inr ob' \<Rightarrow> Inr (Some (c, ob'))))"

function map_lines ::
  "(int \<Rightarrow> 64 word) \<Rightarrow> int \<Rightarrow> int \<Rightarrow> istream \<Rightarrow> string \<Rightarrow> int \<Rightarrow> mr_pointer
    \<Rightarrow> (cpp_error + int) + mr_pointer" where
  "map_lines hash_int nr_mapper mapper_id file str record_number map_reduce_fn =
     (case getline file str (CHR 0x0A) of (file', str') \<Rightarrow>
        if failbit file' then Inr map_reduce_fn
        else case hash_in_range hash_int record_number nr_mapper of
          Inl e \<Rightarrow> Inl (Inl e)
        | Inr h \<Rightarrow>
            (case (if h = mapper_id then apply_map_fn map_reduce_fn record_number str'
                   else Inr map_reduce_fn) of
               Inl r \<Rightarrow> Inl r
             | Inr map_reduce_fn' \<Rightarrow>
                 (case int_add record_number 1 of
                    Inl e \<Rightarrow> Inl (Inl e)
                  | Inr record_number' \<Rightarrow>
                      map_lines hash_int nr_mapper mapper_id file' str' record_number'
                        map_reduce_fn')))"
  by pat_completeness auto
termination
  by (relation "measure (\<lambda>(_, _, _, s, _). length (buf s))") (auto dest!: getline_shorter')

declare map_lines.simps [simp del]

definition open_temp_files ::
  "string \<Rightarrow> int \<Rightarrow> int \<Rightarrow> file_system \<Rightarrow> ofstream list \<times> file_system" where
  "open_temp_files dataDirectory mapper_id nr_reducer fs =
     fold (\<lambda>reducer_id (temp_files, fs).
             case ofstream_open (temp_path dataDirectory mapper_id reducer_id) fs of
               (os, fs') \<Rightarrow> (temp_files @ [os], fs'))
       [0..nr_reducer - 1] ([], fs)"

definition put_record :: "ofstream \<Rightarrow> string \<times> string \<Rightarrow> file_system \<Rightarrow> file_system" where
  "put_record os elem fs =
     ofstream_put os newline (ofstream_put os (snd elem)
       (ofstream_put os '' '' (ofstream_put os (fst elem) fs)))"

definition write_intermediate ::
  "(string \<Rightarrow> 64 word) \<Rightarrow> ofstream list \<Rightarrow> int \<Rightarrow> string \<times> string \<Rightarrow> file_system
    \<Rightarrow> cpp_error + file_system" where
  "write_intermediate hash_str temp_files nr_reducer elem fs =
     sbind (hash_in_range hash_str (fst elem) nr_reducer) (\<lambda>reducer_idx.
       if 0 \<le> reducer_idx \<and> nat reducer_idx < length temp_files
       then Inr (put_record (temp_files ! nat reducer_idx) elem fs)
       else Inl (UB ''vector index''))"

definition map_controller_module ::
  "factory \<Rightarrow> (int \<Rightarrow> 64 word) \<Rightarrow> (string \<Rightarrow> 64 word) \<Rightarrow> string \<Rightarrow> string \<Rightarrow> int \<Rightarrow> int \<Rightarrow> int
    \<Rightarrow> file_system \<Rightarrow> ctrl_result" where
  "map_controller_module fac hash_int hash_str inputFileName dataDirectory
      nr_mapper nr_reducer mapper_id fs =
     (let map_reduce_fn = getMapReduceInterface ''MapReduce'' fac;
          file = ifstream fs (input_path dataDirectory inputFileName)
      in if \<not> good file then (Inr (- 1), fs)
         else case map_lines hash_int nr_mapper mapper_id file [] 0 map_reduce_fn of
           Inl r \<Rightarrow> (r, fs)
         | Inr map_reduce_fn' \<Rightarrow>
             (case open_temp_files dataDirectory mapper_id nr_reducer fs of (temp_files, fs') \<Rightarrow>
                (case map_reduce_fn' of
                   None \<Rightarrow> (Inl (UB ''null pointer''), fs')
                 | Some (_, ob) \<Rightarrow>
                     (case foldM (write_intermediate hash_str temp_files nr_reducer)
                             (emitted_intermediates ob) fs' of
                        Inl e \<Rightarrow> (Inl e, fs')
                      | Inr fs'' \<Rightarrow> (Inr 0, fs'')))))"

section \<open>reduce_controller_module\<close>

text \<open>
  Accumulating one mapper's file. The source tests whether the key is in the map it is
  iterating over, so the first branch is always taken; it creates the entry it extends.
\<close>

definition accumulate :: "string_multimap \<Rightarrow> string \<times> string list \<Rightarrow> string_multimap \<Rightarrow> string_multimap" where
  "accumulate key_value_temp elem key_value_acc =
     (if smap_count key_value_temp (fst elem) \<noteq> 0
      then smap_at (fst elem) [] (\<lambda>vs. vs @ snd elem) key_value_acc
      else smap_insert (fst elem) (snd elem) key_value_acc)"

definition read_temp_files ::
  "string \<Rightarrow> int \<Rightarrow> int \<Rightarrow> file_system \<Rightarrow> string_multimap" where
  "read_temp_files dataDirectory nr_mapper reducer_id fs =
     fold (\<lambda>mapper_idx key_value_acc.
             let key_value_temp = read_text (temp_path dataDirectory mapper_idx reducer_id) fs
             in fold (accumulate key_value_temp) key_value_temp key_value_acc)
       [0..nr_mapper - 1] []"

definition apply_reduce_fn ::
  "string \<times> string list \<Rightarrow> mr_pointer \<Rightarrow> (cpp_error + int) + mr_pointer" where
  "apply_reduce_fn elem map_reduce_fn =
     (case map_reduce_fn of
        None \<Rightarrow> Inl (Inl (UB ''null pointer''))
      | Some (c, ob) \<Rightarrow>
          (case reduce_fn c (fst elem) (snd elem) ob of
             Inl (IntExn e) \<Rightarrow> Inl (Inr (- 3))
           | Inl e \<Rightarrow> Inl (Inl e)
           | Inr ob' \<Rightarrow> Inr (Some (c, ob'))))"

definition reduce_controller_module ::
  "factory \<Rightarrow> string \<Rightarrow> int \<Rightarrow> int \<Rightarrow> int \<Rightarrow> file_system \<Rightarrow> ctrl_result" where
  "reduce_controller_module fac dataDirectory nr_reducer nr_mapper reducer_id fs =
     (let map_reduce_fn = getMapReduceInterface ''MapReduce'' fac;
          key_value_acc = read_temp_files dataDirectory nr_mapper reducer_id fs
      in case foldM apply_reduce_fn key_value_acc map_reduce_fn of
           Inl r \<Rightarrow> (r, fs)
         | Inr map_reduce_fn' \<Rightarrow>
             (case map_reduce_fn' of
                None \<Rightarrow> (Inl (UB ''null pointer''), fs)
              | Some (_, ob) \<Rightarrow>
                  (Inr 0, write_key_val_vector (output_path dataDirectory reducer_id)
                            (emitted_outputs ob) fs)))"

section \<open>The path names are distinct\<close>

lemma to_string_chars: "c \<in> set (to_string n) \<Longrightarrow> is_digit c \<or> c = CHR ''-''"
  using nat_digits_all_digit by (auto simp: to_string_def split: if_splits)

lemma to_string_stop:
  assumes "to_string m @ c # u = to_string n @ c # v" "\<not> is_digit c" "c \<noteq> CHR ''-''"
  shows "to_string m = to_string n \<and> u = v"
proof -
  have tw: "takeWhile (\<lambda>x. x \<noteq> c) (to_string k @ c # w) = to_string k" for k w
    by (rule takeWhile_append_stop) (use assms(2,3) to_string_chars in auto)
  from arg_cong [OF assms(1), of "takeWhile (\<lambda>x. x \<noteq> c)"] have "to_string m = to_string n"
    by (simp only: tw)
  with assms(1) show ?thesis by simp
qed

lemma not_digits: "\<not> is_digit (CHR ''_'')" "\<not> is_digit (CHR ''.'')"
  by (simp_all add: is_digit_def)

lemma temp_path_inject:
  assumes "temp_path d m r = temp_path d m' r'" "in_int m" "in_int m'" "in_int r" "in_int r'"
  shows "m = m' \<and> r = r'"
proof -
  from assms(1) have "to_string m @ CHR ''_'' # (to_string r @ CHR ''.'' # ''txt'') =
      to_string m' @ CHR ''_'' # (to_string r' @ CHR ''.'' # ''txt'')"
    by (simp add: temp_path_def)
  from to_string_stop [OF this] have
    m: "to_string m = to_string m'" and
    r: "to_string r @ CHR ''.'' # ''txt'' = to_string r' @ CHR ''.'' # ''txt''"
    by (simp_all add: not_digits)
  from r have "to_string r = to_string r'" by simp
  with m assms show ?thesis using to_string_inject by blast
qed

lemma output_path_inject:
  assumes "output_path d r = output_path d r'" "in_int r" "in_int r'"
  shows "r = r'"
  using assms to_string_inject [of r r'] by (simp add: output_path_def)

lemma temp_path_not_output_path: "temp_path d m r \<noteq> output_path d r'"
  by (simp add: temp_path_def output_path_def)

end
