(* ===== verification/Master.thy ===== *)
theory Master
  imports Controllers
begin

text \<open>
  \<open>MapReduceMaster\<close> and the servers it forks (\<open>include/MapReduceMaster.h\<close>, lines 143--546).
  The state holds the file system all processes share, one server and one client per worker
  index, and the master's local variables with the place it has reached. The master's next
  action is a function of the state. The other steps are those of the servers, which answer
  calls or are killed, and of the clients, whose connections are made, refused or lost.
\<close>

section \<open>The master object\<close>

record mr_master =
  inputFileName :: string
  outputResultDirectory :: string
  nr_mapper :: int
  nr_reducer :: int

definition MapReduceMaster_default :: "string \<Rightarrow> string \<Rightarrow> mr_master" where
  "MapReduceMaster_default f_name out_dir =
     \<lparr>inputFileName = f_name, outputResultDirectory = out_dir, nr_mapper = 1, nr_reducer = 1\<rparr>"

definition MapReduceMaster_N :: "string \<Rightarrow> string \<Rightarrow> int \<Rightarrow> mr_master" where
  "MapReduceMaster_N f_name out_dir N =
     \<lparr>inputFileName = f_name, outputResultDirectory = out_dir, nr_mapper = N, nr_reducer = N\<rparr>"

definition MapReduceMaster_MR :: "string \<Rightarrow> string \<Rightarrow> int \<Rightarrow> int \<Rightarrow> mr_master" where
  "MapReduceMaster_MR f_name out_dir mappers reducers =
     \<lparr>inputFileName = f_name, outputResultDirectory = out_dir,
      nr_mapper = mappers, nr_reducer = reducers\<rparr>"

text \<open>What is fixed during a run: the registered class, the two hashes, the master object.\<close>

record params =
  generators :: factory
  hash_int :: "int \<Rightarrow> 64 word"
  hash_string :: "string \<Rightarrow> 64 word"
  master :: mr_master

section \<open>Servers\<close>

text \<open>
  A worker process: the two global flags it got from \<open>fork\<close> and sets itself, and the calls
  it has received and not finished.
\<close>

datatype task = MapTask int | ReduceTask int

record server =
  alive :: bool
  map_completed :: bool
  reduce_completed :: bool
  calls :: "task list"

definition forked_server :: server where
  "forked_server = \<lparr>alive = True, map_completed = False, reduce_completed = False, calls = []\<rparr>"

definition dead_server :: server where
  "dead_server = \<lparr>alive = False, map_completed = False, reduce_completed = False, calls = []\<rparr>"

text \<open>
  The bound functions. The result code of a controller is dropped; an exception that
  leaves the handler leaves the worker thread and ends the process.
\<close>

definition handle_map :: "params \<Rightarrow> int \<Rightarrow> server \<Rightarrow> file_system \<Rightarrow> server \<times> file_system" where
  "handle_map P idx sv fs =
     (case map_controller_module (generators P) (hash_int P) (hash_string P)
             (inputFileName (master P)) (outputResultDirectory (master P))
             (nr_mapper (master P)) (nr_reducer (master P)) idx fs of
        (Inl _, fs') \<Rightarrow> (dead_server, fs')
      | (Inr e, fs') \<Rightarrow> (sv\<lparr>map_completed := True\<rparr>, fs'))"

definition handle_reduce :: "params \<Rightarrow> int \<Rightarrow> server \<Rightarrow> file_system \<Rightarrow> server \<times> file_system" where
  "handle_reduce P idx sv fs =
     (case reduce_controller_module (generators P) (outputResultDirectory (master P))
             (nr_reducer (master P)) (nr_mapper (master P)) idx fs of
        (Inl _, fs') \<Rightarrow> (dead_server, fs')
      | (Inr e, fs') \<Rightarrow> (sv\<lparr>reduce_completed := True\<rparr>, fs'))"

definition handle_is_map_done :: "server \<Rightarrow> bool" where
  "handle_is_map_done sv = map_completed sv"

definition handle_is_reduce_done :: "server \<Rightarrow> bool" where
  "handle_is_reduce_done sv = reduce_completed sv"

definition handle_stop_server :: "server \<Rightarrow> server" where
  "handle_stop_server sv = dead_server"

text \<open>A worker thread takes the first call and runs its function.\<close>

definition serve :: "params \<Rightarrow> server \<Rightarrow> file_system \<Rightarrow> server \<times> file_system" where
  "serve P sv fs =
     (case calls sv of
        [] \<Rightarrow> (sv, fs)
      | MapTask idx # ts \<Rightarrow> handle_map P idx (sv\<lparr>calls := ts\<rparr>) fs
      | ReduceTask idx # ts \<Rightarrow> handle_reduce P idx (sv\<lparr>calls := ts\<rparr>) fs)"

text \<open>An asynchronous call reaches the server only if the process is there to read it.\<close>

definition async_call :: "task \<Rightarrow> server \<Rightarrow> server" where
  "async_call t sv = (if alive sv then sv\<lparr>calls := calls sv @ [t]\<rparr> else sv)"

section \<open>Clients\<close>

datatype connection_state = initial | connected | disconnected | reset

definition is_server_down :: "connection_state \<Rightarrow> bool" where
  "is_server_down st \<longleftrightarrow> st = disconnected"

text \<open>
  What the master's part depends on in a client: its state, whether \<open>async_connect\<close> is still under
  way, the calls posted before the connection was made, and whether a write has failed, after
  which the client writes nothing any more (\<open>Rpc_Connection\<close>).
\<close>

record pool_client =
  client_state :: connection_state
  attempting :: bool
  unsent :: "task list"
  broken :: bool

definition new_pool_client :: pool_client where
  "new_pool_client = \<lparr>client_state = initial, attempting = True, unsent = [], broken = False\<rparr>"

definition no_client :: pool_client where
  "no_client = \<lparr>client_state = initial, attempting = False, unsent = [], broken = False\<rparr>"

text \<open>\<open>is_connected_\<close>, which is set when the connection is made and never reset.\<close>

definition conn_made :: "pool_client \<Rightarrow> bool" where
  "conn_made c \<longleftrightarrow> client_state c \<noteq> initial"

text \<open>
  A blocking call has no timeout: from a process that is gone, or past a write that failed, no
  answer ever comes, and the caller waits for ever (\<open>None\<close>).
\<close>

definition blocking_call :: "(server \<Rightarrow> bool) \<Rightarrow> pool_client \<Rightarrow> server \<Rightarrow> bool option" where
  "blocking_call f c sv = (if alive sv \<and> \<not> broken c then Some (f sv) else None)"

section \<open>The system\<close>

text \<open>
  Where \<open>process\<close> is: at the first call of a worker, at the poll of a worker, waiting in the call
  that asks it or in the call that gives it its task again, waiting for ever, aborted, or returned.
\<close>

datatype pc =
    StartCall int
  | MapPoll int | MapAsk int | MapCall int
  | ReducePoll int | ReduceAsk int | ReduceCall int
  | Blocked | Aborted | Returned int

record system =
  disk :: file_system
  servers :: "int \<Rightarrow> server"
  client_pool :: "int \<Rightarrow> pool_client"
  map_task_status :: "int list"
  nr_map_done :: int
  reduce_task_status :: "int list"
  nr_reduce_done :: int
  pc :: pc

text \<open>\<open>vector<int>(n, 0)\<close>: a negative \<open>n\<close> is a length no vector can have, and throws.\<close>

definition status_vector :: "int \<Rightarrow> int list" where
  "status_vector n = replicate (nat n) 0"

definition worker_indices :: "params \<Rightarrow> int list" where
  "worker_indices P = [0..nr_mapper (master P) - 1]"

definition spawn_servers :: "params \<Rightarrow> int \<Rightarrow> server" where
  "spawn_servers P i = (if i \<in> set (worker_indices P) then forked_server else dead_server)"

text \<open>
  \<open>process\<close> up to the first call: the servers are forked and the clients made, none of which has
  its connection yet. The status vector, which nobody looks at before the first poll, is there.
\<close>

definition process_start :: "params \<Rightarrow> file_system \<Rightarrow> system" where
  "process_start P fs =
     \<lparr>disk = fs,
      servers = spawn_servers P,
      client_pool = (\<lambda>i. if i \<in> set (worker_indices P) then new_pool_client else no_client),
      map_task_status = status_vector (nr_mapper (master P)),
      nr_map_done = 0,
      reduce_task_status = [],
      nr_reduce_done = 0,
      pc = (if nr_mapper (master P) < 0 then Aborted else StartCall 0)\<rparr>"

section \<open>Calls\<close>

text \<open>
  An \<open>async_call\<close> once it is past \<open>wait_conn\<close>. Before the connection is made the request stays with
  the client; after a failed write it stays there for ever.
\<close>

definition post_task :: "task \<Rightarrow> int \<Rightarrow> system \<Rightarrow> system" where
  "post_task t i s =
     (let c = client_pool s i
      in if broken c then s
         else if conn_made c then s\<lparr>servers := (servers s)(i := async_call t (servers s i))\<rparr>
         else s\<lparr>client_pool := (client_pool s)(i := c\<lparr>unsent := unsent c @ [t]\<rparr>)\<rparr>)"

text \<open>\<open>wait_conn\<close> at the start of a call: the master stays where it is until the connection is made.\<close>

definition wait_conn_then :: "(int \<Rightarrow> system \<Rightarrow> system) \<Rightarrow> int \<Rightarrow> system \<Rightarrow> system" where
  "wait_conn_then f i s = (if conn_made (client_pool s i) then f i s else s)"

definition start_call :: "int \<Rightarrow> system \<Rightarrow> system" where
  "start_call i s = (post_task (MapTask i) i s)\<lparr>pc := StartCall (i + 1)\<rparr>"

section \<open>The map phase\<close>

definition restart_map_server :: "int \<Rightarrow> system \<Rightarrow> system" where
  "restart_map_server i s =
     s\<lparr>servers := (servers s)(i := forked_server),
       client_pool := (client_pool s)(i := new_pool_client),
       pc := MapCall i\<rparr>"

definition recall_map :: "int \<Rightarrow> system \<Rightarrow> system" where
  "recall_map i s = (post_task (MapTask i) i s)\<lparr>pc := MapPoll (i + 1)\<rparr>"

definition poll_map :: "int \<Rightarrow> system \<Rightarrow> system" where
  "poll_map i s =
     (if map_task_status s ! nat i = 1 then s\<lparr>pc := MapPoll (i + 1)\<rparr>
      else if is_server_down (client_state (client_pool s i)) then restart_map_server i s
      else s\<lparr>pc := MapAsk i\<rparr>)"

definition ask_map :: "int \<Rightarrow> system \<Rightarrow> system" where
  "ask_map i s =
     (case blocking_call handle_is_map_done (client_pool s i) (servers s i) of
        None \<Rightarrow> s\<lparr>pc := Blocked\<rparr>
      | Some True \<Rightarrow>
          s\<lparr>map_task_status := (map_task_status s)[nat i := 1],
            nr_map_done := nr_map_done s + 1,
            pc := MapPoll (i + 1)\<rparr>
      | Some False \<Rightarrow> s\<lparr>pc := MapPoll (i + 1)\<rparr>)"

text \<open>
  After the map phase: every server is called to reduce, the second status is made. Every client
  has got an answer by then, so none of these calls waits.
\<close>

definition start_reduce :: "params \<Rightarrow> system \<Rightarrow> system" where
  "start_reduce P s =
     s\<lparr>servers := (\<lambda>i. if i \<in> set (worker_indices P) \<and> \<not> broken (client_pool s i)
                       then async_call (ReduceTask i) (servers s i) else servers s i),
       reduce_task_status := status_vector (nr_reducer (master P)),
       nr_reduce_done := 0,
       pc := (if nr_reducer (master P) < 0 then Aborted else ReducePoll 0)\<rparr>"

definition end_map_pass :: "params \<Rightarrow> system \<Rightarrow> system" where
  "end_map_pass P s =
     (if nr_map_done s = nr_mapper (master P) then start_reduce P s else s\<lparr>pc := MapPoll 0\<rparr>)"

section \<open>The reduce phase\<close>

definition restart_reduce_server :: "int \<Rightarrow> system \<Rightarrow> system" where
  "restart_reduce_server i s =
     s\<lparr>servers := (servers s)(i := forked_server),
       client_pool := (client_pool s)(i := new_pool_client),
       pc := ReduceCall i\<rparr>"

definition recall_reduce :: "int \<Rightarrow> system \<Rightarrow> system" where
  "recall_reduce i s = (post_task (ReduceTask i) i s)\<lparr>pc := ReducePoll (i + 1)\<rparr>"

text \<open>
  The loop runs over the mappers' indices but the vector has one entry per reducer: an
  index past its end is undefined behaviour.
\<close>

definition poll_reduce :: "int \<Rightarrow> system \<Rightarrow> system" where
  "poll_reduce i s =
     (if length (reduce_task_status s) \<le> nat i then s\<lparr>pc := Aborted\<rparr>
      else if reduce_task_status s ! nat i = 1 then s\<lparr>pc := ReducePoll (i + 1)\<rparr>
      else if is_server_down (client_state (client_pool s i)) then restart_reduce_server i s
      else s\<lparr>pc := ReduceAsk i\<rparr>)"

definition ask_reduce :: "int \<Rightarrow> system \<Rightarrow> system" where
  "ask_reduce i s =
     (case blocking_call handle_is_reduce_done (client_pool s i) (servers s i) of
        None \<Rightarrow> s\<lparr>pc := Blocked\<rparr>
      | Some True \<Rightarrow>
          s\<lparr>reduce_task_status := (reduce_task_status s)[nat i := 1],
            nr_reduce_done := nr_reduce_done s + 1,
            pc := ReducePoll (i + 1)\<rparr>
      | Some False \<Rightarrow> s\<lparr>pc := ReducePoll (i + 1)\<rparr>)"

definition stop_servers :: "params \<Rightarrow> system \<Rightarrow> system" where
  "stop_servers P s =
     s\<lparr>servers := (\<lambda>i. if i \<in> set (worker_indices P) then handle_stop_server (servers s i)
                       else servers s i),
       pc := Returned 0\<rparr>"

definition end_reduce_pass :: "params \<Rightarrow> system \<Rightarrow> system" where
  "end_reduce_pass P s =
     (if nr_reduce_done s = nr_reducer (master P) then stop_servers P s
      else s\<lparr>pc := ReducePoll 0\<rparr>)"

section \<open>Steps\<close>

definition master_step :: "params \<Rightarrow> system \<Rightarrow> system" where
  "master_step P s =
     (case pc s of
        StartCall i \<Rightarrow> if i < nr_mapper (master P) then wait_conn_then start_call i s
                       else s\<lparr>pc := MapPoll 0\<rparr>
      | MapPoll i \<Rightarrow> if i < nr_mapper (master P) then poll_map i s else end_map_pass P s
      | MapAsk i \<Rightarrow> wait_conn_then ask_map i s
      | MapCall i \<Rightarrow> wait_conn_then recall_map i s
      | ReducePoll i \<Rightarrow> if i < nr_mapper (master P) then poll_reduce i s else end_reduce_pass P s
      | ReduceAsk i \<Rightarrow> wait_conn_then ask_reduce i s
      | ReduceCall i \<Rightarrow> wait_conn_then recall_reduce i s
      | _ \<Rightarrow> s)"

text \<open>
  \<open>wait_conn\<close> waits once and does not look at \<open>is_connected_\<close> again, so a spurious wakeup lets a call
  pass. A call for a task goes on without waiting. A call that asks waits for its answer all the
  same, and may be answered when the connection is made.
\<close>

definition woken :: "params \<Rightarrow> system \<Rightarrow> system" where
  "woken P s =
     (case pc s of
        StartCall i \<Rightarrow> if i < nr_mapper (master P) then start_call i s else s
      | MapCall i \<Rightarrow> recall_map i s
      | ReduceCall i \<Rightarrow> recall_reduce i s
      | _ \<Rightarrow> s)"

fun asking :: "pc \<Rightarrow> int option" where
  "asking (MapAsk i) = Some i"
| "asking (ReduceAsk i) = Some i"
| "asking _ = None"

text \<open>The connection is made: what was posted before is written.\<close>

definition connect_client :: "int \<Rightarrow> system \<Rightarrow> system" where
  "connect_client i s =
     s\<lparr>servers := (servers s)(i := fold async_call (unsent (client_pool s i)) (servers s i)),
       client_pool := (client_pool s)
         (i := (client_pool s i)\<lparr>client_state := connected, attempting := False, unsent := []\<rparr>)\<rparr>"

definition set_client :: "int \<Rightarrow> pool_client \<Rightarrow> system \<Rightarrow> system" where
  "set_client i c s = s\<lparr>client_pool := (client_pool s)(i := c)\<rparr>"

text \<open>The files a task writes: those a killed process may leave half written.\<close>

fun task_paths :: "params \<Rightarrow> task \<Rightarrow> string set" where
  "task_paths P (MapTask i) =
     temp_path (outputResultDirectory (master P)) i ` {0..<nr_reducer (master P)}"
| "task_paths P (ReduceTask i) = {output_path (outputResultDirectory (master P)) i}"

definition torn :: "params \<Rightarrow> task list \<Rightarrow> file_system \<Rightarrow> file_system \<Rightarrow> bool" where
  "torn P ts fs fs' \<longleftrightarrow>
     creatable fs' = creatable fs \<and>
     (\<forall>p. (\<forall>t\<in>set ts. p \<notin> task_paths P t) \<longrightarrow> files fs' p = files fs p)"

inductive sys_step :: "params \<Rightarrow> system \<Rightarrow> system \<Rightarrow> bool" for P :: params where
  master_moves:
    "sys_step P s (master_step P s)"
| server_serves:
    "alive (servers s i) \<Longrightarrow> calls (servers s i) \<noteq> [] \<Longrightarrow> serve P (servers s i) (disk s) = (sv, fs') \<Longrightarrow>
     sys_step P s (s\<lparr>servers := (servers s)(i := sv), disk := fs'\<rparr>)"
| server_killed:
    "alive (servers s i) \<Longrightarrow> torn P (calls (servers s i)) (disk s) fs' \<Longrightarrow>
     sys_step P s (s\<lparr>servers := (servers s)(i := dead_server), disk := fs'\<rparr>)"
| client_connects:
    "attempting (client_pool s i) \<Longrightarrow> alive (servers s i) \<Longrightarrow> sys_step P s (connect_client i s)"
| client_refused:
    "attempting (client_pool s i) \<Longrightarrow>
     sys_step P s (set_client i ((client_pool s i)\<lparr>attempting := False\<rparr>) s)"
| client_notices:
    "\<not> alive (servers s i) \<Longrightarrow> client_state (client_pool s i) = connected \<Longrightarrow>
     sys_step P s (set_client i ((client_pool s i)\<lparr>client_state := disconnected\<rparr>) s)"
| spurious_wakeup:
    "sys_step P s (woken P s)"
| early_write_fails:
    "\<not> conn_made (client_pool s i) \<Longrightarrow> unsent (client_pool s i) \<noteq> [] \<or> asking (pc s) = Some i \<Longrightarrow>
     sys_step P s (set_client i ((client_pool s i)\<lparr>unsent := [], broken := True\<rparr>) s)"

inductive reachable :: "params \<Rightarrow> file_system \<Rightarrow> system \<Rightarrow> bool" for P :: params and fs :: file_system where
  start: "reachable P fs (process_start P fs)"
| step: "reachable P fs s \<Longrightarrow> sys_step P s s' \<Longrightarrow> reachable P fs s'"

lemma reachable_steps: "reachable P fs s \<Longrightarrow> (sys_step P)\<^sup>*\<^sup>* s s' \<Longrightarrow> reachable P fs s'"
  by (erule rtranclp_induct) (auto intro: reachable.step)

end
