(* ===== verification/Rpc_Worker.thy ===== *)
theory Rpc_Worker
  imports Rpc_Server Master
begin

text \<open>
  The functions a worker process binds to its RPC server (\<open>include/MapReduceMaster.h\<close>, the six
  \<open>srv.bind\<close> of \<open>process\<close>), over the state the handlers of \<open>Master\<close> work on: what a call does
  through the dispatcher is what its handler does.
\<close>

section \<open>The bound functions\<close>

definition map_name :: "byte list" where "map_name = bytes_of ''map''"
definition reduce_name :: "byte list" where "reduce_name = bytes_of ''reduce''"
definition exit_name :: "byte list" where "exit_name = bytes_of ''exit''"
definition is_map_done_name :: "byte list" where "is_map_done_name = bytes_of ''is_map_done''"
definition is_reduce_done_name :: "byte list" where "is_reduce_done_name = bytes_of ''is_reduce_done''"
definition stop_server_name :: "byte list" where "stop_server_name = bytes_of ''stop_server''"

type_synonym worker_app = "server \<times> file_system"

text \<open>An exception of a controller as the dispatcher sees it; undefined behaviour stays that.\<close>

definition controller_exception :: "cpp_error \<Rightarrow> 'a outcome" where
  "controller_exception e =
     (case e of
        IntExn n \<Rightarrow> Thrown Other_exception
      | StdExn s \<Rightarrow> Thrown (Std_exception (bytes_of s))
      | UB s \<Rightarrow> Undefined)"

definition map_func :: "params \<Rightarrow> 32 word \<Rightarrow> (worker_app world, unit) action" where
  "map_func P idx w =
     (case app w of (sv, fs) \<Rightarrow>
       (case map_controller_module (generators P) (hash_int P) (hash_string P)
               (inputFileName (master P)) (outputResultDirectory (master P))
               (nr_mapper (master P)) (nr_reducer (master P)) (sint idx) fs of
          (Inl e, fs') \<Rightarrow> (controller_exception e, w\<lparr>app := (sv, fs')\<rparr>)
        | (Inr e, fs') \<Rightarrow> (outcome.Returned (), w\<lparr>app := (sv\<lparr>map_completed := True\<rparr>, fs')\<rparr>)))"

definition reduce_func :: "params \<Rightarrow> 32 word \<Rightarrow> (worker_app world, unit) action" where
  "reduce_func P idx w =
     (case app w of (sv, fs) \<Rightarrow>
       (case reduce_controller_module (generators P) (outputResultDirectory (master P))
               (nr_reducer (master P)) (nr_mapper (master P)) (sint idx) fs of
          (Inl e, fs') \<Rightarrow> (controller_exception e, w\<lparr>app := (sv, fs')\<rparr>)
        | (Inr e, fs') \<Rightarrow> (outcome.Returned (), w\<lparr>app := (sv\<lparr>reduce_completed := True\<rparr>, fs')\<rparr>)))"

definition exit_func :: "(worker_app world, unit) action" where
  "exit_func = post_exit"

definition is_map_done_func :: "(worker_app world, bool) action" where
  "is_map_done_func w = (outcome.Returned (map_completed (fst (app w))), w)"

definition is_reduce_done_func :: "(worker_app world, bool) action" where
  "is_reduce_done_func w = (outcome.Returned (reduce_completed (fst (app w))), w)"

definition stop_server_func :: "(worker_app world, unit) action" where
  "stop_server_func = andthen server_stop (\<lambda>_. Pair Exited)"

abbreviation convert_int :: "object \<Rightarrow> 32 word option" where
  "convert_int \<equiv> convert_tuple1 convert_signed 0"

abbreviation bool_result :: "bool \<Rightarrow> object option" where
  "bool_result b \<equiv> Some (object_bool b)"

definition bind_worker :: "params \<Rightarrow> worker_app world dispatcher \<Rightarrow> byte list + worker_app world dispatcher" where
  "bind_worker P funcs =
     sbind (bind_void_nonzero map_name 1 convert_int (map_func P) funcs) (\<lambda>funcs.
     sbind (bind_void_nonzero reduce_name 1 convert_int (reduce_func P) funcs) (\<lambda>funcs.
     sbind (bind_void_zero exit_name exit_func funcs) (\<lambda>funcs.
     sbind (bind_nonvoid_zero is_map_done_name bool_result is_map_done_func funcs) (\<lambda>funcs.
     sbind (bind_nonvoid_zero is_reduce_done_name bool_result is_reduce_done_func funcs) (\<lambda>funcs.
       bind_void_zero stop_server_name stop_server_func funcs)))))"

text \<open>The dispatcher the six make of an empty one.\<close>

definition worker_disp :: "params \<Rightarrow> worker_app world dispatcher" where
  "worker_disp P =
     [map_name \<mapsto> void_nonzero_adaptor map_name 1 convert_int (map_func P),
      reduce_name \<mapsto> void_nonzero_adaptor reduce_name 1 convert_int (reduce_func P),
      exit_name \<mapsto> void_zero_adaptor exit_name exit_func,
      is_map_done_name \<mapsto> nonvoid_zero_adaptor is_map_done_name bool_result is_map_done_func,
      is_reduce_done_name \<mapsto> nonvoid_zero_adaptor is_reduce_done_name bool_result is_reduce_done_func,
      stop_server_name \<mapsto> void_zero_adaptor stop_server_name stop_server_func]"

lemmas worker_name_defs = map_name_def reduce_name_def exit_name_def is_map_done_name_def
  is_reduce_done_name_def stop_server_name_def

lemma worker_names:
  "distinct [map_name, reduce_name, exit_name, is_map_done_name, is_reduce_done_name, stop_server_name]"
  by (simp add: worker_name_defs bytes_of_def)

lemma worker_names_rev:
  "distinct [stop_server_name, is_reduce_done_name, is_map_done_name, exit_name, reduce_name, map_name]"
  by (simp add: worker_name_defs bytes_of_def)

lemmas worker_names_neq [simp] = worker_names [simplified] worker_names_rev [simplified]

lemma bind_worker_disp: "bind_worker P Map.empty = Inr (worker_disp P)"
  by (simp add: bind_worker_def bind_defs insert_func_def enforce_unique_name_def worker_disp_def)

definition worker_conf :: "params \<Rightarrow> nat \<Rightarrow> worker_app server_conf" where
  "worker_conf P sid = \<lparr>conf_disp = worker_disp P, conf_suppress = False, conf_sid = sid\<rparr>"

section \<open>What a call does\<close>

lemma worker_lookup:
  "worker_disp P map_name = Some (void_nonzero_adaptor map_name 1 convert_int (map_func P))"
  "worker_disp P reduce_name = Some (void_nonzero_adaptor reduce_name 1 convert_int (reduce_func P))"
  "worker_disp P exit_name = Some (void_zero_adaptor exit_name exit_func)"
  "worker_disp P is_map_done_name = Some (nonvoid_zero_adaptor is_map_done_name bool_result is_map_done_func)"
  "worker_disp P is_reduce_done_name = Some (nonvoid_zero_adaptor is_reduce_done_name bool_result is_reduce_done_func)"
  "worker_disp P stop_server_name = Some (void_zero_adaptor stop_server_name stop_server_func)"
  by (simp_all add: worker_disp_def)

text \<open>The response to a call that returned, and nothing else.\<close>

definition reply_post :: "32 word \<Rightarrow> object \<Rightarrow> post list" where
  "reply_post i r = [Write (pack_object (response_object (make_result i r)))]"

lemma worker_replies:
  assumes "dispatch False (worker_disp P) msg (prepare sid w) = (outcome.Returned (make_result i r), w')" "plain w'"
  shows "work (worker_conf P sid) msg w = (outcome.Returned (reply_post i r), w')"
  using process_message_returned [OF assms(1)] after_dispatch_plain [OF assms(2)]
  by (simp add: work_def worker_conf_def reply_post_def make_result_def new_response_def del: pack_object.simps)

lemma plain_prepare: "plain (prepare sid w)" "plain ((prepare sid w)\<lparr>app := a\<rparr>)"
  by (simp_all add: plain_def)

lemma convert_int_arg: "convert_int (ARRAY [object_signed idx]) = Some idx"
  using convert_signed_value [of "object_signed idx" "sint idx" default_limit 1, where ?'a = 32]
    sint_lt [of idx] sint_ge [of idx] sint_nonneg [of "scast idx :: 64 word"]
  by (simp add: convert_tuple1_def convert_element_def object_signed_def int_value_def sint_scast_up)

lemma poll_answers:
  assumes "0 \<le> sint i"
  shows "work (worker_conf P sid) (call_object i is_map_done_name []) w =
      (outcome.Returned (reply_post i (BOOLEAN (handle_is_map_done (fst (app w))))), prepare sid w)"
    and "work (worker_conf P sid) (call_object i is_reduce_done_name []) w =
      (outcome.Returned (reply_post i (BOOLEAN (handle_is_reduce_done (fst (app w))))), prepare sid w)"
proof -
  have "dispatch False (worker_disp P) (call_object i is_map_done_name []) (prepare sid w) =
      (outcome.Returned (make_result i (BOOLEAN (handle_is_map_done (fst (app w))))), prepare sid w)"
    by (rule nonvoid_zero.call_returns [where funcs = "worker_disp P", OF worker_lookup(4) assms])
      (simp_all add: is_map_done_func_def andthen_def object_of_result_def object_bool_def return_with_def
        handle_is_map_done_def)
  then show "work (worker_conf P sid) (call_object i is_map_done_name []) w =
      (outcome.Returned (reply_post i (BOOLEAN (handle_is_map_done (fst (app w))))), prepare sid w)"
    using plain_prepare(1) by (rule worker_replies)
  have "dispatch False (worker_disp P) (call_object i is_reduce_done_name []) (prepare sid w) =
      (outcome.Returned (make_result i (BOOLEAN (handle_is_reduce_done (fst (app w))))), prepare sid w)"
    by (rule nonvoid_zero.call_returns [where funcs = "worker_disp P", OF worker_lookup(5) assms])
      (simp_all add: is_reduce_done_func_def andthen_def object_of_result_def object_bool_def return_with_def
        handle_is_reduce_done_def)
  then show "work (worker_conf P sid) (call_object i is_reduce_done_name []) w =
      (outcome.Returned (reply_post i (BOOLEAN (handle_is_reduce_done (fst (app w))))), prepare sid w)"
    using plain_prepare(1) by (rule worker_replies)
qed

lemmas worker_funcs = map_func_def reduce_func_def exit_func_def is_map_done_func_def is_reduce_done_func_def
  stop_server_func_def

text \<open>A function with one index, as the worker's are: it ends well or takes the process down.\<close>

lemma index_call:
  assumes "worker_disp P name = Some (void_nonzero_adaptor name 1 convert_int func)" "0 \<le> sint i"
  shows "(\<And>a. func idx (prepare sid w) = (outcome.Returned (), (prepare sid w)\<lparr>app := a\<rparr>) \<Longrightarrow>
      work (worker_conf P sid) (call_object i name [object_signed idx]) w =
        (outcome.Returned (reply_post i NIL), (prepare sid w)\<lparr>app := a\<rparr>))"
    and "(\<And>e a posts w'. func idx (prepare sid w) = (controller_exception e, a) \<Longrightarrow>
      work (worker_conf P sid) (call_object i name [object_signed idx]) w \<noteq> (outcome.Returned posts, w'))"
proof -
  let ?run = "andthen (convert_args convert_int (ARRAY [object_signed idx])) (\<lambda>a. andthen (func a) (\<lambda>_. return_with NIL))"
  have run: "?run = andthen (func idx) (\<lambda>_. return_with NIL)"
    by (simp add: convert_args_def convert_int_arg)
  show "work (worker_conf P sid) (call_object i name [object_signed idx]) w =
      (outcome.Returned (reply_post i NIL), (prepare sid w)\<lparr>app := a\<rparr>)"
    if "func idx (prepare sid w) = (outcome.Returned (), (prepare sid w)\<lparr>app := a\<rparr>)" for a
  proof (rule worker_replies [OF _ plain_prepare(2)])
    show "dispatch False (worker_disp P) (call_object i name [object_signed idx]) (prepare sid w) =
        (outcome.Returned (make_result i NIL), (prepare sid w)\<lparr>app := a\<rparr>)"
      by (rule void_nonzero.call_returns [where funcs = "worker_disp P", OF assms])
        (simp_all add: run that andthen_def return_with_def)
  qed
  show "work (worker_conf P sid) (call_object i name [object_signed idx]) w \<noteq> (outcome.Returned posts, w')"
    if "func idx (prepare sid w) = (controller_exception e, a)" for e a posts w'
  proof -
    have "dispatch False (worker_disp P) (call_object i name [object_signed idx]) (prepare sid w) =
        catch_call False i name (ARRAY [object_signed idx]) (controller_exception e) a"
      using void_nonzero.call_runs [where funcs = "worker_disp P", OF assms, of "[object_signed idx]"] run that
      by (simp add: andthen_def controller_exception_def split: cpp_error.split)
    then show ?thesis
      by (simp add: work_def worker_conf_def process_message_def andthen_def controller_exception_def catch_call_def
          throw_def undefined_behaviour_def split: cpp_error.split)
  qed
qed

text \<open>The function bound to \<open>exit\<close>: the session is asked to exit once the answer was posted.\<close>

lemma exit_answers:
  assumes "0 \<le> sint i"
  shows "work (worker_conf P sid) (call_object i exit_name []) w =
    (outcome.Returned (reply_post i NIL @ [Exit_session]), (prepare sid w)\<lparr>session_exit := True\<rparr>)"
proof -
  have "dispatch False (worker_disp P) (call_object i exit_name []) (prepare sid w) =
      (outcome.Returned (make_result i NIL), (prepare sid w)\<lparr>session_exit := True\<rparr>)"
    by (rule void_zero.call_returns [where funcs = "worker_disp P", OF worker_lookup(3) assms])
      (simp_all add: exit_func_def post_exit_def andthen_def return_with_def)
  from process_message_returned [OF this] show ?thesis
    by (simp add: work_def worker_conf_def reply_post_def make_result_def new_response_def after_dispatch_def
        capture_special_def is_nil_def del: pack_object.simps)
qed

text \<open>
  C37. A worker process answers as its handlers do. The six functions can be bound; a call of
  \<open>map\<close> or \<open>reduce\<close> with an index does to the server's flags and the files what the handler
  does and answers with nil, unless the controller throws, which ends the process; the two
  polls answer with the flags and change nothing; \<open>exit\<close> answers with nil, changes neither flags nor
  files, and asks the session to exit, after the answer; \<open>stop_server\<close> ends the process without an
  answer.
\<close>
theorem worker_answers:
  fixes idx :: "32 word"
  assumes "0 \<le> sint i" "app w = (sv, fs)" "alive sv"
  shows "bind_worker P Map.empty = Inr (conf_disp (worker_conf P sid))
    \<and> (if alive (fst (handle_map P (sint idx) sv fs))
       then work (worker_conf P sid) (call_object i map_name [object_signed idx]) w =
              (outcome.Returned (reply_post i NIL), (prepare sid w)\<lparr>app := handle_map P (sint idx) sv fs\<rparr>)
       else \<forall>posts w'. work (worker_conf P sid) (call_object i map_name [object_signed idx]) w \<noteq> (outcome.Returned posts, w'))
    \<and> (if alive (fst (handle_reduce P (sint idx) sv fs))
       then work (worker_conf P sid) (call_object i reduce_name [object_signed idx]) w =
              (outcome.Returned (reply_post i NIL), (prepare sid w)\<lparr>app := handle_reduce P (sint idx) sv fs\<rparr>)
       else \<forall>posts w'. work (worker_conf P sid) (call_object i reduce_name [object_signed idx]) w \<noteq> (outcome.Returned posts, w'))
    \<and> work (worker_conf P sid) (call_object i is_map_done_name []) w =
        (outcome.Returned (reply_post i (BOOLEAN (handle_is_map_done sv))), prepare sid w)
    \<and> work (worker_conf P sid) (call_object i is_reduce_done_name []) w =
        (outcome.Returned (reply_post i (BOOLEAN (handle_is_reduce_done sv))), prepare sid w)
    \<and> work (worker_conf P sid) (call_object i exit_name []) w =
        (outcome.Returned (reply_post i NIL @ [Exit_session]), (prepare sid w)\<lparr>session_exit := True\<rparr>)
    \<and> fst (work (worker_conf P sid) (call_object i stop_server_name []) w) = Exited"
proof (intro conjI)
  show "bind_worker P Map.empty = Inr (conf_disp (worker_conf P sid))"
    by (simp add: bind_worker_disp worker_conf_def)
next
  show "work (worker_conf P sid) (call_object i is_map_done_name []) w =
      (outcome.Returned (reply_post i (BOOLEAN (handle_is_map_done sv))), prepare sid w)"
    using poll_answers(1) [OF assms(1)] assms(2) by simp
  show "work (worker_conf P sid) (call_object i is_reduce_done_name []) w =
      (outcome.Returned (reply_post i (BOOLEAN (handle_is_reduce_done sv))), prepare sid w)"
    using poll_answers(2) [OF assms(1)] assms(2) by simp
next
  show "work (worker_conf P sid) (call_object i exit_name []) w =
      (outcome.Returned (reply_post i NIL @ [Exit_session]), (prepare sid w)\<lparr>session_exit := True\<rparr>)"
    by (rule exit_answers [OF assms(1)])
next
  show "fst (work (worker_conf P sid) (call_object i stop_server_name []) w) = Exited"
    using assms(1) by (simp add: work_def worker_conf_def process_message_def void_zero.call_runs [where funcs = "worker_disp P", OF worker_lookup(6)]
        stop_server_func_def server_stop_def andthen_def catch_call_def)
next
  show "if alive (fst (handle_map P (sint idx) sv fs))
      then work (worker_conf P sid) (call_object i map_name [object_signed idx]) w =
             (outcome.Returned (reply_post i NIL), (prepare sid w)\<lparr>app := handle_map P (sint idx) sv fs\<rparr>)
      else \<forall>posts w'. work (worker_conf P sid) (call_object i map_name [object_signed idx]) w \<noteq> (outcome.Returned posts, w')"
    using index_call [OF worker_lookup(1) assms(1), where idx = idx and sid = sid and w = w] assms(2,3)
    by (auto simp: handle_map_def map_func_def dead_server_def split: prod.splits sum.splits)
  show "if alive (fst (handle_reduce P (sint idx) sv fs))
      then work (worker_conf P sid) (call_object i reduce_name [object_signed idx]) w =
             (outcome.Returned (reply_post i NIL), (prepare sid w)\<lparr>app := handle_reduce P (sint idx) sv fs\<rparr>)
      else \<forall>posts w'. work (worker_conf P sid) (call_object i reduce_name [object_signed idx]) w \<noteq> (outcome.Returned posts, w')"
    using index_call [OF worker_lookup(2) assms(1), where idx = idx and sid = sid and w = w] assms(2,3)
    by (auto simp: handle_reduce_def reduce_func_def dead_server_def split: prod.splits sum.splits)
qed

definition poor_params :: params where
  "poor_params = \<lparr>generators = Map.empty, hash_int = (\<lambda>_. 0), hash_string = (\<lambda>_. 0),
     master = MapReduceMaster_N ''input'' ''dir'' 1\<rparr>"

definition no_files :: file_system where
  "no_files = \<lparr>files = Map.empty, creatable = (\<lambda>_. True)\<rparr>"

definition worker_world :: "worker_app world" where
  "worker_world = \<lparr>handler_error_obj = NIL, handler_resp_obj = NIL, resp_enabled = True,
     session_exit = False, session_id = 0, server_stopping = False, app = (forked_server, no_files)\<rparr>"

text \<open>Without its input file a map task fails, and is reported as completed.\<close>

lemma handle_map_missing_input:
  "handle_map poor_params 0 forked_server no_files = (forked_server\<lparr>map_completed := True\<rparr>, no_files)"
  by (simp add: handle_map_def poor_params_def map_controller_module_def good_ifstream no_files_def
      MapReduceMaster_N_def Let_def)

lemma worker_answers_witness:
  "work (worker_conf poor_params 1) (call_object 1 map_name [object_signed (0 :: 32 word)]) worker_world =
     (outcome.Returned (reply_post 1 NIL),
      (prepare 1 worker_world)\<lparr>app := (forked_server\<lparr>map_completed := True\<rparr>, no_files)\<rparr>) \<and>
   fst (work (worker_conf poor_params 1) (call_object 1 exit_name []) worker_world) =
     outcome.Returned (reply_post 1 NIL @ [Exit_session]) \<and>
   fst (work (worker_conf poor_params 1) (call_object 1 stop_server_name []) worker_world) = Exited"
proof -
  have "app worker_world = (forked_server, no_files)" "alive forked_server"
      "alive (forked_server\<lparr>map_completed := True\<rparr>)"
    by (simp_all add: worker_world_def forked_server_def)
  with worker_answers [of 1 worker_world forked_server no_files poor_params 1 0] handle_map_missing_input
  show ?thesis by simp
qed

text \<open>
  The worker's answers are small and it stops only by ending the process, so what holds of
  connections and of servers that nobody leaves holds of a worker's.
\<close>

lemma worker_functions:
  assumes "worker_disp P name = Some f" "f args w = (res, w')"
  shows "handler_error_obj w' = handler_error_obj w \<and> handler_resp_obj w' = handler_resp_obj w \<and>
      (\<forall>r. res = outcome.Returned r \<longrightarrow> fits default_limit (Suc (Suc 0)) r) \<and>
      (res \<noteq> Exited \<longrightarrow> server_stopping w' = server_stopping w)"
  using assms
  by (auto simp: worker_disp_def adaptor_defs with_array_size_def worker_funcs enforce_arg_count_result
      object_of_result_def object_bool_def convert_args_def post_exit_def server_stop_def
      controller_exception_def return_with_def throw_def undefined_behaviour_def andthen_def
      split: option.splits if_splits prod.splits sum.splits cpp_error.splits)

lemma worker_replies_fit: "replies_fit (worker_conf P sid)"
proof (rule replies_fitI)
  fix name f args res and w w' :: "worker_app world"
  assume "conf_disp (worker_conf P sid) name = Some f" "f args w = (res, w')"
  then show "handler_error_obj w' = handler_error_obj w \<and> handler_resp_obj w' = handler_resp_obj w \<and>
      (\<forall>r. res = outcome.Returned r \<longrightarrow> fits default_limit (Suc (Suc 0)) r)"
    using worker_functions [of P name f args w res w'] by (simp add: worker_conf_def)
qed

lemma worker_never_stops: "never_stops (worker_disp P)"
  by (rule never_stopsI) (use worker_functions in blast)

text \<open>A worker that nobody hangs up on uses no freed session, whatever its calls do.\<close>

lemma worker_server_safe:
  assumes "server_run (new_server a (worker_disp P) w) es p" "\<forall>e\<in>set es. quiet e" "server_step p e None" "quiet e"
  shows "\<exists>i. e = Message i \<and> undefined_message i p"
proof -
  have "calm a (worker_disp P) p"
    using calm_run [OF assms(1) new_server_calm worker_never_stops assms(2)] .
  from calm_step [OF this worker_never_stops assms(3,4)] show ?thesis by blast
qed

text \<open>A poll over the wire: the future of \<open>is_map_done\<close> holds the flag the server had when it ran.\<close>

lemma poll_over_the_wire:
  assumes "link_run (worker_conf P sid) w0 qs ex rs l" "Call_req i is_map_done_name [] p \<in> set qs"
    and "futures (client_of l) p \<noteq> Waiting" "0 \<le> sint i"
  shows "\<exists>before v. executes (worker_conf P sid) w0 before v \<and>
    futures (client_of l) p = Value (BOOLEAN (handle_is_map_done (fst (app v))))"
proof -
  obtain before posts v v' r where r: "executes (worker_conf P sid) w0 before v"
      "work (worker_conf P sid) (call_object i is_map_done_name []) v = (outcome.Returned posts, v')"
      "Write (pack_object (response_object r)) \<in> set posts" "sendable (response_object r)"
      "futures (client_of l) p = outcome_of is_map_done_name (received r)"
    using remote_call_holds [OF worker_replies_fit assms(1,2)] assms(3) by auto
  let ?m = "make_result i (BOOLEAN (handle_is_map_done (fst (app v))))"
  have "posts = reply_post i (BOOLEAN (handle_is_map_done (fst (app v))))"
    using poll_answers(1) [OF assms(4), of P sid v] r(2) by simp
  then have "pack_object (response_object r) = pack_object (response_object ?m)"
    using r(3) by (simp add: reply_post_def)
  moreover have "sendable (response_object ?m)"
    by (simp add: response_object_def make_result_def new_response_def default_limit_def)
  ultimately have "response_object r = response_object ?m"
    using msgpack.put_prefix_free [OF r(4), of "response_object ?m" "[]" "[]"] by simp
  then have "received r = received ?m"
    by (simp add: received_def)
  with r(1,5) show ?thesis
    by (auto simp: received_def response_of_response_object make_result_def new_response_def outcome_of_def)
qed

end
