(* ===== verification/Rpc_Connection.thy ===== *)
theory Rpc_Connection
  imports Rpc_Calls Master "HOL-Library.Multiset"
begin

text \<open>
  The connection of a client (\<open>client.cc\<close>): connecting, waiting for it, the reads and how they
  end, and the state the master's \<open>is_server_down\<close> asks for. The requests and the responses
  themselves are those of \<open>Rpc_Client\<close>.
\<close>

section \<open>State\<close>

text \<open>
  \<open>connecting\<close> and \<open>conn_reading\<close> are an \<open>async_connect\<close> and an \<open>async_read_some\<close> whose handler has
  not run. \<open>waiting\<close> holds the calls that are in \<open>wait_conn\<close>, each with the timeout it waits with.
\<close>

record waiting_call =
  wc_name :: "byte list"
  wc_args :: "object list"
  wc_timeout :: "int option"

record connection =
  conn_client :: client
  conn_unpacker :: "ctx \<times> byte list"
  is_connected :: bool
  conn_state :: connection_state
  connecting :: bool
  conn_reading :: bool
  waiting :: "waiting_call list"

definition new_connection :: connection where
  "new_connection =
     \<lparr>conn_client = new_client, conn_unpacker = (init_ctx True default_limit, []), is_connected = False,
      conn_state = initial, connecting = True, conn_reading = False, waiting = []\<rparr>"

text \<open>The handler of \<open>do_connect\<close>: an error is logged, and that is all.\<close>

definition connect_handler :: "bool \<Rightarrow> connection \<Rightarrow> connection" where
  "connect_handler ok c =
     (let c = c\<lparr>connecting := False\<rparr>
      in if ok then c\<lparr>is_connected := True, conn_state := connected, conn_reading := True\<rparr> else c)"

text \<open>
  The handler of \<open>do_read\<close>. An exception of the unpacker, of a response that is none or of a
  promise that is set twice leaves the thread and ends the process, \<open>None\<close>.
\<close>

datatype read_result = Chunk "byte list" | Eof | Connection_reset | Read_failure

definition conn_read_handler :: "read_result \<Rightarrow> connection \<Rightarrow> connection option" where
  "conn_read_handler r c =
     (let c = c\<lparr>conn_reading := False\<rparr>
      in case r of
           Chunk bs \<Rightarrow>
             (case next_all (fst (conn_unpacker c)) (snd (conn_unpacker c) @ bs) of
                (objs, Inl e) \<Rightarrow> None
              | (objs, Inr u) \<Rightarrow>
                  map_option (\<lambda>cl. c\<lparr>conn_client := cl, conn_unpacker := u, conn_reading := True\<rparr>)
                    (receive_all objs (conn_client c)))
         | Eof \<Rightarrow> Some (c\<lparr>conn_state := disconnected\<rparr>)
         | Connection_reset \<Rightarrow> Some (c\<lparr>conn_state := disconnected\<rparr>)
         | Read_failure \<Rightarrow> Some c)"

text \<open>
  \<open>wait_conn\<close>: a call that finds the connection made passes (\<open>None\<close>), another one waits, once, with
  the timeout that is set or without one. The wait is over when the thread is woken, by \<open>notify_all\<close>
  or for no reason at all, and the call then passes without looking again; or by the timeout, and
  the call throws, also when the connection has been made in the meantime. The message reads the timeout again,
  which is undefined once it was cleared.
\<close>

definition wait_conn :: "connection \<Rightarrow> int option option" where
  "wait_conn c = (if is_connected c then None else Some (call_timeout (conn_client c)))"

datatype wakeup = By_wakeup | By_timeout

datatype wait_conn_result = Passes | Gives_up "byte list" | Waits_on | Undefined_timeout

definition connect_timeout_text :: "int \<Rightarrow> byte list \<Rightarrow> nat \<Rightarrow> byte list" where
  "connect_timeout_text ms addr port =
     bytes_of ''rpc::timeout: Timeout of '' @ bytes_of (to_string ms) @
     bytes_of ''ms while connecting to '' @ addr @ bytes_of '':'' @ bytes_of (to_string (int port))"

definition wait_over :: "byte list \<Rightarrow> nat \<Rightarrow> int option \<Rightarrow> wakeup \<Rightarrow> connection \<Rightarrow> wait_conn_result" where
  "wait_over addr port t how c =
     (case how of
        By_wakeup \<Rightarrow> Passes
      | By_timeout \<Rightarrow>
          (case t of
             None \<Rightarrow> Waits_on
           | Some _ \<Rightarrow>
               (case call_timeout (conn_client c) of
                  Some ms \<Rightarrow> Gives_up (connect_timeout_text ms addr port)
                | None \<Rightarrow> Undefined_timeout)))"

section \<open>Runs\<close>

text \<open>
  A socket that is not connected takes no bytes: a write on it waits or fails. A call goes through
  \<open>wait_conn\<close> first, a notification does not. Calls may come from several threads, so any of those
  that wait may be the next to go on.
\<close>

datatype conn_event =
    Connected | Refused | Received read_result | Task_run | Written writer_event
  | Called "byte list" "object list" | Notified "byte list" "object list"
  | Call_waits "byte list" "object list" | Call_woken "byte list" "object list"
  | Call_gave_up "byte list" "object list" "byte list" | Timeout_set int | Timeout_cleared

inductive conn_step :: "connection \<Rightarrow> conn_event \<Rightarrow> connection \<Rightarrow> bool" where
  connected: "connecting c \<Longrightarrow> conn_step c Connected (connect_handler True c)"
| refused: "connecting c \<Longrightarrow> conn_step c Refused (connect_handler False c)"
| received: "conn_reading c \<Longrightarrow> conn_read_handler r c = Some c' \<Longrightarrow> conn_step c (Received r) c'"
| task: "io_tasks (conn_client c) = t # ts \<Longrightarrow> run_task t ((conn_client c)\<lparr>io_tasks := ts\<rparr>) = Some cl \<Longrightarrow>
    conn_step c Task_run (c\<lparr>conn_client := cl\<rparr>)"
| socket: "e = Fail \<or> is_connected c \<and> socket_event e \<Longrightarrow> writer_step (writer_of (conn_client c)) e (Some w) \<Longrightarrow>
    conn_step c (Written e) (c\<lparr>conn_client := (conn_client c)\<lparr>writer_of := w\<rparr>\<rparr>)"
| called: "wait_conn c = None \<Longrightarrow> client_async_call name args (conn_client c) = (Some p, cl) \<Longrightarrow>
    conn_step c (Called name args) (c\<lparr>conn_client := cl\<rparr>)"
| waits: "wait_conn c = Some t \<Longrightarrow>
    conn_step c (Call_waits name args)
      (c\<lparr>waiting := waiting c @ [\<lparr>wc_name = name, wc_args = args, wc_timeout = t\<rparr>]\<rparr>)"
| woken: "waiting c = ws @ w # vs \<Longrightarrow> wait_over addr port (wc_timeout w) By_wakeup c = Passes \<Longrightarrow>
    client_async_call (wc_name w) (wc_args w) (conn_client c) = (Some p, cl) \<Longrightarrow>
    conn_step c (Call_woken (wc_name w) (wc_args w)) (c\<lparr>conn_client := cl, waiting := ws @ vs\<rparr>)"
| gave_up: "waiting c = ws @ w # vs \<Longrightarrow> wait_over addr port (wc_timeout w) By_timeout c = Gives_up what \<Longrightarrow>
    conn_step c (Call_gave_up (wc_name w) (wc_args w) what) (c\<lparr>waiting := ws @ vs\<rparr>)"
| timeout_set: "conn_step c (Timeout_set ms) (c\<lparr>conn_client := set_timeout ms (conn_client c)\<rparr>)"
| timeout_cleared: "conn_step c Timeout_cleared (c\<lparr>conn_client := clear_timeout (conn_client c)\<rparr>)"
| notified: "client_send name args (conn_client c) = Some cl \<Longrightarrow>
    conn_step c (Notified name args) (c\<lparr>conn_client := cl\<rparr>)"

inductive conn_run :: "connection \<Rightarrow> conn_event list \<Rightarrow> connection \<Rightarrow> bool" for c0 where
  start: "conn_run c0 [] c0"
| step: "conn_run c0 es c \<Longrightarrow> conn_step c e c' \<Longrightarrow> conn_run c0 (es @ [e]) c'"




section \<open>What a step does to the writer\<close>








section \<open>The state follows the events\<close>















section \<open>Properties\<close>


text \<open>
  What the single wait allows: a call that is woken while nothing is connected goes on and posts its request, and
  one whose timeout runs out throws although the connection was made while it waited.
\<close>

lemma woken_unconnected:
  "\<exists>c. conn_run new_connection [Call_waits sample_name [], Call_woken sample_name []] c
    \<and> \<not> is_connected c \<and> io_tasks (conn_client c) \<noteq> []"
proof -
  let ?w = "\<lparr>wc_name = sample_name, wc_args = [], wc_timeout = None\<rparr>"
  let ?c1 = "new_connection\<lparr>waiting := [?w]\<rparr>"
  have "conn_step new_connection (Call_waits sample_name []) ?c1"
    using conn_step.waits [of new_connection None sample_name "[]"]
    by (simp add: new_connection_def wait_conn_def new_client_def)
  from conn_run.step [OF conn_run.start this] have one: "conn_run new_connection [Call_waits sample_name []] ?c1"
    by simp
  obtain cl where cl: "client_async_call sample_name [] new_client = (Some 0, cl)" "io_tasks cl \<noteq> []"
    by (simp add: client_async_call_def get_next_call_idx_def pack_call_object post_call_def sample_name_def
        new_client_def del: pack_object.simps)
  have "conn_step ?c1 (Call_woken sample_name []) (?c1\<lparr>conn_client := cl, waiting := []\<rparr>)"
    using conn_step.woken [of ?c1 "[]" ?w "[]" _ _ 0 cl] cl(1)
    by (simp add: wait_over_def new_connection_def)
  from conn_run.step [OF one this] cl(2) show ?thesis by (auto simp: new_connection_def)
qed

lemma timed_out_connected:
  "\<exists>c what. conn_run new_connection
      [Timeout_set 5, Call_waits sample_name [], Connected, Call_gave_up sample_name [] what] c
    \<and> is_connected c"
proof -
  let ?w = "\<lparr>wc_name = sample_name, wc_args = [], wc_timeout = Some 5\<rparr>"
  let ?c1 = "new_connection\<lparr>conn_client := set_timeout 5 new_client\<rparr>"
  let ?c2 = "?c1\<lparr>waiting := [?w]\<rparr>" 
  let ?c3 = "connect_handler True ?c2"
  have "conn_step new_connection (Timeout_set 5) ?c1"
    using conn_step.timeout_set [of new_connection 5] by (simp add: new_connection_def)
  from conn_run.step [OF conn_run.start this] have one: "conn_run new_connection [Timeout_set 5] ?c1" by simp
  have "conn_step ?c1 (Call_waits sample_name []) ?c2"
    using conn_step.waits [of ?c1 "Some 5" sample_name "[]"]
    by (simp add: new_connection_def wait_conn_def set_timeout_def)
  from conn_run.step [OF one this] have two: "conn_run new_connection [Timeout_set 5, Call_waits sample_name []] ?c2"
    by simp
  have "conn_step ?c2 Connected ?c3" by (rule conn_step.connected) (simp add: new_connection_def)
  from conn_run.step [OF two this]
  have three: "conn_run new_connection [Timeout_set 5, Call_waits sample_name [], Connected] ?c3" by simp
  have "wait_over [] 0 (Some 5) By_timeout ?c3 = Gives_up (connect_timeout_text 5 [] 0)"
    by (simp add: wait_over_def connect_handler_def set_timeout_def)
  then have "conn_step ?c3 (Call_gave_up sample_name [] (connect_timeout_text 5 [] 0)) (?c3\<lparr>waiting := []\<rparr>)"
    using conn_step.gave_up [of ?c3 "[]" ?w "[]" "[]" 0] by (simp add: connect_handler_def)
  from conn_run.step [OF three this] show ?thesis by (auto simp: connect_handler_def)
qed







end
