(* ===== verification/Msgpack_Buffer.thy ===== *)
theory Msgpack_Buffer
  imports Msgpack_Stream
begin

text \<open>
  The receive buffer of the unpacker (\<open>parser\<close> in \<open>v2/parse.hpp\<close>): a block of memory that
  starts with a counter, is filled at \<open>m_used\<close>, read at \<open>m_off\<close> and grows when less than what is
  asked for is free. The sessions of the RPC layer read from the socket straight into it.
  The abstract state is the list of bytes received and not yet parsed.

  \<open>malloc\<close> and \<open>realloc\<close> are a parameter: \<open>alloc n\<close> is fresh memory of \<open>n\<close> bytes, or nothing.
  The reference counter and the flag that says whether the object being built refers to the
  buffer are changed by the objects' owners as well, so nothing is assumed of their values.
\<close>

type_synonym size_t = "64 word"

definition COUNTER_SIZE :: size_t where "COUNTER_SIZE = 4"
definition INIT_BUFFER_SIZE :: size_t where "INIT_BUFFER_SIZE = 64 * 1024"
definition default_buffer_size :: size_t where "default_buffer_size = 1024 * 1024"

record parser =
  m_buffer :: "byte list"
  m_used :: size_t
  m_free :: size_t
  m_off :: size_t
  m_parsed :: size_t
  m_initial_buffer_size :: size_t
  m_count :: nat
  m_referenced :: bool

type_synonym alloc = "size_t \<Rightarrow> byte list option"

definition new_parser :: "alloc \<Rightarrow> size_t \<Rightarrow> parser option" where
  "new_parser alloc initial =
     (let initial = (if initial < COUNTER_SIZE then COUNTER_SIZE else initial)
      in case alloc initial of
           None \<Rightarrow> None
         | Some buffer \<Rightarrow>
             Some \<lparr>m_buffer = buffer, m_used = COUNTER_SIZE, m_free = initial - COUNTER_SIZE,
                   m_off = COUNTER_SIZE, m_parsed = 0, m_initial_buffer_size = initial,
                   m_count = 1, m_referenced = False\<rparr>)"

text \<open>The loop that doubles a size until it is enough, or takes the goal if it wraps around.\<close>

function grow :: "size_t \<Rightarrow> size_t \<Rightarrow> size_t" where
  "grow goal next_size =
     (if next_size < goal
      then let tmp_next_size = next_size * 2
           in if tmp_next_size \<le> next_size then goal else grow goal tmp_next_size
      else next_size)"
  by pat_completeness auto
termination
proof (relation "measure (\<lambda>(goal, next_size). unat goal - unat next_size)")
  fix goal next_size tmp :: size_t
  assume "next_size < goal" "tmp = next_size * 2" "\<not> tmp \<le> next_size"
  then show "((goal, tmp), goal, next_size) \<in> measure (\<lambda>(goal, next_size). unat goal - unat next_size)"
    by (auto simp: word_less_nat_alt word_le_nat_alt)
qed simp

declare grow.simps [simp del]

definition realloc :: "byte list \<Rightarrow> size_t \<Rightarrow> byte list \<Rightarrow> byte list" where
  "realloc old n new =
     take (min (unat n) (length old)) old @ drop (min (unat n) (length old)) new"

text \<open>Nothing but the counter and what is parsed is in the buffer, so it can start over.\<close>

definition can_rewind :: "parser \<Rightarrow> bool" where
  "can_rewind p \<longleftrightarrow> m_used p = m_off p \<and> m_count p = 1 \<and> \<not> m_referenced p"

definition rewind :: "parser \<Rightarrow> parser" where
  "rewind p =
     p\<lparr>m_free := m_free p + (m_used p - COUNTER_SIZE), m_used := COUNTER_SIZE, m_off := COUNTER_SIZE\<rparr>"

definition memcpy :: "byte list \<Rightarrow> nat \<Rightarrow> byte list \<Rightarrow> byte list" where
  "memcpy mem pos bs = take pos mem @ bs @ drop (pos + length bs) mem"

text \<open>
  Memory for \<open>sz\<close> more bytes: in place while nothing was parsed, otherwise in a new buffer that
  takes over what is not parsed.
\<close>

definition enlarge :: "alloc \<Rightarrow> size_t \<Rightarrow> parser \<Rightarrow> parser option" where
  "enlarge alloc sz p =
     (let next_size = grow (sz + m_used p) ((m_used p + m_free p) * 2)
      in case alloc next_size of
           None \<Rightarrow> None
         | Some tmp \<Rightarrow>
             Some (p\<lparr>m_buffer := realloc (m_buffer p) next_size tmp, m_free := next_size - m_used p\<rparr>))"

definition move :: "alloc \<Rightarrow> size_t \<Rightarrow> parser \<Rightarrow> parser option" where
  "move alloc sz p =
     (let not_parsed = m_used p - m_off p;
          next_size = grow (sz + not_parsed + COUNTER_SIZE) (m_initial_buffer_size p)
      in case alloc next_size of
           None \<Rightarrow> None
         | Some tmp \<Rightarrow>
             Some (p\<lparr>m_buffer := memcpy tmp (unat COUNTER_SIZE)
                       (take (unat not_parsed) (drop (unat (m_off p)) (m_buffer p))),
                     m_used := not_parsed + COUNTER_SIZE,
                     m_free := next_size - (not_parsed + COUNTER_SIZE),
                     m_off := COUNTER_SIZE, m_count := 1, m_referenced := False\<rparr>))"

definition expand_buffer :: "alloc \<Rightarrow> size_t \<Rightarrow> parser \<Rightarrow> parser option" where
  "expand_buffer alloc sz p0 =
     (let p = (if can_rewind p0 then rewind p0 else p0)
      in if can_rewind p0 \<and> sz \<le> m_free p then Some p
         else if m_off p = COUNTER_SIZE then enlarge alloc sz p
         else move alloc sz p)"

definition reserve_buffer :: "alloc \<Rightarrow> size_t \<Rightarrow> parser \<Rightarrow> parser option" where
  "reserve_buffer alloc sz p = (if sz \<le> m_free p then Some p else expand_buffer alloc sz p)"

definition buffer_capacity :: "parser \<Rightarrow> size_t" where "buffer_capacity p = m_free p"

definition buffer_consumed :: "size_t \<Rightarrow> parser \<Rightarrow> parser" where
  "buffer_consumed sz p = p\<lparr>m_used := m_used p + sz, m_free := m_free p - sz\<rparr>"

definition nonparsed_size :: "parser \<Rightarrow> size_t" where "nonparsed_size p = m_used p - m_off p"
definition parsed_size :: "parser \<Rightarrow> size_t" where "parsed_size p = m_parsed p"
definition message_size :: "parser \<Rightarrow> size_t" where "message_size p = m_parsed p - m_off p + m_used p"
definition skip_nonparsed_buffer :: "size_t \<Rightarrow> parser \<Rightarrow> parser" where
  "skip_nonparsed_buffer sz p = p\<lparr>m_off := m_off p + sz\<rparr>"
definition remove_nonparsed_buffer :: "parser \<Rightarrow> parser" where
  "remove_nonparsed_buffer p = p\<lparr>m_used := m_off p\<rparr>"

section \<open>Well-formed buffers\<close>

definition contents :: "parser \<Rightarrow> byte list" where
  "contents p = drop (unat (m_off p)) (take (unat (m_used p)) (m_buffer p))"

definition wf_parser :: "parser \<Rightarrow> bool" where
  "wf_parser p \<longleftrightarrow>
     length (m_buffer p) = unat (m_used p) + unat (m_free p) \<and>
     unat COUNTER_SIZE \<le> unat (m_off p) \<and> unat (m_off p) \<le> unat (m_used p) \<and>
     unat (m_used p) + unat (m_free p) < 2 ^ 63"

text \<open>No block of memory has \<open>2 ^ 63\<close> bytes or more.\<close>

definition good_alloc :: "alloc \<Rightarrow> bool" where
  "good_alloc alloc \<longleftrightarrow> (\<forall>n mem. alloc n = Some mem \<longrightarrow> length mem = unat n \<and> unat n < 2 ^ 63)"

lemma grow_enough: "goal \<le> grow goal n"
  by (induction goal n rule: grow.induct) (subst grow.simps, auto simp: Let_def)

lemma unat_plus: "unat a + unat b < 2 ^ 64 \<Longrightarrow> unat (a + b) = unat a + unat (b :: size_t)"
  by (rule unat_add_lem [THEN iffD1]) simp

lemma unat_minus: "unat b \<le> unat a \<Longrightarrow> unat (a - b) = unat a - unat (b :: size_t)"
  by (rule unat_sub) (simp add: word_le_nat_alt)

lemma rewind_wf: "wf_parser p \<Longrightarrow> can_rewind p \<Longrightarrow> wf_parser (rewind p) \<and> contents (rewind p) = contents p"
  by (auto simp: rewind_def can_rewind_def wf_parser_def contents_def unat_plus unat_minus)

lemma realloc_append:
  "length old = a \<Longrightarrow> a \<le> unat n \<Longrightarrow> take a (realloc old n new) = old"
  by (simp add: realloc_def)

text \<open>What the growing operations promise: the contents are kept and \<open>sz\<close> bytes are free.\<close>

definition grown :: "size_t \<Rightarrow> parser \<Rightarrow> parser \<Rightarrow> bool" where
  "grown sz p q \<longleftrightarrow> wf_parser q \<and> contents q = contents p \<and> sz \<le> m_free q"

lemma enlarge_grown:
  assumes "wf_parser p" "good_alloc alloc" "unat sz + unat (m_used p) < 2 ^ 64" "enlarge alloc sz p = Some q"
  shows "grown sz p q"
proof -
  define n where "n = grow (sz + m_used p) ((m_used p + m_free p) * 2)"
  then obtain tmp where tmp: "alloc n = Some tmp"
      "q = p\<lparr>m_buffer := realloc (m_buffer p) n tmp, m_free := n - m_used p\<rparr>"
    using assms(4) by (auto simp: enlarge_def Let_def split: option.splits)
  have n: "unat sz + unat (m_used p) \<le> unat n"
    using grow_enough [of "sz + m_used p" "(m_used p + m_free p) * 2"] assms(3)
    by (simp add: word_le_nat_alt unat_plus n_def)
  then have free: "unat (n - m_used p) = unat n - unat (m_used p)"
    by (intro unat_minus) simp
  have len: "length tmp = unat n" "unat n < 2 ^ 63"
    using assms(2) tmp(1) by (simp_all add: good_alloc_def)
  have "take (unat (m_used p)) (realloc (m_buffer p) n tmp) = take (unat (m_used p)) (m_buffer p)"
    using n assms(1) by (simp add: realloc_def wf_parser_def)
  then have "contents q = contents p"
    by (simp add: contents_def tmp(2))
  moreover have "wf_parser q"
    using n assms(1) len(2)
    by (auto simp: tmp(2) wf_parser_def free realloc_def len)
  moreover have "sz \<le> m_free q"
    using n by (simp add: tmp(2) free word_le_nat_alt)
  ultimately show ?thesis
    by (simp add: grown_def)
qed

lemma move_grown:
  assumes "wf_parser p" "good_alloc alloc" "unat sz + unat (m_used p) < 2 ^ 64" "move alloc sz p = Some q"
  shows "grown sz p q"
proof -
  define np where "np = m_used p - m_off p"
  define n where "n = grow (sz + np + COUNTER_SIZE) (m_initial_buffer_size p)"
  obtain tmp where tmp: "alloc n = Some tmp" and
    q: "q = p\<lparr>m_buffer := memcpy tmp (unat COUNTER_SIZE) (take (unat np) (drop (unat (m_off p)) (m_buffer p))),
              m_used := np + COUNTER_SIZE, m_free := n - (np + COUNTER_SIZE),
              m_off := COUNTER_SIZE, m_count := 1, m_referenced := False\<rparr>"
    using assms(4) unfolding move_def Let_def np_def [symmetric] n_def [symmetric]
    by (auto split: option.splits)
  have np: "unat np = unat (m_used p) - unat (m_off p)"
    using assms(1) by (simp add: wf_parser_def unat_minus np_def)
  have used: "unat (np + COUNTER_SIZE) = unat np + unat COUNTER_SIZE"
    using assms(1,3) np unfolding wf_parser_def by (intro unat_plus) linarith
  have "unat sz + unat (np + COUNTER_SIZE) < 2 ^ 64"
    using assms(1,3) np used unfolding wf_parser_def by linarith
  then have "unat (sz + np + COUNTER_SIZE) = unat sz + (unat np + unat COUNTER_SIZE)"
    by (simp add: add.assoc unat_plus used)
  then have n: "unat sz + (unat np + unat COUNTER_SIZE) \<le> unat n"
    using grow_enough [of "sz + np + COUNTER_SIZE" "m_initial_buffer_size p"]
    by (simp add: word_le_nat_alt n_def)
  have body: "take (unat np) (drop (unat (m_off p)) (m_buffer p)) = contents p"
    by (simp add: contents_def np drop_take)
  have len: "length (contents p) = unat np"
    using assms(1) by (simp add: contents_def np wf_parser_def)
  have mem: "length tmp = unat n" "unat n < 2 ^ 63"
    using assms(2) tmp by (simp_all add: good_alloc_def)
  have free: "unat (n - (np + COUNTER_SIZE)) = unat n - (unat np + unat COUNTER_SIZE)"
    using n by (subst unat_minus) (simp_all add: used)
  have fields: "m_buffer q = memcpy tmp (unat COUNTER_SIZE) (contents p)" "m_used q = np + COUNTER_SIZE"
      "m_free q = n - (np + COUNTER_SIZE)" "m_off q = COUNTER_SIZE"
    by (simp_all add: q body)
  have "contents q = contents p"
    using n by (simp add: contents_def [of q] fields used len memcpy_def mem)
  moreover have "wf_parser q"
    using n mem(2) by (simp add: wf_parser_def fields used len free memcpy_def mem)
  moreover have "sz \<le> m_free q"
    using n by (simp add: fields word_le_nat_alt free)
  ultimately show ?thesis
    by (simp add: grown_def)
qed

lemma expand_buffer_grown:
  assumes "wf_parser p" "good_alloc alloc" "unat sz + unat (m_used p) < 2 ^ 64" "expand_buffer alloc sz p = Some q"
  shows "grown sz p q"
proof -
  define p1 where "p1 = (if can_rewind p then rewind p else p)"
  have p1: "wf_parser p1" "contents p1 = contents p" "unat sz + unat (m_used p1) < 2 ^ 64"
    using rewind_wf [of p] assms(1,3) by (auto simp: p1_def rewind_def wf_parser_def can_rewind_def)
  have "sz \<le> m_free p1 \<and> q = p1 \<or> enlarge alloc sz p1 = Some q \<or> move alloc sz p1 = Some q"
    using assms(4) unfolding expand_buffer_def Let_def p1_def [symmetric] by (auto split: if_splits)
  then have "grown sz p1 q"
    using p1 enlarge_grown [of p1 alloc sz q] move_grown [of p1 alloc sz q] assms(2) by (auto simp: grown_def)
  with p1(2) show ?thesis
    by (simp add: grown_def)
qed

lemma reserve_buffer_grown:
  assumes "wf_parser p" "good_alloc alloc" "unat sz + unat (m_used p) < 2 ^ 64" "reserve_buffer alloc sz p = Some q"
  shows "grown sz p q"
  using assms expand_buffer_grown by (auto simp: reserve_buffer_def grown_def split: if_splits)

section \<open>Parsing and receiving\<close>

definition execute_imp :: "ctx \<Rightarrow> parser \<Rightarrow> unpack_error + parse_return \<times> ctx \<times> parser" where
  "execute_imp c p =
     (case execute c (contents p) of
        Inl e \<Rightarrow> Inl e
      | Inr (ret, c', rest) \<Rightarrow>
          (let off = m_off p; p' = p\<lparr>m_off := m_used p - word_of_nat (length rest)\<rparr>
           in Inr (ret, c', if off < m_off p' then p'\<lparr>m_parsed := m_parsed p' + (m_off p' - off)\<rparr> else p')))"

definition reset :: "ctx \<Rightarrow> parser \<Rightarrow> ctx \<times> parser" where
  "reset c p = (parser_init c, p\<lparr>m_parsed := 0\<rparr>)"

definition next_in_buffer :: "ctx \<Rightarrow> parser \<Rightarrow> unpack_error + object option \<times> ctx \<times> parser" where
  "next_in_buffer c p =
     (case execute_imp c p of
        Inl e \<Rightarrow> Inl e
      | Inr (ret, c', p') \<Rightarrow>
          if ret = PARSE_SUCCESS
          then (case reset c' p' of (c2, p2) \<Rightarrow> Inr (Some (visitor_data (m_visitor c')), c2, p2))
          else Inr (None, c', p'))"

definition received :: "byte list \<Rightarrow> parser \<Rightarrow> parser" where
  "received bs p =
     buffer_consumed (word_of_nat (length bs)) (p\<lparr>m_buffer := memcpy (m_buffer p) (unat (m_used p)) bs\<rparr>)"

lemma contents_length: "wf_parser p \<Longrightarrow> length (contents p) = unat (m_used p) - unat (m_off p)"
  by (simp add: contents_def wf_parser_def)

lemma contents_advance:
  assumes "wf_parser p" "suffix rest (contents p)"
  shows "contents (p\<lparr>m_off := m_used p - word_of_nat (length rest)\<rparr>) = rest"
    and "wf_parser (p\<lparr>m_off := m_used p - word_of_nat (length rest)\<rparr>)"
proof -
  have le: "length rest \<le> unat (m_used p) - unat (m_off p)" "unat (m_used p) < 2 ^ 63" "unat (m_off p) \<le> unat (m_used p)"
    using suffix_length_le [OF assms(2)] assms(1) by (auto simp: contents_length wf_parser_def)
  then have "unat (word_of_nat (length rest) :: size_t) = length rest"
    by (simp add: unat_of_nat)
  then have off: "unat (m_used p - word_of_nat (length rest)) = unat (m_used p) - length rest"
    using le by (subst unat_minus) auto
  obtain k where k: "rest = drop k (contents p)" "k \<le> length (contents p)"
    using assms(2) by (metis append_eq_conv_conj length_append le_add1 suffix_def)
  have "unat (m_used p - word_of_nat (length rest)) = k + unat (m_off p)"
    unfolding off using k le assms(1) by (simp add: contents_length)
  then have "contents (p\<lparr>m_off := m_used p - word_of_nat (length rest)\<rparr>) = drop k (contents p)"
    by (simp add: contents_def)
  then show "contents (p\<lparr>m_off := m_used p - word_of_nat (length rest)\<rparr>) = rest"
    by (simp only: k(1) [symmetric])
  show "wf_parser (p\<lparr>m_off := m_used p - word_of_nat (length rest)\<rparr>)"
    using assms(1) le by (auto simp: wf_parser_def off)
qed

lemma contents_parsed [simp]:
  "contents (p\<lparr>m_parsed := k\<rparr>) = contents p" "wf_parser (p\<lparr>m_parsed := k\<rparr>) = wf_parser p"
  "contents (p\<lparr>m_count := n, m_referenced := r\<rparr>) = contents p"
  "wf_parser (p\<lparr>m_count := n, m_referenced := r\<rparr>) = wf_parser p"
  by (simp_all add: contents_def wf_parser_def)

lemma next_in_buffer_refines:
  assumes "wf_parser p"
  shows "(case next_in_buffer c p of
        Inl e \<Rightarrow> unpacker_next c (contents p) = Inl e
      | Inr (x, c', p') \<Rightarrow> unpacker_next c (contents p) = Inr (x, c', contents p') \<and> wf_parser p')"
proof (cases "execute c (contents p)")
  case (Inr res)
  obtain ret c' rest where res: "res = (ret, c', rest)" by (cases res)
  have "suffix rest (contents p)"
    using execute_leaves [of c "contents p" ret c' rest] Inr res suffix_drop suffix_order.trans by blast
  from contents_advance [OF assms this] Inr res show ?thesis
    by (auto simp: next_in_buffer_def execute_imp_def unpacker_next_def reset_def Let_def)
qed (simp add: next_in_buffer_def execute_imp_def unpacker_next_def)

lemma received_contents:
  assumes "wf_parser p" "length bs \<le> unat (m_free p)"
  shows "contents (received bs p) = contents p @ bs" and "wf_parser (received bs p)"
proof -
  have len: "unat (word_of_nat (length bs) :: size_t) = length bs"
    using assms by (simp add: unat_of_nat wf_parser_def)
  then have used: "unat (m_used p + word_of_nat (length bs)) = unat (m_used p) + length bs"
    using assms by (subst unat_plus) (auto simp: wf_parser_def)
  have free: "unat (m_free p - word_of_nat (length bs)) = unat (m_free p) - length bs"
    using assms len by (subst unat_minus) auto
  show "contents (received bs p) = contents p @ bs"
    using assms by (simp add: received_def buffer_consumed_def contents_def memcpy_def used wf_parser_def)
  show "wf_parser (received bs p)"
    using assms by (auto simp: received_def buffer_consumed_def memcpy_def used free wf_parser_def)
qed

section \<open>A session that reads\<close>

text \<open>
  The handler of a read, the same in the client and in the server: \<open>bs\<close> has arrived at the
  buffer's free part, every complete object is taken, and the buffer is enlarged when less
  than the next read may bring is free. \<open>own\<close> is what the counter and the flag are by then.
\<close>

partial_function (option) next_loop ::
  "ctx \<Rightarrow> parser \<Rightarrow> (object list \<times> (unpack_error + ctx \<times> parser)) option" where
  "next_loop c p =
     (case next_in_buffer c p of
        Inl e \<Rightarrow> Some ([], Inl e)
      | Inr (None, c', p') \<Rightarrow> Some ([], Inr (c', p'))
      | Inr (Some x, c', p') \<Rightarrow> Option.bind (next_loop c' p') (\<lambda>(xs, res). Some (x # xs, res)))"

datatype read_error = Unpack_error unpack_error | Bad_alloc

definition reserve_more :: "alloc \<Rightarrow> parser \<Rightarrow> parser option" where
  "reserve_more alloc p =
     (if buffer_capacity p < default_buffer_size then reserve_buffer alloc default_buffer_size p else Some p)"

definition read_handler ::
  "alloc \<Rightarrow> nat \<times> bool \<Rightarrow> byte list \<Rightarrow> ctx \<Rightarrow> parser \<Rightarrow> (object list \<times> (read_error + ctx \<times> parser)) option" where
  "read_handler alloc own bs c p =
     (case next_loop c (received bs p) of
        None \<Rightarrow> None
      | Some (xs, Inl e) \<Rightarrow> Some (xs, Inl (Unpack_error e))
      | Some (xs, Inr (c', p')) \<Rightarrow>
          (case reserve_more alloc (p'\<lparr>m_count := fst own, m_referenced := snd own\<rparr>) of
             None \<Rightarrow> Some (xs, Inl Bad_alloc)
           | Some p2 \<Rightarrow> Some (xs, Inr (c', p2))))"

fun read_session ::
  "alloc \<Rightarrow> ctx \<Rightarrow> parser \<Rightarrow> ((nat \<times> bool) \<times> byte list) list
    \<Rightarrow> (object list \<times> (read_error + ctx \<times> parser)) option" where
  "read_session alloc c p [] = Some ([], Inr (c, p))"
| "read_session alloc c p ((own, bs) # chunks) =
     (case read_handler alloc own bs c p of
        None \<Rightarrow> None
      | Some (xs, Inl e) \<Rightarrow> Some (xs, Inl e)
      | Some (xs, Inr (c', p')) \<Rightarrow>
          map_option (\<lambda>(ys, res). (xs @ ys, res)) (read_session alloc c' p' chunks))"

definition new_session :: "alloc \<Rightarrow> bool \<Rightarrow> (ctx \<times> parser) option" where
  "new_session alloc f =
     (case new_parser alloc INIT_BUFFER_SIZE of
        None \<Rightarrow> None
      | Some p \<Rightarrow> map_option (Pair (init_ctx f default_limit)) (reserve_buffer alloc default_buffer_size p))"

text \<open>The same outcome, the contents of the buffer being the bytes that are left.\<close>

definition same_outcome :: "unpack_error + ctx \<times> parser \<Rightarrow> unpack_error + ctx \<times> byte list \<Rightarrow> bool" where
  "same_outcome res res' =
     (case res of
        Inl e \<Rightarrow> res' = Inl e
      | Inr (c, p) \<Rightarrow> res' = Inr (c, contents p) \<and> wf_parser p)"

lemma next_loop_refines:
  assumes "wf_parser p"
  shows "\<exists>res. next_loop c p = Some (fst (next_all c (contents p)), res) \<and>
     same_outcome res (snd (next_all c (contents p)))"
  using assms
proof (induction c "contents p" arbitrary: p rule: next_all.induct)
  case (1 c)
  note ref = next_in_buffer_refines [OF 1(2), of c]
  consider (error) e where "next_in_buffer c p = Inl e"
    | (wait) c' p' where "next_in_buffer c p = Inr (None, c', p')"
    | (found) x c' p' where "next_in_buffer c p = Inr (Some x, c', p')"
    by (metis not_None_eq old.prod.exhaust sum.exhaust)
  then show ?case
  proof cases
    case found
    with ref have u: "unpacker_next c (contents p) = Inr (Some x, c', contents p')" and wf: "wf_parser p'"
      by simp_all
    from 1(1) [OF u refl refl refl wf] found show ?thesis
      by (auto simp: next_loop.simps [of c p] next_all.simps [of c "contents p"] u case_prod_beta)
  qed (use ref in \<open>auto simp: next_loop.simps [of c p] next_all.simps [of c "contents p"] same_outcome_def\<close>)
qed

lemma reserve_more_ready:
  assumes "wf_parser p" "good_alloc alloc" "reserve_more alloc p = Some q"
  shows "wf_parser q \<and> contents q = contents p \<and> default_buffer_size \<le> m_free q"
proof (cases "m_free p < default_buffer_size")
  case True
  have "unat default_buffer_size + unat (m_used p) < 2 ^ 64"
    using assms(1) by (auto simp: wf_parser_def default_buffer_size_def)
  with reserve_buffer_grown [OF assms(1,2), of default_buffer_size q] assms(3) True show ?thesis
    by (simp add: reserve_more_def buffer_capacity_def grown_def)
qed (use assms in \<open>auto simp: reserve_more_def buffer_capacity_def\<close>)

text \<open>
  The invariant of the session: the buffer is well-formed and has room for what the next read
  may bring. It holds from the start and after every read, and what the session hands out is
  what the unpacker finds in the bytes received.
\<close>

definition ready :: "parser \<Rightarrow> bool" where
  "ready p \<longleftrightarrow> wf_parser p \<and> default_buffer_size \<le> m_free p"

lemma ready_received:
  assumes "ready p" "length bs \<le> unat default_buffer_size"
  shows "contents (received bs p) = contents p @ bs" "wf_parser (received bs p)"
  using received_contents [of p bs] assms by (auto simp: ready_def word_le_nat_alt)

lemma new_session_ready:
  assumes "good_alloc alloc" "new_session alloc f = Some (c, p)"
  shows "ready p \<and> c = init_ctx f default_limit \<and> contents p = []"
proof -
  obtain p0 where p0: "new_parser alloc INIT_BUFFER_SIZE = Some p0"
      "reserve_buffer alloc default_buffer_size p0 = Some p" "c = init_ctx f default_limit"
    using assms(2) by (auto simp: new_session_def split: option.splits)
  have wf: "wf_parser p0" "contents p0 = []" "m_used p0 = 4"
    using p0(1) assms(1) by (auto simp: new_parser_def INIT_BUFFER_SIZE_def COUNTER_SIZE_def
        good_alloc_def wf_parser_def contents_def Let_def split: option.splits)
  have "unat default_buffer_size + unat (m_used p0) < 2 ^ 64"
    by (simp add: wf(3) default_buffer_size_def)
  from reserve_buffer_grown [OF wf(1) assms(1) this p0(2)] wf p0(3) show ?thesis
    by (simp add: grown_def ready_def)
qed

definition session_outcome ::
  "object list \<times> (read_error + ctx \<times> parser) \<Rightarrow> object list \<times> (unpack_error + ctx \<times> byte list) \<Rightarrow> bool" where
  "session_outcome out spec =
     (case out of
        (xs, Inl Bad_alloc) \<Rightarrow> True
      | (xs, Inl (Unpack_error e)) \<Rightarrow> spec = (xs, Inl e)
      | (xs, Inr (c, p)) \<Rightarrow> spec = (xs, Inr (c, contents p)) \<and> ready p)"

lemma session_outcome_prepend:
  "session_outcome (ys, res) (read_chunks c' rem chunks) \<Longrightarrow> next_all c s = (xs, Inr (c', rem)) \<Longrightarrow>
   s = r @ b \<Longrightarrow> session_outcome (xs @ ys, res) (read_chunks c r (b # chunks))"
  by (auto simp: session_outcome_def split: sum.splits read_error.splits prod.splits)

lemma read_session_refines:
  assumes "good_alloc alloc" "ready p" "\<forall>ch \<in> set chunks. length (snd ch) \<le> unat default_buffer_size"
  shows "\<exists>out. read_session alloc c p chunks = Some out \<and>
     session_outcome out (read_chunks c (contents p) (map snd chunks))"
  using assms(2,3)
proof (induction chunks arbitrary: c p)
  case (Cons ch chunks)
  obtain own bs where ch: "ch = (own, bs)" by (cases ch)
  have bs: "contents (received bs p) = contents p @ bs" "wf_parser (received bs p)"
    using ready_received [OF Cons.prems(1), of bs] Cons.prems(2) ch by auto
  obtain xs res spec where loop: "next_loop c (received bs p) = Some (xs, res)"
    "next_all c (contents p @ bs) = (xs, spec)" "same_outcome res spec"
    using next_loop_refines [OF bs(2), of c] unfolding bs(1) by (cases "next_all c (contents p @ bs)") auto
  show ?case
  proof (cases res)
    case (Inl e)
    with loop show ?thesis
      by (simp add: ch read_handler_def same_outcome_def session_outcome_def)
  next
    case (Inr cp)
    obtain c' p' where cp: "cp = (c', p')" by (cases cp)
    let ?p2 = "p'\<lparr>m_count := fst own, m_referenced := snd own\<rparr>"
    show ?thesis
    proof (cases "reserve_more alloc ?p2")
      case None
      with loop(1) Inr cp show ?thesis
        by (simp add: ch read_handler_def session_outcome_def)
    next
      case (Some p3)
      with reserve_more_ready [of ?p2 alloc p3] assms(1) loop(3) Inr cp
      have p3: "ready p3" "contents p3 = contents p'" "spec = Inr (c', contents p')"
        by (simp_all add: ready_def same_outcome_def)
      obtain ys res' where out: "read_session alloc c' p3 chunks = Some (ys, res')"
        "session_outcome (ys, res') (read_chunks c' (contents p') (map snd chunks))"
        using Cons.IH [OF p3(1), of c'] Cons.prems(2) unfolding p3(2) by auto
      then have "session_outcome (xs @ ys, res') (read_chunks c (contents p) (bs # map snd chunks))"
        using loop(2) p3(3) by (intro session_outcome_prepend) auto
      with Some loop(1) Inr cp out(1) show ?thesis
        by (simp add: ch read_handler_def)
    qed
  qed
qed (use assms in \<open>simp add: session_outcome_def\<close>)

section \<open>Properties\<close>

text \<open>
  C25. The receive buffer refines the stream: a session, from its construction on, reads
  any chunks the socket delivers (each of at most the size it asks for) without leaving the
  buffer, and unless memory runs out its objects, its error or its rest are those of the
  unpacker on the bytes received, whatever the owners of earlier objects do to the counter.
\<close>

theorem session_refines_stream:
  assumes "good_alloc alloc" "new_session alloc f = Some (c, p)"
    and "\<forall>ch \<in> set chunks. length (snd ch) \<le> unat default_buffer_size"
  shows "\<exists>out. read_session alloc c p chunks = Some out \<and>
     session_outcome out (read_chunks (init_ctx f default_limit) [] (map snd chunks))"
  using read_session_refines [OF assms(1) _ assms(3), of p c] new_session_ready [OF assms(1,2)] by auto

definition sample_alloc :: alloc where
  "sample_alloc n = (if n < 2 ^ 40 then Some (replicate (unat n) 0) else None)"

lemma sample_alloc_good: "good_alloc sample_alloc"
  by (auto simp: good_alloc_def sample_alloc_def word_less_nat_alt split: if_splits)

lemma sample_session: "\<exists>c p. new_session sample_alloc True = Some (c, p)"
  by (simp add: new_session_def new_parser_def sample_alloc_def INIT_BUFFER_SIZE_def COUNTER_SIZE_def
      reserve_buffer_def expand_buffer_def enlarge_def can_rewind_def rewind_def default_buffer_size_def
      Let_def grow.simps)

theorem session_refines_stream_witness:
  "\<exists>c p out. new_session sample_alloc True = Some (c, p) \<and>
     read_session sample_alloc c p [((2, True), take 3 (pack_object NIL)), ((1, False), [0xc3])] = Some out \<and>
     session_outcome out (read_chunks (init_ctx True default_limit) [] [take 3 (pack_object NIL), [0xc3]])"
proof -
  obtain c p where "new_session sample_alloc True = Some (c, p)"
    using sample_session by blast
  from session_refines_stream [OF sample_alloc_good this,
      of "[((2, True), take 3 (pack_object NIL)), ((1, False), [0xc3])]"] this
  show ?thesis
    by (auto simp: default_buffer_size_def pack_nil_def)
qed

text \<open>
  C26. Growing the buffer: a reservation that succeeds makes free what was asked for, keeps the bytes not yet
  parsed in order and the buffer well-formed, whether it is rewound, enlarged or moved, exactly
  when the size asked for and what is used do not add up to \<open>2 ^ 64\<close> or more. If they do, the sum wraps around in the test of
  the loop, the block is too small, and one of the three is lost.
\<close>

theorem reserve_keeps_contents:
  assumes "wf_parser p" "good_alloc alloc" "reserve_buffer alloc sz p = Some q"
  shows "(wf_parser q \<and> contents q = contents p \<and> sz \<le> m_free q) \<longleftrightarrow>
    unat sz + unat (m_used p) < 2 ^ 64"
proof
  assume "wf_parser q \<and> contents q = contents p \<and> sz \<le> m_free q"
  then have "unat sz < 2 ^ 63" by (simp add: wf_parser_def word_le_nat_alt)
  then show "unat sz + unat (m_used p) < 2 ^ 64" using assms(1) by (simp add: wf_parser_def)
qed (use reserve_buffer_grown [OF assms(1,2) _ assms(3)] in \<open>simp add: grown_def\<close>)

definition sample_parser :: parser where
  "sample_parser =
     \<lparr>m_buffer = [0, 0, 0, 0, 1, 2], m_used = 6, m_free = 0, m_off = 5, m_parsed = 0,
      m_initial_buffer_size = 4, m_count = 1, m_referenced = False\<rparr>"

lemma sample_parser_wf: "wf_parser sample_parser" "contents sample_parser = [2]"
  by (simp_all add: wf_parser_def sample_parser_def COUNTER_SIZE_def contents_def)

text \<open>
  Asked for \<open>2 ^ 64 - 4\<close> bytes, the buffer is moved to a block of four bytes, which the counter
  takes up, and one byte that was not parsed is copied behind its end.
\<close>

lemma reserve_wraps:
  "reserve_buffer sample_alloc (- 4) sample_parser =
     Some (sample_parser\<lparr>m_buffer := [0, 0, 0, 0, 2], m_used := 5, m_free := - 1, m_off := 4\<rparr>)"
  by (simp add: reserve_buffer_def expand_buffer_def move_def can_rewind_def sample_parser_def memcpy_def
      COUNTER_SIZE_def Let_def grow.simps sample_alloc_def)
    (simp add: eval_nat_numeral)

theorem reserve_keeps_contents_witness:
  "(\<exists>q. reserve_buffer sample_alloc 3 sample_parser = Some q \<and> contents q = [2] \<and> 3 \<le> m_free q)
   \<and> (\<exists>q. reserve_buffer sample_alloc (- 4) sample_parser = Some q
        \<and> \<not> (wf_parser q \<and> contents q = [2] \<and> - 4 \<le> m_free q))"
proof
  have "\<exists>q. reserve_buffer sample_alloc 3 sample_parser = Some q"
    by (simp add: reserve_buffer_def expand_buffer_def move_def can_rewind_def sample_parser_def
        COUNTER_SIZE_def Let_def grow.simps sample_alloc_def)
  moreover have "unat (3 :: size_t) + unat (m_used sample_parser) < 2 ^ 64"
    by (simp add: sample_parser_def)
  ultimately show "\<exists>q. reserve_buffer sample_alloc 3 sample_parser = Some q \<and> contents q = [2] \<and> 3 \<le> m_free q"
    using reserve_keeps_contents [OF sample_parser_wf(1) sample_alloc_good, of 3] sample_parser_wf(2) by auto
  have "\<not> unat (- 4 :: size_t) + unat (m_used sample_parser) < 2 ^ 64"
    by (simp add: sample_parser_def)
  then show "\<exists>q. reserve_buffer sample_alloc (- 4) sample_parser = Some q
        \<and> \<not> (wf_parser q \<and> contents q = [2] \<and> - 4 \<le> m_free q)"
    using reserve_keeps_contents [OF sample_parser_wf(1) sample_alloc_good reserve_wraps] reserve_wraps
      sample_parser_wf(2) by metis
qed

end
