(* ===== verification/Msgpack_Zone.thy ===== *)
theory Msgpack_Zone
  imports Msgpack_Buffer
begin

text \<open>
  The zone the objects of a message are built in (\<open>v1/detail/cpp11_zone.hpp\<close>): a list of
  chunks of memory, of which the first is being filled, and the finalizers to call when the
  zone is cleared. What is promised is that the blocks it gives out lie in its chunks, have
  the alignment asked for and never overlap, and that the destructors of the objects built,
  and of no others, run in reverse order.

  \<open>malloc live n\<close> is a parameter: the address of a new block of \<open>n\<close> bytes, given the blocks the
  zone holds, or nothing. An address is a \<open>size_t\<close>, as the code's own casts have it.
\<close>

section \<open>Finalizers of a zone\<close>

text \<open>
  An array that is extended when it is full: four slots at first, then twice as many. Only the
  slots below the tail have been set. Running out of memory is \<open>None\<close>; \<open>mem n\<close> says whether
  there is memory for \<open>n\<close> slots, and what is in it.
\<close>

record 'f finalizer_array =
  f_array :: "'f list"
  f_tail :: nat

definition no_finalizers :: "'f finalizer_array" where
  "no_finalizers = \<lparr>f_array = [], f_tail = 0\<rparr>"

definition push_expand :: "(nat \<Rightarrow> 'f list option) \<Rightarrow> 'f \<Rightarrow> 'f finalizer_array \<Rightarrow> 'f finalizer_array option" where
  "push_expand mem x f =
     (let nused = length (f_array f);
          nnext = (if nused = 0 then 4 else nused * 2)
      in map_option (\<lambda>tmp. \<lparr>f_array = (f_array f @ drop nused tmp)[nused := x], f_tail = Suc nused\<rparr>) (mem nnext))"

definition push_finalizer :: "(nat \<Rightarrow> 'f list option) \<Rightarrow> 'f \<Rightarrow> 'f finalizer_array \<Rightarrow> 'f finalizer_array option" where
  "push_finalizer mem x f =
     (if f_tail f = length (f_array f) then push_expand mem x f
      else Some \<lparr>f_array = (f_array f)[f_tail f := x], f_tail = Suc (f_tail f)\<rparr>)"

text \<open>The finalizers in the order in which they are called.\<close>

fun call_from :: "nat \<Rightarrow> 'f list \<Rightarrow> 'f list" where
  "call_from 0 xs = []"
| "call_from (Suc n) xs = xs ! n # call_from n xs"

definition call_finalizers :: "'f finalizer_array \<Rightarrow> 'f list" where
  "call_finalizers f = call_from (f_tail f) (f_array f)"

definition clear_finalizers :: "'f finalizer_array \<Rightarrow> 'f list \<times> 'f finalizer_array" where
  "clear_finalizers f = (call_finalizers f, f\<lparr>f_tail := 0\<rparr>)"

definition finalizers_in :: "'f finalizer_array \<Rightarrow> 'f list" where
  "finalizers_in f = take (f_tail f) (f_array f)"

definition good_mem :: "(nat \<Rightarrow> 'f list option) \<Rightarrow> bool" where
  "good_mem mem \<longleftrightarrow> (\<forall>n tmp. mem n = Some tmp \<longrightarrow> length tmp = n)"

lemma call_from_rev: "n \<le> length xs \<Longrightarrow> call_from n xs = rev (take n xs)"
  by (induction n) (simp_all add: take_Suc_conv_app_nth)

lemma push_finalizer_pushed:
  assumes "f_tail f \<le> length (f_array f)" "good_mem mem" "push_finalizer mem x f = Some g"
  shows "f_tail g \<le> length (f_array g) \<and> finalizers_in g = finalizers_in f @ [x]"
proof (cases "f_tail f = length (f_array f)")
  case True
  let ?n = "length (f_array f)"
  obtain tmp where tmp: "mem (if ?n = 0 then 4 else ?n * 2) = Some tmp"
      "g = \<lparr>f_array = (f_array f @ drop ?n tmp)[?n := x], f_tail = Suc ?n\<rparr>"
    using assms(3) True by (auto simp: push_finalizer_def push_expand_def Let_def)
  then have "length tmp = (if ?n = 0 then 4 else ?n * 2)"
    using assms(2) by (simp add: good_mem_def)
  then have "?n < length tmp" by (auto split: if_splits)
  with tmp(2) True show ?thesis
    by (simp add: finalizers_in_def take_Suc_conv_app_nth)
next
  case False
  with assms show ?thesis
    by (auto simp: push_finalizer_def finalizers_in_def take_Suc_conv_app_nth)
qed

text \<open>The last one pushed is the first one called.\<close>

lemma finalizers_called:
  "f_tail f \<le> length (f_array f) \<Longrightarrow> clear_finalizers f = (rev (finalizers_in f), f\<lparr>f_tail := 0\<rparr>) \<and> finalizers_in (f\<lparr>f_tail := 0\<rparr>) = []"
  by (simp add: clear_finalizers_def call_finalizers_def call_from_rev finalizers_in_def)

section \<open>Chunks of a zone\<close>

text \<open>An address and a number of bytes.\<close>

type_synonym span = "size_t \<times> size_t"

type_synonym malloc = "span list \<Rightarrow> size_t \<Rightarrow> size_t option"

text \<open>
  The chunks are those reached from \<open>m_head\<close>, as the memory after the pointer to the next one;
  how long each is, the code remembers for the first only, as \<open>m_free\<close> and \<open>m_ptr\<close>.
\<close>

record chunk_list =
  cl_chunks :: "span list"
  cl_free :: size_t
  cl_ptr :: size_t

record 'f zone =
  z_chunk_size :: size_t
  z_chunk_list :: chunk_list
  z_finalizers :: "('f \<times> size_t) finalizer_array"

definition CHUNK_HEADER :: size_t where "CHUNK_HEADER = 8"

definition whole :: "span \<Rightarrow> span" where
  "whole c = (fst c - CHUNK_HEADER, snd c + CHUNK_HEADER)"

definition new_chunk_list :: "malloc \<Rightarrow> size_t \<Rightarrow> chunk_list option" where
  "new_chunk_list malloc chunk_size =
     map_option (\<lambda>c. \<lparr>cl_chunks = [(c + CHUNK_HEADER, chunk_size)], cl_free = chunk_size, cl_ptr = c + CHUNK_HEADER\<rparr>)
       (malloc [] (CHUNK_HEADER + chunk_size))"

text \<open>All chunks but the last are freed. A list without chunks has a null pointer there, \<open>None\<close>.\<close>

definition clear_chunk_list :: "size_t \<Rightarrow> chunk_list \<Rightarrow> chunk_list option" where
  "clear_chunk_list chunk_size cl =
     (if cl_chunks cl = [] then None
      else Some \<lparr>cl_chunks = [last (cl_chunks cl)], cl_free = chunk_size, cl_ptr = fst (last (cl_chunks cl))\<rparr>)"

text \<open>The new list and what is left of the other one: the head, and only the head, is reset.\<close>

definition move_chunk_list :: "chunk_list \<Rightarrow> chunk_list \<times> chunk_list" where
  "move_chunk_list cl = (cl, cl\<lparr>cl_chunks := []\<rparr>)"

section \<open>Operations of a zone\<close>

definition new_zone :: "malloc \<Rightarrow> size_t \<Rightarrow> 'f zone option" where
  "new_zone malloc chunk_size =
     map_option (\<lambda>cl. \<lparr>z_chunk_size = chunk_size, z_chunk_list = cl, z_finalizers = no_finalizers\<rparr>)
       (new_chunk_list malloc chunk_size)"

definition get_aligned :: "size_t \<Rightarrow> size_t \<Rightarrow> size_t" where
  "get_aligned ptr align = (ptr + (align - 1)) div align * align"

definition allocate_expand :: "malloc \<Rightarrow> size_t \<Rightarrow> 'f zone \<Rightarrow> (size_t \<times> 'f zone) option" where
  "allocate_expand malloc len z =
     (let cl = z_chunk_list z;
          sz = grow len (z_chunk_size z)
      in map_option (\<lambda>c. let ptr = c + CHUNK_HEADER
             in (ptr, z\<lparr>z_chunk_list := \<lparr>cl_chunks = (ptr, sz) # cl_chunks cl, cl_free = sz, cl_ptr = ptr\<rparr>\<rparr>))
           (malloc (map whole (cl_chunks cl)) (CHUNK_HEADER + sz)))"

definition take_bytes :: "size_t \<Rightarrow> 'f zone \<Rightarrow> 'f zone" where
  "take_bytes n z = z\<lparr>z_chunk_list := (z_chunk_list z)\<lparr>cl_free := cl_free (z_chunk_list z) - n,
                                                     cl_ptr := cl_ptr (z_chunk_list z) + n\<rparr>\<rparr>"

definition allocate_align :: "malloc \<Rightarrow> size_t \<Rightarrow> size_t \<Rightarrow> 'f zone \<Rightarrow> (size_t \<times> 'f zone) option" where
  "allocate_align malloc len align z =
     (let aligned = get_aligned (cl_ptr (z_chunk_list z)) align;
          adjusted_size = len + (aligned - cl_ptr (z_chunk_list z))
      in if cl_free (z_chunk_list z) < adjusted_size
         then let enough_size = len + align - 1
              in map_option (\<lambda>(ptr, z).
                   let aligned = get_aligned ptr align;
                       adjusted_size = len + (aligned - cl_ptr (z_chunk_list z))
                   in (aligned, take_bytes adjusted_size z)) (allocate_expand malloc enough_size z)
         else Some (aligned, take_bytes adjusted_size z))"

definition allocate_no_align :: "malloc \<Rightarrow> size_t \<Rightarrow> 'f zone \<Rightarrow> (size_t \<times> 'f zone) option" where
  "allocate_no_align malloc len z =
     map_option (\<lambda>(ptr, z). (ptr, take_bytes len z))
       (if cl_free (z_chunk_list z) < len then allocate_expand malloc len z
        else Some (cl_ptr (z_chunk_list z), z))"

definition undo_allocate :: "size_t \<Rightarrow> 'f zone \<Rightarrow> 'f zone" where
  "undo_allocate n z = z\<lparr>z_chunk_list := (z_chunk_list z)\<lparr>cl_ptr := cl_ptr (z_chunk_list z) - n,
                                                        cl_free := cl_free (z_chunk_list z) + n\<rparr>\<rparr>"

text \<open>
  \<open>allocate<T>\<close>: \<open>fn\<close> is the destructor of \<open>T\<close>, and \<open>built\<close> says whether its constructor returns
  (it may throw). The object's address, or nothing when an exception leaves.
\<close>

definition allocate_object ::
    "malloc \<Rightarrow> (nat \<Rightarrow> ('f \<times> size_t) list option) \<Rightarrow> 'f \<Rightarrow> size_t \<Rightarrow> size_t \<Rightarrow> bool \<Rightarrow> 'f zone \<Rightarrow> size_t option \<times> 'f zone" where
  "allocate_object malloc mem fn len align built z =
     (case allocate_align malloc len align z of
        None \<Rightarrow> (None, z)
      | Some (x, z) \<Rightarrow>
          (case push_finalizer mem (fn, x) (z_finalizers z) of
             None \<Rightarrow> (None, undo_allocate len z)
           | Some f \<Rightarrow>
               (if built then (Some x, z\<lparr>z_finalizers := f\<rparr>)
                else (None, undo_allocate len (z\<lparr>z_finalizers := f\<lparr>f_tail := f_tail f - 1\<rparr>\<rparr>)))))"

definition clear_zone :: "'f zone \<Rightarrow> (('f \<times> size_t) list \<times> 'f zone) option" where
  "clear_zone z =
     (case clear_finalizers (z_finalizers z) of
        (called, f) \<Rightarrow>
          map_option (\<lambda>cl. (called, z\<lparr>z_chunk_list := cl, z_finalizers := f\<rparr>))
            (clear_chunk_list (z_chunk_size z) (z_chunk_list z)))"

text \<open>What the destructor calls and frees.\<close>

definition destroy_zone :: "'f zone \<Rightarrow> ('f \<times> size_t) list \<times> span list" where
  "destroy_zone z = (call_finalizers (z_finalizers z), map whole (cl_chunks (z_chunk_list z)))"

definition move_zone :: "'f zone \<Rightarrow> 'f zone \<times> 'f zone" where
  "move_zone z =
     (case move_chunk_list (z_chunk_list z) of
        (new, old) \<Rightarrow>
          (\<lparr>z_chunk_size = z_chunk_size z, z_chunk_list = new, z_finalizers = z_finalizers z\<rparr>,
           z\<lparr>z_chunk_list := old, z_finalizers := no_finalizers\<rparr>))"

text \<open>Assignment destroys the target's chunks and finalizers first.\<close>

definition assign_zone :: "'f zone \<Rightarrow> 'f zone \<Rightarrow> (('f \<times> size_t) list \<times> span list) \<times> 'f zone \<times> 'f zone" where
  "assign_zone this other = (destroy_zone this, move_zone other)"

definition swap_zones :: "'f zone \<Rightarrow> 'f zone \<Rightarrow> (('f \<times> size_t) list \<times> span list) list \<times> 'f zone \<times> 'f zone" where
  "swap_zones a b =
     (case move_zone a of
        (tmp, a) \<Rightarrow>
          (case assign_zone a b of
             (gone1, a, b) \<Rightarrow>
               (case assign_zone b tmp of
                  (gone2, b, tmp) \<Rightarrow> ([gone1, gone2, destroy_zone tmp], a, b))))"

section \<open>Blocks that do not overlap\<close>

definition apart :: "span \<Rightarrow> span \<Rightarrow> bool" where
  "apart b c \<longleftrightarrow> unat (fst b) + unat (snd b) \<le> unat (fst c) \<or> unat (fst c) + unat (snd c) \<le> unat (fst b)"

definition within :: "span \<Rightarrow> span \<Rightarrow> bool" where
  "within b c \<longleftrightarrow> unat (fst c) \<le> unat (fst b) \<and> unat (fst b) + unat (snd b) \<le> unat (fst c) + unat (snd c)"

lemma apart_sym: "apart b c \<longleftrightarrow> apart c b"
  by (auto simp: apart_def)

lemma within_apart: "within b c \<Longrightarrow> within u d \<Longrightarrow> apart c d \<Longrightarrow> apart b u"
  by (auto simp: apart_def within_def)

lemma within_refl: "within b b"
  by (simp add: within_def)

lemma within_trans: "within a b \<Longrightarrow> within b c \<Longrightarrow> within a c"
  by (simp add: within_def)

text \<open>Of the first chunk, what has been given out; of the others, everything.\<close>

fun given_out :: "span list \<Rightarrow> size_t \<Rightarrow> span list" where
  "given_out [] ptr = []"
| "given_out (c # cs) ptr = (fst c, ptr - fst c) # cs"

definition wf_chunk_list :: "chunk_list \<Rightarrow> bool" where
  "wf_chunk_list cl \<longleftrightarrow>
     cl_chunks cl \<noteq> [] \<and> sorted_wrt apart (map whole (cl_chunks cl)) \<and>
     (\<forall>c\<in>set (cl_chunks cl). 8 \<le> unat (fst c) \<and> unat (fst c) + unat (snd c) < 2 ^ 63) \<and>
     unat (fst (hd (cl_chunks cl))) \<le> unat (cl_ptr cl) \<and>
     unat (cl_ptr cl) + unat (cl_free cl) = unat (fst (hd (cl_chunks cl))) + unat (snd (hd (cl_chunks cl)))"

definition holds :: "chunk_list \<Rightarrow> span list \<Rightarrow> bool" where
  "holds cl bs \<longleftrightarrow> sorted_wrt apart bs \<and> (\<forall>b\<in>set bs. \<exists>c\<in>set (given_out (cl_chunks cl) (cl_ptr cl)). within b c)"

definition good_malloc :: "malloc \<Rightarrow> bool" where
  "good_malloc malloc \<longleftrightarrow>
     (\<forall>live n p. malloc live n = Some p \<longrightarrow> unat p + unat n < 2 ^ 63 \<and> (\<forall>b\<in>set live. apart (p, n) b))"

lemma wf_chunk_listE:
  assumes "wf_chunk_list cl"
  obtains c cs where "cl_chunks cl = c # cs" "unat (fst c) \<le> unat (cl_ptr cl)"
    "unat (cl_ptr cl) + unat (cl_free cl) = unat (fst c) + unat (snd c)" "8 \<le> unat (fst c)"
    "unat (fst c) + unat (snd c) < 2 ^ 63"
  using assms by (cases "cl_chunks cl") (auto simp: wf_chunk_list_def)

lemma unat_whole:
  "8 \<le> unat (fst c) \<Longrightarrow> unat (fst c) + unat (snd c) < 2 ^ 63 \<Longrightarrow>
   unat (fst (whole c)) = unat (fst c) - 8 \<and> unat (snd (whole c)) = unat (snd c) + 8"
  by (simp add: whole_def CHUNK_HEADER_def unat_minus unat_plus)

lemma within_whole:
  "8 \<le> unat (fst c) \<Longrightarrow> unat (fst c) + unat (snd c) < 2 ^ 63 \<Longrightarrow> within c (whole c)"
  using unat_whole [of c] by (simp add: within_def)

lemma given_out_within:
  assumes "wf_chunk_list cl" "u \<in> set (given_out (cl_chunks cl) (cl_ptr cl))"
  shows "\<exists>c\<in>set (cl_chunks cl). within u c"
proof -
  obtain c cs where c: "cl_chunks cl = c # cs" "unat (fst c) \<le> unat (cl_ptr cl)"
      "unat (cl_ptr cl) + unat (cl_free cl) = unat (fst c) + unat (snd c)"
    using assms(1) by (rule wf_chunk_listE)
  then have "within (fst c, cl_ptr cl - fst c) c"
    by (simp add: within_def unat_minus)
  with assms(2) c(1) show ?thesis by (auto simp: within_def)
qed

text \<open>The head chunk is apart from the others, so what is left of it is apart from what is used.\<close>

lemma free_apart:
  assumes "wf_chunk_list cl" "u \<in> set (given_out (cl_chunks cl) (cl_ptr cl))"
  shows "apart (cl_ptr cl, cl_free cl) u"
proof -
  obtain c cs where c: "cl_chunks cl = c # cs" "unat (fst c) \<le> unat (cl_ptr cl)"
      "unat (cl_ptr cl) + unat (cl_free cl) = unat (fst c) + unat (snd c)" "8 \<le> unat (fst c)"
      "unat (fst c) + unat (snd c) < 2 ^ 63"
    using assms(1) by (rule wf_chunk_listE)
  show ?thesis
  proof (cases "u \<in> set cs")
    case True
    with assms(1) c(1) have "apart (whole c) (whole u)" "8 \<le> unat (fst u) \<and> unat (fst u) + unat (snd u) < 2 ^ 63"
      by (auto simp: wf_chunk_list_def)
    then have "apart c u"
      using within_apart [OF within_whole [OF c(4,5)] within_whole [of u]] by blast
    moreover have "within (cl_ptr cl, cl_free cl) c"
      using c by (simp add: within_def)
    ultimately show ?thesis using within_apart [OF _ within_refl] by blast
  next
    case False
    with assms(2) c show ?thesis by (auto simp: apart_def unat_minus)
  qed
qed

lemma free_block_apart:
  assumes "wf_chunk_list cl" "holds cl bs" "within b (cl_ptr cl, cl_free cl)" "u \<in> set bs"
  shows "apart b u"
proof -
  have "\<exists>d\<in>set (given_out (cl_chunks cl) (cl_ptr cl)). within u d"
    using assms(2,4) by (simp add: holds_def)
  then obtain d where "d \<in> set (given_out (cl_chunks cl) (cl_ptr cl))" "within u d" ..
  then show ?thesis
    using free_apart [OF assms(1)] within_apart [OF assms(3)] by blast
qed

lemma take_bytes_holds:
  assumes "wf_chunk_list cl" "holds cl bs" "unat n \<le> unat (cl_free cl)" "within b (cl_ptr cl, n)"
  shows "wf_chunk_list (cl\<lparr>cl_free := cl_free cl - n, cl_ptr := cl_ptr cl + n\<rparr>) \<and>
         holds (cl\<lparr>cl_free := cl_free cl - n, cl_ptr := cl_ptr cl + n\<rparr>) (b # bs)"
proof
  obtain c cs where c: "cl_chunks cl = c # cs" "unat (fst c) \<le> unat (cl_ptr cl)"
      "unat (cl_ptr cl) + unat (cl_free cl) = unat (fst c) + unat (snd c)" "8 \<le> unat (fst c)"
      "unat (fst c) + unat (snd c) < 2 ^ 63"
    using assms(1) by (rule wf_chunk_listE)
  let ?cl = "cl\<lparr>cl_free := cl_free cl - n, cl_ptr := cl_ptr cl + n\<rparr>"
  have n: "unat (cl_ptr cl + n) = unat (cl_ptr cl) + unat n" "unat (cl_free cl - n) = unat (cl_free cl) - unat n"
    using c(3,5) assms(3) by (simp_all add: unat_plus unat_minus)
  with assms(1,3) c(2,3) show "wf_chunk_list ?cl"
    by (simp add: wf_chunk_list_def c(1))
  have used: "given_out (cl_chunks ?cl) (cl_ptr ?cl) = (fst c, cl_ptr cl + n - fst c) # cs"
    using c(1) by simp
  have grown: "\<exists>d\<in>set (given_out (cl_chunks ?cl) (cl_ptr ?cl)). within u d"
    if "u \<in> set (given_out (cl_chunks cl) (cl_ptr cl))" for u
    using that n(1) c(1,2) unfolding used by (auto simp: within_def unat_minus)
  have "within b (cl_ptr cl, cl_free cl)"
    using assms(3,4) by (simp add: within_def)
  then have "sorted_wrt apart (b # bs)"
    using assms(2) free_block_apart [OF assms(1,2)] by (simp add: holds_def)
  moreover have "\<exists>d\<in>set (given_out (cl_chunks ?cl) (cl_ptr ?cl)). within u d" if "u \<in> set (b # bs)" for u
  proof (cases "u = b")
    case True
    have "within b (fst c, cl_ptr cl + n - fst c)"
      using assms(4) n(1) c(2) by (simp add: within_def unat_minus)
    with True show ?thesis unfolding used by simp
  next
    case False
    with assms(2) that have "\<exists>d\<in>set (given_out (cl_chunks cl) (cl_ptr cl)). within u d"
      by (simp add: holds_def)
    then show ?thesis using grown within_trans by blast
  qed
  ultimately show "holds ?cl (b # bs)"
    unfolding holds_def by blast
qed

text \<open>Nothing is left of the memory that was free: its start is the new chunk.\<close>

lemma new_chunk_holds:
  assumes "wf_chunk_list cl" "holds cl bs" "good_malloc malloc" "unat sz < 2 ^ 63"
    and "malloc (map whole (cl_chunks cl)) (CHUNK_HEADER + sz) = Some c"
  shows "wf_chunk_list \<lparr>cl_chunks = (c + CHUNK_HEADER, sz) # cl_chunks cl, cl_free = sz, cl_ptr = c + CHUNK_HEADER\<rparr> \<and>
         holds \<lparr>cl_chunks = (c + CHUNK_HEADER, sz) # cl_chunks cl, cl_free = sz, cl_ptr = c + CHUNK_HEADER\<rparr> bs"
    (is "wf_chunk_list ?cl \<and> _")
proof
  have hdr: "unat (CHUNK_HEADER + sz) = 8 + unat sz"
    using assms(4) by (simp add: CHUNK_HEADER_def unat_plus)
  have new: "unat c + unat (CHUNK_HEADER + sz) < 2 ^ 63" "\<forall>d\<in>set (cl_chunks cl). apart (c, CHUNK_HEADER + sz) (whole d)"
    using assms(3,5) by (auto simp: good_malloc_def)
  moreover from new(1) hdr have ptr: "unat (c + CHUNK_HEADER) = unat c + 8"
    by (simp add: CHUNK_HEADER_def unat_plus)
  moreover have "whole (c + CHUNK_HEADER, sz) = (c, CHUNK_HEADER + sz)"
    by (simp add: whole_def)
  ultimately show "wf_chunk_list ?cl"
    using assms(1) hdr by (simp add: wf_chunk_list_def)
  have "\<exists>d\<in>set (given_out (cl_chunks ?cl) (cl_ptr ?cl)). within b d" if "b \<in> set bs" for b
  proof -
    have "\<exists>u\<in>set (given_out (cl_chunks cl) (cl_ptr cl)). within b u"
      using assms(2) that by (simp add: holds_def)
    then obtain u where u: "u \<in> set (given_out (cl_chunks cl) (cl_ptr cl))" "within b u" ..
    then obtain d where "d \<in> set (cl_chunks cl)" "within u d"
      using given_out_within [OF assms(1)] by blast
    with within_trans [OF u(2) this(2)] show ?thesis by auto
  qed
  with assms(2) show "holds ?cl bs" by (simp add: holds_def)
qed

lemma grow_bound: "unat (grow goal n) \<le> max (unat n) (2 * unat goal)"
proof (induction goal n rule: grow.induct)
  case (1 goal n)
  show ?case
  proof (cases "n < goal \<and> \<not> n * 2 \<le> n")
    case True
    then have "unat (n * 2) \<le> 2 * unat n" "unat n < unat goal"
      by (simp_all add: word_less_nat_alt unat_word_ariths)
    with 1 True show ?thesis by (subst grow.simps) (simp add: Let_def)
  next
    case False
    then show ?thesis by (subst grow.simps) (auto simp: Let_def)
  qed
qed

lemma get_aligned_bounds:
  assumes "unat ptr + unat align < 2 ^ 64" "align \<noteq> 0"
  shows "unat ptr \<le> unat (get_aligned ptr align) \<and> unat (get_aligned ptr align) < unat ptr + unat align \<and>
         unat (get_aligned ptr align) mod unat align = 0"
proof -
  have pos: "0 < unat align" using assms(2) by (simp add: unat_gt_0)
  let ?n = "unat ptr + (unat align - 1)"
  have "unat (ptr + (align - 1)) = ?n"
    using assms pos by (subst unat_plus) (simp_all add: unat_minus)
  moreover have "?n div unat align * unat align < 2 ^ 64"
    using assms(1) pos div_times_less_eq_dividend [of ?n "unat align"] by linarith
  ultimately have "unat (get_aligned ptr align) = ?n div unat align * unat align"
    using unat_mult_lem [of "(ptr + (align - 1)) div align" align]
    by (simp add: get_aligned_def unat_div)
  moreover have "?n div unat align * unat align + ?n mod unat align = ?n" "?n mod unat align < unat align"
    using pos by simp_all
  then have "unat ptr \<le> ?n div unat align * unat align" "?n div unat align * unat align < unat ptr + unat align"
    using pos by linarith+
  ultimately show ?thesis by (simp only: mod_mult_self2_is_0 simp_thms)
qed

lemma padding_bound:
  assumes "unat ptr < 2 ^ 63" "align \<noteq> 0" "unat align < 2 ^ 61"
  shows "unat (get_aligned ptr align - ptr) < unat align"
proof -
  have "unat ptr \<le> unat (get_aligned ptr align)" "unat (get_aligned ptr align) < unat ptr + unat align"
    using get_aligned_bounds [of ptr align] assms by simp_all
  then show ?thesis by (subst unat_minus) linarith+
qed

section \<open>What the operations keep\<close>

definition wf_zone :: "'f zone \<Rightarrow> bool" where
  "wf_zone z \<longleftrightarrow> wf_chunk_list (z_chunk_list z) \<and> unat (z_chunk_size z) < 2 ^ 62 \<and>
     snd (last (cl_chunks (z_chunk_list z))) = z_chunk_size z \<and>
     f_tail (z_finalizers z) \<le> length (f_array (z_finalizers z))"

text \<open>A step of the zone that keeps the finalizers and gives out a block (none, for the empty list).\<close>

definition gives :: "span list \<Rightarrow> span list \<Rightarrow> 'f zone \<Rightarrow> 'f zone \<Rightarrow> bool" where
  "gives new bs z z' \<longleftrightarrow> wf_zone z' \<and> holds (z_chunk_list z') (new @ bs) \<and> z_finalizers z' = z_finalizers z"

lemma new_zone_wf:
  assumes "good_malloc malloc" "unat chunk_size < 2 ^ 62" "new_zone malloc chunk_size = Some z"
  shows "wf_zone z \<and> holds (z_chunk_list z) [] \<and> finalizers_in (z_finalizers z) = []"
proof -
  obtain c where c: "malloc [] (CHUNK_HEADER + chunk_size) = Some c"
      "z_chunk_list z = \<lparr>cl_chunks = [(c + CHUNK_HEADER, chunk_size)], cl_free = chunk_size, cl_ptr = c + CHUNK_HEADER\<rparr>"
      "z_chunk_size z = chunk_size" "z_finalizers z = no_finalizers"
    using assms(3) by (auto simp: new_zone_def new_chunk_list_def)
  have "unat (CHUNK_HEADER + chunk_size) = 8 + unat chunk_size"
    using assms(2) by (simp add: CHUNK_HEADER_def unat_plus)
  moreover from this c(1) assms(1) have "unat c + (8 + unat chunk_size) < 2 ^ 63"
    by (fastforce simp: good_malloc_def)
  moreover from this have "unat (c + CHUNK_HEADER) = unat c + 8"
    by (simp add: CHUNK_HEADER_def unat_plus)
  ultimately show ?thesis
    using c assms(2) by (simp add: wf_zone_def wf_chunk_list_def holds_def no_finalizers_def finalizers_in_def)
qed

lemma allocate_expand_gives:
  assumes "wf_zone z" "holds (z_chunk_list z) bs" "good_malloc malloc" "unat n < 2 ^ 62"
    and "allocate_expand malloc n z = Some (p, z')"
  shows "gives [] bs z z' \<and> p = cl_ptr (z_chunk_list z') \<and> unat n \<le> unat (cl_free (z_chunk_list z'))"
proof -
  let ?cl = "z_chunk_list z" and ?sz = "grow n (z_chunk_size z)"
  obtain c where c: "malloc (map whole (cl_chunks ?cl)) (CHUNK_HEADER + ?sz) = Some c" "p = c + CHUNK_HEADER"
      "z' = z\<lparr>z_chunk_list := \<lparr>cl_chunks = (c + CHUNK_HEADER, ?sz) # cl_chunks ?cl, cl_free = ?sz, cl_ptr = c + CHUNK_HEADER\<rparr>\<rparr>"
    using assms(5) by (auto simp: allocate_expand_def Let_def)
  have sz: "unat n \<le> unat ?sz" "unat ?sz < 2 ^ 63"
    using grow_enough [of n] grow_bound [of n "z_chunk_size z"] assms(1,4) by (auto simp: word_le_nat_alt wf_zone_def)
  have "cl_chunks ?cl \<noteq> []" using assms(1) by (simp add: wf_zone_def wf_chunk_list_def)
  then show ?thesis
    using new_chunk_holds [OF _ assms(2,3) sz(2) c(1)] sz(1) assms(1)
    by (simp add: c(2,3) gives_def wf_zone_def)
qed

lemma take_bytes_gives:
  assumes "gives [] bs z z'" "unat n \<le> unat (cl_free (z_chunk_list z'))" "within b (cl_ptr (z_chunk_list z'), n)"
  shows "gives [b] bs z (take_bytes n z')"
proof -
  have "wf_zone z'" "holds (z_chunk_list z') bs" and fin: "z_finalizers z' = z_finalizers z"
    using assms(1) by (simp_all add: gives_def)
  moreover from this have "wf_chunk_list (z_chunk_list z')" by (simp add: wf_zone_def)
  ultimately show ?thesis
    using take_bytes_holds [of "z_chunk_list z'" bs n b] assms(2,3)
    by (simp add: take_bytes_def wf_zone_def gives_def)
qed

lemma gives_refl: "wf_zone z \<Longrightarrow> holds (z_chunk_list z) bs \<Longrightarrow> gives [] bs z z"
  by (simp add: gives_def)

lemma allocate_no_align_gives:
  assumes "wf_zone z" "holds (z_chunk_list z) bs" "good_malloc malloc" "unat n < 2 ^ 62"
    and "allocate_no_align malloc n z = Some (p, z')"
  shows "gives [(p, n)] bs z z'"
proof -
  obtain y where y: "gives [] bs z y" "p = cl_ptr (z_chunk_list y)" "unat n \<le> unat (cl_free (z_chunk_list y))"
      "z' = take_bytes n y"
  proof (cases "cl_free (z_chunk_list z) < n")
    case True
    with assms(5) obtain y where "allocate_expand malloc n z = Some (p, y)" "z' = take_bytes n y"
      by (auto simp: allocate_no_align_def)
    with allocate_expand_gives [OF assms(1-4)] that show thesis by metis
  next
    case False
    with assms(5) gives_refl [OF assms(1,2)] that [of z] show thesis
      by (simp add: allocate_no_align_def word_less_nat_alt)
  qed
  then show ?thesis by (simp add: take_bytes_gives within_def)
qed

text \<open>Where a block starts in the memory that is free.\<close>

lemma aligned_within:
  assumes "wf_zone z" "align \<noteq> 0" "unat align < 2 ^ 61" "unat n < 2 ^ 61"
    and "aligned = get_aligned (cl_ptr (z_chunk_list z)) align" "k = n + (aligned - cl_ptr (z_chunk_list z))"
  shows "within (aligned, n) (cl_ptr (z_chunk_list z), k) \<and> unat aligned mod unat align = 0"
proof -
  let ?ptr = "cl_ptr (z_chunk_list z)"
  have "unat ?ptr < 2 ^ 63"
    using assms(1) by (auto simp: wf_zone_def elim: wf_chunk_listE)
  then have al: "unat ?ptr \<le> unat aligned" "unat aligned < unat ?ptr + unat align" "unat aligned mod unat align = 0"
    using get_aligned_bounds [of ?ptr align] assms(2,3,5) by simp_all
  then have "unat k = unat n + (unat aligned - unat ?ptr)"
    using assms(3,4,6) by (simp add: unat_plus unat_minus)
  then show ?thesis
    using al by (simp add: within_def)
qed

lemma aligned_block:
  assumes "wf_zone z" "gives [] bs y z" "align \<noteq> 0" "unat align < 2 ^ 61" "unat n < 2 ^ 61"
    and "aligned = get_aligned (cl_ptr (z_chunk_list z)) align" "k = n + (aligned - cl_ptr (z_chunk_list z))"
    and "k \<le> cl_free (z_chunk_list z)"
  shows "gives [(aligned, n)] bs y (take_bytes k z) \<and> unat aligned mod unat align = 0"
  using aligned_within [OF assms(1,3-7)] take_bytes_gives [OF assms(2)] assms(8) by (simp add: word_le_nat_alt)

text \<open>An aligned block is taken from a zone with enough free memory: the zone, or the one expanded.\<close>

lemma allocate_alignE:
  assumes "wf_zone z" "holds (z_chunk_list z) bs" "good_malloc malloc" "align \<noteq> 0" "unat align < 2 ^ 61" "unat n < 2 ^ 61"
    and "allocate_align malloc n align z = Some (p, z')"
  obtains y where "y = z \<or> (\<exists>k q. unat k < 2 ^ 62 \<and> allocate_expand malloc k z = Some (q, y))"
    "wf_zone y" "gives [] bs z y" "p = get_aligned (cl_ptr (z_chunk_list y)) align"
    "n + (p - cl_ptr (z_chunk_list y)) \<le> cl_free (z_chunk_list y)"
    "z' = take_bytes (n + (p - cl_ptr (z_chunk_list y))) y"
proof (cases "cl_free (z_chunk_list z) < n + (get_aligned (cl_ptr (z_chunk_list z)) align - cl_ptr (z_chunk_list z))")
  case True
  with assms(7) obtain q y where y: "allocate_expand malloc (n + align - 1) z = Some (q, y)"
      "p = get_aligned q align" "z' = take_bytes (n + (p - cl_ptr (z_chunk_list y))) y"
    by (auto simp: allocate_align_def Let_def)
  have "0 < unat align" using assms(4) by (simp add: unat_gt_0)
  then have enough: "unat (n + align - 1) = unat n + unat align - 1"
    using assms(5,6) by (subst unat_minus) (simp_all add: unat_plus)
  then have more: "gives [] bs z y" "q = cl_ptr (z_chunk_list y)" "unat n + unat align - 1 \<le> unat (cl_free (z_chunk_list y))"
    using allocate_expand_gives [OF assms(1-3) _ y(1)] assms(5,6) by simp_all
  then have "wf_zone y" by (simp add: gives_def)
  moreover from this have "unat q < 2 ^ 63"
    using more(2) by (auto simp: wf_zone_def elim: wf_chunk_listE)
  then have "unat (p - q) < unat align"
    using padding_bound [OF _ assms(4,5)] y(2) by simp
  then have "n + (p - q) \<le> cl_free (z_chunk_list y)"
    using assms(5,6) more(3) by (simp add: word_le_nat_alt unat_plus)
  moreover have "unat (n + align - 1) < 2 ^ 62"
    using enough assms(5,6) by simp
  ultimately show thesis using that y more(1,2) by blast
next
  case False
  with assms(7) that [of z] gives_refl [OF assms(1,2)] assms(1) show thesis
    by (auto simp: allocate_align_def Let_def not_less)
qed

lemma allocate_align_gives:
  assumes "wf_zone z" "holds (z_chunk_list z) bs" "good_malloc malloc" "align \<noteq> 0" "unat align < 2 ^ 61" "unat n < 2 ^ 61"
    and "allocate_align malloc n align z = Some (p, z')"
  shows "gives [(p, n)] bs z z' \<and> unat p mod unat align = 0"
  using allocate_alignE [OF assms] aligned_block [of _ bs z align n] assms(4-6) by metis

lemma holds_tl: "holds cl (b # bs) \<Longrightarrow> holds cl bs"
  by (simp add: holds_def)

lemma undo_take_bytes: "undo_allocate n (take_bytes (n + d) z) = take_bytes d z"
  by (simp add: undo_allocate_def take_bytes_def)

text \<open>Giving back what was given out last. The bytes skipped for the alignment stay skipped.\<close>

lemma undo_allocate_gives:
  assumes "wf_zone z" "holds (z_chunk_list z) bs" "good_malloc malloc" "align \<noteq> 0" "unat align < 2 ^ 61" "unat n < 2 ^ 61"
    and "allocate_align malloc n align z = Some (p, z')"
  shows "gives [] bs z (undo_allocate n z')"
  using assms
proof (rule allocate_alignE)
  fix y
  assume "y = z \<or> (\<exists>k q. unat k < 2 ^ 62 \<and> allocate_expand malloc k z = Some (q, y))"
    and y: "wf_zone y" "gives [] bs z y" "p = get_aligned (cl_ptr (z_chunk_list y)) align"
    "n + (p - cl_ptr (z_chunk_list y)) \<le> cl_free (z_chunk_list y)"
    "z' = take_bytes (n + (p - cl_ptr (z_chunk_list y))) y"
  then have "gives [(p, n)] bs z z'"
    using aligned_block [OF y(1,2) assms(4-6) y(3) refl y(4)] by simp
  let ?d = "p - cl_ptr (z_chunk_list y)"
  have "unat (cl_ptr (z_chunk_list y)) < 2 ^ 63"
    using y(1) by (auto simp: wf_zone_def elim: wf_chunk_listE)
  then have "unat ?d < unat align"
    using padding_bound [OF _ assms(4,5)] y(3) by simp
  then have "unat ?d \<le> unat (cl_free (z_chunk_list y))"
    using y(4) assms(5,6) by (simp add: word_le_nat_alt unat_plus)
  then have "gives [(cl_ptr (z_chunk_list y), 0)] bs z (take_bytes ?d y)"
    using take_bytes_gives [OF y(2)] by (simp add: within_def)
  then show ?thesis
    using y(5) by (auto simp: gives_def undo_take_bytes dest: holds_tl)
qed

section \<open>Sequences of requests\<close>

text \<open>
  What the users of a zone ask for: aligned memory (arrays of objects), unaligned memory
  (strings) and objects with a destructor. A request that fails leaves by an exception and
  yields no block.
\<close>

datatype 'f zone_request =
    Align size_t size_t
  | No_align size_t
  | Object 'f size_t size_t bool

fun serve_request :: "malloc \<Rightarrow> (nat \<Rightarrow> ('f \<times> size_t) list option) \<Rightarrow> 'f zone_request \<Rightarrow> 'f zone \<Rightarrow> size_t option \<times> 'f zone" where
  "serve_request malloc mem (Align n align) z =
     (case allocate_align malloc n align z of None \<Rightarrow> (None, z) | Some (p, z) \<Rightarrow> (Some p, z))"
| "serve_request malloc mem (No_align n) z =
     (case allocate_no_align malloc n z of None \<Rightarrow> (None, z) | Some (p, z) \<Rightarrow> (Some p, z))"
| "serve_request malloc mem (Object fn n align built) z = allocate_object malloc mem fn n align built z"

fun asked :: "'f zone_request \<Rightarrow> size_t" where
  "asked (Align n align) = n"
| "asked (No_align n) = n"
| "asked (Object fn n align built) = n"

fun alignment :: "'f zone_request \<Rightarrow> size_t" where
  "alignment (Align n align) = align"
| "alignment (No_align n) = 1"
| "alignment (Object fn n align built) = align"

text \<open>The requests that were served, the last one first, with the addresses they got.\<close>

fun serve_all ::
    "malloc \<Rightarrow> (nat \<Rightarrow> ('f \<times> size_t) list option) \<Rightarrow> 'f zone_request list \<Rightarrow> ('f zone_request \<times> size_t) list \<Rightarrow> 'f zone \<Rightarrow>
     ('f zone_request \<times> size_t) list \<times> 'f zone" where
  "serve_all malloc mem [] given z = (given, z)"
| "serve_all malloc mem (r # rs) given z =
     (case serve_request malloc mem r z of
        (None, z) \<Rightarrow> serve_all malloc mem rs given z
      | (Some p, z) \<Rightarrow> serve_all malloc mem rs ((r, p) # given) z)"

definition reasonable :: "'f zone_request \<Rightarrow> bool" where
  "reasonable r \<longleftrightarrow> alignment r \<noteq> 0 \<and> unat (alignment r) < 2 ^ 61 \<and> unat (asked r) < 2 ^ 61"

definition spans :: "('f zone_request \<times> size_t) list \<Rightarrow> span list" where
  "spans given = map (\<lambda>(r, p). (p, asked r)) given"

fun finalizers_of :: "('f zone_request \<times> size_t) list \<Rightarrow> ('f \<times> size_t) list" where
  "finalizers_of [] = []"
| "finalizers_of ((Object fn n align built, p) # given) = (fn, p) # finalizers_of given"
| "finalizers_of (_ # given) = finalizers_of given"

definition zone_inv :: "('f zone_request \<times> size_t) list \<Rightarrow> 'f zone \<Rightarrow> bool" where
  "zone_inv given z \<longleftrightarrow>
     wf_zone z \<and> holds (z_chunk_list z) (spans given) \<and>
     (\<forall>(r, p)\<in>set given. unat p mod unat (alignment r) = 0) \<and>
     rev (finalizers_in (z_finalizers z)) = finalizers_of given"

definition given_after :: "'f zone_request \<Rightarrow> size_t option \<Rightarrow> ('f zone_request \<times> size_t) list \<Rightarrow> ('f zone_request \<times> size_t) list" where
  "given_after r res given = (case res of None \<Rightarrow> given | Some p \<Rightarrow> (r, p) # given)"

lemma serve_all_step:
  "serve_all malloc mem (r # rs) given z =
     serve_all malloc mem rs (given_after r (fst (serve_request malloc mem r z)) given) (snd (serve_request malloc mem r z))"
  by (simp add: given_after_def split: prod.split option.split)

lemma gives_inv:
  assumes "zone_inv given z" "gives [] (spans given) z z'"
  shows "zone_inv given z'"
  using assms by (simp add: zone_inv_def gives_def)

lemma gives_block_inv:
  assumes "zone_inv given z" "gives [(p, asked r)] (spans given) z z'" "unat p mod unat (alignment r) = 0"
    "finalizers_of ((r, p) # given) = finalizers_of given"
  shows "zone_inv ((r, p) # given) z'"
  using assms by (simp add: zone_inv_def gives_def spans_def)

lemma allocate_object_inv:
  assumes "zone_inv given z" "good_malloc malloc" "good_mem mem" "reasonable (Object fn n align built)"
  shows "zone_inv (given_after (Object fn n align built) (fst (allocate_object malloc mem fn n align built z)) given)
           (snd (allocate_object malloc mem fn n align built z))"
proof (cases "allocate_align malloc n align z")
  case None
  with assms(1) show ?thesis by (simp add: allocate_object_def given_after_def)
next
  case (Some xy)
  then obtain x y where xy: "allocate_align malloc n align z = Some (x, y)" by (cases xy) auto
  have wf: "wf_zone z" "holds (z_chunk_list z) (spans given)" "align \<noteq> 0" "unat align < 2 ^ 61" "unat n < 2 ^ 61"
    using assms(1,4) by (simp_all add: zone_inv_def reasonable_def)
  note given = allocate_align_gives [OF wf(1,2) assms(2) wf(3-5) xy]
    and undone = undo_allocate_gives [OF wf(1,2) assms(2) wf(3-5) xy]
  show ?thesis
  proof (cases "push_finalizer mem (fn, x) (z_finalizers y)")
    case None
    then show ?thesis
      using gives_inv [OF assms(1) undone] by (simp add: allocate_object_def given_after_def xy)
  next
    case (Some f)
    have y: "wf_zone y" "z_finalizers y = z_finalizers z" using given by (simp_all add: gives_def)
    then have f: "f_tail f \<le> length (f_array f)" "finalizers_in f = finalizers_in (z_finalizers z) @ [(fn, x)]"
      using push_finalizer_pushed [OF _ assms(3) Some] by (simp_all add: wf_zone_def)
    have push: "push_finalizer mem (fn, x) (z_finalizers z) = Some f"
      using Some y(2) by simp
    show ?thesis
    proof (cases built)
      case True
      then show ?thesis
        using given assms(1) f y(1)
        by (simp add: allocate_object_def given_after_def xy push y(2) zone_inv_def gives_def wf_zone_def spans_def)
    next
      case False
      have "finalizers_in (f\<lparr>f_tail := f_tail f - 1\<rparr>) = butlast (finalizers_in f)"
        using f(1) by (simp add: finalizers_in_def butlast_take)
      then show ?thesis
        using undone assms(1) f False
        by (simp add: allocate_object_def given_after_def xy push y(2) zone_inv_def gives_def wf_zone_def undo_allocate_def)
    qed
  qed
qed

lemma serve_inv:
  assumes "zone_inv given z" "good_malloc malloc" "good_mem mem" "reasonable r"
  shows "zone_inv (given_after r (fst (serve_request malloc mem r z)) given) (snd (serve_request malloc mem r z))"
proof (cases r)
  case (Align n align)
  with assms have "wf_zone z" "holds (z_chunk_list z) (spans given)" "align \<noteq> 0" "unat align < 2 ^ 61" "unat n < 2 ^ 61"
    by (simp_all add: zone_inv_def reasonable_def)
  with Align assms(1,2) show ?thesis
    using allocate_align_gives [of z "spans given" malloc align n] gives_block_inv [of given z _ r]
    by (auto simp: given_after_def split: option.split)
next
  case (No_align n)
  with assms have "wf_zone z" "holds (z_chunk_list z) (spans given)" "unat n < 2 ^ 62"
    by (simp_all add: zone_inv_def reasonable_def)
  with No_align assms(1,2) show ?thesis
    using allocate_no_align_gives [of z "spans given" malloc n] gives_block_inv [of given z _ r]
    by (auto simp: given_after_def split: option.split)
next
  case (Object fn n align built)
  with allocate_object_inv assms show ?thesis by fastforce
qed

lemma serve_all_inv:
  "zone_inv given z \<Longrightarrow> good_malloc malloc \<Longrightarrow> good_mem mem \<Longrightarrow> list_all reasonable rs \<Longrightarrow>
   zone_inv (fst (serve_all malloc mem rs given z)) (snd (serve_all malloc mem rs given z))"
proof (induction rs arbitrary: given z)
  case (Cons r rs)
  then show ?case
    unfolding serve_all_step using serve_inv [of given z malloc mem r] by simp
qed simp

lemma new_zone_inv:
  "good_malloc malloc \<Longrightarrow> unat chunk_size < 2 ^ 62 \<Longrightarrow> new_zone malloc chunk_size = Some z \<Longrightarrow> zone_inv [] z"
  using new_zone_wf [of malloc chunk_size z] by (simp add: zone_inv_def spans_def)

text \<open>Every block lies in a chunk of the zone.\<close>

lemma holds_in_chunk:
  assumes "wf_chunk_list cl" "holds cl bs" "b \<in> set bs"
  shows "\<exists>c\<in>set (cl_chunks cl). within b c"
proof -
  have "\<exists>u\<in>set (given_out (cl_chunks cl) (cl_ptr cl)). within b u"
    using assms(2,3) by (simp add: holds_def)
  then obtain u where "u \<in> set (given_out (cl_chunks cl) (cl_ptr cl))" "within b u" ..
  then show ?thesis
    using given_out_within [OF assms(1)] within_trans by blast
qed

text \<open>Clearing calls the finalizers and leaves an empty zone with the first chunk it had.\<close>

lemma clear_zone_inv:
  assumes "zone_inv given z"
  shows "\<exists>z'. clear_zone z = Some (finalizers_of given, z') \<and> zone_inv [] z' \<and> length (cl_chunks (z_chunk_list z')) = 1"
proof -
  let ?cl = "z_chunk_list z" and ?f = "z_finalizers z"
  let ?z = "z\<lparr>z_chunk_list := \<lparr>cl_chunks = [last (cl_chunks ?cl)], cl_free = z_chunk_size z, cl_ptr = fst (last (cl_chunks ?cl))\<rparr>,
              z_finalizers := ?f\<lparr>f_tail := 0\<rparr>\<rparr>"
  have wf: "wf_chunk_list ?cl" "snd (last (cl_chunks ?cl)) = z_chunk_size z"
      "f_tail ?f \<le> length (f_array ?f)" "rev (finalizers_in ?f) = finalizers_of given" "unat (z_chunk_size z) < 2 ^ 62"
    using assms by (simp_all add: zone_inv_def wf_zone_def)
  then have "cl_chunks ?cl \<noteq> []" by (simp add: wf_chunk_list_def)
  moreover from this have "clear_zone z = Some (finalizers_of given, ?z)"
    using wf(3,4) finalizers_called [of ?f] by (simp add: clear_zone_def clear_chunk_list_def)
  moreover have "8 \<le> unat (fst (last (cl_chunks ?cl))) \<and>
      unat (fst (last (cl_chunks ?cl))) + unat (snd (last (cl_chunks ?cl))) < 2 ^ 63"
    using wf(1) \<open>cl_chunks ?cl \<noteq> []\<close> by (simp add: wf_chunk_list_def)
  ultimately show ?thesis
    using wf(2,5) by (simp add: zone_inv_def wf_zone_def wf_chunk_list_def holds_def spans_def finalizers_in_def)
qed

lemma swap_zones_swaps:
  "fst (snd (swap_zones a b)) = b \<and> snd (snd (swap_zones a b)) = a"
  by (simp add: swap_zones_def assign_zone_def move_zone_def move_chunk_list_def)

lemma swap_destroys_nothing:
  "\<forall>(calls, freed)\<in>set (fst (swap_zones a b)). calls = [] \<and> freed = []"
  by (simp add: swap_zones_def assign_zone_def move_zone_def move_chunk_list_def destroy_zone_def
      call_finalizers_def no_finalizers_def)

text \<open>
  The moved-from zone keeps \<open>m_free\<close> and \<open>m_ptr\<close>: while there is room it gives out the memory
  that now belongs to the other zone, and it cannot be cleared.
\<close>

lemma moved_zone_gives_same_memory:
  assumes "n \<le> cl_free (z_chunk_list z)"
  shows "map_option fst (allocate_no_align malloc n (snd (move_zone z))) = Some (cl_ptr (z_chunk_list z))"
    and "map_option fst (allocate_no_align malloc n (fst (move_zone z))) = Some (cl_ptr (z_chunk_list z))"
    and "clear_zone (snd (move_zone z)) = None"
  using assms leD [OF assms]
  by (simp_all add: allocate_no_align_def move_zone_def move_chunk_list_def clear_zone_def clear_chunk_list_def
      clear_finalizers_def)

section \<open>A zone that is used\<close>

text \<open>
  C36. Whatever is asked of a new zone, in whatever order, and whichever requests fail for lack
  of memory or by an exception of a constructor: the blocks given out lie in its chunks, never
  overlap and have the alignment asked for; the destructor of the zone runs the destructors of
  the objects that were built, of no others, and in reverse order.
\<close>

theorem zone_blocks_apart:
  assumes "good_malloc malloc" "good_mem mem" "unat chunk_size < 2 ^ 62" "new_zone malloc chunk_size = Some z"
    and "list_all reasonable rs" "serve_all malloc mem rs [] z = (given, z')"
  shows "sorted_wrt apart (spans given) \<and>
         (\<forall>b\<in>set (spans given). \<exists>c\<in>set (cl_chunks (z_chunk_list z')). within b c) \<and>
         (\<forall>(r, p)\<in>set given. unat p mod unat (alignment r) = 0) \<and>
         fst (destroy_zone z') = finalizers_of given"
proof -
  have "zone_inv given z'"
    using serve_all_inv [OF new_zone_inv [OF assms(1,3,4)] assms(1,2,5)] assms(6) by simp
  then have inv: "wf_zone z'" "holds (z_chunk_list z') (spans given)"
      "\<forall>(r, p)\<in>set given. unat p mod unat (alignment r) = 0" "rev (finalizers_in (z_finalizers z')) = finalizers_of given"
    by (simp_all add: zone_inv_def)
  then have "call_finalizers (z_finalizers z') = finalizers_of given"
    by (simp add: wf_zone_def finalizers_in_def call_finalizers_def call_from_rev)
  moreover from inv(1) have "wf_chunk_list (z_chunk_list z')" by (simp add: wf_zone_def)
  ultimately show ?thesis
    using inv(2,3) holds_in_chunk [of "z_chunk_list z'"] by (simp add: destroy_zone_def holds_def)
qed

text \<open>A memory of addresses from 16 on that are never used again, and requests that need four chunks.\<close>

fun top_of :: "span list \<Rightarrow> int" where
  "top_of [] = 16"
| "top_of (b # bs) = max (uint (fst b) + uint (snd b)) (top_of bs)"

definition sample_malloc :: malloc where
  "sample_malloc live n = (if top_of live + uint n < 2 ^ 63 then Some (word_of_int (top_of live)) else None)"

definition sample_mem :: "nat \<Rightarrow> (nat \<times> size_t) list option" where
  "sample_mem n = (if n < 5 then Some (replicate n (0, 0)) else None)"

definition sample_requests :: "nat zone_request list" where
  "sample_requests = [No_align 5, Align 24 8, Object 1 8 8 True, Object 2 16 8 False, Object 3 8 8 True, Align 100 16, No_align 3]"

lemma top_of_bound: "b \<in> set live \<Longrightarrow> uint (fst b) + uint (snd b) \<le> top_of live"
  by (induction live) auto

lemma top_of_pos: "0 \<le> top_of live"
  by (induction live) auto

lemma sample_malloc_good: "good_malloc sample_malloc"
  unfolding good_malloc_def
proof (intro allI impI)
  fix live n p
  assume "sample_malloc live n = Some p"
  then have small: "top_of live + uint n < 2 ^ 63" and "p = word_of_int (top_of live)"
    by (simp_all add: sample_malloc_def split: if_splits)
  moreover have "top_of live < 2 ^ 64"
    by (rule order.strict_trans1 [OF _ order.strict_trans [OF small]]) simp_all
  ultimately have p: "uint p = top_of live"
    using top_of_pos [of live] by (simp add: uint_word_of_int_eq take_bit_int_eq_self_iff)
  have "unat p + unat n < 2 ^ 63"
    using small p unfolding uint_nat
    by (simp only: of_nat_less_iff [symmetric, where 'a=int] of_nat_add of_nat_power of_nat_numeral)
  moreover have "apart (p, n) b" if "b \<in> set live" for b
    using top_of_bound [OF that] p unfolding uint_nat apart_def
    by (simp only: of_nat_le_iff [symmetric, where 'a=int] of_nat_add fst_conv snd_conv simp_thms)
  ultimately show "unat p + unat n < 2 ^ 63 \<and> (\<forall>b\<in>set live. apart (p, n) b)" by blast
qed

lemma sample_mem_good: "good_mem sample_mem"
  by (auto simp: good_mem_def sample_mem_def split: if_splits)

definition sample_zone :: "nat zone" where
  "sample_zone = the (new_zone sample_malloc 64)"

definition zone_served :: "(nat zone_request \<times> size_t) list \<times> nat zone" where
  "zone_served = serve_all sample_malloc sample_mem sample_requests [] sample_zone"

lemma sample_zone_new: "new_zone sample_malloc 64 = Some sample_zone"
  by (simp add: sample_zone_def new_zone_def new_chunk_list_def sample_malloc_def CHUNK_HEADER_def)

lemma zone_served_spans: "length (spans (fst zone_served)) = 6 \<and> finalizers_of (fst zone_served) = [(3, 64), (1, 56)]"
  by code_simp

theorem zone_blocks_apart_witness:
  "sorted_wrt apart (spans (fst zone_served)) \<and> length (spans (fst zone_served)) = 6 \<and>
   fst (destroy_zone (snd zone_served)) = [(3, 64), (1, 56)]"
  using zone_blocks_apart [OF sample_malloc_good sample_mem_good _ sample_zone_new,
      of sample_requests "fst zone_served" "snd zone_served"] zone_served_spans
  by (simp add: zone_served_def sample_requests_def reasonable_def)

end
