(* ===== verification/Msgpack_Memory.thy ===== *)
theory Msgpack_Memory
  imports Msgpack_Zone
begin

text \<open>
  Objects in memory. Elsewhere an object is a value; here it is what \<open>v1/object_fwd.hpp\<close> says: a
  type and either a number or a pointer, and the bytes and elements it points to are in a memory
  that can be written. Which value such an object stands for, which blocks of memory it is made
  of, and that it stands for the same value as long as nobody writes into those.
\<close>

section \<open>Objects in memory\<close>

datatype raw =
    R_NIL
  | R_BOOLEAN bool
  | R_POSITIVE_INTEGER "64 word"
  | R_NEGATIVE_INTEGER "64 word"
  | R_FLOAT32 "32 word"
  | R_FLOAT64 "64 word"
  | R_STR size_t "32 word"
  | R_BIN size_t "32 word"
  | R_ARRAY size_t "32 word"
  | R_MAP size_t "32 word"
  | R_EXT size_t "32 word"

text \<open>
  The bytes at an address, and the object that starts there. Nothing reads an object as bytes
  or bytes as an object.
\<close>

record memory =
  byte_store :: "size_t \<Rightarrow> byte"
  object_store :: "size_t \<Rightarrow> raw"

definition SIZEOF_OBJECT :: size_t where "SIZEOF_OBJECT = 24"
definition SIZEOF_OBJECT_KV :: size_t where "SIZEOF_OBJECT_KV = 48"
definition ALIGNOF_OBJECT :: size_t where "ALIGNOF_OBJECT = 8"
definition ALIGNOF_CHAR :: size_t where "ALIGNOF_CHAR = 1"

definition put_object :: "size_t \<Rightarrow> raw \<Rightarrow> memory \<Rightarrow> memory" where
  "put_object p r h = h\<lparr>object_store := (object_store h)(p := r)\<rparr>"

section \<open>The value an object in memory stands for\<close>

fun bytes_at :: "memory \<Rightarrow> size_t \<Rightarrow> byte list \<Rightarrow> bool" where
  "bytes_at h p [] = True"
| "bytes_at h p (b # bs) = (byte_store h p = b \<and> bytes_at h (p + 1) bs)"

text \<open>A block of \<open>n\<close> bytes at \<open>p\<close> does not reach the end of the memory.\<close>

definition in_memory :: "size_t \<Rightarrow> nat \<Rightarrow> bool" where
  "in_memory p n \<longleftrightarrow> unat p + n < 2 ^ 63"

function (sequential) stands_for :: "memory \<Rightarrow> raw \<Rightarrow> object \<Rightarrow> bool"
  and array_at :: "memory \<Rightarrow> size_t \<Rightarrow> object list \<Rightarrow> bool"
  and map_at :: "memory \<Rightarrow> size_t \<Rightarrow> (object \<times> object) list \<Rightarrow> bool" where
  "stands_for h R_NIL x = (x = NIL)"
| "stands_for h (R_BOOLEAN b) x = (x = BOOLEAN b)"
| "stands_for h (R_POSITIVE_INTEGER n) x = (x = POSITIVE_INTEGER n)"
| "stands_for h (R_NEGATIVE_INTEGER n) x = (x = NEGATIVE_INTEGER n)"
| "stands_for h (R_FLOAT32 d) x = (x = FLOAT32 d)"
| "stands_for h (R_FLOAT64 d) x = (x = FLOAT64 d)"
| "stands_for h (R_STR p n) (Str b) = (unat n = length b \<and> in_memory p (length b) \<and> bytes_at h p b)"
| "stands_for h (R_BIN p n) (BIN b) = (unat n = length b \<and> in_memory p (length b) \<and> bytes_at h p b)"
| "stands_for h (R_EXT p n) (EXT t b) =
     (unat n = length b \<and> n \<noteq> 0xffffffff \<and> in_memory p (Suc (length b)) \<and> bytes_at h p (t # b))"
| "stands_for h (R_ARRAY p n) (ARRAY xs) =
     (unat n = length xs \<and> in_memory p (24 * length xs) \<and> array_at h p xs)"
| "stands_for h (R_MAP p n) (MAP kvs) =
     (unat n = length kvs \<and> in_memory p (48 * length kvs) \<and> map_at h p kvs)"
| "stands_for h r x = False"
| "array_at h p [] = True"
| "array_at h p (x # xs) = (stands_for h (object_store h p) x \<and> array_at h (p + SIZEOF_OBJECT) xs)"
| "map_at h p [] = True"
| "map_at h p ((k, v) # kvs) =
     (stands_for h (object_store h p) k \<and> stands_for h (object_store h (p + SIZEOF_OBJECT)) v \<and>
      map_at h (p + SIZEOF_OBJECT_KV) kvs)"
  by pat_completeness auto
termination
  by (relation "measure (case_sum (\<lambda>(h, r, x). size x)
      (case_sum (\<lambda>(h, p, xs). size_list size xs) (\<lambda>(h, p, kvs). size_list (size_prod size size) kvs)))")
    auto

text \<open>The blocks an object that stands for a value is made of, besides itself.\<close>

fun address :: "raw \<Rightarrow> size_t" where
  "address (R_STR p n) = p"
| "address (R_BIN p n) = p"
| "address (R_EXT p n) = p"
| "address (R_ARRAY p n) = p"
| "address (R_MAP p n) = p"
| "address r = 0"

function (sequential) blocks_of :: "memory \<Rightarrow> raw \<Rightarrow> object \<Rightarrow> span list"
  and array_blocks :: "memory \<Rightarrow> size_t \<Rightarrow> object list \<Rightarrow> span list"
  and map_blocks :: "memory \<Rightarrow> size_t \<Rightarrow> (object \<times> object) list \<Rightarrow> span list" where
  "blocks_of h r (Str b) = [(address r, word_of_nat (length b))]"
| "blocks_of h r (BIN b) = [(address r, word_of_nat (length b))]"
| "blocks_of h r (EXT t b) = [(address r, word_of_nat (Suc (length b)))]"
| "blocks_of h r (ARRAY xs) = (address r, word_of_nat (24 * length xs)) # array_blocks h (address r) xs"
| "blocks_of h r (MAP kvs) = (address r, word_of_nat (48 * length kvs)) # map_blocks h (address r) kvs"
| "blocks_of h r x = []"
| "array_blocks h p [] = []"
| "array_blocks h p (x # xs) = blocks_of h (object_store h p) x @ array_blocks h (p + SIZEOF_OBJECT) xs"
| "map_blocks h p [] = []"
| "map_blocks h p ((k, v) # kvs) =
     blocks_of h (object_store h p) k @ blocks_of h (object_store h (p + SIZEOF_OBJECT)) v @
     map_blocks h (p + SIZEOF_OBJECT_KV) kvs"
  by pat_completeness auto
termination
  by (relation "measure (case_sum (\<lambda>(h, r, x). size x)
      (case_sum (\<lambda>(h, p, xs). size_list size xs) (\<lambda>(h, p, kvs). size_list (size_prod size size) kvs)))")
    auto

text \<open>How deep an object is nested.\<close>

fun highest :: "nat list \<Rightarrow> nat" where
  "highest [] = 0"
| "highest (n # ns) = max n (highest ns)"

fun depth :: "object \<Rightarrow> nat" where
  "depth (ARRAY xs) = Suc (highest (map depth xs))"
| "depth (MAP kvs) = Suc (highest (map (\<lambda>(k, v). max (depth k) (depth v)) kvs))"
| "depth x = 1"

lemma highest_bound: "n \<in> set ns \<Longrightarrow> n \<le> highest ns"
  by (induction ns) auto

section \<open>Memory that is not changed\<close>

definition touches :: "size_t \<Rightarrow> span \<Rightarrow> bool" where
  "touches x b \<longleftrightarrow> unat (fst b) \<le> unat x \<and> unat x < unat (fst b) + unat (snd b)"

definition same_at :: "memory \<Rightarrow> memory \<Rightarrow> size_t \<Rightarrow> bool" where
  "same_at h h' x \<longleftrightarrow> byte_store h' x = byte_store h x \<and> object_store h' x = object_store h x"

definition changes_only :: "span list \<Rightarrow> memory \<Rightarrow> memory \<Rightarrow> bool" where
  "changes_only bs h h' \<longleftrightarrow> (\<forall>x. (\<forall>b\<in>set bs. \<not> touches x b) \<longrightarrow> same_at h h' x)"

definition all_apart :: "span list \<Rightarrow> span list \<Rightarrow> bool" where
  "all_apart bs cs \<longleftrightarrow> (\<forall>b\<in>set bs. \<forall>c\<in>set cs. apart b c)"

lemma all_apart_sym: "all_apart bs cs \<Longrightarrow> all_apart cs bs"
  unfolding all_apart_def using apart_sym by blast

lemma touches_apart: "touches x b \<Longrightarrow> apart b c \<Longrightarrow> \<not> touches x c"
  by (auto simp: touches_def apart_def)

lemma touches_within: "touches x b \<Longrightarrow> within b c \<Longrightarrow> touches x c"
  by (auto simp: touches_def within_def)

lemma changes_only_refl: "changes_only bs h h"
  by (simp add: changes_only_def same_at_def)

lemma changes_only_trans: "changes_only bs h h' \<Longrightarrow> changes_only cs h' h'' \<Longrightarrow> changes_only (bs @ cs) h h''"
  by (simp add: changes_only_def same_at_def)

lemma changes_only_trans_same: "changes_only bs h h' \<Longrightarrow> changes_only bs h' h'' \<Longrightarrow> changes_only bs h h''"
  by (simp add: changes_only_def same_at_def)

lemma changes_only_mono:
  "changes_only bs h h' \<Longrightarrow> (\<And>b. b \<in> set bs \<Longrightarrow> \<exists>c\<in>set cs. within b c) \<Longrightarrow> changes_only cs h h'"
  unfolding changes_only_def using touches_within by blast

text \<open>What an object stands for depends on its blocks only.\<close>

lemma bytes_at_same:
  "(\<And>x. touches x (p, word_of_nat (length b)) \<Longrightarrow> same_at h h' x) \<Longrightarrow> in_memory p (length b) \<Longrightarrow>
   bytes_at h' p b = bytes_at h p b"
proof (induction b arbitrary: p)
  case (Cons c b)
  have n: "unat (word_of_nat (length (c # b)) :: size_t) = Suc (length b)"
      "unat (word_of_nat (length b) :: size_t) = length b"
    using Cons.prems(2) by (simp_all add: in_memory_def unat_of_nat del: of_nat_Suc)
  have p: "unat (p + 1) = Suc (unat p)"
    using Cons.prems(2) by (simp add: in_memory_def unat_plus)
  have "bytes_at h' (p + 1) b = bytes_at h (p + 1) b"
    using Cons.prems p n by (intro Cons.IH) (auto simp: touches_def in_memory_def simp del: of_nat_Suc)
  moreover have "same_at h h' p"
    using Cons.prems(1) n by (auto simp: touches_def simp del: of_nat_Suc)
  ultimately show ?case by (simp add: same_at_def)
qed simp

definition keeps :: "span list \<Rightarrow> memory \<Rightarrow> memory \<Rightarrow> bool" where
  "keeps bs h h' \<longleftrightarrow> (\<forall>b\<in>set bs. \<forall>x. touches x b \<longrightarrow> same_at h h' x)"

lemma keeps_simps [simp]:
  "keeps [] h h'"
  "keeps (b # bs) h h' \<longleftrightarrow> (\<forall>x. touches x b \<longrightarrow> same_at h h' x) \<and> keeps bs h h'"
  "keeps (bs @ cs) h h' \<longleftrightarrow> keeps bs h h' \<and> keeps cs h h'"
  by (auto simp: keeps_def)

lemma changes_keeps: "changes_only cs h h' \<Longrightarrow> all_apart cs bs \<Longrightarrow> keeps bs h h'"
  unfolding changes_only_def keeps_def all_apart_def using touches_apart apart_sym by blast

lemma keeps_mono: "keeps bs h h' \<Longrightarrow> set cs \<subseteq> set bs \<Longrightarrow> keeps cs h h'"
  by (auto simp: keeps_def)

lemma keeps_block: "keeps bs h h' \<Longrightarrow> b \<in> set bs \<Longrightarrow> within c b \<Longrightarrow> \<forall>x. touches x c \<longrightarrow> same_at h h' x"
  using touches_within by (auto simp: keeps_def)

lemma put_object_changes: "changes_only [(p, SIZEOF_OBJECT)] h (put_object p r h)"
  by (auto simp: changes_only_def same_at_def put_object_def touches_def SIZEOF_OBJECT_def)

text \<open>The elements of an array one after the other: the first, and those behind it.\<close>

lemma unat_size: "unat p + n < 2 ^ 63 \<Longrightarrow> unat (word_of_nat n :: size_t) = n"
  by (simp add: unat_of_nat)

lemma array_head:
  assumes "in_memory p (k + n)" "0 < k"
  shows "touches p (p, word_of_nat (k + n))" "unat (p + word_of_nat k) = unat p + k"
    and "in_memory (p + word_of_nat k) n" "within (p + word_of_nat k, word_of_nat n) (p, word_of_nat (k + n))"
    and "within (p, word_of_nat k) (p, word_of_nat (k + n))"
proof -
  have k: "unat (word_of_nat (k + n) :: size_t) = k + n" "unat (word_of_nat k :: size_t) = k" "unat (word_of_nat n :: size_t) = n"
    using assms(1) by (auto simp: in_memory_def unat_size [of p] simp del: of_nat_add)
  then show *: "unat (p + word_of_nat k) = unat p + k"
    using assms(1) by (subst unat_plus) (simp_all add: in_memory_def)
  show "touches p (p, word_of_nat (k + n))" "in_memory (p + word_of_nat k) n"
    "within (p + word_of_nat k, word_of_nat n) (p, word_of_nat (k + n))"
    "within (p, word_of_nat k) (p, word_of_nat (k + n))"
    using assms k * by (simp_all add: touches_def in_memory_def within_def del: of_nat_add)
qed

lemma array_step:
  assumes "in_memory p (24 * Suc n)"
  shows "touches p (p, word_of_nat (24 * Suc n))" "in_memory (p + SIZEOF_OBJECT) (24 * n)"
    and "within (p + SIZEOF_OBJECT, word_of_nat (24 * n)) (p, word_of_nat (24 * Suc n))"
    and "within (p, SIZEOF_OBJECT) (p, word_of_nat (24 * Suc n))"
    and "unat (p + SIZEOF_OBJECT) = unat p + 24"
  using array_head [of p 24 "24 * n"] assms by (simp_all add: SIZEOF_OBJECT_def)

lemma map_step:
  assumes "in_memory p (48 * Suc n)"
  shows "touches p (p, word_of_nat (48 * Suc n))" "touches (p + SIZEOF_OBJECT) (p, word_of_nat (48 * Suc n))"
    and "in_memory (p + SIZEOF_OBJECT_KV) (48 * n)"
    and "within (p + SIZEOF_OBJECT_KV, word_of_nat (48 * n)) (p, word_of_nat (48 * Suc n))"
    and "within (p, SIZEOF_OBJECT) (p, word_of_nat (48 * Suc n))"
    and "within (p + SIZEOF_OBJECT, SIZEOF_OBJECT) (p, word_of_nat (48 * Suc n))"
    and "unat (p + SIZEOF_OBJECT) = unat p + 24" "unat (p + SIZEOF_OBJECT_KV) = unat p + 48"
  using array_head [of p 48 "48 * n"] array_head [of p 24 "24 + 48 * n"] array_head [of "p + 24" 24 "48 * n"] assms
  by (auto simp: SIZEOF_OBJECT_def SIZEOF_OBJECT_KV_def add.assoc intro: touches_within within_trans)

lemma keeps_within: "\<forall>x. touches x b \<longrightarrow> same_at h h' x \<Longrightarrow> within c b \<Longrightarrow> \<forall>x. touches x c \<longrightarrow> same_at h h' x"
  using touches_within by blast

lemma stands_for_same:
  "stands_for h r x \<Longrightarrow> keeps (blocks_of h r x) h h' \<Longrightarrow>
     stands_for h' r x \<and> blocks_of h' r x = blocks_of h r x"
  and array_at_same:
  "array_at h p xs \<Longrightarrow> in_memory p (24 * length xs) \<Longrightarrow>
   keeps ((p, word_of_nat (24 * length xs)) # array_blocks h p xs) h h' \<Longrightarrow>
     array_at h' p xs \<and> array_blocks h' p xs = array_blocks h p xs"
  and map_at_same:
  "map_at h p kvs \<Longrightarrow> in_memory p (48 * length kvs) \<Longrightarrow>
   keeps ((p, word_of_nat (48 * length kvs)) # map_blocks h p kvs) h h' \<Longrightarrow>
     map_at h' p kvs \<and> map_blocks h' p kvs = map_blocks h p kvs"
proof (induction h r x and h p xs and h p kvs rule: stands_for_array_at_map_at.induct)
  case (7 h p n b)
  then show ?case using bytes_at_same [of p b h h'] by simp
next
  case (8 h p n b)
  then show ?case using bytes_at_same [of p b h h'] by simp
next
  case (9 h p n t b)
  then show ?case using bytes_at_same [of p "t # b" h h'] by (simp del: of_nat_Suc)
next
  case (10 h p n xs)
  then show ?case by simp
next
  case (11 h p n kvs)
  then show ?case by simp
next
  case (14 h p x xs)
  note step = array_step [OF 14(4) [unfolded length_Cons]]
  have keep: "\<forall>y. touches y (p, word_of_nat (24 * Suc (length xs))) \<longrightarrow> same_at h h' y"
      "keeps (blocks_of h (object_store h p) x) h h'" "keeps (array_blocks h (p + SIZEOF_OBJECT) xs) h h'"
    using 14(5) unfolding keeps_simps length_Cons array_blocks.simps by blast+
  have "object_store h' p = object_store h p"
    using keep(1) step(1) by (simp add: same_at_def del: mult_Suc_right of_nat_mult)
  moreover have "array_at h' (p + SIZEOF_OBJECT) xs \<and>
      array_blocks h' (p + SIZEOF_OBJECT) xs = array_blocks h (p + SIZEOF_OBJECT) xs"
    using 14(3) keeps_within [OF keep(1) step(3)] keep(3) by (intro 14(2) step(2)) (simp_all del: of_nat_mult)
  ultimately show ?case
    using 14(1,3) keep(2) by simp
next
  case (16 h p k v kvs)
  note step = map_step [OF 16(5) [unfolded length_Cons]]
  have keep: "\<forall>y. touches y (p, word_of_nat (48 * Suc (length kvs))) \<longrightarrow> same_at h h' y"
      "keeps (blocks_of h (object_store h p) k) h h'" "keeps (blocks_of h (object_store h (p + SIZEOF_OBJECT)) v) h h'"
      "keeps (map_blocks h (p + SIZEOF_OBJECT_KV) kvs) h h'"
    using 16(6) unfolding keeps_simps length_Cons map_blocks.simps by blast+
  have "object_store h' p = object_store h p" "object_store h' (p + SIZEOF_OBJECT) = object_store h (p + SIZEOF_OBJECT)"
    using keep(1) step(1,2) by (simp_all add: same_at_def del: mult_Suc_right of_nat_mult)
  moreover have "map_at h' (p + SIZEOF_OBJECT_KV) kvs \<and>
      map_blocks h' (p + SIZEOF_OBJECT_KV) kvs = map_blocks h (p + SIZEOF_OBJECT_KV) kvs"
    using 16(4) keeps_within [OF keep(1) step(4)] keep(4) by (intro 16(3) step(3)) (simp_all del: of_nat_mult)
  ultimately show ?case
    using 16(1,2,4) keep(2,3) by simp
qed simp_all

text \<open>What \<open>malloc\<close> will give does not overlap the blocks \<open>F\<close>.\<close>

definition avoids :: "malloc \<Rightarrow> span list \<Rightarrow> bool" where
  "avoids malloc F \<longleftrightarrow> (\<forall>live n p. malloc live n = Some p \<longrightarrow> (\<forall>f\<in>set F. apart (p, n) f))"

text \<open>A \<open>malloc\<close> that is told of them.\<close>

definition beside :: "malloc \<Rightarrow> span list \<Rightarrow> malloc" where
  "beside malloc src = (\<lambda>live. malloc (src @ live))"

lemma beside_good: "good_malloc malloc \<Longrightarrow> good_malloc (beside malloc F)" "good_malloc malloc \<Longrightarrow> avoids (beside malloc F) F"
  by (auto simp: beside_def good_malloc_def avoids_def)

section \<open>Copying bytes\<close>

fun copy_bytes :: "nat \<Rightarrow> size_t \<Rightarrow> size_t \<Rightarrow> memory \<Rightarrow> memory" where
  "copy_bytes 0 dst src h = h"
| "copy_bytes (Suc n) dst src h =
     copy_bytes n (dst + 1) (src + 1) (h\<lparr>byte_store := (byte_store h)(dst := byte_store h src)\<rparr>)"

lemma copy_bytes_changes:
  "in_memory dst n \<Longrightarrow> changes_only [(dst, word_of_nat n)] h (copy_bytes n dst p h)"
proof (induction n arbitrary: dst p h)
  case (Suc n)
  note head = array_head [of dst 1 n, simplified]
  let ?h = "h\<lparr>byte_store := (byte_store h)(dst := byte_store h p)\<rparr>"
  have first: "changes_only [(dst, word_of_nat (Suc n))] h ?h"
    using Suc.prems head(1) by (auto simp: changes_only_def same_at_def)
  have "changes_only [(dst + 1, word_of_nat n)] ?h (copy_bytes n (dst + 1) (p + 1) ?h)"
    using Suc.prems head(3) by (intro Suc.IH) simp
  then have "changes_only [(dst, word_of_nat (Suc n))] ?h (copy_bytes n (dst + 1) (p + 1) ?h)"
    by (rule changes_only_mono) (use Suc.prems head(4) in simp)
  from changes_only_trans_same [OF first this] show ?case by simp
qed (simp add: changes_only_refl)

lemma copy_bytes_at:
  "bytes_at h p b \<Longrightarrow> in_memory dst (length b) \<Longrightarrow> in_memory p (length b) \<Longrightarrow>
   apart (dst, word_of_nat (length b)) (p, word_of_nat (length b)) \<Longrightarrow>
   bytes_at (copy_bytes (length b) dst p h) dst b"
proof (induction b arbitrary: dst p h)
  case (Cons c b)
  note heads = array_head [of dst 1 "length b", simplified] array_head [of p 1 "length b", simplified]
  have mem: "in_memory dst (Suc (length b))" "in_memory p (Suc (length b))"
    using Cons.prems(2,3) by simp_all
  let ?h = "h\<lparr>byte_store := (byte_store h)(dst := byte_store h p)\<rparr>"
  have apart: "apart (dst, word_of_nat (length (c # b))) (p, word_of_nat (length (c # b)))" by (rule Cons.prems(4))
  have "bytes_at ?h (p + 1) b = bytes_at h (p + 1) b"
  proof (rule bytes_at_same)
    fix x
    assume "touches x (p + 1, word_of_nat (length b))"
    with heads(9) mem have "touches x (p, word_of_nat (length (c # b)))"
      using touches_within by (simp; blast)
    then have "x \<noteq> dst"
      using touches_apart [of dst] heads(1) mem apart by auto
    then show "same_at h ?h x" by (simp add: same_at_def)
  qed (use heads(8) mem in simp)
  moreover have "apart (dst + 1, word_of_nat (length b)) (p + 1, word_of_nat (length b))"
    using within_apart [OF _ _ apart] heads(4,9) mem by simp
  ultimately have "bytes_at (copy_bytes (length b) (dst + 1) (p + 1) ?h) (dst + 1) b"
    using Cons.prems(1) heads(3,8) mem by (intro Cons.IH) simp_all
  moreover have "\<not> touches dst (dst + 1, word_of_nat (length b))"
    using heads(2) mem by (simp add: touches_def)
  then have "byte_store (copy_bytes (length b) (dst + 1) (p + 1) ?h) dst = byte_store ?h dst"
    using copy_bytes_changes [of "dst + 1" "length b" ?h "p + 1"] heads(3) mem
    by (simp add: changes_only_def same_at_def)
  ultimately show ?case using Cons.prems(1) by simp
qed simp

end
