(* ===== verification/Msgpack_Sbuffer.thy ===== *)
theory Msgpack_Sbuffer
  imports Msgpack_Buffer
begin

text \<open>
  The output buffer \<open>sbuffer\<close> of MessagePack (\<open>v1/sbuffer.hpp\<close>): a block of memory, the bytes
  of it that are used and the bytes it has. The packer writes a message piece by piece; the
  buffer grows as it does and holds the pieces one after the other. Running out of memory,
  which the code reports with \<open>std::bad_alloc\<close>, is \<open>None\<close>.
\<close>

section \<open>The output buffer\<close>

text \<open>\<open>sb_data\<close> is the block of memory; an empty one is the null pointer.\<close>

record sbuffer =
  sb_data :: "byte list"
  sb_size :: size_t
  sb_alloc :: size_t

definition SBUFFER_INIT_SIZE :: size_t where "SBUFFER_INIT_SIZE = 8192"

definition new_sbuffer :: "alloc \<Rightarrow> size_t \<Rightarrow> sbuffer option" where
  "new_sbuffer alloc initsz =
     (if initsz = 0 then Some \<lparr>sb_data = [], sb_size = 0, sb_alloc = 0\<rparr>
      else map_option (\<lambda>mem. \<lparr>sb_data = mem, sb_size = 0, sb_alloc = initsz\<rparr>) (alloc initsz))"

definition expand_sbuffer :: "alloc \<Rightarrow> size_t \<Rightarrow> sbuffer \<Rightarrow> sbuffer option" where
  "expand_sbuffer alloc len b =
     (let nsize = grow (sb_size b + len) (if sb_alloc b > 0 then sb_alloc b * 2 else SBUFFER_INIT_SIZE)
      in map_option (\<lambda>tmp. b\<lparr>sb_data := realloc (sb_data b) nsize tmp, sb_alloc := nsize\<rparr>) (alloc nsize))"

definition sbuffer_write :: "alloc \<Rightarrow> byte list \<Rightarrow> sbuffer \<Rightarrow> sbuffer option" where
  "sbuffer_write alloc buf b =
     (let len = of_nat (length buf)
      in map_option (\<lambda>b. b\<lparr>sb_data := memcpy (sb_data b) (unat (sb_size b)) buf, sb_size := sb_size b + len\<rparr>)
           (if sb_alloc b - sb_size b < len then expand_sbuffer alloc len b else Some b))"

definition sbuffer_clear :: "sbuffer \<Rightarrow> sbuffer" where
  "sbuffer_clear b = b\<lparr>sb_size := 0\<rparr>"

definition sbuffer_release :: "sbuffer \<Rightarrow> byte list \<times> sbuffer" where
  "sbuffer_release b = (sb_data b, \<lparr>sb_data = [], sb_size = 0, sb_alloc = 0\<rparr>)"

text \<open>The buffer moved to, and what is left of the other one.\<close>

definition sbuffer_move :: "sbuffer \<Rightarrow> sbuffer \<times> sbuffer" where
  "sbuffer_move b = (b, \<lparr>sb_data = [], sb_size = 0, sb_alloc = 0\<rparr>)"

fun write_pieces :: "alloc \<Rightarrow> byte list list \<Rightarrow> sbuffer \<Rightarrow> sbuffer option" where
  "write_pieces alloc [] b = Some b"
| "write_pieces alloc (p # ps) b = Option.bind (sbuffer_write alloc p b) (write_pieces alloc ps)"

definition written_bytes :: "sbuffer \<Rightarrow> byte list" where
  "written_bytes b = take (unat (sb_size b)) (sb_data b)"

definition wf_sbuffer :: "sbuffer \<Rightarrow> bool" where
  "wf_sbuffer b \<longleftrightarrow> length (sb_data b) = unat (sb_alloc b) \<and> sb_size b \<le> sb_alloc b \<and> unat (sb_alloc b) < 2 ^ 63"

lemma new_sbuffer_wf:
  "good_alloc alloc \<Longrightarrow> new_sbuffer alloc n = Some b \<Longrightarrow> wf_sbuffer b \<and> written_bytes b = []"
  by (auto simp: new_sbuffer_def wf_sbuffer_def written_bytes_def good_alloc_def split: if_splits)

lemma emptied_wf:
  "wf_sbuffer b \<Longrightarrow> wf_sbuffer (sbuffer_clear b) \<and> written_bytes (sbuffer_clear b) = []"
  "wf_sbuffer (snd (sbuffer_release b)) \<and> written_bytes (snd (sbuffer_release b)) = []"
  "wf_sbuffer b \<Longrightarrow> take (unat (sb_size b)) (fst (sbuffer_release b)) = written_bytes b"
  "wf_sbuffer (snd (sbuffer_move b)) \<and> written_bytes (snd (sbuffer_move b)) = []"
  by (simp_all add: wf_sbuffer_def written_bytes_def sbuffer_clear_def sbuffer_release_def sbuffer_move_def)

lemma expand_sbuffer_wf:
  assumes "wf_sbuffer b" "good_alloc alloc" "unat len < 2 ^ 63" "expand_sbuffer alloc len b = Some c"
    and "sb_alloc b - sb_size b < len"
  shows "wf_sbuffer c \<and> written_bytes c = written_bytes b \<and> sb_size c = sb_size b \<and> len \<le> sb_alloc c - sb_size c"
proof -
  define n where "n = grow (sb_size b + len) (if sb_alloc b > 0 then sb_alloc b * 2 else SBUFFER_INIT_SIZE)"
  obtain tmp where tmp: "alloc n = Some tmp" "c = b\<lparr>sb_data := realloc (sb_data b) n tmp, sb_alloc := n\<rparr>"
    using assms(4) by (auto simp: expand_sbuffer_def n_def Let_def)
  have n: "length tmp = unat n" "unat n < 2 ^ 63"
    using assms(2) tmp(1) by (simp_all add: good_alloc_def)
  have len: "unat (sb_size b) \<le> unat (sb_alloc b)" "unat (sb_alloc b) < 2 ^ 63" "length (sb_data b) = unat (sb_alloc b)"
    using assms(1) by (simp_all add: wf_sbuffer_def word_le_nat_alt)
  then have sum: "unat (sb_size b + len) = unat (sb_size b) + unat len"
    using assms(3) by (intro unat_plus) simp
  then have enough: "unat (sb_size b) + unat len \<le> unat n"
    using grow_enough [of "sb_size b + len"] unfolding n_def by (metis word_le_nat_alt)
  moreover have "unat (sb_alloc b) < unat (sb_size b) + unat len"
    using assms(5) len unat_minus [of "sb_size b" "sb_alloc b"] by (simp add: word_less_nat_alt)
  ultimately have "length (realloc (sb_data b) n tmp) = unat n" "take (unat (sb_alloc b)) (realloc (sb_data b) n tmp) = sb_data b"
    using n len by (simp_all add: realloc_def)
  then have "take (unat (sb_size b)) (realloc (sb_data b) n tmp) = take (unat (sb_size b)) (sb_data b)"
    using len(1) by (metis min.absorb1 take_take)
  then show ?thesis
    using tmp(2) n enough len \<open>length (realloc _ n tmp) = unat n\<close>
    by (simp add: wf_sbuffer_def written_bytes_def word_le_nat_alt unat_minus)
qed

lemma sbuffer_write_wf:
  assumes "wf_sbuffer b" "good_alloc alloc" "length buf < 2 ^ 63" "sbuffer_write alloc buf b = Some c"
  shows "wf_sbuffer c \<and> written_bytes c = written_bytes b @ buf"
proof -
  let ?len = "of_nat (length buf) :: size_t"
  have len: "unat ?len = length buf"
    using assms(3) by (simp add: unat_of_nat)
  obtain d where d: "wf_sbuffer d" "written_bytes d = written_bytes b" "?len \<le> sb_alloc d - sb_size d"
      "c = d\<lparr>sb_data := memcpy (sb_data d) (unat (sb_size d)) buf, sb_size := sb_size d + ?len\<rparr>"
  proof (cases "sb_alloc b - sb_size b < ?len")
    case True
    with assms(4) obtain d where "expand_sbuffer alloc ?len b = Some d"
      "c = d\<lparr>sb_data := memcpy (sb_data d) (unat (sb_size d)) buf, sb_size := sb_size d + ?len\<rparr>"
      by (auto simp: sbuffer_write_def Let_def)
    moreover have "unat ?len < 2 ^ 63" using len assms(3) by simp
    ultimately show thesis
      using expand_sbuffer_wf [OF assms(1,2) _ _ True] that by metis
  next
    case False
    with assms(1,4) that [of b] show thesis by (simp add: sbuffer_write_def Let_def not_less)
  qed
  have room: "unat (sb_size d) + length buf \<le> unat (sb_alloc d)" "length (sb_data d) = unat (sb_alloc d)"
      "unat (sb_alloc d) < 2 ^ 63"
    using d(1,3) len by (auto simp: wf_sbuffer_def word_le_nat_alt unat_minus)
  then have "unat (sb_size d + ?len) = unat (sb_size d) + length buf"
    using unat_plus [of "sb_size d" ?len] len by simp
  with room d(4) have "wf_sbuffer c \<and> written_bytes c = written_bytes d @ buf"
    by (simp add: wf_sbuffer_def written_bytes_def memcpy_def word_le_nat_alt)
  with d(2) show ?thesis by simp
qed

lemma write_pieces_wf:
  "wf_sbuffer b \<Longrightarrow> good_alloc alloc \<Longrightarrow> \<forall>p\<in>set ps. length p < 2 ^ 63 \<Longrightarrow> write_pieces alloc ps b = Some c \<Longrightarrow>
   wf_sbuffer c \<and> written_bytes c = written_bytes b @ concat ps"
proof (induction ps arbitrary: b)
  case (Cons p ps)
  then obtain d where d: "sbuffer_write alloc p b = Some d" "write_pieces alloc ps d = Some c"
    by (auto simp: bind_eq_Some_conv)
  with Cons.IH [of d] sbuffer_write_wf [OF Cons.prems(1,2) _ d(1)] Cons.prems show ?case by simp
qed simp

section \<open>A message in a buffer\<close>

text \<open>
  Whatever size a buffer is made with and in whatever pieces the packer writes: if memory
  does not run out, the buffer ends with exactly the bytes written, in order, its size is their
  number, and what is read from them are the objects that were packed.
\<close>

theorem sbuffer_holds_message:
  assumes "good_alloc alloc" "new_sbuffer alloc n = Some b" "write_pieces alloc ps b = Some c"
    and "\<forall>p\<in>set ps. length p < 2 ^ 63" "concat ps = concat (map pack_object xs)" "\<forall>x\<in>set xs. fits l 1 x"
  shows "written_bytes c = concat ps \<and> unat (sb_size c) = length (concat ps) \<and>
         read_chunks (init_ctx f l) [] [written_bytes c] = (xs, Inr (init_ctx f l, []))"
proof -
  have c: "wf_sbuffer c" "written_bytes c = concat ps"
    using write_pieces_wf [OF _ assms(1,4,3)] new_sbuffer_wf [OF assms(1,2)] by simp_all
  then have "unat (sb_size c) = length (concat ps)"
    by (metis length_take min.absorb2 wf_sbuffer_def word_le_nat_alt written_bytes_def)
  then show ?thesis
    using c(2) next_all_put [of xs l f "[]"] assms(5,6)
      read_chunks_join [of "init_ctx f l" "[]" "[written_bytes c]"] by (simp add: next_all_empty)
qed

definition sample_pieces :: "byte list list" where
  "sample_pieces = [take 5 (pack_object sample_object), [], drop 5 (pack_object sample_object), [0xc0]]"

definition sample_new :: sbuffer where
  "sample_new = \<lparr>sb_data = [0, 0, 0], sb_size = 0, sb_alloc = 3\<rparr>"

definition sample_written :: sbuffer where
  "sample_written = the (write_pieces sample_alloc sample_pieces sample_new)"

lemma sample_written_Some: "write_pieces sample_alloc sample_pieces sample_new = Some sample_written"
  unfolding sample_written_def by (rule option.collapse [symmetric]) code_simp

lemma sample_pieces_small: "\<forall>p\<in>set sample_pieces. length p < 2 ^ 63"
proof -
  have "list_all (\<lambda>p. length p < 100) sample_pieces" by code_simp
  then show ?thesis by (auto simp: list_all_iff)
qed

lemma sample_pieces_pack: "concat sample_pieces = concat (map pack_object [sample_object, NIL])"
  by (simp add: sample_pieces_def pack_nil_def)

lemma sample_new_made: "new_sbuffer sample_alloc 3 = Some sample_new"
  by code_simp

theorem sbuffer_holds_message_witness:
  "written_bytes sample_written = concat sample_pieces \<and>
   read_chunks (init_ctx True default_limit) [] [written_bytes sample_written] =
     ([sample_object, NIL], Inr (init_ctx True default_limit, []))"
proof -
  have "\<forall>x\<in>set [sample_object, NIL]. fits default_limit 1 x"
    using sample_fits by simp
  from sbuffer_holds_message [OF sample_alloc_good sample_new_made sample_written_Some sample_pieces_small
      sample_pieces_pack this, of True]
  show ?thesis by blast
qed

end
