(* ===== verification/Msgpack_Vrefbuffer.thy ===== *)
theory Msgpack_Vrefbuffer
  imports Msgpack_Memory Msgpack_Sbuffer
begin

text \<open>
  The other output buffer of MessagePack (\<open>v1/vrefbuffer.hpp\<close>): a vector of pointers and lengths for
  \<open>writev\<close>. Short pieces are copied into chunks of memory, long ones are referred to where they are.
  What it promises is that the bytes behind the vector are those written, in order, although the
  packer reuses the memory of its short pieces at once.
\<close>

section \<open>The buffer\<close>

text \<open>
  \<open>vb_vec\<close> is what is in the array below \<open>m_tail\<close>, \<open>vb_cap\<close> is \<open>m_end - m_array\<close>. The chunks are those
  reached from \<open>head\<close>, as in a zone; the code remembers of one of them, in \<open>free\<close> and \<open>ptr\<close>, what is left.
\<close>

record vrefbuffer =
  vb_array :: size_t
  vb_vec :: "span list"
  vb_cap :: size_t
  vb_ref_size :: size_t
  vb_chunk_size :: size_t
  vb_chunks :: "span list"
  vb_free :: size_t
  vb_ptr :: size_t

definition SIZEOF_IOVEC :: size_t where "SIZEOF_IOVEC = 16"
definition packer_max_buffer_size :: size_t where "packer_max_buffer_size = 9"

definition array_block :: "vrefbuffer \<Rightarrow> span" where
  "array_block v = (vb_array v, SIZEOF_IOVEC * vb_cap v)"

text \<open>What the destructor frees.\<close>

definition vref_blocks :: "vrefbuffer \<Rightarrow> span list" where
  "vref_blocks v = map whole (vb_chunks v) @ [array_block v]"

definition new_vrefbuffer :: "malloc \<Rightarrow> size_t \<Rightarrow> size_t \<Rightarrow> vrefbuffer option" where
  "new_vrefbuffer malloc ref_size chunk_size =
     (let nfirst = (if SIZEOF_IOVEC < 72 div 2 then 72 div SIZEOF_IOVEC else 8)
      in Option.bind (malloc [] (SIZEOF_IOVEC * nfirst)) (\<lambda>a.
         map_option (\<lambda>c. \<lparr>vb_array = a, vb_vec = [], vb_cap = nfirst,
                          vb_ref_size = max ref_size (packer_max_buffer_size + 1), vb_chunk_size = chunk_size,
                          vb_chunks = [(c + CHUNK_HEADER, chunk_size)], vb_free = chunk_size, vb_ptr = c + CHUNK_HEADER\<rparr>)
           (malloc [(a, SIZEOF_IOVEC * nfirst)] (CHUNK_HEADER + chunk_size))))"

text \<open>
  An operation says whether it returned; if not, memory ran out and \<open>std::bad_alloc\<close> left it. The block of
  \<open>realloc\<close> may be the one that is given up.
\<close>

definition append_ref :: "malloc \<Rightarrow> size_t \<Rightarrow> size_t \<Rightarrow> vrefbuffer \<Rightarrow> bool \<times> vrefbuffer" where
  "append_ref malloc buf len v =
     (let nused = of_nat (length (vb_vec v))
      in if nused = vb_cap v
         then let nnext = nused * 2
              in (case malloc (map whole (vb_chunks v)) (SIZEOF_IOVEC * nnext) of
                    None \<Rightarrow> (False, v)
                  | Some nvec \<Rightarrow>
                      (True, v\<lparr>vb_array := nvec, vb_cap := nnext, vb_vec := vb_vec v @ [(buf, len)]\<rparr>))
         else (True, v\<lparr>vb_vec := vb_vec v @ [(buf, len)]\<rparr>))"

text \<open>Room for a piece: the current chunk or a new one.\<close>

definition new_chunk :: "malloc \<Rightarrow> size_t \<Rightarrow> vrefbuffer \<Rightarrow> vrefbuffer option" where
  "new_chunk malloc len v =
     (if vb_free v < len
      then let sz = (if vb_chunk_size v < len then len else vb_chunk_size v)
           in map_option (\<lambda>c. v\<lparr>vb_chunks := (c + CHUNK_HEADER, sz) # vb_chunks v, vb_free := sz, vb_ptr := c + CHUNK_HEADER\<rparr>)
                (malloc (vref_blocks v) (CHUNK_HEADER + sz))
      else Some v)"

definition append_copy :: "malloc \<Rightarrow> size_t \<Rightarrow> size_t \<Rightarrow> memory \<times> vrefbuffer \<Rightarrow> bool \<times> memory \<times> vrefbuffer" where
  "append_copy malloc buf len = (\<lambda>(h, v).
     (case new_chunk malloc len v of
        None \<Rightarrow> (False, h, v)
      | Some v \<Rightarrow>
          let m = vb_ptr v;
              h = copy_bytes (unat len) m buf h;
              v = v\<lparr>vb_free := vb_free v - len, vb_ptr := vb_ptr v + len\<rparr>
          in if vb_vec v \<noteq> [] \<and> m = fst (last (vb_vec v)) + snd (last (vb_vec v))
             then (True, h, v\<lparr>vb_vec := butlast (vb_vec v) @ [(fst (last (vb_vec v)), snd (last (vb_vec v)) + len)]\<rparr>)
             else (case append_ref malloc m len v of (ok, v) \<Rightarrow> (ok, h, v))))"

definition vref_write :: "malloc \<Rightarrow> size_t \<Rightarrow> size_t \<Rightarrow> memory \<times> vrefbuffer \<Rightarrow> bool \<times> memory \<times> vrefbuffer" where
  "vref_write malloc buf len = (\<lambda>(h, v).
     if len < vb_ref_size v then append_copy malloc buf len (h, v)
     else case append_ref malloc buf len v of (ok, v) \<Rightarrow> (ok, h, v))"

definition vref_clear :: "vrefbuffer \<Rightarrow> vrefbuffer" where
  "vref_clear v =
     v\<lparr>vb_chunks := [hd (vb_chunks v)], vb_free := vb_chunk_size v, vb_ptr := fst (hd (vb_chunks v)), vb_vec := []\<rparr>"

text \<open>
  \<open>migrate\<close> hands the chunks and the vector to another buffer and goes on with an empty chunk. Whether the
  other array has to grow is decided by comparing a pointer behind it with the end of this one. Writing
  past its end is undefined behaviour.
\<close>

datatype migrate_fault = migrate_bad_alloc | migrate_out_of_bounds

definition migrate_grow :: "malloc \<Rightarrow> span list \<Rightarrow> vrefbuffer \<Rightarrow> vrefbuffer \<Rightarrow> vrefbuffer option" where
  "migrate_grow malloc live v to =
     (let nused = of_nat (length (vb_vec v));
          tosize = of_nat (length (vb_vec to))
      in if vb_array to + SIZEOF_IOVEC * (tosize + nused) < vb_array v + SIZEOF_IOVEC * vb_cap v
         then let nnext = grow (nused + tosize) (vb_cap to * 2)
              in map_option (\<lambda>nvec. to\<lparr>vb_array := nvec, vb_cap := nnext\<rparr>) (malloc live (SIZEOF_IOVEC * nnext))
         else Some to)"

definition migrate :: "malloc \<Rightarrow> vrefbuffer \<Rightarrow> vrefbuffer \<Rightarrow> migrate_fault + vrefbuffer \<times> vrefbuffer" where
  "migrate malloc v to =
     (let sz = vb_chunk_size v
      in case malloc (vref_blocks v @ vref_blocks to) (CHUNK_HEADER + sz) of
           None \<Rightarrow> Inl migrate_bad_alloc
         | Some c \<Rightarrow>
             (case migrate_grow malloc ((c, CHUNK_HEADER + sz) # vref_blocks v @ map whole (vb_chunks to)) v to of
                None \<Rightarrow> Inl migrate_bad_alloc
              | Some to \<Rightarrow>
                  if unat (vb_cap to) < length (vb_vec to) + length (vb_vec v) then Inl migrate_out_of_bounds
                  else Inr (v\<lparr>vb_vec := [], vb_chunks := [(c + CHUNK_HEADER, sz)], vb_free := sz, vb_ptr := c + CHUNK_HEADER\<rparr>,
                            let to = to\<lparr>vb_vec := vb_vec to @ vb_vec v, vb_chunks := vb_chunks v @ vb_chunks to\<rparr>
                            in if vb_free to < vb_free v then to\<lparr>vb_free := vb_free v, vb_ptr := vb_ptr v\<rparr> else to)))"

section \<open>What the buffer stands for\<close>

fun bytes_from :: "memory \<Rightarrow> size_t \<Rightarrow> nat \<Rightarrow> byte list" where
  "bytes_from h p 0 = []"
| "bytes_from h p (Suc n) = byte_store h p # bytes_from h (p + 1) n"

definition vref_bytes :: "memory \<Rightarrow> vrefbuffer \<Rightarrow> byte list" where
  "vref_bytes h v = concat (map (\<lambda>(p, n). bytes_from h p (unat n)) (vb_vec v))"

lemma bytes_from_at: "bytes_at h p b \<longleftrightarrow> bytes_from h p (length b) = b"
  by (induction b arbitrary: p) auto

lemma length_bytes_from [simp]: "length (bytes_from h p n) = n"
  by (induction n arbitrary: p) simp_all

lemma bytes_from_add: "bytes_from h p (m + n) = bytes_from h p m @ bytes_from h (p + word_of_nat m) n"
  by (induction m arbitrary: p) (simp_all add: add.assoc)

lemma bytes_from_same:
  assumes "in_memory (fst b) (unat (snd b))" "\<And>x. touches x b \<Longrightarrow> same_at h h' x"
  shows "bytes_from h' (fst b) (unat (snd b)) = bytes_from h (fst b) (unat (snd b))"
  using bytes_at_same [of "fst b" "bytes_from h (fst b) (unat (snd b))" h h'] assms
  by (simp add: bytes_from_at)

text \<open>
  The blocks of the buffer lie apart from each other and from the blocks \<open>F\<close> of others; what is free lies
  in a chunk; what the vector refers to is in chunks or in the blocks \<open>L\<close>, and not in what is free.
\<close>

definition iovec_ok :: "span \<Rightarrow> bool" where
  "iovec_ok b \<longleftrightarrow> in_memory (fst b) (unat (snd b))"

definition vref_free :: "vrefbuffer \<Rightarrow> span" where
  "vref_free v = (vb_ptr v, vb_free v)"

definition chunk_ok :: "span \<Rightarrow> bool" where
  "chunk_ok c \<longleftrightarrow> 8 \<le> unat (fst c) \<and> unat (fst c) + unat (snd c) < 2 ^ 63"

definition stays :: "span list \<Rightarrow> vrefbuffer \<Rightarrow> size_t \<Rightarrow> bool" where
  "stays L v x \<longleftrightarrow> (\<exists>c\<in>set (vb_chunks v) \<union> set L. touches x c)"

definition referable :: "span list \<Rightarrow> vrefbuffer \<Rightarrow> span \<Rightarrow> bool" where
  "referable L v b \<longleftrightarrow> iovec_ok b \<and> (\<forall>x. touches x b \<longrightarrow> \<not> touches x (vref_free v) \<and> stays L v x)"

definition vref_ok :: "span list \<Rightarrow> span list \<Rightarrow> vrefbuffer \<Rightarrow> bool" where
  "vref_ok F L v \<longleftrightarrow>
     sorted_wrt apart (vref_blocks v) \<and> all_apart (vref_blocks v) F \<and> set L \<subseteq> set F \<and>
     (\<forall>c\<in>set (vb_chunks v). chunk_ok c) \<and>
     (\<exists>c\<in>set (vb_chunks v). within (vref_free v) c) \<and>
     unat (vb_array v) + 16 * unat (vb_cap v) < 2 ^ 63 \<and>
     0 < unat (vb_cap v) \<and> length (vb_vec v) \<le> unat (vb_cap v) \<and>
     unat (vb_chunk_size v) < 2 ^ 63 \<and> 9 < unat (vb_ref_size v) \<and>
     (\<forall>b\<in>set (vb_vec v). referable L v b)"

section \<open>Making room\<close>

lemma whole_new [simp]: "whole (p + CHUNK_HEADER, sz) = (p, CHUNK_HEADER + sz)"
  by (simp add: whole_def add.commute)

lemma new_chunk_block:
  assumes "good_malloc malloc" "malloc live (CHUNK_HEADER + sz) = Some p" "unat sz < 2 ^ 63"
  shows "chunk_ok (p + CHUNK_HEADER, sz)" "\<forall>b\<in>set live. apart (p, CHUNK_HEADER + sz) b"
proof -
  have "unat (CHUNK_HEADER + sz) = 8 + unat sz"
    using assms(3) by (simp add: CHUNK_HEADER_def unat_plus)
  moreover have "unat p + unat (CHUNK_HEADER + sz) < 2 ^ 63 \<and> (\<forall>b\<in>set live. apart (p, CHUNK_HEADER + sz) b)"
    using assms(1,2) unfolding good_malloc_def by blast
  ultimately show "chunk_ok (p + CHUNK_HEADER, sz)" "\<forall>b\<in>set live. apart (p, CHUNK_HEADER + sz) b"
    by (simp_all add: chunk_ok_def CHUNK_HEADER_def unat_plus)
qed

lemma chunk_within: "chunk_ok c \<Longrightarrow> within c (whole c)"
  by (simp add: chunk_ok_def within_whole)

lemma chunk_in_block: "vref_ok F L v \<Longrightarrow> c \<in> set (vb_chunks v) \<Longrightarrow> within c (whole c) \<and> whole c \<in> set (vref_blocks v)"
  by (auto simp: vref_ok_def vref_blocks_def chunk_within)

lemma not_touched: "touches x b \<Longrightarrow> within b c \<Longrightarrow> within u d \<Longrightarrow> apart c d \<Longrightarrow> \<not> touches x u"
  using touches_within touches_apart by blast

lemma new_chunk_ok:
  assumes "vref_ok F L v" "good_malloc malloc" "avoids malloc F" "unat len < 2 ^ 63" "new_chunk malloc len v = Some v'"
  shows "vref_ok F L v' \<and> len \<le> vb_free v' \<and> vb_vec v' = vb_vec v \<and> vb_ref_size v' = vb_ref_size v"
proof (cases "vb_free v < len")
  case True
  define sz where "sz = (if vb_chunk_size v < len then len else vb_chunk_size v)"
  obtain p where p: "malloc (vref_blocks v) (CHUNK_HEADER + sz) = Some p"
      "v' = v\<lparr>vb_chunks := (p + CHUNK_HEADER, sz) # vb_chunks v, vb_free := sz, vb_ptr := p + CHUNK_HEADER\<rparr>"
    using assms(5) True by (auto simp: new_chunk_def sz_def Let_def)
  have sz: "unat sz < 2 ^ 63" "len \<le> sz"
    using assms(1,4) by (auto simp: sz_def vref_ok_def)
  note block = new_chunk_block [OF assms(2) p(1) sz(1)]
  have avoid: "\<forall>f\<in>set F. apart (p, CHUNK_HEADER + sz) f"
    using assms(3) p(1) unfolding avoids_def by blast
  have new: "within (p + CHUNK_HEADER, sz) (p, CHUNK_HEADER + sz)"
    using chunk_within [OF block(1)] by simp
  have "referable L v' b" if "b \<in> set (vb_vec v)" for b
  proof -
    have b: "referable L v b" using that assms(1) by (simp add: vref_ok_def)
    have "\<not> touches x (p + CHUNK_HEADER, sz)" if x: "stays L v x" for x
    proof -
      have "set L \<subseteq> set F" using assms(1) by (simp add: vref_ok_def)
      then obtain c where c: "c \<in> set (vb_chunks v) \<or> c \<in> set F" "touches x c"
        using x unfolding stays_def by blast
      then have "\<exists>d. within c d \<and> apart (p, CHUNK_HEADER + sz) d"
        using avoid block(2) chunk_in_block [OF assms(1)] within_refl by blast
      then show ?thesis using c(2) not_touched new touches_within touches_apart by blast
    qed
    with b p(2) show ?thesis by (auto simp: referable_def vref_free_def stays_def)
  qed
  then show ?thesis
    using assms(1) block avoid sz(2) p(2) within_refl
    by (auto simp: vref_ok_def vref_blocks_def all_apart_def array_block_def vref_free_def)
next
  case False
  with assms show ?thesis by (auto simp: new_chunk_def)
qed

lemma unat_iovecs: "16 * unat n < 2 ^ 64 \<Longrightarrow> unat (SIZEOF_IOVEC * n) = 16 * unat n"
  by (simp add: SIZEOF_IOVEC_def unat_word_ariths)

lemma append_ref_ok:
  assumes "vref_ok F L v" "good_malloc malloc" "avoids malloc F" "referable L v (buf, len)" "append_ref malloc buf len v = (r, v')"
  shows "vref_ok F L v'" "vb_vec v' = (if r then vb_vec v @ [(buf, len)] else vb_vec v)" "vb_ref_size v' = vb_ref_size v"
proof -
  have cap: "16 * unat (vb_cap v) < 2 ^ 63" "length (vb_vec v) \<le> unat (vb_cap v)" "0 < unat (vb_cap v)"
    using assms(1) by (simp_all add: vref_ok_def)
  have nused: "unat (of_nat (length (vb_vec v)) :: size_t) = length (vb_vec v)"
    using cap by (simp add: unat_of_nat)
  show "vref_ok F L v'"
  proof (cases "of_nat (length (vb_vec v)) = vb_cap v")
    case True
    show ?thesis
    proof (cases "malloc (map whole (vb_chunks v)) (SIZEOF_IOVEC * (vb_cap v * 2))")
      case None
      with assms(1,5) True show ?thesis by (simp add: append_ref_def Let_def)
    next
      case (Some p)
      have double: "unat (vb_cap v * 2) = unat (vb_cap v) * 2"
        using cap(1) by (simp add: unat_word_ariths)
      then have twice: "unat (SIZEOF_IOVEC * (vb_cap v * 2)) = 16 * (unat (vb_cap v) * 2)"
        using cap(1) by (simp add: unat_iovecs)
      have block: "unat p + unat (SIZEOF_IOVEC * (vb_cap v * 2)) < 2 ^ 63"
          "\<forall>b\<in>set (map whole (vb_chunks v)). apart (p, SIZEOF_IOVEC * (vb_cap v * 2)) b"
        using assms(2) Some unfolding good_malloc_def by blast+
      have avoid: "\<forall>f\<in>set F. apart (p, SIZEOF_IOVEC * (vb_cap v * 2)) f"
        using assms(3) Some unfolding avoids_def by blast
      have v': "v' = v\<lparr>vb_array := p, vb_cap := vb_cap v * 2, vb_vec := vb_vec v @ [(buf, len)]\<rparr>"
        using assms(5) True Some by (simp add: append_ref_def Let_def)
      have "sorted_wrt apart (vref_blocks v')" "all_apart (vref_blocks v') F"
        using assms(1) block(2) avoid apart_sym unfolding v'
        by (auto simp: vref_ok_def vref_blocks_def array_block_def all_apart_def sorted_wrt_append)
      moreover have "referable L v' b" if "b \<in> set (vb_vec v')" for b
        using that assms(1,4) unfolding v' by (auto simp: vref_ok_def referable_def stays_def vref_free_def)
      moreover have "length (vb_vec v') \<le> unat (vb_cap v')"
        using cap nused True unfolding v' by (cases "vb_vec v") (simp_all add: double)
      ultimately show ?thesis
        using assms(1) block(1) double twice unfolding v' by (simp add: vref_ok_def vref_free_def)
    qed
  next
    case False
    then have "length (vb_vec v) < unat (vb_cap v)"
      using cap nused by (metis le_neq_implies_less word_unat_eq_iff)
    with assms(1,4,5) False show ?thesis
      by (auto simp: append_ref_def Let_def vref_ok_def vref_blocks_def array_block_def referable_def stays_def vref_free_def)
  qed
  show "vb_vec v' = (if r then vb_vec v @ [(buf, len)] else vb_vec v)" "vb_ref_size v' = vb_ref_size v"
    using assms(5) by (auto simp: append_ref_def Let_def split: if_splits option.splits)
qed

text \<open>The bytes that were free and have been taken.\<close>

definition take_free :: "size_t \<Rightarrow> vrefbuffer \<Rightarrow> vrefbuffer" where
  "take_free len v = v\<lparr>vb_free := vb_free v - len, vb_ptr := vb_ptr v + len\<rparr>"

lemma take_free_ok:
  assumes "vref_ok F L v" "len \<le> vb_free v"
  shows "vref_ok F L (take_free len v)" "referable L (take_free len v) (vb_ptr v, len)" "within (vb_ptr v, len) (vref_free v)"
    and "unat (vb_ptr v) + unat len < 2 ^ 63"
proof -
  obtain c where c: "c \<in> set (vb_chunks v)" "within (vref_free v) c" "chunk_ok c"
    using assms(1) by (auto simp: vref_ok_def)
  then have top: "unat (vb_ptr v) + unat (vb_free v) < 2 ^ 63" and len: "unat len \<le> unat (vb_free v)"
    using assms(2) by (auto simp: within_def vref_free_def chunk_ok_def word_le_nat_alt)
  then show "unat (vb_ptr v) + unat len < 2 ^ 63" by simp
  have sums: "unat (vb_ptr v + len) = unat (vb_ptr v) + unat len" "unat (vb_free v - len) = unat (vb_free v) - unat len"
    using top len by (simp_all add: unat_plus unat_minus)
  have inside: "within (vref_free (take_free len v)) (vref_free v)"
    using sums len by (simp add: within_def vref_free_def take_free_def)
  have "referable L (take_free len v) b" if "b \<in> set (vb_vec v)" for b
  proof -
    have "referable L v b" using that assms(1) by (simp add: vref_ok_def)
    moreover have "stays L (take_free len v) = stays L v"
      by (simp add: fun_eq_iff stays_def take_free_def)
    ultimately show ?thesis using touches_within [OF _ inside] unfolding referable_def by metis
  qed
  moreover have "\<exists>c\<in>set (vb_chunks v). within (vref_free (take_free len v)) c"
    using c within_trans [OF inside] by blast
  ultimately show "vref_ok F L (take_free len v)"
    using assms(1) by (simp add: vref_ok_def vref_blocks_def array_block_def take_free_def)
  show taken: "within (vb_ptr v, len) (vref_free v)"
    using len by (simp add: within_def vref_free_def)
  have "touches x c" if "touches x (vb_ptr v, len)" for x
    using touches_within [OF that within_trans [OF taken c(2)]] .
  moreover have "\<not> touches x (vref_free (take_free len v))" if "touches x (vb_ptr v, len)" for x
    using that sums by (simp add: touches_def vref_free_def take_free_def)
  ultimately show "referable L (take_free len v) (vb_ptr v, len)"
    using c(1) top len by (auto simp: referable_def iovec_ok_def in_memory_def stays_def take_free_def)
qed

section \<open>Writing a piece\<close>

lemma vref_bytes_same:
  assumes "vref_ok F L v" "changes_only [c] h h'" "within c (vref_free v)"
  shows "vref_bytes h' v = vref_bytes h v"
proof -
  have "bytes_from h' (fst b) (unat (snd b)) = bytes_from h (fst b) (unat (snd b))" if "b \<in> set (vb_vec v)" for b
  proof (rule bytes_from_same)
    have b: "referable L v b" using that assms(1) by (simp add: vref_ok_def)
    then show "in_memory (fst b) (unat (snd b))" by (simp add: referable_def iovec_ok_def)
    show "same_at h h' x" if "touches x b" for x
      using that b assms(2) touches_within [OF _ assms(3)] unfolding referable_def changes_only_def by simp metis
  qed
  then show ?thesis
    by (auto simp: vref_bytes_def intro!: arg_cong [of _ _ concat])
qed

lemma vref_bytes_snoc: "vb_vec v = bs @ [(p, n)] \<Longrightarrow> vref_bytes h v = concat (map (\<lambda>(p, n). bytes_from h p (unat n)) bs) @ bytes_from h p (unat n)"
  by (simp add: vref_bytes_def)

text \<open>A piece that lies directly behind the last one makes it longer.\<close>

lemma merged:
  assumes "vref_ok F L v" "referable L v (m, len)" "vb_vec v = bs @ [(p, n)]" "m = p + n"
  shows "referable L v (p, n + len)" "unat (n + len) = unat n + unat len"
proof -
  have old: "referable L v (p, n)" using assms(1,3) by (simp add: vref_ok_def)
  then have "unat (p + n) = unat p + unat n"
    by (simp add: referable_def iovec_ok_def in_memory_def unat_plus)
  then have top: "unat p + unat n + unat len < 2 ^ 63"
    using assms(2,4) by (simp add: referable_def iovec_ok_def in_memory_def)
  then show sum: "unat (n + len) = unat n + unat len" by (simp add: unat_plus)
  have "touches x (p, n + len) \<longleftrightarrow> touches x (p, n) \<or> touches x (m, len)" for x
    using sum assms(4) \<open>unat (p + n) = _\<close> by (auto simp: touches_def)
  then show "referable L v (p, n + len)"
    using old assms(2) top sum by (auto simp: referable_def iovec_ok_def in_memory_def)
qed

text \<open>What an attempt to write a piece guarantees, whether it succeeds or memory runs out.\<close>

definition wrote :: "span list \<Rightarrow> span list \<Rightarrow> byte list \<Rightarrow> memory \<times> vrefbuffer \<Rightarrow> bool \<times> memory \<times> vrefbuffer \<Rightarrow> bool" where
  "wrote F L bs = (\<lambda>(h, v) (r, h', v').
     vref_ok F L v' \<and> vref_bytes h' v' = vref_bytes h v @ (if r then bs else []) \<and>
     keeps F h h' \<and> vb_ref_size v' = vb_ref_size v)"

lemma copied:
  assumes "vref_ok F L v" "len \<le> vb_free v" "(buf, len) \<in> set F" "iovec_ok (buf, len)"
    and "h' = copy_bytes (unat len) (vb_ptr v) buf h"
  shows "vref_bytes h' v = vref_bytes h v" "bytes_from h' (vb_ptr v) (unat len) = bytes_from h buf (unat len)" "keeps F h h'"
proof -
  note taken = take_free_ok [OF assms(1,2)]
  have changes: "changes_only [(vb_ptr v, len)] h h'"
    using copy_bytes_changes [of "vb_ptr v" "unat len" h buf] taken(4) assms(5) by (simp add: in_memory_def)
  then show "vref_bytes h' v = vref_bytes h v"
    using vref_bytes_same [OF assms(1) _ taken(3)] by blast
  obtain c where c: "c \<in> set (vb_chunks v)" "within (vref_free v) c" "chunk_ok c" "all_apart (vref_blocks v) F"
    using assms(1) by (auto simp: vref_ok_def)
  then have "within (vb_ptr v, len) (whole c)" "\<forall>f\<in>set F. apart (whole c) f"
    using within_trans [OF taken(3) within_trans [OF c(2) chunk_within [OF c(3)]]]
    by (auto simp: all_apart_def vref_blocks_def)
  then have apart: "\<forall>f\<in>set F. apart (vb_ptr v, len) f"
    using within_apart [OF _ within_refl] by blast
  then show "keeps F h h'"
    using changes_keeps [OF changes] by (simp add: all_apart_def)
  show "bytes_from h' (vb_ptr v) (unat len) = bytes_from h buf (unat len)"
    using copy_bytes_at [of h buf "bytes_from h buf (unat len)" "vb_ptr v"] apart assms(3,4,5) taken(4)
    by (simp add: bytes_from_at iovec_ok_def in_memory_def)
qed

lemma append_copy_wrote:
  assumes "vref_ok F L v" "good_malloc malloc" "avoids malloc F" "(buf, len) \<in> set F" "iovec_ok (buf, len)"
  shows "wrote F L (bytes_from h buf (unat len)) (h, v) (append_copy malloc buf len (h, v))"
proof (cases "new_chunk malloc len v")
  case None
  with assms(1) show ?thesis by (simp add: wrote_def append_copy_def keeps_def same_at_def)
next
  case (Some v1)
  have len: "unat len < 2 ^ 63" using assms(5) by (simp add: iovec_ok_def in_memory_def)
  have v1: "vref_ok F L v1" "len \<le> vb_free v1" "vb_vec v1 = vb_vec v" "vb_ref_size v1 = vb_ref_size v"
    using new_chunk_ok [OF assms(1,2,3) len Some] by simp_all
  define h' where "h' = copy_bytes (unat len) (vb_ptr v1) buf h"
  note bytes = copied [OF v1(1,2) assms(4,5) h'_def]
  note taken = take_free_ok [OF v1(1,2)]
  have same: "vref_bytes h v1 = vref_bytes h v" "vb_vec (take_free len v1) = vb_vec v1" "vb_ref_size (take_free len v1) = vb_ref_size v1"
    using v1(3) by (simp_all add: vref_bytes_def take_free_def)
  show ?thesis
  proof (cases "vb_vec v1 \<noteq> [] \<and> vb_ptr v1 = fst (last (vb_vec v1)) + snd (last (vb_vec v1))")
    case True
    then obtain bs p n where vec: "vb_vec v1 = bs @ [(p, n)]" "vb_ptr v1 = p + n"
      by (metis append_butlast_last_id prod.collapse)
    have res: "append_copy malloc buf len (h, v) = (True, h', (take_free len v1)\<lparr>vb_vec := bs @ [(p, n + len)]\<rparr>)"
      using Some vec by (simp add: append_copy_def Let_def h'_def take_free_def)
    note longer = merged [OF taken(1,2), unfolded same(2), OF vec]
    have "vref_ok F L ((take_free len v1)\<lparr>vb_vec := bs @ [(p, n + len)]\<rparr>)"
      using taken(1) longer(1) vec(1) same(2)
      by (auto simp: vref_ok_def vref_blocks_def array_block_def vref_free_def referable_def stays_def)
    moreover have "vref_bytes h' ((take_free len v1)\<lparr>vb_vec := bs @ [(p, n + len)]\<rparr>) =
        vref_bytes h' v1 @ bytes_from h' (vb_ptr v1) (unat len)"
      using vref_bytes_snoc [OF vec(1), of h'] vec(2) bytes_from_add [of h' p "unat n" "unat len"] longer(2)
      by (simp add: vref_bytes_def)
    ultimately show ?thesis
      using res bytes same v1(4) by (simp add: wrote_def)
  next
    case False
    obtain r v' where ref: "append_ref malloc (vb_ptr v1) len (take_free len v1) = (r, v')" by fastforce
    then have res: "append_copy malloc buf len (h, v) = (r, h', v')"
      using Some False by (auto simp: append_copy_def Let_def h'_def take_free_def)
    note made = append_ref_ok [OF taken(1) assms(2,3) taken(2) ref]
    have "vref_bytes h' v' = vref_bytes h' v1 @ (if r then bytes_from h' (vb_ptr v1) (unat len) else [])"
      using made(2) same(2) by (simp add: vref_bytes_def)
    then show ?thesis
      using res bytes made(1,3) same v1(4) by (simp add: wrote_def)
  qed
qed

lemma vref_ok_more: "vref_ok F L v \<Longrightarrow> b \<in> set F \<Longrightarrow> vref_ok F (b # L) v"
  by (auto simp: vref_ok_def referable_def stays_def)

lemma client_block:
  assumes "vref_ok F L v" "b \<in> set F" "touches x b"
  shows "\<not> touches x (vref_free v)" "c \<in> set (vb_chunks v) \<Longrightarrow> \<not> touches x c"
proof -
  have inside: "within u (whole c) \<Longrightarrow> c \<in> set (vb_chunks v) \<Longrightarrow> \<not> touches x u" for u c
    using assms chunk_in_block [OF assms(1)] not_touched [OF assms(3) within_refl] apart_sym
    unfolding vref_ok_def all_apart_def by blast
  show "c \<in> set (vb_chunks v) \<Longrightarrow> \<not> touches x c"
    using inside chunk_in_block [OF assms(1)] by blast
  obtain c where "c \<in> set (vb_chunks v)" "within (vref_free v) c"
    using assms(1) by (auto simp: vref_ok_def)
  then show "\<not> touches x (vref_free v)"
    using inside within_trans chunk_in_block [OF assms(1)] by blast
qed

definition kept_blocks :: "size_t \<Rightarrow> span \<Rightarrow> span list \<Rightarrow> span list" where
  "kept_blocks ref_size b L = (if snd b < ref_size then L else b # L)"

lemma vref_write_wrote:
  assumes "vref_ok F L v" "good_malloc malloc" "avoids malloc F" "(buf, len) \<in> set F" "iovec_ok (buf, len)"
  shows "wrote F (kept_blocks (vb_ref_size v) (buf, len) L) (bytes_from h buf (unat len)) (h, v) (vref_write malloc buf len (h, v))"
proof (cases "len < vb_ref_size v")
  case True
  with append_copy_wrote [OF assms] show ?thesis by (simp add: vref_write_def kept_blocks_def)
next
  case False
  obtain r v' where ref: "append_ref malloc buf len v = (r, v')" by fastforce
  have "referable ((buf, len) # L) v (buf, len)"
    using assms(5) client_block(1) [OF assms(1,4)] by (simp add: referable_def stays_def)
  note made = append_ref_ok [OF vref_ok_more [OF assms(1,4)] assms(2,3) this ref]
  then show ?thesis
    using False ref by (simp add: vref_write_def wrote_def vref_bytes_def kept_blocks_def keeps_def same_at_def)
qed

section \<open>Writing a message\<close>

text \<open>
  A writer puts the bytes of a piece into memory of its own and hands it to the buffer. The packer does
  this with a few bytes on its stack, at the same place every time, and the strings of its caller.
\<close>

fun put_bytes :: "size_t \<Rightarrow> byte list \<Rightarrow> memory \<Rightarrow> memory" where
  "put_bytes p [] h = h"
| "put_bytes p (b # bs) h = put_bytes (p + 1) bs (h\<lparr>byte_store := (byte_store h)(p := b)\<rparr>)"

fun vref_write_all :: "malloc \<Rightarrow> (size_t \<times> byte list) list \<Rightarrow> memory \<times> vrefbuffer \<Rightarrow> bool \<times> memory \<times> vrefbuffer" where
  "vref_write_all malloc [] s = (True, s)"
| "vref_write_all malloc ((p, bs) # ps) (h, v) =
     (case vref_write malloc p (of_nat (length bs)) (put_bytes p bs h, v) of
        (r, s) \<Rightarrow> if r then vref_write_all malloc ps s else (False, s))"

definition piece_span :: "size_t \<times> byte list \<Rightarrow> span" where
  "piece_span = (\<lambda>(p, bs). (p, of_nat (length bs)))"

text \<open>The memory of the pieces that are long, and only of those, is not written again.\<close>

fun undisturbed :: "size_t \<Rightarrow> span list \<Rightarrow> span list \<Rightarrow> bool" where
  "undisturbed ref_size L [] = True"
| "undisturbed ref_size L (b # bs) =
     (list_all (apart b) L \<and> undisturbed ref_size (kept_blocks ref_size b L) bs)"

lemma put_bytes_changes:
  "in_memory p (length bs) \<Longrightarrow> changes_only [(p, word_of_nat (length bs))] h (put_bytes p bs h)"
proof (induction bs arbitrary: p h)
  case (Cons b bs)
  note head = array_head [of p 1 "length bs", simplified]
  have mem: "in_memory p (Suc (length bs))" using Cons.prems by simp
  let ?h = "h\<lparr>byte_store := (byte_store h)(p := b)\<rparr>"
  have "changes_only [(p, word_of_nat (Suc (length bs)))] h ?h"
    using head(1) mem by (auto simp: changes_only_def same_at_def)
  moreover have "changes_only [(p, word_of_nat (Suc (length bs)))] ?h (put_bytes (p + 1) bs ?h)"
    by (rule changes_only_mono [OF Cons.IH]) (use head(3,4) mem in simp_all)
  ultimately show ?case using changes_only_trans_same by simp
qed (simp add: changes_only_refl)

lemma put_bytes_at: "in_memory p (length bs) \<Longrightarrow> bytes_from (put_bytes p bs h) p (length bs) = bs"
proof (induction bs arbitrary: p h)
  case (Cons b bs)
  note head = array_head [of p 1 "length bs", simplified]
  have mem: "in_memory p (Suc (length bs))" using Cons.prems by simp
  let ?h = "h\<lparr>byte_store := (byte_store h)(p := b)\<rparr>"
  have "\<not> touches p (p + 1, word_of_nat (length bs))"
    using head(2) mem by (simp add: touches_def)
  then have "byte_store (put_bytes (p + 1) bs ?h) p = b"
    using put_bytes_changes [of "p + 1" bs ?h] head(3) mem by (simp add: changes_only_def same_at_def)
  with Cons.IH [of "p + 1" ?h] head(3) mem show ?case by simp
qed simp

lemma client_keeps:
  assumes "vref_ok F L v" "b \<in> set F" "list_all (apart b) L" "changes_only [b] h h'"
  shows "vref_bytes h' v = vref_bytes h v"
proof -
  have "bytes_from h' (fst c) (unat (snd c)) = bytes_from h (fst c) (unat (snd c))" if "c \<in> set (vb_vec v)" for c
  proof (rule bytes_from_same)
    have c: "referable L v c" using that assms(1) by (simp add: vref_ok_def)
    then show "in_memory (fst c) (unat (snd c))" by (simp add: referable_def iovec_ok_def)
    fix x assume "touches x c"
    with c have "stays L v x" by (simp add: referable_def)
    then have "\<not> touches x b"
      using client_block(2) [OF assms(1,2)] assms(3) touches_apart unfolding stays_def list_all_iff by blast
    with assms(4) show "same_at h h' x" by (simp add: changes_only_def)
  qed
  then show ?thesis
    by (auto simp: vref_bytes_def intro!: arg_cong [of _ _ concat])
qed

text \<open>Where memory runs out, the buffer holds the pieces before.\<close>

lemma vref_write_all_bytes:
  assumes "vref_ok F L v" "good_malloc malloc" "avoids malloc F" "set (map piece_span ps) \<subseteq> set F"
    and "\<forall>(p, bs)\<in>set ps. in_memory p (length bs)" "undisturbed (vb_ref_size v) L (map piece_span ps)"
    and "vref_write_all malloc ps (h, v) = (r, h', v')"
  shows "(\<exists>L'. vref_ok F L' v') \<and>
         (\<exists>n. vref_bytes h' v' = vref_bytes h v @ concat (map snd (take n ps)) \<and> (if r then n = length ps else n < length ps))"
  using assms(1,4-7)
proof (induction ps arbitrary: L h v)
  case (Cons pb ps)
  obtain p bs where pb: "pb = (p, bs)" by fastforce
  let ?len = "of_nat (length bs) :: size_t"
  let ?h = "put_bytes p bs h"
  have mem: "in_memory p (length bs)" using Cons.prems(3) pb by auto
  then have len: "unat ?len = length bs" by (simp add: in_memory_def unat_size)
  have F: "(p, ?len) \<in> set F" and apart: "list_all (apart (p, ?len)) L"
    using Cons.prems(2,4) pb by (simp_all add: piece_span_def)
  have same: "vref_bytes ?h v = vref_bytes h v"
    using client_keeps [OF Cons.prems(1) F apart put_bytes_changes [OF mem]] .
  obtain r1 h1 v1 where res: "vref_write malloc p ?len (?h, v) = (r1, h1, v1)" by (metis prod_cases3)
  have wrote: "wrote F (kept_blocks (vb_ref_size v) (p, ?len) L) bs (?h, v) (r1, h1, v1)"
    using vref_write_wrote [OF Cons.prems(1) assms(2,3) F, of ?h] res mem len put_bytes_at [OF mem]
    by (simp add: iovec_ok_def)
  show ?case
  proof (cases r1)
    case True
    have "vref_write_all malloc ps (h1, v1) = (r, h', v')"
      using Cons.prems(5) res True pb by simp
    then have "(\<exists>L'. vref_ok F L' v') \<and>
        (\<exists>n. vref_bytes h' v' = vref_bytes h1 v1 @ concat (map snd (take n ps)) \<and> (if r then n = length ps else n < length ps))"
      using wrote Cons.prems(2,3,4) pb
      by (intro Cons.IH [of "kept_blocks (vb_ref_size v) (p, ?len) L"]) (auto simp: wrote_def piece_span_def)
    then obtain n where "\<exists>L'. vref_ok F L' v'" "vref_bytes h' v' = vref_bytes h v @ concat (map snd (take (Suc n) (pb # ps)))"
        "if r then n = length ps else n < length ps"
      using wrote same True pb by (auto simp: wrote_def)
    then show ?thesis by (intro conjI exI [of _ "Suc n"]) (auto split: if_splits)
  next
    case False
    then have "\<not> r \<and> h' = h1 \<and> v' = v1" using Cons.prems(5) res pb by simp
    then show ?thesis
      using wrote same False by (intro conjI exI [of _ 0]) (auto simp: wrote_def)
  qed
qed auto

lemma new_vrefbuffer_ok:
  assumes "good_malloc malloc" "avoids malloc F" "unat chunk_size < 2 ^ 63" "new_vrefbuffer malloc ref_size chunk_size = Some v"
  shows "vref_ok F [] v \<and> vref_bytes h v = []"
proof -
  obtain a c where a: "malloc [] 64 = Some a" and c: "malloc [(a, 64)] (CHUNK_HEADER + chunk_size) = Some c"
      and v: "v = \<lparr>vb_array = a, vb_vec = [], vb_cap = 4, vb_ref_size = max ref_size 10, vb_chunk_size = chunk_size,
                vb_chunks = [(c + CHUNK_HEADER, chunk_size)], vb_free = chunk_size, vb_ptr = c + CHUNK_HEADER\<rparr>"
    using assms(4) by (auto simp: new_vrefbuffer_def SIZEOF_IOVEC_def packer_max_buffer_size_def bind_eq_Some_conv)
  note block = new_chunk_block [OF assms(1) c assms(3)]
  have "unat a + unat (64 :: size_t) < 2 ^ 63" "\<forall>f\<in>set F. apart (a, 64) f" "\<forall>f\<in>set F. apart (c, CHUNK_HEADER + chunk_size) f"
    using assms(1,2) a c unfolding good_malloc_def avoids_def by blast+
  then show ?thesis
    using block assms(3) within_refl
    by (auto simp: v vref_ok_def vref_blocks_def array_block_def SIZEOF_IOVEC_def all_apart_def vref_free_def vref_bytes_def
        max_def word_le_nat_alt)
qed

text \<open>
  C30. Either buffer holds the message. Whatever pieces the packer writes, at addresses of which only
  those of the long pieces are left alone afterwards, and whatever sizes the two buffers are made with:
  if memory does not run out, the bytes behind the vector of the one are the bytes in the other, those
  that were written, and sent one entry of the vector after the other they are read as the objects packed.
\<close>

theorem buffers_agree:
  assumes "good_malloc malloc" "new_vrefbuffer (beside malloc (map piece_span ps)) ref_size chunk_size = Some v"
    and "vref_write_all (beside malloc (map piece_span ps)) ps (h, v) = (True, h', v')"
    and "good_alloc alloc" "new_sbuffer alloc n = Some b" "write_pieces alloc (map snd ps) b = Some c"
    and "unat chunk_size < 2 ^ 63" "\<forall>(p, bs)\<in>set ps. in_memory p (length bs)"
    and "undisturbed (vb_ref_size v) [] (map piece_span ps)"
    and "concat (map snd ps) = concat (map pack_object xs)" "\<forall>x\<in>set xs. fits l 1 x"
  shows "vref_bytes h' v' = written_bytes c \<and> written_bytes c = concat (map pack_object xs) \<and>
         read_chunks (init_ctx f l) [] (map (\<lambda>(p, n). bytes_from h' p (unat n)) (vb_vec v')) = (xs, Inr (init_ctx f l, []))"
proof -
  let ?F = "map piece_span ps"
  note malloc = beside_good [OF assms(1), of ?F]
  have "vref_ok ?F [] v" "vref_bytes h v = []"
    using new_vrefbuffer_ok [OF malloc assms(7,2)] by simp_all
  then have vref: "vref_bytes h' v' = concat (map snd ps)"
    using vref_write_all_bytes [OF _ malloc _ assms(8,9,3)] by auto
  have "\<forall>p\<in>set (map snd ps). length p < 2 ^ 63"
    using assms(8) by (auto simp: in_memory_def)
  then have sbuffer: "written_bytes c = concat (map snd ps)"
    using write_pieces_wf [OF _ assms(4) _ assms(6)] new_sbuffer_wf [OF assms(4,5)] by simp
  show ?thesis
    using vref sbuffer assms(10,11) next_all_put [of xs l f "[]"] read_chunks_join [OF next_all_empty]
    by (simp add: vref_bytes_def next_all_empty)
qed

text \<open>A string of 40 bytes, which is referred to, between pieces at one place of the stack.\<close>

definition sample_text :: "byte list" where
  "sample_text = replicate 40 0x61"

definition sample_message :: object where
  "sample_message = ARRAY [Str sample_text, NIL]"

definition sample_writes :: "(size_t \<times> byte list) list" where
  "sample_writes = [(100, [0x92]), (100, [0xd9, 40]), (200, sample_text), (100, [0xc0])]"

definition sample_vref :: vrefbuffer where
  "sample_vref = the (new_vrefbuffer (beside sample_malloc (map piece_span sample_writes)) 32 64)"

definition vref_sent :: "bool \<times> memory \<times> vrefbuffer" where
  "vref_sent = vref_write_all (beside sample_malloc (map piece_span sample_writes)) sample_writes (\<lparr>byte_store = (\<lambda>x. 0), object_store = (\<lambda>x. R_NIL)\<rparr>, sample_vref)"


lemma sample_vref_made: "new_vrefbuffer (beside sample_malloc (map piece_span sample_writes)) 32 64 = Some sample_vref"
  unfolding sample_vref_def by (rule option.collapse [symmetric]) code_simp

lemma sample_writes_fit: "\<forall>(p, bs)\<in>set sample_writes. in_memory p (length bs)"
  by (simp add: sample_writes_def sample_text_def in_memory_def)

lemma sample_writes_undisturbed: "undisturbed (vb_ref_size sample_vref) [] (map piece_span sample_writes)"
  by code_simp

lemma sample_writes_pack: "concat (map snd sample_writes) = concat (map pack_object [sample_message])"
  by code_simp

lemma sample_sent: "case vref_sent of (r, h, v) \<Rightarrow> r \<and> length (vb_vec v) = 3"
  by code_simp

lemma sample_message_fits: "\<forall>x\<in>set [sample_message]. fits default_limit 1 x"
proof -
  have "fits default_limit 1 sample_message" by (simp add: sample_message_def sample_text_def default_limit_def)
  then show ?thesis unfolding list.set by blast
qed

definition sample_copied :: sbuffer where
  "sample_copied = the (write_pieces sample_alloc (map snd sample_writes) sample_new)"

lemma sample_copied_Some: "write_pieces sample_alloc (map snd sample_writes) sample_new = Some sample_copied"
  unfolding sample_copied_def by (rule option.collapse [symmetric]) code_simp

theorem buffers_agree_witness:
  "case vref_sent of (r, h, v) \<Rightarrow>
     length (vb_vec v) = 3 \<and> vref_bytes h v = written_bytes sample_copied \<and>
     read_chunks (init_ctx True default_limit) [] (map (\<lambda>(p, n). bytes_from h p (unat n)) (vb_vec v)) =
       ([sample_message], Inr (init_ctx True default_limit, []))"
proof -
  obtain h v where sent: "vref_sent = (True, h, v)" "length (vb_vec v) = 3"
    using sample_sent by (auto split: prod.splits)
  have "unat (64 :: size_t) < 2 ^ 63" by simp
  from buffers_agree [OF sample_malloc_good sample_vref_made sent(1) [unfolded vref_sent_def] sample_alloc_good
      sample_new_made sample_copied_Some this sample_writes_fit sample_writes_undisturbed sample_writes_pack
      sample_message_fits, of True]
  show ?thesis unfolding sent(1) prod.case using sent(2) by blast
qed

section \<open>Clearing, handing over, destroying\<close>

text \<open>
  \<open>clear\<close> keeps the first chunk and takes it to have \<open>chunk_size\<close> bytes, as the first chunk always has
  unless it came from another buffer.
\<close>

definition clearable :: "vrefbuffer \<Rightarrow> bool" where
  "clearable v \<longleftrightarrow> vb_chunks v \<noteq> [] \<and> vb_chunk_size v \<le> snd (hd (vb_chunks v))"

lemma vref_clear_ok:
  assumes "vref_ok F L v" "clearable v"
  shows "vref_ok F [] (vref_clear v) \<and> vref_bytes h (vref_clear v) = [] \<and> clearable (vref_clear v)"
proof -
  obtain c cs where "vb_chunks v = c # cs" "vb_chunk_size v \<le> snd c"
    using assms(2) by (cases "vb_chunks v") (simp_all add: clearable_def)
  then show ?thesis
    using assms(1)
    by (auto simp: vref_clear_def vref_ok_def vref_blocks_def array_block_def all_apart_def vref_free_def within_def
        vref_bytes_def clearable_def word_le_nat_alt sorted_wrt_append)
qed

lemma append_ref_clearable: "clearable v \<Longrightarrow> append_ref malloc buf len v = (r, v') \<Longrightarrow> clearable v'"
  by (auto simp: append_ref_def clearable_def Let_def split: if_splits option.splits)

lemma new_chunk_clearable: "clearable v \<Longrightarrow> new_chunk malloc len v = Some v' \<Longrightarrow> clearable v'"
  by (auto simp: new_chunk_def clearable_def Let_def split: if_splits)

lemma clearable_taken [simp]:
  "clearable (v\<lparr>vb_free := a, vb_ptr := b\<rparr>) = clearable v"
  "clearable (v\<lparr>vb_free := a, vb_ptr := b, vb_vec := bs\<rparr>) = clearable v"
  by (simp_all add: clearable_def)

lemma append_copy_clearable:
  assumes "clearable v" "append_copy malloc buf len (h, v) = (r, h', v')"
  shows "clearable v'"
proof (cases "new_chunk malloc len v")
  case (Some v1)
  with new_chunk_clearable [OF assms(1) Some] append_ref_clearable [of "v1\<lparr>vb_free := vb_free v1 - len, vb_ptr := vb_ptr v1 + len\<rparr>"]
    assms(2) show ?thesis
    by (auto simp: append_copy_def Let_def simp del: split_paired_Ex split: if_splits prod.splits)
qed (use assms in \<open>simp add: append_copy_def\<close>)

lemma vref_write_clearable: "clearable v \<Longrightarrow> vref_write malloc buf len (h, v) = (r, h', v') \<Longrightarrow> clearable v'"
  by (auto simp: vref_write_def dest: append_copy_clearable append_ref_clearable split: if_splits prod.splits)

text \<open>What two buffers hold, one after the other, is in the second afterwards, and the first is as new.\<close>

definition both_ok :: "span list \<Rightarrow> span list \<Rightarrow> vrefbuffer \<Rightarrow> span list \<Rightarrow> vrefbuffer \<Rightarrow> bool" where
  "both_ok F L v M to \<longleftrightarrow> vref_ok F L v \<and> vref_ok F M to \<and> all_apart (vref_blocks v) (vref_blocks to)"

lemma caps_small:
  assumes "both_ok F L v M to"
  shows "unat (vb_cap v) + unat (vb_cap to) < 2 ^ 59"
proof -
  have "apart (array_block v) (array_block to)"
    using assms by (simp add: both_ok_def all_apart_def vref_blocks_def)
  moreover have "unat (vb_array v) + 16 * unat (vb_cap v) < 2 ^ 63" "unat (vb_array to) + 16 * unat (vb_cap to) < 2 ^ 63"
    using assms by (simp_all add: both_ok_def vref_ok_def)
  ultimately show ?thesis by (auto simp: apart_def array_block_def unat_iovecs)
qed

definition regrown :: "span list \<Rightarrow> span list \<Rightarrow> vrefbuffer \<Rightarrow> vrefbuffer \<Rightarrow> bool" where
  "regrown F live to to' \<longleftrightarrow>
     to' = to \<or>
     (\<exists>p n. to' = to\<lparr>vb_array := p, vb_cap := n\<rparr> \<and> vb_cap to \<le> n \<and> unat p + 16 * unat n < 2 ^ 63 \<and>
            (\<forall>b\<in>set live \<union> set F. apart (p, SIZEOF_IOVEC * n) b))"

lemma grow_start: "n \<le> grow goal n"
proof (induction goal n rule: grow.induct)
  case (1 goal n)
  then show ?case by (subst grow.simps) (auto simp: Let_def)
qed

lemma migrate_grow_regrown:
  assumes "both_ok F L v M to" "good_malloc malloc" "avoids malloc F" "migrate_grow malloc live v to = Some to'"
  shows "regrown F live to to'"
proof (cases "vb_array to + SIZEOF_IOVEC * (of_nat (length (vb_vec to)) + of_nat (length (vb_vec v))) < vb_array v + SIZEOF_IOVEC * vb_cap v")
  case True
  define goal :: size_t where "goal = of_nat (length (vb_vec v)) + of_nat (length (vb_vec to))"
  define nnext where "nnext = grow goal (vb_cap to * 2)"
  obtain p where p: "malloc live (SIZEOF_IOVEC * nnext) = Some p" "to' = to\<lparr>vb_array := p, vb_cap := nnext\<rparr>"
    using assms(4) True by (auto simp: migrate_grow_def nnext_def goal_def Let_def)
  have vecs: "length (vb_vec v) \<le> unat (vb_cap v)" "length (vb_vec to) \<le> unat (vb_cap to)"
    using assms(1) by (simp_all add: both_ok_def vref_ok_def)
  have caps: "unat (vb_cap v) + unat (vb_cap to) < 2 ^ 59" by (rule caps_small [OF assms(1)])
  have goal: "unat goal < 2 ^ 59"
    using vecs caps by (simp add: goal_def unat_plus unat_of_nat)
  have double: "unat (vb_cap to * 2) = unat (vb_cap to) * 2"
    using caps by (simp add: unat_word_ariths)
  have "unat nnext < 2 ^ 60"
    using grow_bound [of goal "vb_cap to * 2"] goal double caps by (simp add: nnext_def)
  then have size: "unat (SIZEOF_IOVEC * nnext) = 16 * unat nnext"
    by (intro unat_iovecs) simp
  have "vb_cap to * 2 \<le> nnext" unfolding nnext_def by (rule grow_start)
  then have "vb_cap to \<le> nnext"
    using double by (simp add: word_le_nat_alt)
  moreover have "unat p + unat (SIZEOF_IOVEC * nnext) < 2 ^ 63" "\<forall>b\<in>set live. apart (p, SIZEOF_IOVEC * nnext) b"
      "\<forall>f\<in>set F. apart (p, SIZEOF_IOVEC * nnext) f"
    using assms(2,3) p(1) unfolding good_malloc_def avoids_def by blast+
  ultimately show ?thesis
    using p(2) size unfolding regrown_def by (intro disjI2 exI [of _ p] exI [of _ nnext]) auto
next
  case False
  with assms(4) show ?thesis by (auto simp: migrate_grow_def Let_def regrown_def)
qed

text \<open>The parts of the invariant that concern the entries of the vectors.\<close>

lemma not_in_other:
  assumes "both_ok F L v M to" "referable M to b" "touches x b"
  shows "\<not> touches x (vref_free v)"
proof -
  obtain c where c: "c \<in> set (vb_chunks v)" "within (vref_free v) c" "vref_ok F L v"
    using assms(1) by (auto simp: both_ok_def vref_ok_def)
  consider d where "d \<in> set (vb_chunks to)" "touches x d" | d where "d \<in> set F" "touches x d"
    using assms unfolding both_ok_def vref_ok_def referable_def stays_def by blast
  then show ?thesis
  proof cases
    case 1
    have "apart (whole d) (whole c)"
      using 1(1) c(1) assms(1) apart_sym by (auto simp: both_ok_def all_apart_def vref_blocks_def)
    with 1 c chunk_in_block [of F M to d] chunk_in_block [of F L v c] assms(1) show ?thesis
      using not_touched [OF 1(2)] within_trans unfolding both_ok_def by blast
  next
    case 2
    then show ?thesis using client_block(1) [OF c(3)] by blast
  qed
qed

lemma regrown_ok:
  assumes "both_ok F L v M to" "regrown F live to to'" "set (vref_blocks v @ map whole (vb_chunks to)) \<subseteq> set live"
  shows "both_ok F L v M to'" "\<forall>b\<in>set live. apart b (array_block to) \<longrightarrow> apart b (array_block to')"
    and "vb_vec to' = vb_vec to" "vb_chunks to' = vb_chunks to" "vb_chunk_size to' = vb_chunk_size to"
proof -
  have "both_ok F L v M to' \<and> (\<forall>b\<in>set live. apart b (array_block to) \<longrightarrow> apart b (array_block to')) \<and>
      vb_vec to' = vb_vec to \<and> vb_chunks to' = vb_chunks to \<and> vb_chunk_size to' = vb_chunk_size to"
  proof (cases "to' = to")
    case False
    then obtain p n where to': "to' = to\<lparr>vb_array := p, vb_cap := n\<rparr>" "vb_cap to \<le> n" "unat p + 16 * unat n < 2 ^ 63"
        and new: "\<forall>b\<in>set live \<union> set F. apart (p, SIZEOF_IOVEC * n) b"
      using assms(2) unfolding regrown_def by blast
    have new': "\<forall>b\<in>set live \<union> set F. apart b (p, SIZEOF_IOVEC * n)" using new apart_sym by blast
    have "vref_ok F M to'"
      using assms(1,3) to' new new'
      by (auto simp: both_ok_def vref_ok_def vref_blocks_def array_block_def all_apart_def sorted_wrt_append
          vref_free_def referable_def stays_def word_le_nat_alt)
    moreover have "all_apart (vref_blocks v) (vref_blocks to')"
      using assms(1,3) to'(1) new' by (auto simp: both_ok_def vref_blocks_def array_block_def all_apart_def)
    ultimately show ?thesis
      using assms(1) to'(1) new' by (simp add: both_ok_def array_block_def)
  qed (use assms(1) in simp)
  then show "both_ok F L v M to'" "\<forall>b\<in>set live. apart b (array_block to) \<longrightarrow> apart b (array_block to')"
    "vb_vec to' = vb_vec to" "vb_chunks to' = vb_chunks to" "vb_chunk_size to' = vb_chunk_size to"
    by blast+
qed

definition emptied :: "span \<Rightarrow> vrefbuffer \<Rightarrow> vrefbuffer" where
  "emptied c v = v\<lparr>vb_vec := [], vb_chunks := [c], vb_free := snd c, vb_ptr := fst c\<rparr>"

definition handed :: "vrefbuffer \<Rightarrow> vrefbuffer \<Rightarrow> vrefbuffer" where
  "handed v to =
     (let to = to\<lparr>vb_vec := vb_vec to @ vb_vec v, vb_chunks := vb_chunks v @ vb_chunks to\<rparr>
      in if vb_free to < vb_free v then to\<lparr>vb_free := vb_free v, vb_ptr := vb_ptr v\<rparr> else to)"

lemma handed_parts:
  "vb_vec (handed v to) = vb_vec to @ vb_vec v" "vb_chunks (handed v to) = vb_chunks v @ vb_chunks to"
  "vb_array (handed v to) = vb_array to" "vb_cap (handed v to) = vb_cap to" "vb_ref_size (handed v to) = vb_ref_size to"
  "vb_chunk_size (handed v to) = vb_chunk_size to" "vref_free (handed v to) = vref_free v \<or> vref_free (handed v to) = vref_free to"
  by (simp_all add: handed_def vref_free_def Let_def)

lemma both_ok_sym: "both_ok F L v M to \<Longrightarrow> both_ok F M to L v"
  by (simp add: both_ok_def all_apart_sym)

lemma handed_ok:
  assumes "both_ok F L v M to" "length (vb_vec to) + length (vb_vec v) \<le> unat (vb_cap to)"
  shows "vref_ok F (L @ M) (handed v to)"
proof -
  have v: "vref_ok F L v" and to: "vref_ok F M to" and cross: "all_apart (vref_blocks v) (vref_blocks to)"
    using assms(1) by (simp_all add: both_ok_def)
  have blocks: "vref_blocks (handed v to) = map whole (vb_chunks v) @ map whole (vb_chunks to) @ [array_block to]"
    by (simp add: vref_blocks_def array_block_def handed_parts)
  have "sorted_wrt apart (vref_blocks (handed v to))" "all_apart (vref_blocks (handed v to)) F"
    using v to cross unfolding blocks
    by (auto simp: vref_ok_def vref_blocks_def all_apart_def sorted_wrt_append)
  moreover have "referable (L @ M) (handed v to) b" if "b \<in> set (vb_vec (handed v to))" for b
  proof -
    have b: "referable M to b \<or> referable L v b"
      using that v to by (auto simp: handed_parts vref_ok_def)
    then have "\<not> touches x (vref_free v) \<and> \<not> touches x (vref_free to)" if "touches x b" for x
      using that not_in_other [OF assms(1)] not_in_other [OF both_ok_sym [OF assms(1)]] unfolding referable_def by blast
    then have "\<not> touches x (vref_free (handed v to))" if "touches x b" for x
      using that handed_parts(7) [of v to] by metis
    with b show ?thesis
      unfolding referable_def stays_def by (auto simp: handed_parts)
  qed
  moreover have "\<exists>c\<in>set (vb_chunks (handed v to)). within (vref_free (handed v to)) c"
  proof -
    have "\<exists>c\<in>set (vb_chunks v). within (vref_free v) c" "\<exists>c\<in>set (vb_chunks to). within (vref_free to) c"
      using v to by (simp_all add: vref_ok_def)
    then show ?thesis
      using handed_parts(7) [of v to] unfolding handed_parts(2) set_append by (metis UnI1 UnI2)
  qed
  ultimately show ?thesis
    using v to assms(2) by (auto simp: vref_ok_def handed_parts)
qed

lemma emptied_ok:
  assumes "vref_ok F L v" "chunk_ok c" "\<forall>b\<in>set (vref_blocks v) \<union> set F. apart (whole c) b"
  shows "vref_ok F [] (emptied c v)"
  using assms within_refl
  by (auto simp: emptied_def vref_ok_def vref_blocks_def array_block_def all_apart_def vref_free_def sorted_wrt_append)

lemma migrateE:
  assumes "migrate malloc v to = Inr (v', to')"
  obtains c to1 where "malloc (vref_blocks v @ vref_blocks to) (CHUNK_HEADER + vb_chunk_size v) = Some c"
    "migrate_grow malloc ((c, CHUNK_HEADER + vb_chunk_size v) # vref_blocks v @ map whole (vb_chunks to)) v to = Some to1"
    "length (vb_vec to1) + length (vb_vec v) \<le> unat (vb_cap to1)"
    "v' = emptied (c + CHUNK_HEADER, vb_chunk_size v) v" "to' = handed v to1"
  using assms by (auto simp: migrate_def Let_def emptied_def handed_def split: option.splits if_splits)

theorem migrate_ok:
  assumes "both_ok F L v M to" "good_malloc malloc" "avoids malloc F" "migrate malloc v to = Inr (v', to')"
  shows "both_ok F [] v' (L @ M) to' \<and> vref_bytes h v' = [] \<and> vref_bytes h to' = vref_bytes h to @ vref_bytes h v"
proof -
  let ?sz = "vb_chunk_size v"
  have sz: "unat ?sz < 2 ^ 63" using assms(1) by (simp add: both_ok_def vref_ok_def)
  obtain c to1 where c: "malloc (vref_blocks v @ vref_blocks to) (CHUNK_HEADER + ?sz) = Some c"
      and to1: "migrate_grow malloc ((c, CHUNK_HEADER + ?sz) # vref_blocks v @ map whole (vb_chunks to)) v to = Some to1"
      and room: "length (vb_vec to1) + length (vb_vec v) \<le> unat (vb_cap to1)"
      and res: "v' = emptied (c + CHUNK_HEADER, ?sz) v" "to' = handed v to1"
    using assms(4) by (rule migrateE)
  note block = new_chunk_block [OF assms(2) c sz]
  have avoid: "\<forall>f\<in>set F. apart (c, CHUNK_HEADER + ?sz) f"
    using assms(3) c unfolding avoids_def by blast
  note grown = regrown_ok [OF assms(1) migrate_grow_regrown [OF assms(1,2,3) to1]]
  have to1_ok: "both_ok F L v M to1" by (rule grown(1)) auto
  have array: "apart (c, CHUNK_HEADER + ?sz) (array_block to1)"
    using grown(2) block(2) by (auto simp: vref_blocks_def)
  have same: "vb_vec to1 = vb_vec to" "vb_chunks to1 = vb_chunks to" using grown(3,4) by auto
  have "vref_ok F [] v'"
    using emptied_ok [of F L v "(c + CHUNK_HEADER, ?sz)"] block avoid assms(1) res(1) by (auto simp: both_ok_def)
  moreover have "vref_ok F (L @ M) to'"
    using handed_ok [OF to1_ok room] res(2) by simp
  moreover have "all_apart (vref_blocks v') (vref_blocks to')"
    using to1_ok block(2) array assms(1) same apart_sym unfolding res
    by (auto simp: both_ok_def vref_ok_def vref_blocks_def array_block_def all_apart_def sorted_wrt_append emptied_def handed_parts)
  ultimately show ?thesis
    using same by (simp add: both_ok_def res emptied_def vref_bytes_def handed_parts)
qed

lemma migrate_clearable:
  assumes "clearable v" "clearable to" "vb_chunk_size to \<le> vb_chunk_size v" "migrate malloc v to = Inr (v', to')"
  shows "clearable v' \<and> clearable to'"
proof -
  obtain c live to1 where "migrate_grow malloc live v to = Some to1"
      "v' = emptied (c + CHUNK_HEADER, vb_chunk_size v) v" "to' = handed v to1"
    using assms(4) by (rule migrateE)
  then show ?thesis
    using assms(1,2,3)
    by (auto simp: migrate_grow_def Let_def clearable_def emptied_def handed_parts split: if_splits)
qed

text \<open>
  Two buffers made one after the other, with three entries each in arrays of four. The second array does not
  grow, because its address is the higher one, and is written past its end. And a buffer that was handed smaller
  chunks than its own takes them for larger when it is cleared.
\<close>

definition with_refs :: "nat \<Rightarrow> vrefbuffer \<Rightarrow> vrefbuffer" where
  "with_refs n v = v\<lparr>vb_vec := replicate n (10000, 40)\<rparr>"

definition first_vref :: vrefbuffer where
  "first_vref = the (new_vrefbuffer sample_malloc 32 16)"

definition second_vref :: vrefbuffer where
  "second_vref = the (new_vrefbuffer (beside sample_malloc (vref_blocks first_vref)) 32 64)"

lemma migrate_overruns:
  "migrate sample_malloc (with_refs 3 first_vref) (with_refs 3 second_vref) = Inl migrate_out_of_bounds"
  by code_simp

lemma migrate_then_clear:
  "case migrate sample_malloc (with_refs 1 first_vref) (with_refs 2 second_vref) of
     Inl e \<Rightarrow> False
   | Inr (v, to) \<Rightarrow> clearable v \<and> snd (hd (vb_chunks (vref_clear to))) = 16 \<and> vb_free (vref_clear to) = 64"
  by code_simp

end
