(* ===== verification/Msgpack_Clone.thy ===== *)
theory Msgpack_Clone
  imports Msgpack_Memory
begin

text \<open>
  Copies of objects (\<open>object_with_zone<object>\<close>, \<open>aligned_zone_size\<close> and \<open>clone\<close> in
  \<open>v1/object.hpp\<close>). A client clones the error of a response, because the zone of the response goes
  to its result. What a copy promises is that it stands for the same value and shares no memory
  with the original, so that it stays valid whatever happens to the original.
\<close>

section \<open>Copying an object into a zone\<close>

datatype copy_fault = bad_alloc | no_fuel

text \<open>
  The copy of an object. The fuel bounds the depth of the recursion; more than the depth of the
  object is never needed.
\<close>

definition copy_data ::
    "malloc \<Rightarrow> 32 word \<Rightarrow> size_t \<Rightarrow> memory \<times> 'f zone \<Rightarrow> copy_fault + (size_t \<times> memory \<times> 'f zone)" where
  "copy_data malloc n p = (\<lambda>(h, z).
     (case allocate_align malloc (ucast n) ALIGNOF_CHAR z of
        None \<Rightarrow> Inl bad_alloc
      | Some (ptr, z) \<Rightarrow> Inr (ptr, copy_bytes (unat n) ptr p h, z)))"

function (sequential) copy_object ::
    "malloc \<Rightarrow> nat \<Rightarrow> raw \<Rightarrow> memory \<times> 'f zone \<Rightarrow> copy_fault + (raw \<times> memory \<times> 'f zone)"
  and copy_array ::
    "malloc \<Rightarrow> nat \<Rightarrow> nat \<Rightarrow> size_t \<Rightarrow> size_t \<Rightarrow> memory \<times> 'f zone \<Rightarrow> copy_fault + (memory \<times> 'f zone)"
  and copy_map ::
    "malloc \<Rightarrow> nat \<Rightarrow> nat \<Rightarrow> size_t \<Rightarrow> size_t \<Rightarrow> memory \<times> 'f zone \<Rightarrow> copy_fault + (memory \<times> 'f zone)" where
  "copy_object malloc 0 v s = Inl no_fuel"
| "copy_object malloc (Suc fuel) (R_STR p n) s =
     sbind (copy_data malloc n p s) (\<lambda>(ptr, s). Inr (R_STR ptr n, s))"
| "copy_object malloc (Suc fuel) (R_BIN p n) s =
     sbind (copy_data malloc n p s) (\<lambda>(ptr, s). Inr (R_BIN ptr n, s))"
| "copy_object malloc (Suc fuel) (R_EXT p n) s =
     sbind (copy_data malloc (n + 1) p s) (\<lambda>(ptr, s). Inr (R_EXT ptr n, s))"
| "copy_object malloc (Suc fuel) (R_ARRAY p n) (h, z) =
     (case allocate_align malloc (SIZEOF_OBJECT * ucast n) ALIGNOF_OBJECT z of
        None \<Rightarrow> Inl bad_alloc
      | Some (ptr, z) \<Rightarrow>
          sbind (copy_array malloc fuel (unat n) ptr p (h, z)) (\<lambda>s. Inr (R_ARRAY ptr n, s)))"
| "copy_object malloc (Suc fuel) (R_MAP p n) (h, z) =
     (case allocate_align malloc (SIZEOF_OBJECT_KV * ucast n) ALIGNOF_OBJECT z of
        None \<Rightarrow> Inl bad_alloc
      | Some (ptr, z) \<Rightarrow>
          sbind (copy_map malloc fuel (unat n) ptr p (h, z)) (\<lambda>s. Inr (R_MAP ptr n, s)))"
| "copy_object malloc (Suc fuel) v s = Inr (v, s)"
| "copy_array malloc fuel 0 po pv s = Inr s"
| "copy_array malloc fuel (Suc n) po pv (h, z) =
     sbind (copy_object malloc fuel (object_store h pv) (h, z)) (\<lambda>(r, h, z).
       copy_array malloc fuel n (po + SIZEOF_OBJECT) (pv + SIZEOF_OBJECT) (put_object po r h, z))"
| "copy_map malloc fuel 0 po pv s = Inr s"
| "copy_map malloc fuel (Suc n) po pv (h, z) =
     (let h = put_object (po + SIZEOF_OBJECT) R_NIL (put_object po R_NIL h)
      in sbind (copy_object malloc fuel (object_store h pv) (h, z)) (\<lambda>(r, h, z).
         let h = put_object po r h
         in sbind (copy_object malloc fuel (object_store h (pv + SIZEOF_OBJECT)) (h, z)) (\<lambda>(r, h, z).
            copy_map malloc fuel n (po + SIZEOF_OBJECT_KV) (pv + SIZEOF_OBJECT_KV)
              (put_object (po + SIZEOF_OBJECT) r h, z))))"
  by pat_completeness auto
termination
  by (relation "measures [case_sum (\<lambda>(malloc, fuel, v, s). fuel)
      (case_sum (\<lambda>(malloc, fuel, n, po, pv, s). fuel) (\<lambda>(malloc, fuel, n, po, pv, s). fuel)),
      case_sum (\<lambda>_. 0)
      (case_sum (\<lambda>(malloc, fuel, n, po, pv, s). Suc n) (\<lambda>(malloc, fuel, n, po, pv, s). Suc n))]")
    auto

section \<open>Memory given out\<close>

text \<open>What is free in the zone does not overlap the blocks \<open>F\<close>.\<close>

definition clear_of :: "chunk_list \<Rightarrow> span list \<Rightarrow> bool" where
  "clear_of cl F \<longleftrightarrow> (\<forall>f\<in>set F. apart (cl_ptr cl, cl_free cl) f)"

section \<open>Blocks of a zone\<close>

text \<open>A count of 32 bits as a size.\<close>

lemma unat_32: "unat (n :: 32 word) < 2 ^ 32"
  by (rule order_less_le_trans [OF unsigned_less]) simp

lemma widened:
  fixes n :: "32 word"
  assumes "unat n = k"
  shows "(ucast n :: size_t) = word_of_nat k" "unat (ucast n :: size_t) = k"
proof -
  show *: "(ucast n :: size_t) = word_of_nat k" using assms by auto
  have "k < 2 ^ 32" using unat_32 [of n] assms by simp
  then show "unat (ucast n :: size_t) = k" unfolding * by (simp add: unat_of_nat)
qed

text \<open>Copying from the blocks \<open>src\<close>, where nothing is given out.\<close>

locale copying =
  fixes malloc :: malloc and src :: "span list"
  assumes malloc: "good_malloc malloc" and avoids: "avoids malloc src"
begin

definition zone_ok :: "span list \<Rightarrow> 'f zone \<Rightarrow> bool" where
  "zone_ok bs z \<longleftrightarrow> wf_zone z \<and> holds (z_chunk_list z) bs \<and> clear_of (z_chunk_list z) src"

lemma expand_clear:
  assumes "wf_zone z" "unat k < 2 ^ 62" "allocate_expand malloc k z = Some (q, y)"
  shows "clear_of (z_chunk_list y) src"
proof -
  let ?sz = "grow k (z_chunk_size z)"
  obtain c where c: "malloc (map whole (cl_chunks (z_chunk_list z))) (CHUNK_HEADER + ?sz) = Some c"
      "cl_ptr (z_chunk_list y) = c + CHUNK_HEADER" "cl_free (z_chunk_list y) = ?sz"
    using assms(3) by (auto simp: allocate_expand_def Let_def)
  have "unat ?sz < 2 ^ 63"
    using grow_bound [of k "z_chunk_size z"] assms(1,2) by (auto simp: wf_zone_def)
  then have "unat (CHUNK_HEADER + ?sz) = 8 + unat ?sz"
    by (simp add: CHUNK_HEADER_def unat_plus)
  moreover from this have "unat (c + CHUNK_HEADER) = unat c + 8"
    using malloc c(1) unfolding good_malloc_def by (fastforce simp: CHUNK_HEADER_def unat_plus)
  ultimately have "within (cl_ptr (z_chunk_list y), cl_free (z_chunk_list y)) (c, CHUNK_HEADER + ?sz)"
    by (simp add: within_def c(2,3))
  moreover have "\<forall>f\<in>set src. apart (c, CHUNK_HEADER + ?sz) f"
    using avoids c(1) unfolding avoids_def by blast
  ultimately show ?thesis
    unfolding clear_of_def using within_apart [OF _ within_refl] by blast
qed

lemma take_bytes_within:
  assumes "wf_zone y" "k \<le> cl_free (z_chunk_list y)"
  shows "within (cl_ptr (z_chunk_list (take_bytes k y)), cl_free (z_chunk_list (take_bytes k y)))
           (cl_ptr (z_chunk_list y), cl_free (z_chunk_list y))"
    and "within (cl_ptr (z_chunk_list y), k) (cl_ptr (z_chunk_list y), cl_free (z_chunk_list y))"
proof -
  have "unat (cl_ptr (z_chunk_list y)) + unat (cl_free (z_chunk_list y)) < 2 ^ 63"
    using assms(1) by (auto simp: wf_zone_def elim: wf_chunk_listE)
  with assms(2) show "within (cl_ptr (z_chunk_list (take_bytes k y)), cl_free (z_chunk_list (take_bytes k y)))
           (cl_ptr (z_chunk_list y), cl_free (z_chunk_list y))"
    by (simp add: take_bytes_def within_def word_le_nat_alt unat_plus unat_minus)
  from assms(2) show "within (cl_ptr (z_chunk_list y), k) (cl_ptr (z_chunk_list y), cl_free (z_chunk_list y))"
    by (simp add: within_def word_le_nat_alt)
qed

lemma block_in_memory:
  assumes "wf_zone z" "holds (z_chunk_list z) ((p, n) # bs)"
  shows "in_memory p (unat n)"
proof -
  have wf: "wf_chunk_list (z_chunk_list z)" using assms(1) by (simp add: wf_zone_def)
  obtain c where "c \<in> set (cl_chunks (z_chunk_list z))" "within (p, n) c"
    using holds_in_chunk [OF wf assms(2)] by force
  then show ?thesis
    using wf by (fastforce simp: wf_chunk_list_def within_def in_memory_def)
qed

lemma allocated:
  assumes "zone_ok bs z" "align \<noteq> 0" "unat align < 2 ^ 61" "unat n < 2 ^ 61"
    and "allocate_align malloc n align z = Some (p, z')"
  shows "zone_ok ((p, n) # bs) z' \<and> z_finalizers z' = z_finalizers z \<and> in_memory p (unat n) \<and>
         all_apart [(p, n)] src"
proof -
  have z: "wf_zone z" "holds (z_chunk_list z) bs" "clear_of (z_chunk_list z) src"
    using assms(1) by (simp_all add: zone_ok_def)
  obtain y where y: "y = z \<or> (\<exists>k q. unat k < 2 ^ 62 \<and> allocate_expand malloc k z = Some (q, y))" "wf_zone y"
      "p = get_aligned (cl_ptr (z_chunk_list y)) align"
      "n + (p - cl_ptr (z_chunk_list y)) \<le> cl_free (z_chunk_list y)"
      "z' = take_bytes (n + (p - cl_ptr (z_chunk_list y))) y"
    using allocate_alignE [OF z(1,2) malloc assms(2-5)] by metis
  have clear: "clear_of (z_chunk_list y) src"
    using y(1) z(1,3) expand_clear by blast
  have "within (p, n) (cl_ptr (z_chunk_list y), cl_free (z_chunk_list y))"
    using aligned_within [OF y(2) assms(2-4) y(3) refl] take_bytes_within(2) [OF y(2,4)] within_trans by blast
  then have "all_apart [(p, n)] src"
    using clear within_apart [OF _ within_refl] unfolding clear_of_def all_apart_def by auto
  moreover have "clear_of (z_chunk_list z') src"
    using clear take_bytes_within(1) [OF y(2,4)] within_apart [OF _ within_refl] unfolding clear_of_def y(5) by blast
  moreover have "gives [(p, n)] bs z z'"
    using allocate_align_gives [OF z(1,2) malloc assms(2-5)] by blast
  ultimately show ?thesis
    using block_in_memory [of z' p n bs] by (simp add: zone_ok_def gives_def)
qed

text \<open>
  What a step of the copy does: new blocks \<open>new\<close> are given out, besides which only the blocks
  \<open>old\<close> may be written, and nothing of the original is.
\<close>

definition step_ok :: "span list \<Rightarrow> memory \<times> 'f zone \<Rightarrow> memory \<times> 'f zone \<Rightarrow> span list \<Rightarrow> span list \<Rightarrow> bool" where
  "step_ok bs s s' old new \<longleftrightarrow>
     zone_ok (new @ bs) (snd s') \<and> z_finalizers (snd s') = z_finalizers (snd s) \<and>
     changes_only (old @ new) (fst s) (fst s') \<and> all_apart new src"

lemma step_trans:
  assumes "step_ok bs s s1 old1 new1" "step_ok (new1 @ bs) s1 s2 old2 new2"
  shows "step_ok bs s s2 (old1 @ old2) (new2 @ new1)"
proof -
  have "changes_only (old1 @ new1) (fst s) (fst s1)" "changes_only (old2 @ new2) (fst s1) (fst s2)"
    using assms by (simp_all add: step_ok_def)
  from changes_only_trans [OF this] show ?thesis
    using assms by (auto simp: step_ok_def changes_only_def all_apart_def)
qed

lemma step_weaken:
  assumes "step_ok bs s s' old new" "\<And>b. b \<in> set old \<Longrightarrow> within b c"
  shows "step_ok bs s s' [c] new"
proof -
  have "changes_only (old @ new) (fst s) (fst s')" using assms(1) by (simp add: step_ok_def)
  then have "changes_only (c # new) (fst s) (fst s')"
    by (rule changes_only_mono) (metis assms(2) within_refl Un_iff list.set_intros set_append)
  with assms(1) show ?thesis by (simp add: step_ok_def)
qed

lemma step_refl: "zone_ok bs z \<Longrightarrow> step_ok bs (h, z) (h, z) old []"
  by (simp add: step_ok_def changes_only_refl all_apart_def)

lemma step_put: "zone_ok bs z \<Longrightarrow> step_ok bs (h, z) (put_object p r h, z) [(p, SIZEOF_OBJECT)] []"
  by (simp add: step_ok_def put_object_changes all_apart_def)

text \<open>The original is kept, and so is what was made before and is not written again.\<close>

lemma step_keeps_src: "step_ok bs s s' old new \<Longrightarrow> all_apart old src \<Longrightarrow> keeps src (fst s) (fst s')"
  by (rule changes_keeps [of "old @ new"]) (auto simp: step_ok_def all_apart_def)

lemma step_keeps_made:
  assumes "step_ok (made @ bs) s s' old new" "all_apart old made"
  shows "keeps made (fst s) (fst s')"
proof (rule changes_keeps)
  show "changes_only (old @ new) (fst s) (fst s')" using assms(1) by (simp add: step_ok_def)
  have "sorted_wrt apart (new @ made @ bs)"
    using assms(1) by (simp add: step_ok_def zone_ok_def holds_def)
  then show "all_apart (old @ new) made"
    using assms(2) by (auto simp: all_apart_def sorted_wrt_append)
qed

text \<open>A place in a block that was given out before, where elements are written.\<close>

definition place :: "span list \<Rightarrow> size_t \<Rightarrow> nat \<Rightarrow> bool" where
  "place bs p n \<longleftrightarrow> in_memory p n \<and> (\<exists>d\<in>set bs. within (p, word_of_nat n) d \<and> all_apart [d] src)"

lemma place_apart:
  assumes "place bs p n" "step_ok bs s s' old new"
  shows "all_apart [(p, word_of_nat n)] src" "all_apart [(p, word_of_nat n)] new"
proof -
  obtain d where d: "d \<in> set bs" "within (p, word_of_nat n) d" "all_apart [d] src"
    using assms(1) by (auto simp: place_def)
  then show "all_apart [(p, word_of_nat n)] src"
    using within_apart [OF d(2) within_refl] by (simp add: all_apart_def)
  have "sorted_wrt apart (new @ bs)"
    using assms(2) by (simp add: step_ok_def zone_ok_def holds_def)
  then have "all_apart [d] new"
    using d(1) apart_sym by (auto simp: all_apart_def sorted_wrt_append)
  then show "all_apart [(p, word_of_nat n)] new"
    using within_apart [OF d(2) within_refl] by (simp add: all_apart_def)
qed

lemma place_mono: "place bs p n \<Longrightarrow> set bs \<subseteq> set cs \<Longrightarrow> place cs p n"
  by (auto simp: place_def)

lemma place_part:
  "place bs p n \<Longrightarrow> in_memory q m \<Longrightarrow> within (q, word_of_nat m) (p, word_of_nat n) \<Longrightarrow> place bs q m"
  unfolding place_def using within_trans by blast

section \<open>Copying objects\<close>

definition made_at :: "memory \<Rightarrow> size_t \<Rightarrow> object \<Rightarrow> span list \<Rightarrow> bool" where
  "made_at h p x new \<longleftrightarrow> stands_for h (object_store h p) x \<and> set (blocks_of h (object_store h p) x) \<subseteq> set new"

definition copy_ok ::
    "span list \<Rightarrow> memory \<times> 'f zone \<Rightarrow> object \<Rightarrow> copy_fault + (raw \<times> memory \<times> 'f zone) \<Rightarrow> bool" where
  "copy_ok bs s x res \<longleftrightarrow>
     (case res of
        Inl e \<Rightarrow> e = bad_alloc
      | Inr (r, s') \<Rightarrow>
          \<exists>new. step_ok bs s s' [] new \<and> stands_for (fst s') r x \<and> set (blocks_of (fst s') r x) \<subseteq> set new)"

text \<open>An object that was copied is put into its place, and stays there while others are.\<close>

lemma put_made:
  assumes "step_ok bs s (h, z) [] new" "stands_for h r x" "set (blocks_of h r x) \<subseteq> set new" "place bs p 24"
  shows "step_ok bs s (put_object p r h, z) [(p, SIZEOF_OBJECT)] new \<and> made_at (put_object p r h) p x new"
proof -
  have z: "zone_ok (new @ bs) z" using assms(1) by (simp add: step_ok_def)
  have step: "step_ok (new @ bs) (h, z) (put_object p r h, z) [(p, SIZEOF_OBJECT)] []"
    using z by (rule step_put)
  then have "step_ok bs s (put_object p r h, z) [(p, SIZEOF_OBJECT)] new"
    using step_trans [OF assms(1) step] by simp
  moreover have "all_apart [(p, SIZEOF_OBJECT)] new"
    using place_apart(2) [OF assms(4,1)] by (simp add: SIZEOF_OBJECT_def)
  then have "keeps new h (put_object p r h)"
    using step_keeps_made [OF step] by simp
  then have "stands_for (put_object p r h) r x \<and> blocks_of (put_object p r h) r x = blocks_of h r x"
    using assms(2,3) keeps_mono by (intro stands_for_same) blast+
  ultimately show ?thesis
    using assms(3) by (simp add: made_at_def put_object_def)
qed

lemma made_kept:
  assumes "made_at h p x new" "step_ok bs s (h, z) old0 new" "step_ok (new @ bs) (h, z) (h', z') [(q, word_of_nat n)] new'"
    and "place bs q n" "place bs p 24" "apart (p, SIZEOF_OBJECT) (q, word_of_nat n)"
  shows "made_at h' p x (new' @ new)"
proof -
  have "all_apart [(q, word_of_nat n)] new"
    using place_apart(2) [OF assms(4,2)] .
  then have "keeps new h h'"
    using step_keeps_made [OF assms(3)] by simp
  then have "stands_for h' (object_store h p) x \<and> blocks_of h' (object_store h p) x = blocks_of h (object_store h p) x"
    using assms(1) keeps_mono unfolding made_at_def by (intro stands_for_same) blast+
  moreover have "all_apart [(p, SIZEOF_OBJECT)] new'"
    using place_apart(2) [OF _ assms(3), of p 24] place_mono [OF assms(5)] by (simp add: SIZEOF_OBJECT_def)
  moreover have "touches p (p, SIZEOF_OBJECT)"
    by (simp add: touches_def SIZEOF_OBJECT_def)
  ultimately have "object_store h' p = object_store h p"
    using assms(3,6) touches_apart [of p "(p, SIZEOF_OBJECT)"]
    by (auto simp: step_ok_def changes_only_def all_apart_def same_at_def)
  with \<open>stands_for h' _ x \<and> _\<close> assms(1) show ?thesis
    by (auto simp: made_at_def)
qed

text \<open>The rest of the original is what it was.\<close>

lemma array_rest:
  assumes "keeps src h h'" "array_at h p xs" "in_memory p (24 * length xs)"
    "\<exists>d\<in>set src. within (p, word_of_nat (24 * length xs)) d" "set (array_blocks h p xs) \<subseteq> set src"
  shows "array_at h' p xs \<and> array_blocks h' p xs = array_blocks h p xs"
proof (rule array_at_same [OF assms(2,3)])
  obtain d where "d \<in> set src" "within (p, word_of_nat (24 * length xs)) d" using assms(4) by blast
  from keeps_block [OF assms(1) this] keeps_mono [OF assms(1,5)]
  show "keeps ((p, word_of_nat (24 * length xs)) # array_blocks h p xs) h h'" by simp
qed

lemma map_rest:
  assumes "keeps src h h'" "map_at h p kvs" "in_memory p (48 * length kvs)"
    "\<exists>d\<in>set src. within (p, word_of_nat (48 * length kvs)) d" "set (map_blocks h p kvs) \<subseteq> set src"
  shows "map_at h' p kvs \<and> map_blocks h' p kvs = map_blocks h p kvs"
proof (rule map_at_same [OF assms(2,3)])
  obtain d where "d \<in> set src" "within (p, word_of_nat (48 * length kvs)) d" using assms(4) by blast
  from keeps_block [OF assms(1) this] keeps_mono [OF assms(1,5)]
  show "keeps ((p, word_of_nat (48 * length kvs)) # map_blocks h p kvs) h h'" by simp
qed

text \<open>One element: copied, put into its place, the original kept.\<close>

lemma element_copied:
  assumes "copy_ok bs s x (Inr (r, h, z))" "place bs p 24"
  obtains new where "step_ok bs s (put_object p r h, z) [(p, SIZEOF_OBJECT)] new"
    "made_at (put_object p r h) p x new" "keeps src (fst s) (put_object p r h)" "zone_ok (new @ bs) z"
proof -
  obtain new where new: "step_ok bs s (h, z) [] new" "stands_for h r x" "set (blocks_of h r x) \<subseteq> set new"
    using assms(1) by (auto simp: copy_ok_def)
  note put = put_made [OF new assms(2)]
  have "all_apart [(p, SIZEOF_OBJECT)] src"
    using place_apart(1) [OF assms(2) new(1)] by (simp add: SIZEOF_OBJECT_def)
  then have "keeps src (fst s) (put_object p r h)"
    using step_keeps_src [OF conjunct1 [OF put]] by simp
  moreover have "zone_ok (new @ bs) z" using new(1) by (simp add: step_ok_def)
  ultimately show thesis using that put by blast
qed

definition array_ok ::
    "span list \<Rightarrow> memory \<times> 'f zone \<Rightarrow> size_t \<Rightarrow> object list \<Rightarrow> copy_fault + (memory \<times> 'f zone) \<Rightarrow> bool" where
  "array_ok bs s p xs res \<longleftrightarrow>
     (case res of
        Inl e \<Rightarrow> e = bad_alloc
      | Inr s' \<Rightarrow> \<exists>new. step_ok bs s s' [(p, word_of_nat (24 * length xs))] new \<and>
          array_at (fst s') p xs \<and> set (array_blocks (fst s') p xs) \<subseteq> set new)"

text \<open>An element and the rest of the elements make an array.\<close>

lemma array_made:
  assumes "step_ok bs s (h, z) [(p, SIZEOF_OBJECT)] new" "made_at h p x new" "in_memory p (24 * Suc (length xs))"
    and "place bs p 24" "place bs (p + SIZEOF_OBJECT) (24 * length xs)"
    and "array_ok (new @ bs) (h, z) (p + SIZEOF_OBJECT) xs res"
  shows "array_ok bs s p (x # xs) res"
proof (cases res)
  case (Inr s')
  then obtain h' z' where res: "res = Inr (h', z')" by (cases s') auto
  note dst = array_step [OF assms(3)]
  obtain new' where new': "step_ok (new @ bs) (h, z) (h', z') [(p + SIZEOF_OBJECT, word_of_nat (24 * length xs))] new'"
      "array_at h' (p + SIZEOF_OBJECT) xs" "set (array_blocks h' (p + SIZEOF_OBJECT) xs) \<subseteq> set new'"
    using assms(6) by (auto simp: array_ok_def res)
  have "apart (p, SIZEOF_OBJECT) (p + SIZEOF_OBJECT, word_of_nat (24 * length xs))"
    using dst(5) by (simp add: apart_def SIZEOF_OBJECT_def)
  then have "made_at h' p x (new' @ new)"
    using made_kept [OF assms(2,1) new'(1) assms(5,4)] by blast
  moreover have "step_ok bs s (h', z') [(p, word_of_nat (24 * Suc (length xs)))] (new' @ new)"
    using step_weaken [OF step_trans [OF assms(1) new'(1)]] dst(3,4) by auto
  ultimately show ?thesis
    using new'(2,3) by (auto simp: array_ok_def res made_at_def intro!: exI [of _ "new' @ new"])
qed (use assms(6) in \<open>simp add: array_ok_def\<close>)

lemma copy_array_ok:
  fixes s :: "memory \<times> 'f zone"
  assumes IH: "\<And>v x (s :: memory \<times> 'f zone) bs. x \<in> set xs \<Longrightarrow> stands_for (fst s) v x \<Longrightarrow>
      set (blocks_of (fst s) v x) \<subseteq> set src \<Longrightarrow> zone_ok bs (snd s) \<Longrightarrow> copy_ok bs s x (copy_object malloc fuel v s)"
    and "array_at (fst s) pv xs" "in_memory pv (24 * length xs)"
    and "\<exists>d\<in>set src. within (pv, word_of_nat (24 * length xs)) d" "set (array_blocks (fst s) pv xs) \<subseteq> set src"
    and "place bs po (24 * length xs)" "zone_ok bs (snd s)"
  shows "array_ok bs s po xs (copy_array malloc fuel (length xs) po pv s)"
  using assms
proof (induction xs arbitrary: s pv po bs)
  case Nil
  then show ?case using step_refl [of bs "snd s" "fst s"] by (auto simp: array_ok_def)
next
  case (Cons x xs)
  obtain h z where s: "s = (h, z)" by (cases s)
  note prems = Cons.prems [unfolded s fst_conv snd_conv length_Cons]
  have dst_mem: "in_memory po (24 * Suc (length xs))" using prems(6) by (simp add: place_def)
  note src = array_step [OF prems(3)] and dst = array_step [OF dst_mem]
  have slot: "place bs po 24" and rest: "place bs (po + SIZEOF_OBJECT) (24 * length xs)"
    using place_part [OF prems(6)] dst dst_mem by (simp_all add: SIZEOF_OBJECT_def in_memory_def)
  have x: "stands_for h (object_store h pv) x" "array_at h (pv + SIZEOF_OBJECT) xs"
      "set (blocks_of h (object_store h pv) x) \<subseteq> set src" "set (array_blocks h (pv + SIZEOF_OBJECT) xs) \<subseteq> set src"
    using prems(2,5) by simp_all
  obtain d where d: "d \<in> set src" "within (pv, word_of_nat (24 * Suc (length xs))) d" using prems(4) by blast
  have inner: "\<exists>d\<in>set src. within (pv + SIZEOF_OBJECT, word_of_nat (24 * length xs)) d"
    using within_trans [OF src(3) d(2)] d(1) by blast
  have copy: "copy_ok bs (h, z) x (copy_object malloc fuel (object_store h pv) (h, z))"
    using prems(7) x(1,3) by (intro prems(1)) simp_all
  show ?case
  proof (cases "copy_object malloc fuel (object_store h pv) (h, z)")
    case (Inl e)
    with copy show ?thesis by (simp add: s copy_ok_def array_ok_def)
  next
    case (Inr res)
    then obtain r h1 z1 where r: "copy_object malloc fuel (object_store h pv) (h, z) = Inr (r, h1, z1)"
      by (cases res) auto
    obtain new where new: "step_ok bs (h, z) (put_object po r h1, z1) [(po, SIZEOF_OBJECT)] new"
        "made_at (put_object po r h1) po x new" "keeps src h (put_object po r h1)" "zone_ok (new @ bs) z1"
      using element_copied [OF copy [unfolded r] slot] by auto
    note orig = array_rest [OF new(3) x(2) src(2) inner x(4)]
    have "array_ok (new @ bs) (put_object po r h1, z1) (po + SIZEOF_OBJECT) xs
        (copy_array malloc fuel (length xs) (po + SIZEOF_OBJECT) (pv + SIZEOF_OBJECT) (put_object po r h1, z1))"
      using orig src(2) inner x(4) place_mono [OF rest, of "new @ bs"] prems(1) new(4) by (intro Cons.IH) simp_all
    from array_made [OF new(1,2) dst_mem slot rest this] show ?thesis by (simp add: s r)
  qed
qed

text \<open>The same for the entries of a map, which are two elements each.\<close>

definition map_ok ::
    "span list \<Rightarrow> memory \<times> 'f zone \<Rightarrow> size_t \<Rightarrow> (object \<times> object) list \<Rightarrow> copy_fault + (memory \<times> 'f zone) \<Rightarrow> bool" where
  "map_ok bs s p kvs res \<longleftrightarrow>
     (case res of
        Inl e \<Rightarrow> e = bad_alloc
      | Inr s' \<Rightarrow> \<exists>new. step_ok bs s s' [(p, word_of_nat (48 * length kvs))] new \<and>
          map_at (fst s') p kvs \<and> set (map_blocks (fst s') p kvs) \<subseteq> set new)"

lemma made_mono: "made_at h p x new \<Longrightarrow> set new \<subseteq> set new' \<Longrightarrow> made_at h p x new'"
  by (auto simp: made_at_def)

lemma map_made:
  assumes "step_ok bs s (h, z) [(p, SIZEOF_OBJECT), (p + SIZEOF_OBJECT, SIZEOF_OBJECT)] new"
    and "made_at h p k new" "made_at h (p + SIZEOF_OBJECT) v new" "in_memory p (48 * Suc (length kvs))"
    and "place bs p 24" "place bs (p + SIZEOF_OBJECT) 24" "place bs (p + SIZEOF_OBJECT_KV) (48 * length kvs)"
    and "map_ok (new @ bs) (h, z) (p + SIZEOF_OBJECT_KV) kvs res"
  shows "map_ok bs s p ((k, v) # kvs) res"
proof (cases res)
  case (Inr s')
  then obtain h' z' where res: "res = Inr (h', z')" by (cases s') auto
  note dst = map_step [OF assms(4)]
  obtain new' where new': "step_ok (new @ bs) (h, z) (h', z') [(p + SIZEOF_OBJECT_KV, word_of_nat (48 * length kvs))] new'"
      "map_at h' (p + SIZEOF_OBJECT_KV) kvs" "set (map_blocks h' (p + SIZEOF_OBJECT_KV) kvs) \<subseteq> set new'"
    using assms(8) by (auto simp: map_ok_def res)
  have "apart (p, SIZEOF_OBJECT) (p + SIZEOF_OBJECT_KV, word_of_nat (48 * length kvs))"
    "apart (p + SIZEOF_OBJECT, SIZEOF_OBJECT) (p + SIZEOF_OBJECT_KV, word_of_nat (48 * length kvs))"
    using dst(7,8) by (simp_all add: apart_def SIZEOF_OBJECT_def)
  then have "made_at h' p k (new' @ new)" "made_at h' (p + SIZEOF_OBJECT) v (new' @ new)"
    using made_kept [OF assms(2,1) new'(1) assms(7,5)] made_kept [OF assms(3,1) new'(1) assms(7,6)] by blast+
  moreover have "step_ok bs s (h', z') [(p, word_of_nat (48 * Suc (length kvs)))] (new' @ new)"
    using step_weaken [OF step_trans [OF assms(1) new'(1)]] dst(4-6) by auto
  ultimately show ?thesis
    using new'(2,3) by (auto simp: map_ok_def res made_at_def intro!: exI [of _ "new' @ new"])
qed (use assms(8) in \<open>simp add: map_ok_def\<close>)

text \<open>The key and the value of an entry, into places that are nil first.\<close>

definition nil_entry :: "size_t \<Rightarrow> memory \<Rightarrow> memory" where
  "nil_entry p h = put_object (p + SIZEOF_OBJECT) R_NIL (put_object p R_NIL h)"

lemma nil_entry_ok:
  assumes "zone_ok bs z" "place bs p 24" "place bs (p + SIZEOF_OBJECT) 24"
  shows "step_ok bs (h, z) (nil_entry p h, z) [(p, SIZEOF_OBJECT), (p + SIZEOF_OBJECT, SIZEOF_OBJECT)] [] \<and>
         keeps src h (nil_entry p h)"
proof -
  have "step_ok ([] @ bs) (put_object p R_NIL h, z) (nil_entry p h, z) [(p + SIZEOF_OBJECT, SIZEOF_OBJECT)] []"
    using step_put [OF assms(1)] by (simp add: nil_entry_def)
  from step_trans [OF step_put [OF assms(1)] this] have step: "step_ok bs (h, z) (nil_entry p h, z) [(p, SIZEOF_OBJECT), (p + SIZEOF_OBJECT, SIZEOF_OBJECT)] []"
    by simp
  moreover have "all_apart [(p, SIZEOF_OBJECT), (p + SIZEOF_OBJECT, SIZEOF_OBJECT)] src"
    using place_apart(1) [OF assms(2) step] place_apart(1) [OF assms(3) step]
    by (simp add: SIZEOF_OBJECT_def all_apart_def)
  then have "keeps src h (nil_entry p h)"
    using step_keeps_src [OF step] by simp
  ultimately show ?thesis by blast
qed

lemma entry_made:
  assumes "step_ok bs s (h1, z1) [(p, SIZEOF_OBJECT)] new1" "made_at h1 p k new1"
    and "step_ok (new1 @ bs) (h1, z1) (h2, z2) [(p + SIZEOF_OBJECT, SIZEOF_OBJECT)] new2"
    and "made_at h2 (p + SIZEOF_OBJECT) v new2" "place bs p 24" "place bs (p + SIZEOF_OBJECT) 24"
    and "unat (p + SIZEOF_OBJECT) = unat p + 24"
  shows "step_ok bs s (h2, z2) [(p, SIZEOF_OBJECT), (p + SIZEOF_OBJECT, SIZEOF_OBJECT)] (new2 @ new1) \<and>
         made_at h2 p k (new2 @ new1) \<and> made_at h2 (p + SIZEOF_OBJECT) v (new2 @ new1)"
proof -
  have "apart (p, SIZEOF_OBJECT) (p + SIZEOF_OBJECT, word_of_nat 24)"
    using assms(7) by (simp add: apart_def SIZEOF_OBJECT_def)
  moreover have "step_ok (new1 @ bs) (h1, z1) (h2, z2) [(p + SIZEOF_OBJECT, word_of_nat 24)] new2"
    using assms(3) by (simp add: SIZEOF_OBJECT_def)
  ultimately have "made_at h2 p k (new2 @ new1)"
    using made_kept [OF assms(2,1) _ assms(6,5)] by blast
  then show ?thesis
    using step_trans [OF assms(1,3)] made_mono [OF assms(4)] by simp
qed

text \<open>
  One entry: the two copies in a row, from an original whose key and value stay in the blocks of
  \<open>src\<close> as long as those are kept.
\<close>

lemma entry_copied:
  fixes z :: "'f zone"
  assumes IH: "\<forall>u x (s :: memory \<times> 'f zone) bs. x \<in> {k, v} \<longrightarrow> stands_for (fst s) u x \<longrightarrow>
      set (blocks_of (fst s) u x) \<subseteq> set src \<longrightarrow> zone_ok bs (snd s) \<longrightarrow> copy_ok bs s x (copy_object malloc fuel u s)"
    and orig: "\<forall>g. keeps src h g \<longrightarrow> map_at g pv ((k, v) # kvs) \<and> set (map_blocks g pv ((k, v) # kvs)) \<subseteq> set src"
    and places: "place bs po 24" "place bs (po + SIZEOF_OBJECT) 24" "unat (po + SIZEOF_OBJECT) = unat po + 24"
    and z: "zone_ok bs z"
  shows "copy_map malloc fuel (Suc n) po pv (h, z) = Inl bad_alloc \<or>
    (\<exists>g y new. copy_map malloc fuel (Suc n) po pv (h, z) =
         copy_map malloc fuel n (po + SIZEOF_OBJECT_KV) (pv + SIZEOF_OBJECT_KV) (g, y) \<and>
       step_ok bs (h, z) (g, y) [(po, SIZEOF_OBJECT), (po + SIZEOF_OBJECT, SIZEOF_OBJECT)] new \<and>
       made_at g po k new \<and> made_at g (po + SIZEOF_OBJECT) v new \<and> keeps src h g \<and> zone_ok (new @ bs) y)"
proof -
  let ?h = "nil_entry po h"
  note nil = nil_entry_ok [OF z places(1,2), of h]
  have copy1: "copy_ok bs (?h, z) k (copy_object malloc fuel (object_store ?h pv) (?h, z))"
    using orig [rule_format, OF conjunct2 [OF nil]] z by (intro IH [rule_format]) auto
  show ?thesis
  proof (cases "copy_object malloc fuel (object_store ?h pv) (?h, z)")
    case (Inl e)
    with copy1 show ?thesis by (simp add: copy_ok_def nil_entry_def Let_def)
  next
    case (Inr res)
    then obtain r1 h1 z1 where r1: "copy_object malloc fuel (object_store ?h pv) (?h, z) = Inr (r1, h1, z1)"
      by (cases res) auto
    let ?h1 = "put_object po r1 h1"
    obtain new1 where new1: "step_ok bs (?h, z) (?h1, z1) [(po, SIZEOF_OBJECT)] new1" "made_at ?h1 po k new1"
        "keeps src ?h ?h1" "zone_ok (new1 @ bs) z1"
      using element_copied [OF copy1 [unfolded r1] places(1)] by auto
    have keep1: "keeps src h ?h1"
      using nil new1(3) by (auto simp: keeps_def same_at_def)
    have copy2: "copy_ok (new1 @ bs) (?h1, z1) v (copy_object malloc fuel (object_store ?h1 (pv + SIZEOF_OBJECT)) (?h1, z1))"
      using orig [rule_format, OF keep1] new1(4) by (intro IH [rule_format]) auto
    show ?thesis
    proof (cases "copy_object malloc fuel (object_store ?h1 (pv + SIZEOF_OBJECT)) (?h1, z1)")
      case (Inl e)
      with copy2 r1 show ?thesis by (simp add: copy_ok_def nil_entry_def Let_def)
    next
      case (Inr res)
      then obtain r2 h2 z2 where r2: "copy_object malloc fuel (object_store ?h1 (pv + SIZEOF_OBJECT)) (?h1, z1) = Inr (r2, h2, z2)"
        by (cases res) auto
      let ?h2 = "put_object (po + SIZEOF_OBJECT) r2 h2"
      have "place (new1 @ bs) (po + SIZEOF_OBJECT) 24"
        using place_mono [OF places(2)] by simp
      then obtain new2 where new2: "step_ok (new1 @ bs) (?h1, z1) (?h2, z2) [(po + SIZEOF_OBJECT, SIZEOF_OBJECT)] new2"
          "made_at ?h2 (po + SIZEOF_OBJECT) v new2" "keeps src ?h1 ?h2" "zone_ok (new2 @ new1 @ bs) z2"
        using element_copied [OF copy2 [unfolded r2]] by auto
      note made = entry_made [OF new1(1,2) new2(1,2) places]
      have "step_ok bs (h, z) (?h2, z2)
          ([(po, SIZEOF_OBJECT), (po + SIZEOF_OBJECT, SIZEOF_OBJECT)] @ [(po, SIZEOF_OBJECT), (po + SIZEOF_OBJECT, SIZEOF_OBJECT)])
          ((new2 @ new1) @ [])"
        using nil made by (intro step_trans [of bs _ "(?h, z)"]) simp_all
      then have "step_ok bs (h, z) (?h2, z2) [(po, SIZEOF_OBJECT), (po + SIZEOF_OBJECT, SIZEOF_OBJECT)] (new2 @ new1)"
        by (simp add: step_ok_def changes_only_def)
      moreover have "keeps src h ?h2"
        using keep1 new2(3) by (auto simp: keeps_def same_at_def)
      ultimately show ?thesis
        using made new2(4) r1 r2 by (intro disjI2 exI [of _ ?h2] exI [of _ z2] exI [of _ "new2 @ new1"])
          (simp add: nil_entry_def Let_def)
    qed
  qed
qed

lemma copy_map_ok:
  fixes s :: "memory \<times> 'f zone"
  assumes IH: "\<And>u x (s :: memory \<times> 'f zone) bs. \<exists>(k, v)\<in>set kvs. x \<in> {k, v} \<Longrightarrow> stands_for (fst s) u x \<Longrightarrow>
      set (blocks_of (fst s) u x) \<subseteq> set src \<Longrightarrow> zone_ok bs (snd s) \<Longrightarrow> copy_ok bs s x (copy_object malloc fuel u s)"
    and "map_at (fst s) pv kvs" "in_memory pv (48 * length kvs)"
    and "\<exists>d\<in>set src. within (pv, word_of_nat (48 * length kvs)) d" "set (map_blocks (fst s) pv kvs) \<subseteq> set src"
    and "place bs po (48 * length kvs)" "zone_ok bs (snd s)"
  shows "map_ok bs s po kvs (copy_map malloc fuel (length kvs) po pv s)"
  using assms
proof (induction kvs arbitrary: s pv po bs)
  case Nil
  then show ?case using step_refl [of bs "snd s" "fst s"] by (auto simp: map_ok_def)
next
  case (Cons kv kvs)
  obtain k v where kv: "kv = (k, v)" by (cases kv)
  obtain h z where s: "s = (h, z)" by (cases s)
  note prems = Cons.prems [unfolded s kv fst_conv snd_conv length_Cons]
  have dst_mem: "in_memory po (48 * Suc (length kvs))" using prems(6) by (simp add: place_def)
  note src = map_step [OF prems(3)] and dst = map_step [OF dst_mem]
  have places: "place bs po 24" "place bs (po + SIZEOF_OBJECT) 24" "place bs (po + SIZEOF_OBJECT_KV) (48 * length kvs)"
    using place_part [OF prems(6)] dst dst_mem by (simp_all add: SIZEOF_OBJECT_def in_memory_def)
  obtain d where d: "d \<in> set src" "within (pv, word_of_nat (48 * Suc (length kvs))) d" using prems(4) by blast
  have inner: "\<exists>d\<in>set src. within (pv + SIZEOF_OBJECT_KV, word_of_nat (48 * length kvs)) d"
    using within_trans [OF src(4) d(2)] d(1) by blast
  have orig: "\<forall>g. keeps src h g \<longrightarrow> map_at g pv ((k, v) # kvs) \<and> set (map_blocks g pv ((k, v) # kvs)) \<subseteq> set src"
    using map_rest [OF _ prems(2) _ _ prems(5)] prems(3-5) by simp
  have IH: "\<forall>u x (s :: memory \<times> 'f zone) bs. x \<in> {k, v} \<longrightarrow> stands_for (fst s) u x \<longrightarrow>
      set (blocks_of (fst s) u x) \<subseteq> set src \<longrightarrow> zone_ok bs (snd s) \<longrightarrow> copy_ok bs s x (copy_object malloc fuel u s)"
    by (intro allI impI, rule prems(1)) auto
  from entry_copied [OF IH orig places(1,2) dst(7) prems(7), of "length kvs"]
  show ?case
  proof (elim disjE exE conjE)
    fix g y new
    assume new: "step_ok bs (h, z) (g, y) [(po, SIZEOF_OBJECT), (po + SIZEOF_OBJECT, SIZEOF_OBJECT)] new"
        "made_at g po k new" "made_at g (po + SIZEOF_OBJECT) v new" "keeps src h g" "zone_ok (new @ bs) y"
      and eq: "copy_map malloc fuel (Suc (length kvs)) po pv (h, z) =
        copy_map malloc fuel (length kvs) (po + SIZEOF_OBJECT_KV) (pv + SIZEOF_OBJECT_KV) (g, y)"
    have "map_ok (new @ bs) (g, y) (po + SIZEOF_OBJECT_KV) kvs
        (copy_map malloc fuel (length kvs) (po + SIZEOF_OBJECT_KV) (pv + SIZEOF_OBJECT_KV) (g, y))"
      using orig [rule_format, OF new(4)] src(3) inner place_mono [OF places(3), of "new @ bs"] new(5) prems(1)
      by (intro Cons.IH) auto
    from map_made [OF new(1-3) dst_mem places this] show ?thesis by (simp add: s kv eq del: copy_map.simps)
  qed (simp add: s kv map_ok_def)
qed

text \<open>Bytes are copied to a block of their own.\<close>

lemma data_copied:
  assumes "unat n = length b" "in_memory p (length b)" "bytes_at h p b" "(p, word_of_nat (length b)) \<in> set src"
    and "zone_ok bs z"
  shows "copy_data malloc n p (h, z) = Inl bad_alloc \<or>
    (\<exists>ptr h' z'. copy_data malloc n p (h, z) = Inr (ptr, h', z') \<and> in_memory ptr (length b) \<and> bytes_at h' ptr b \<and>
       step_ok bs (h, z) (h', z') [] [(ptr, word_of_nat (length b))])"
proof (cases "allocate_align malloc (ucast n) ALIGNOF_CHAR z")
  case None
  then show ?thesis by (simp add: copy_data_def)
next
  case (Some py)
  then obtain ptr y where y: "allocate_align malloc (ucast n) ALIGNOF_CHAR z = Some (ptr, y)" by (cases py) auto
  have n: "(ucast n :: size_t) = word_of_nat (length b)" "unat (ucast n :: size_t) = length b"
    using widened [OF assms(1)] .
  have "unat (ucast n :: size_t) < 2 ^ 61"
    using unat_32 [of n] n(2) assms(1) by simp
  then have given: "zone_ok ((ptr, ucast n) # bs) y" "z_finalizers y = z_finalizers z" "in_memory ptr (length b)"
      "all_apart [(ptr, ucast n)] src"
    using allocated [OF assms(5) _ _ _ y] n(2) by (simp_all add: ALIGNOF_CHAR_def)
  have "apart (ptr, word_of_nat (length b)) (p, word_of_nat (length b))"
    using given(4) assms(4) n(1) by (simp add: all_apart_def)
  then have "bytes_at (copy_bytes (length b) ptr p h) ptr b"
    using copy_bytes_at [OF assms(3) given(3) assms(2)] by simp
  moreover have "changes_only [(ptr, word_of_nat (length b))] h (copy_bytes (length b) ptr p h)"
    using copy_bytes_changes [OF given(3)] .
  ultimately show ?thesis
    using y given n(1) assms(1) by (simp add: copy_data_def step_ok_def)
qed

text \<open>A block for the elements.\<close>

lemma elements_allocated:
  assumes "zone_ok bs z" "unat (n :: 32 word) = k" "c \<in> {24, 48}"
    and "allocate_align malloc (word_of_nat c * ucast n) ALIGNOF_OBJECT z = Some (ptr, y)"
  shows "place ((ptr, word_of_nat (c * k)) # bs) ptr (c * k) \<and> step_ok bs (h, z) (h, y) [] [(ptr, word_of_nat (c * k))]"
proof -
  have n: "word_of_nat c * (ucast n :: size_t) = word_of_nat (c * k)"
    using widened(1) [OF assms(2)] by simp
  have "c * k < 2 ^ 61"
    using unat_32 [of n] assms(2,3) by auto
  then have "unat (word_of_nat (c * k) :: size_t) = c * k"
    by (simp add: unat_of_nat del: of_nat_mult)
  then show ?thesis
    using allocated [OF assms(1) _ _ _ assms(4)] \<open>c * k < 2 ^ 61\<close> n
    by (auto simp: ALIGNOF_OBJECT_def place_def step_ok_def changes_only_refl within_refl simp del: of_nat_mult)
qed

lemma copy_okI:
  "step_ok bs s s' [] new \<Longrightarrow> stands_for (fst s') r x \<Longrightarrow> set (blocks_of (fst s') r x) \<subseteq> set new \<Longrightarrow>
   copy_ok bs s x (Inr (r, s'))"
  by (auto simp: copy_ok_def)

lemma copy_failed: "copy_ok bs s x (Inl bad_alloc)"
  by (simp add: copy_ok_def)

lemma copy_plain:
  "zone_ok bs z \<Longrightarrow> stands_for h v x \<Longrightarrow> blocks_of h v x = [] \<Longrightarrow> copy_ok bs (h, z) x (Inr (v, h, z))"
  by (rule copy_okI [OF step_refl]) simp_all

lemma data_made:
  assumes "unat n = length b" "in_memory p (length b)" "bytes_at h p b" "(p, word_of_nat (length b)) \<in> set src"
    and "zone_ok bs z"
    and "\<And>ptr g. in_memory ptr (length b) \<Longrightarrow> bytes_at g ptr b \<Longrightarrow>
      stands_for g (mk ptr) x \<and> blocks_of g (mk ptr) x = [(ptr, word_of_nat (length b))]"
  shows "copy_ok bs (h, z) x (sbind (copy_data malloc n p (h, z)) (\<lambda>(ptr, s). Inr (mk ptr, s)))"
  using data_copied [OF assms(1-5)]
proof (elim disjE exE conjE)
  fix ptr h' z'
  assume copied: "copy_data malloc n p (h, z) = Inr (ptr, h', z')" "in_memory ptr (length b)" "bytes_at h' ptr b"
    "step_ok bs (h, z) (h', z') [] [(ptr, word_of_nat (length b))]"
  from copy_okI [OF copied(4)] show ?thesis
    using assms(6) [OF copied(2,3)] copied(1) by simp
qed (simp add: copy_failed)

lemma array_copied:
  fixes z :: "'f zone"
  assumes IH: "\<And>u w (s :: memory \<times> 'f zone) bs. u \<in> set xs \<Longrightarrow> stands_for (fst s) w u \<Longrightarrow>
      set (blocks_of (fst s) w u) \<subseteq> set src \<Longrightarrow> zone_ok bs (snd s) \<Longrightarrow> copy_ok bs s u (copy_object malloc fuel w s)"
    and v: "stands_for h (R_ARRAY p n) (ARRAY xs)" and orig: "set (blocks_of h (R_ARRAY p n) (ARRAY xs)) \<subseteq> set src"
    and z: "zone_ok bs z"
  shows "copy_ok bs (h, z) (ARRAY xs) (copy_object malloc (Suc fuel) (R_ARRAY p n) (h, z))"
proof (cases "allocate_align malloc (SIZEOF_OBJECT * ucast n) ALIGNOF_OBJECT z")
  case None
  then show ?thesis by (simp add: copy_failed)
next
  case (Some py)
  then obtain ptr y where y: "allocate_align malloc (SIZEOF_OBJECT * ucast n) ALIGNOF_OBJECT z = Some (ptr, y)"
    by (cases py) auto
  let ?b = "(ptr, word_of_nat (24 * length xs))"
  have n: "unat n = length xs" using v by simp
  have new: "place (?b # bs) ptr (24 * length xs)" "step_ok bs (h, z) (h, y) [] [?b]"
    using elements_allocated [OF z n, of 24 ptr y h] y by (simp_all add: SIZEOF_OBJECT_def del: of_nat_mult)
  have made: "array_ok (?b # bs) (h, y) ptr xs (copy_array malloc fuel (length xs) ptr p (h, y))"
    by (rule copy_array_ok [OF IH])
      (use v new orig within_refl in \<open>auto simp: step_ok_def simp del: of_nat_mult\<close>)
  show ?thesis
  proof (cases "copy_array malloc fuel (length xs) ptr p (h, y)")
    case (Inl e)
    with made y show ?thesis by (simp add: array_ok_def copy_failed n)
  next
    case (Inr s')
    then obtain g x where copied: "copy_array malloc fuel (length xs) ptr p (h, y) = Inr (g, x)" by (cases s') auto
    then obtain new where new': "step_ok (?b # bs) (h, y) (g, x) [?b] new" "array_at g ptr xs"
        "set (array_blocks g ptr xs) \<subseteq> set new"
      using made by (auto simp: array_ok_def)
    have "step_ok bs (h, z) (g, x) [] (new @ [?b])"
      using step_trans [OF new(2), of "(g, x)" "[?b]" new] new'(1) by (auto simp: step_ok_def changes_only_def)
    then have "copy_ok bs (h, z) (ARRAY xs) (Inr (R_ARRAY ptr n, g, x))"
      by (rule copy_okI) (use new'(2,3) new(1) n in \<open>auto simp: place_def simp del: of_nat_mult\<close>)
    with copied y n show ?thesis by simp
  qed
qed

lemma map_copied:
  fixes z :: "'f zone"
  assumes IH: "\<And>u w (s :: memory \<times> 'f zone) bs. \<exists>(k, v)\<in>set xs. u \<in> {k, v} \<Longrightarrow> stands_for (fst s) w u \<Longrightarrow>
      set (blocks_of (fst s) w u) \<subseteq> set src \<Longrightarrow> zone_ok bs (snd s) \<Longrightarrow> copy_ok bs s u (copy_object malloc fuel w s)"
    and v: "stands_for h (R_MAP p n) (MAP xs)" and orig: "set (blocks_of h (R_MAP p n) (MAP xs)) \<subseteq> set src"
    and z: "zone_ok bs z"
  shows "copy_ok bs (h, z) (MAP xs) (copy_object malloc (Suc fuel) (R_MAP p n) (h, z))"
proof (cases "allocate_align malloc (SIZEOF_OBJECT_KV * ucast n) ALIGNOF_OBJECT z")
  case None
  then show ?thesis by (simp add: copy_failed)
next
  case (Some py)
  then obtain ptr y where y: "allocate_align malloc (SIZEOF_OBJECT_KV * ucast n) ALIGNOF_OBJECT z = Some (ptr, y)"
    by (cases py) auto
  let ?b = "(ptr, word_of_nat (48 * length xs))"
  have n: "unat n = length xs" using v by simp
  have new: "place (?b # bs) ptr (48 * length xs)" "step_ok bs (h, z) (h, y) [] [?b]"
    using elements_allocated [OF z n, of 48 ptr y h] y by (simp_all add: SIZEOF_OBJECT_KV_def del: of_nat_mult)
  have made: "map_ok (?b # bs) (h, y) ptr xs (copy_map malloc fuel (length xs) ptr p (h, y))"
    by (rule copy_map_ok [OF IH])
      (use v new orig within_refl in \<open>auto simp: step_ok_def simp del: of_nat_mult\<close>)
  show ?thesis
  proof (cases "copy_map malloc fuel (length xs) ptr p (h, y)")
    case (Inl e)
    with made y show ?thesis by (simp add: map_ok_def copy_failed n)
  next
    case (Inr s')
    then obtain g x where copied: "copy_map malloc fuel (length xs) ptr p (h, y) = Inr (g, x)" by (cases s') auto
    then obtain new where new': "step_ok (?b # bs) (h, y) (g, x) [?b] new" "map_at g ptr xs"
        "set (map_blocks g ptr xs) \<subseteq> set new"
      using made by (auto simp: map_ok_def)
    have "step_ok bs (h, z) (g, x) [] (new @ [?b])"
      using step_trans [OF new(2), of "(g, x)" "[?b]" new] new'(1) by (auto simp: step_ok_def changes_only_def)
    then have "copy_ok bs (h, z) (MAP xs) (Inr (R_MAP ptr n, g, x))"
      by (rule copy_okI) (use new'(2,3) new(1) n in \<open>auto simp: place_def simp del: of_nat_mult\<close>)
    with copied y n show ?thesis by simp
  qed
qed

lemma copy_object_ok:
  fixes s :: "memory \<times> 'f zone"
  shows "stands_for (fst s) v x \<Longrightarrow> depth x \<le> fuel \<Longrightarrow> set (blocks_of (fst s) v x) \<subseteq> set src \<Longrightarrow> zone_ok bs (snd s) \<Longrightarrow>
    copy_ok bs s x (copy_object malloc fuel v s)"
proof (induction fuel arbitrary: v x s bs)
  case 0
  then show ?case by (cases x) simp_all
next
  case (Suc fuel)
  obtain h z where s: "s = (h, z)" by (cases s)
  note prems = Suc.prems [unfolded s fst_conv snd_conv]
  show ?case
  proof (cases x)
    case (Str b)
    with prems(1) obtain p n where v: "v = R_STR p n" "unat n = length b" "in_memory p (length b)" "bytes_at h p b"
      by (cases v) auto
    show ?thesis
      using data_made [OF v(2-4) _ prems(4)] prems(3) v(1,2) by (simp add: s v(1) \<open>x = _\<close>)
  next
    case (BIN b)
    with prems(1) obtain p n where v: "v = R_BIN p n" "unat n = length b" "in_memory p (length b)" "bytes_at h p b"
      by (cases v) auto
    show ?thesis
      using data_made [OF v(2-4) _ prems(4)] prems(3) v(1,2) by (simp add: s v(1) \<open>x = _\<close>)
  next
    case (EXT t b)
    with prems(1) obtain p n where v: "v = R_EXT p n" "unat n = length b" "n \<noteq> 0xffffffff"
        "in_memory p (length (t # b))" "bytes_at h p (t # b)"
      by (cases v) auto
    have "unat n \<noteq> unat (0xffffffff :: 32 word)" using v(3) unfolding word_unat_eq_iff .
    then have "unat n + 1 < 2 ^ 32" using unat_32 [of n] by simp
    then have n: "unat (n + 1) = length (t # b)" using v(2) by (simp add: unat_word_ariths)
    show ?thesis
      using data_made [OF n v(4,5) _ prems(4)] prems(3) v(2,3) by (simp add: s v(1) EXT del: of_nat_Suc)
  next
    case (ARRAY xs)
    with prems(1) obtain p n where v: "v = R_ARRAY p n" by (cases v) auto
    have "copy_ok bs (h, z) (ARRAY xs) (copy_object malloc (Suc fuel) (R_ARRAY p n) (h, z))"
    proof (rule array_copied)
      fix u w bs and s :: "memory \<times> 'f zone"
      assume "u \<in> set xs" "stands_for (fst s) w u" "set (blocks_of (fst s) w u) \<subseteq> set src" "zone_ok bs (snd s)"
      then show "copy_ok bs s u (copy_object malloc fuel w s)"
        using prems(2) highest_bound [of "depth u" "map depth xs"] by (intro Suc.IH) (auto simp: ARRAY)
    qed (use prems in \<open>simp_all add: v ARRAY\<close>)
    then show ?thesis by (simp only: s v ARRAY)
  next
    case (MAP kvs)
    with prems(1) obtain p n where v: "v = R_MAP p n" by (cases v) auto
    have "copy_ok bs (h, z) (MAP kvs) (copy_object malloc (Suc fuel) (R_MAP p n) (h, z))"
    proof (rule map_copied)
      fix u w bs and s :: "memory \<times> 'f zone"
      assume u: "\<exists>(k, v)\<in>set kvs. u \<in> {k, v}" and *: "stands_for (fst s) w u" "set (blocks_of (fst s) w u) \<subseteq> set src" "zone_ok bs (snd s)"
      have "depth u \<le> fuel"
        using prems(2) u highest_bound [of _ "map (\<lambda>(k, v). max (depth k) (depth v)) kvs"] by (force simp: MAP)
      with * show "copy_ok bs s u (copy_object malloc fuel w s)"
        by (intro Suc.IH)
    qed (use prems in \<open>simp_all add: v MAP\<close>)
    then show ?thesis by (simp only: s v MAP)
  qed (use prems(1,4) in \<open>(cases v; simp add: s copy_plain)\<close>)+
qed

end

section \<open>Cloning an object\<close>

text \<open>The size of the zone an object is cloned into.\<close>

definition aligned_size :: "size_t \<Rightarrow> size_t \<Rightarrow> size_t" where
  "aligned_size n align = (n + align - 1) div align * align"

definition add_ext_type_size :: "size_t \<Rightarrow> size_t" where
  "add_ext_type_size n = n + 1"

function (sequential) aligned_zone_size :: "memory \<Rightarrow> nat \<Rightarrow> raw \<Rightarrow> size_t option"
  and array_zone_size :: "memory \<Rightarrow> nat \<Rightarrow> nat \<Rightarrow> size_t \<Rightarrow> size_t \<Rightarrow> size_t option"
  and map_zone_size :: "memory \<Rightarrow> nat \<Rightarrow> nat \<Rightarrow> size_t \<Rightarrow> size_t \<Rightarrow> size_t option" where
  "aligned_zone_size h 0 v = None"
| "aligned_zone_size h (Suc fuel) (R_ARRAY p n) =
     array_zone_size h fuel (unat n) p (aligned_size (SIZEOF_OBJECT * ucast n) ALIGNOF_OBJECT)"
| "aligned_zone_size h (Suc fuel) (R_MAP p n) =
     map_zone_size h fuel (unat n) p (aligned_size (SIZEOF_OBJECT_KV * ucast n) ALIGNOF_OBJECT)"
| "aligned_zone_size h (Suc fuel) (R_EXT p n) = Some (aligned_size (add_ext_type_size (ucast n)) ALIGNOF_CHAR)"
| "aligned_zone_size h (Suc fuel) (R_STR p n) = Some (aligned_size (ucast n) ALIGNOF_CHAR)"
| "aligned_zone_size h (Suc fuel) (R_BIN p n) = Some (aligned_size (ucast n) ALIGNOF_CHAR)"
| "aligned_zone_size h (Suc fuel) v = Some 0"
| "array_zone_size h fuel 0 p s = Some s"
| "array_zone_size h fuel (Suc n) p s =
     Option.bind (aligned_zone_size h fuel (object_store h p)) (\<lambda>k.
       array_zone_size h fuel n (p + SIZEOF_OBJECT) (s + k))"
| "map_zone_size h fuel 0 p s = Some s"
| "map_zone_size h fuel (Suc n) p s =
     Option.bind (aligned_zone_size h fuel (object_store h p)) (\<lambda>k.
       Option.bind (aligned_zone_size h fuel (object_store h (p + SIZEOF_OBJECT))) (\<lambda>m.
         map_zone_size h fuel n (p + SIZEOF_OBJECT_KV) (s + k + m)))"
  by pat_completeness auto
termination
  by (relation "measures [case_sum (\<lambda>(h, fuel, v). fuel)
      (case_sum (\<lambda>(h, fuel, n, p, s). fuel) (\<lambda>(h, fuel, n, p, s). fuel)),
      case_sum (\<lambda>_. 0) (case_sum (\<lambda>(h, fuel, n, p, s). Suc n) (\<lambda>(h, fuel, n, p, s). Suc n))]")
    auto

text \<open>
  An object that needs no memory is its own clone, without a zone. Otherwise the handle has the
  new object and the zone.
\<close>

definition clone :: "malloc \<Rightarrow> nat \<Rightarrow> raw \<Rightarrow> memory \<Rightarrow> copy_fault + (raw \<times> 'f zone option \<times> memory)" where
  "clone malloc fuel v h =
     (case aligned_zone_size h fuel v of
        None \<Rightarrow> Inl no_fuel
      | Some sz \<Rightarrow>
          (if sz = 0 then Inr (v, None, h)
           else (case new_zone malloc sz of
                   None \<Rightarrow> Inl bad_alloc
                 | Some z \<Rightarrow>
                     sbind (copy_object malloc fuel v (h, z)) (\<lambda>(r, h, z). Inr (r, Some z, h)))))"

text \<open>The memory a value needs besides the object itself.\<close>

fun room :: "object \<Rightarrow> nat" where
  "room (Str b) = length b"
| "room (BIN b) = length b"
| "room (EXT t b) = Suc (length b)"
| "room (ARRAY xs) = 24 * length xs + sum_list (map room xs)"
| "room (MAP kvs) = 48 * length kvs + sum_list (map (\<lambda>(k, v). room k + room v) kvs)"
| "room x = 0"

lemma aligned_size_char: "aligned_size n ALIGNOF_CHAR = n"
  by (simp add: aligned_size_def ALIGNOF_CHAR_def)

lemma aligned_size_elements:
  fixes n :: "32 word"
  assumes "unat n = k" "c \<in> {24, 48}"
  shows "aligned_size (word_of_nat c * ucast n) ALIGNOF_OBJECT = word_of_nat (c * k)"
proof -
  let ?w = "word_of_nat (c * k) :: size_t"
  have small: "c * k < 2 ^ 61" using unat_32 [of n] assms by auto
  then have w: "unat ?w = c * k" by (simp add: unat_of_nat del: of_nat_mult)
  with small have "unat (?w + 7) = c * k + 7" by (simp add: unat_plus del: of_nat_mult)
  moreover have "c * k = c div 8 * k * 8" using assms(2) by auto
  then have "(c * k + 7) div 8 * 8 = c * k" by presburger
  ultimately have "unat ((?w + 7) div 8 * 8) = c * k"
    using unat_mult_lem [of "(?w + 7) div 8" 8] small by (simp add: unat_div del: of_nat_mult)
  with w have "(?w + 7) div 8 * 8 = ?w" unfolding word_unat_eq_iff by simp
  then show ?thesis
    using widened(1) [OF assms(1)] by (simp add: aligned_size_def ALIGNOF_OBJECT_def add.commute)
qed

lemma array_room:
  assumes "\<And>v x. x \<in> set xs \<Longrightarrow> stands_for h v x \<Longrightarrow> aligned_zone_size h fuel v = Some (word_of_nat (room x))"
    and "array_at h p xs"
  shows "array_zone_size h fuel (length xs) p s = Some (s + word_of_nat (sum_list (map room xs)))"
  using assms
proof (induction xs arbitrary: p s)
  case (Cons x xs)
  have "aligned_zone_size h fuel (object_store h p) = Some (word_of_nat (room x))"
    using Cons.prems(2) by (intro Cons.prems(1)) auto
  moreover have "array_zone_size h fuel (length xs) (p + SIZEOF_OBJECT) t = Some (t + word_of_nat (sum_list (map room xs)))" for t
    using Cons.prems by (intro Cons.IH) auto
  ultimately show ?case by (simp add: add.assoc)
qed simp

lemma map_room:
  assumes "\<And>v x. \<exists>(k, u)\<in>set kvs. x \<in> {k, u} \<Longrightarrow> stands_for h v x \<Longrightarrow> aligned_zone_size h fuel v = Some (word_of_nat (room x))"
    and "map_at h p kvs"
  shows "map_zone_size h fuel (length kvs) p s = Some (s + word_of_nat (sum_list (map (\<lambda>(k, v). room k + room v) kvs)))"
  using assms
proof (induction kvs arbitrary: p s)
  case (Cons kv kvs)
  obtain k u where kv: "kv = (k, u)" by (cases kv)
  have "aligned_zone_size h fuel (object_store h p) = Some (word_of_nat (room k))"
    "aligned_zone_size h fuel (object_store h (p + SIZEOF_OBJECT)) = Some (word_of_nat (room u))"
    using Cons.prems(2) by (auto simp: kv intro!: Cons.prems(1))
  moreover have "map_zone_size h fuel (length kvs) (p + SIZEOF_OBJECT_KV) t =
      Some (t + word_of_nat (sum_list (map (\<lambda>(k, v). room k + room v) kvs)))" for t
    using Cons.prems by (intro Cons.IH) (auto simp: kv)
  ultimately show ?case by (simp add: kv add.assoc)
qed simp

lemma aligned_zone_size_room:
  "stands_for h v x \<Longrightarrow> depth x \<le> fuel \<Longrightarrow> aligned_zone_size h fuel v = Some (word_of_nat (room x))"
proof (induction fuel arbitrary: v x)
  case 0
  then show ?case by (cases x) simp_all
next
  case (Suc fuel)
  show ?case
  proof (cases x)
    case (Str b)
    with Suc.prems(1) obtain p n where v: "v = R_STR p n" "unat n = length b" by (cases v) auto
    then show ?thesis using widened(1) [OF v(2)] by (simp add: Str aligned_size_char add_ext_type_size_def add.commute)
  next
    case (BIN b)
    with Suc.prems(1) obtain p n where v: "v = R_BIN p n" "unat n = length b" by (cases v) auto
    then show ?thesis using widened(1) [OF v(2)] by (simp add: BIN aligned_size_char add_ext_type_size_def add.commute)
  next
    case (EXT t b)
    with Suc.prems(1) obtain p n where v: "v = R_EXT p n" "unat n = length b" by (cases v) auto
    then show ?thesis using widened(1) [OF v(2)] by (simp add: EXT aligned_size_char add_ext_type_size_def add.commute)
  next
    case (ARRAY xs)
    with Suc.prems(1) obtain p n where v: "v = R_ARRAY p n" "unat n = length xs" "array_at h p xs" by (cases v) auto
    have "aligned_zone_size h fuel w = Some (word_of_nat (room u))" if "u \<in> set xs" "stands_for h w u" for w u
      using that Suc.prems(2) highest_bound [of "depth u" "map depth xs"] by (intro Suc.IH) (auto simp: ARRAY)
    from array_room [OF this v(3)] show ?thesis
      using aligned_size_elements [OF v(2), of 24] v(1,2) by (simp add: ARRAY SIZEOF_OBJECT_def)
  next
    case (MAP kvs)
    with Suc.prems(1) obtain p n where v: "v = R_MAP p n" "unat n = length kvs" "map_at h p kvs" by (cases v) auto
    have "aligned_zone_size h fuel w = Some (word_of_nat (room u))"
      if u: "\<exists>(k, y)\<in>set kvs. u \<in> {k, y}" and w: "stands_for h w u" for w u
    proof -
      have "depth u \<le> fuel"
        using Suc.prems(2) u highest_bound [of _ "map (\<lambda>(k, v). max (depth k) (depth v)) kvs"] by (force simp: MAP)
      with w show ?thesis by (intro Suc.IH)
    qed
    from map_room [OF this v(3)] show ?thesis
      using aligned_size_elements [OF v(2), of 48] v(1,2) by (simp add: MAP SIZEOF_OBJECT_KV_def)
  qed (use Suc.prems(1) in \<open>(cases v; simp)\<close>)+
qed

lemma no_room_blocks: "room x = 0 \<Longrightarrow> b \<in> set (blocks_of h v x) \<Longrightarrow> b = (address v, 0)"
  by (cases x) auto

lemma no_room_keeps: "room x = 0 \<Longrightarrow> keeps (blocks_of h v x) h h'"
  using no_room_blocks [of x _ h v] by (fastforce simp: keeps_def touches_def)

text \<open>
  What a handle promises. Its object stands for the value, lies in the zone's chunks, shares no
  memory with the original, and nothing but those chunks was written. A handle without a zone
  has the original object, none of whose memory is ever read.
\<close>

definition chunks_of :: "'f zone option \<Rightarrow> span list" where
  "chunks_of zo = (case zo of None \<Rightarrow> [] | Some z \<Rightarrow> cl_chunks (z_chunk_list z))"

definition handle_ok :: "memory \<Rightarrow> span list \<Rightarrow> object \<Rightarrow> raw \<Rightarrow> 'f zone option \<Rightarrow> memory \<Rightarrow> bool" where
  "handle_ok h src x r zo h' \<longleftrightarrow>
     stands_for h' r x \<and> all_apart (blocks_of h' r x) src \<and> changes_only (chunks_of zo) h h' \<and> keeps src h h' \<and>
     (case zo of
        None \<Rightarrow> room x = 0
      | Some z \<Rightarrow> wf_zone z \<and> (\<forall>b\<in>set (blocks_of h' r x). \<exists>c\<in>set (chunks_of zo). within b c))"

context copying
begin

lemma new_zone_ok:
  assumes "unat n < 2 ^ 62" "new_zone malloc n = Some z"
  shows "zone_ok [] z"
proof -
  obtain c where c: "malloc [] (CHUNK_HEADER + n) = Some c" "cl_ptr (z_chunk_list z) = c + CHUNK_HEADER"
      "cl_free (z_chunk_list z) = n"
    using assms(2) by (auto simp: new_zone_def new_chunk_list_def)
  have "unat (CHUNK_HEADER + n) = 8 + unat n"
    using assms(1) by (simp add: CHUNK_HEADER_def unat_plus)
  moreover from this have "unat (c + CHUNK_HEADER) = unat c + 8"
    using malloc c(1) unfolding good_malloc_def by (fastforce simp: CHUNK_HEADER_def unat_plus)
  ultimately have "within (cl_ptr (z_chunk_list z), cl_free (z_chunk_list z)) (c, CHUNK_HEADER + n)"
    by (simp add: within_def c(2,3))
  moreover have "\<forall>f\<in>set src. apart (c, CHUNK_HEADER + n) f"
    using avoids c(1) unfolding avoids_def by blast
  ultimately have "clear_of (z_chunk_list z) src"
    unfolding clear_of_def using within_apart [OF _ within_refl] by blast
  then show ?thesis
    using new_zone_wf [OF malloc assms] by (simp add: zone_ok_def)
qed

lemma cloned_in_zone:
  assumes "zone_ok [] z" "copy_ok [] (h, z) x (Inr (r, h', z'))"
  shows "handle_ok h src x r (Some z') h'"
proof -
  obtain new where new: "step_ok [] (h, z) (h', z') [] new" "stands_for h' r x" "set (blocks_of h' r x) \<subseteq> set new"
    using assms(2) by (auto simp: copy_ok_def)
  from new(1) have z': "wf_zone z'" "holds (z_chunk_list z') new" "changes_only new h h'" "all_apart new src"
    by (simp_all add: step_ok_def zone_ok_def)
  have inside: "\<exists>c\<in>set (chunks_of (Some z')). within b c" if "b \<in> set new" for b
    using holds_in_chunk [OF _ z'(2) that] z'(1) by (simp add: wf_zone_def chunks_of_def)
  have "changes_only (chunks_of (Some z')) h h'"
    using z'(3) by (rule changes_only_mono) (rule inside)
  moreover have "keeps src h h'"
    using changes_keeps [OF z'(3,4)] .
  ultimately show ?thesis
    using new(2,3) z'(1,4) inside by (auto simp: handle_ok_def all_apart_def)
qed

lemma clone_ok:
  assumes "stands_for h v x" "set (blocks_of h v x) = set src" "depth x \<le> fuel" "room x < 2 ^ 62"
  shows "case clone malloc fuel v h :: copy_fault + (raw \<times> 'f zone option \<times> memory) of
      Inl e \<Rightarrow> e = bad_alloc
    | Inr (r, zo, h') \<Rightarrow> handle_ok h src x r zo h'"
proof (cases "room x = 0")
  case True
  have "apart b c" if "b \<in> set (blocks_of h v x)" "c \<in> set src" for b c
    using no_room_blocks [OF True that(1)] no_room_blocks [OF True, of c h v] that(2) assms(2) by (simp add: apart_def)
  then have "all_apart (blocks_of h v x) src" by (simp add: all_apart_def)
  moreover have "keeps src h h" by (simp add: keeps_def same_at_def)
  ultimately show ?thesis
    using True assms(1) aligned_zone_size_room [OF assms(1,3)]
    by (simp add: clone_def handle_ok_def changes_only_refl)
next
  case False
  let ?n = "word_of_nat (room x) :: size_t"
  have n: "unat ?n = room x" using assms(4) by (simp add: unat_of_nat)
  then have pos: "?n \<noteq> 0" using False by (metis unat_0)
  show ?thesis
  proof (cases "new_zone malloc ?n :: 'f zone option")
    case None
    then show ?thesis using pos aligned_zone_size_room [OF assms(1,3)] by (simp add: clone_def)
  next
    case (Some z)
    have z: "zone_ok [] z" using new_zone_ok [OF _ Some] n assms(4) by simp
    have copy: "copy_ok [] (h, z) x (copy_object malloc fuel v (h, z))"
      using copy_object_ok [of "(h, z)" v x fuel "[]"] assms(1-3) z by simp
    show ?thesis
    proof (cases "copy_object malloc fuel v (h, z)")
      case (Inl e)
      with copy Some pos show ?thesis
        using aligned_zone_size_room [OF assms(1,3)] by (simp add: clone_def copy_ok_def)
    next
      case (Inr res)
      then obtain r h' z' where res: "copy_object malloc fuel v (h, z) = Inr (r, h', z')" by (cases res) auto
      show ?thesis
        using cloned_in_zone [OF z copy [unfolded res]] Some pos res aligned_zone_size_room [OF assms(1,3)]
        by (simp add: clone_def)
    qed
  qed
qed

end

text \<open>The memory of the original is in use: whatever \<open>malloc\<close> gives is elsewhere.\<close>

lemma beside_copying: "good_malloc malloc \<Longrightarrow> copying (beside malloc src) src"
  using beside_good by unfold_locales

interpretation sample_copies: copying "beside sample_malloc src" src for src
  by (rule beside_copying [OF sample_malloc_good])

text \<open>A handle outlives its original.\<close>

lemma handle_outlives:
  assumes "handle_ok h src x r zo h'" "changes_only src h' h''"
  shows "stands_for h'' r x"
proof -
  have "all_apart src (blocks_of h' r x)"
    using assms(1) all_apart_sym by (auto simp: handle_ok_def)
  then show ?thesis
    using stands_for_same [OF _ changes_keeps [OF assms(2)]] assms(1) by (simp add: handle_ok_def)
qed

text \<open>
  C31. \<open>clone\<close>: enough recursion always returns, the only failure is that memory runs out, and
  the handle is right. Its object stands for the same value; its blocks lie in the chunks of its
  own zone and share no byte with the original; nothing else was written, so that the original
  is what it was; and whatever is written into the memory of the original afterwards, the clone
  still stands for the value.
\<close>

theorem clone_independent:
  assumes "good_malloc malloc" "stands_for h v x" "depth x \<le> fuel" "room x < 2 ^ 62"
    and "clone (beside malloc (blocks_of h v x)) fuel v h = res"
  shows "case res of
      Inl e \<Rightarrow> e = bad_alloc
    | Inr (r, zo, h') \<Rightarrow>
        handle_ok h (blocks_of h v x) x r zo h' \<and> stands_for h' v x \<and>
        (\<forall>h''. changes_only (blocks_of h v x) h' h'' \<longrightarrow> stands_for h'' r x)"
proof -
  have copied: "case res of
      Inl e \<Rightarrow> e = bad_alloc
    | Inr (r, zo, h') \<Rightarrow> handle_ok h (blocks_of h v x) x r zo h'"
    unfolding assms(5) [symmetric]
    by (rule copying.clone_ok [OF beside_copying [OF assms(1)] assms(2) refl assms(3,4)])
  show ?thesis
  proof (cases res)
    case (Inr u)
    then obtain r zo h' where res: "res = Inr (r, zo, h')" by (cases u) auto
    with copied have ok: "handle_ok h (blocks_of h v x) x r zo h'" by simp
    then have "stands_for h' v x"
      using stands_for_same [OF assms(2)] by (simp add: handle_ok_def)
    then show ?thesis
      using handle_outlives [OF ok] ok by (auto simp: res)
  qed (use copied in simp)
qed

text \<open>An array of a string and an array, whose clone is still there when the original is not.\<close>

definition cloned_sample :: object where
  "cloned_sample = ARRAY [Str [97, 98], ARRAY [POSITIVE_INTEGER 7]]"

definition sample_raw :: raw where
  "sample_raw = R_ARRAY 1024 2"

definition sample_memory :: memory where
  "sample_memory =
     \<lparr>byte_store = (\<lambda>a. 0)(2000 := 97, 2001 := 98),
      object_store = (\<lambda>a. R_NIL)(1024 := R_STR 2000 2, 1048 := R_ARRAY 1072 1, 1072 := R_POSITIVE_INTEGER 7)\<rparr>"

definition sample_clone :: "copy_fault + (raw \<times> nat zone option \<times> memory)" where
  "sample_clone = clone (beside sample_malloc (blocks_of sample_memory sample_raw cloned_sample)) 3 sample_raw sample_memory"

lemma sample_original:
  "stands_for sample_memory sample_raw cloned_sample"
  "blocks_of sample_memory sample_raw cloned_sample = [(1024, 48), (2000, 2), (1072, 24)]"
  "depth cloned_sample \<le> 3" "room cloned_sample = 74"
  by (simp_all add: cloned_sample_def sample_raw_def sample_memory_def in_memory_def SIZEOF_OBJECT_def)

lemma sample_cloned: "case sample_clone of Inl e \<Rightarrow> False | Inr (r, zo, h') \<Rightarrow> r = R_ARRAY 2016 2 \<and> object_store h' 1024 = R_STR 2000 2"
  by code_simp

lemma sample_overwritten: "changes_only (blocks_of sample_memory sample_raw cloned_sample) h (put_object 1024 R_NIL h)"
  by (rule changes_only_mono [OF put_object_changes]) (simp add: sample_original within_def SIZEOF_OBJECT_def)

theorem clone_independent_witness:
  "case sample_clone of
     Inl e \<Rightarrow> False
   | Inr (r, zo, h') \<Rightarrow>
       stands_for (put_object 1024 R_NIL h') r cloned_sample \<and>
       \<not> stands_for (put_object 1024 R_NIL h') sample_raw cloned_sample"
proof -
  obtain r zo h' where res: "sample_clone = Inr (r, zo, h')"
    using sample_cloned by (auto split: sum.splits)
  have "stands_for (put_object 1024 R_NIL h') r cloned_sample"
    using clone_independent [OF sample_malloc_good sample_original(1,3) _ sample_clone_def [symmetric]]
      sample_overwritten [of h'] sample_original(4) by (simp add: res)
  moreover have "\<not> stands_for (put_object 1024 R_NIL h') sample_raw cloned_sample"
    by (simp add: sample_raw_def cloned_sample_def put_object_def)
  ultimately show ?thesis by (simp add: res)
qed

text \<open>
  Where the sizes do not fit. An extension of \<open>2 ^ 32 - 1\<close> bytes is copied as no bytes at all, as
  its size plus one is a 32-bit number; the zone of \<open>clone\<close>, whose size leaves out the padding
  before an array that follows a string, has to be extended.
\<close>

lemma largest_ext_not_copied:
  "copy_object malloc (Suc fuel) (R_EXT p 0xffffffff) (h, z) =
     (case allocate_align malloc 0 ALIGNOF_CHAR z of
        None \<Rightarrow> Inl bad_alloc
      | Some (ptr, z) \<Rightarrow> Inr (R_EXT ptr 0xffffffff, h, z))"
  by (simp add: copy_data_def split: option.splits)

lemma clone_zone_too_small:
  "case sample_clone of Inr (r, Some z, h') \<Rightarrow> length (cl_chunks (z_chunk_list z)) = 2 | _ \<Rightarrow> False"
  by code_simp

end
