(* ===== verification/Msgpack_V1.thy ===== *)
theory Msgpack_V1
  imports Msgpack_Stream
begin

text \<open>
  The older unpacker that is kept beside the one the RPC layer uses (\<open>v1/unpack.hpp\<close>): one context
  that parses and builds the object at once, where the newer one (\<open>Msgpack_Parse\<close>) calls a visitor.
  A program chooses between them by the version of the interface it compiles against, so they
  should not differ in what they read; the theory says how far that is so.
\<close>

section \<open>The values of the items\<close>

definition unpack_uint :: "'a::len word \<Rightarrow> object" where
  "unpack_uint d = POSITIVE_INTEGER (ucast d)"

definition unpack_sint :: "'a::len word \<Rightarrow> object" where
  "unpack_sint d = (if 0 \<le> sint d then POSITIVE_INTEGER (scast d) else NEGATIVE_INTEGER (scast d))"

text \<open>
  The block for the elements comes from the zone. Bodies are copied there, or, when the reference
  function says so (\<open>f\<close>), left in the buffer, whatever their size.
\<close>

definition unpack_array :: "unpack_limit \<Rightarrow> 32 word \<Rightarrow> unpack_error + object" where
  "unpack_array limit n =
     (if array_limit limit < ucast n then Inl array_size_overflow
      else let sz = ucast n * 24 :: 64 word
           in if sz div 24 \<noteq> ucast n then Inl array_size_overflow else Inr (ARRAY []))"

definition unpack_map :: "unpack_limit \<Rightarrow> 32 word \<Rightarrow> unpack_error + object" where
  "unpack_map limit n =
     (if map_limit limit < ucast n then Inl map_size_overflow
      else let sz = ucast n * 48 :: 64 word
           in if sz div 48 \<noteq> ucast n then Inl map_size_overflow else Inr (MAP []))"

fun unpack_array_item :: "object \<Rightarrow> object \<Rightarrow> object" where
  "unpack_array_item (ARRAY xs) x = ARRAY (xs @ [x])"
| "unpack_array_item c x = c"

fun unpack_map_item :: "object \<Rightarrow> object \<Rightarrow> object \<Rightarrow> object" where
  "unpack_map_item (MAP kvs) k v = MAP (kvs @ [(k, v)])"
| "unpack_map_item c k v = c"

definition unpack_str :: "bool \<Rightarrow> unpack_limit \<Rightarrow> byte list \<Rightarrow> unpack_error + object" where
  "unpack_str f limit b =
     (if \<not> f \<and> unat (str_limit limit) < length b then Inl str_size_overflow else Inr (Str b))"

definition unpack_bin :: "bool \<Rightarrow> unpack_limit \<Rightarrow> byte list \<Rightarrow> unpack_error + object" where
  "unpack_bin f limit b =
     (if \<not> f \<and> unat (bin_limit limit) < length b then Inl bin_size_overflow else Inr (BIN b))"

definition unpack_ext :: "bool \<Rightarrow> unpack_limit \<Rightarrow> byte list \<Rightarrow> unpack_error + object" where
  "unpack_ext f limit b =
     (if \<not> f \<and> unat (ext_limit limit) < length b then Inl ext_size_overflow
      else case b of [] \<Rightarrow> Inl undefined_behaviour | t # d \<Rightarrow> Inr (EXT t d))"

section \<open>The context\<close>

text \<open>The count and the type of an entry are set when a container is put into it.\<close>

record v1_entry =
  e_obj :: object
  e_count :: "64 word"
  e_container_type :: container
  e_map_key :: object

definition new_entry :: v1_entry where
  "new_entry = \<lparr>e_obj = NIL, e_count = 0, e_container_type = CT_ARRAY_ITEM, e_map_key = NIL\<rparr>"

text \<open>The last entry of the stack, \<open>m_stack.back()\<close>, is the first of the list.\<close>

record v1_context =
  v_trail :: nat
  v_func :: bool
  v_limit :: unpack_limit
  v_cs :: cs
  v_stack :: "v1_entry list"

definition v1_init :: "v1_context \<Rightarrow> v1_context" where
  "v1_init c =
     c\<lparr>v_cs := CS_HEADER, v_trail := 0,
       v_stack := (case drop (length (v_stack c) - 1) (v_stack c) of
                     [] \<Rightarrow> [new_entry]
                   | e # _ \<Rightarrow> [e\<lparr>e_obj := NIL\<rparr>])\<rparr>"

definition new_v1_context :: "bool \<Rightarrow> unpack_limit \<Rightarrow> v1_context" where
  "new_v1_context f limit =
     \<lparr>v_trail = 0, v_func = f, v_limit = limit, v_cs = CS_HEADER, v_stack = [new_entry]\<rparr>"

definition v1_data :: "v1_context \<Rightarrow> object" where
  "v1_data c = (case rev (v_stack c) of [] \<Rightarrow> NIL | e # _ \<Rightarrow> e_obj e)"

text \<open>
  An item is put into the container below it, which may be complete by that and is then an item
  itself. The answer is 1 when the item is the whole message. An empty stack does not occur.
\<close>

function (sequential) push_item :: "object \<Rightarrow> v1_entry list \<Rightarrow> (int \<times> object \<times> v1_entry list) option" where
  "push_item obj [] = None"
| "push_item obj [e] = Some (1, obj, [e])"
| "push_item obj (e # sp # st) =
     (case e_container_type sp of
        CT_ARRAY_ITEM \<Rightarrow>
          (let sp = sp\<lparr>e_obj := unpack_array_item (e_obj sp) obj, e_count := e_count sp - 1\<rparr>
           in if e_count sp = 0 then push_item (e_obj sp) (sp # st) else Some (0, obj, e # sp # st))
      | CT_MAP_KEY \<Rightarrow>
          Some (0, obj, e # sp\<lparr>e_map_key := obj, e_container_type := CT_MAP_VALUE\<rparr> # st)
      | CT_MAP_VALUE \<Rightarrow>
          (let sp = sp\<lparr>e_obj := unpack_map_item (e_obj sp) (e_map_key sp) obj, e_count := e_count sp - 1\<rparr>
           in if e_count sp = 0 then push_item (e_obj sp) (sp # st)
              else Some (0, obj, e # sp\<lparr>e_container_type := CT_MAP_KEY\<rparr> # st)))"
  by pat_completeness auto
termination
  by (relation "measure (\<lambda>(obj, st). length st)") auto

text \<open>
  What a round of the loop gives: an exception, the return of \<open>execute\<close>, or another round with
  \<open>fixed_trail_again\<close> and the bytes from the current position on.
\<close>

datatype v1_step =
    V1_Throw unpack_error
  | V1_Return int v1_context "byte list"
  | V1_Next v1_context bool "byte list"

definition push_proc :: "object \<Rightarrow> v1_context \<Rightarrow> byte list \<Rightarrow> v1_step" where
  "push_proc obj c rest =
     (case push_item obj (v_stack c) of
        None \<Rightarrow> V1_Throw undefined_behaviour
      | Some (ret, obj, st) \<Rightarrow>
          if 0 < ret then V1_Return ret (c\<lparr>v_stack := st[length st - 1 := (last st)\<lparr>e_obj := obj\<rparr>]\<rparr>) rest
          else V1_Next (c\<lparr>v_stack := st, v_cs := CS_HEADER\<rparr>) False rest)"

definition push_unpacked :: "unpack_error + object \<Rightarrow> v1_context \<Rightarrow> byte list \<Rightarrow> v1_step" where
  "push_unpacked r c rest = (case r of Inl e \<Rightarrow> V1_Throw e | Inr obj \<Rightarrow> push_proc obj c rest)"

definition push_aggregate ::
    "(unpack_limit \<Rightarrow> 32 word \<Rightarrow> unpack_error + object) \<Rightarrow> container \<Rightarrow> 32 word \<Rightarrow> v1_context \<Rightarrow> byte list \<Rightarrow> v1_step" where
  "push_aggregate f container_type n c rest =
     (case f (v_limit c) n of
        Inl e \<Rightarrow> V1_Throw e
      | Inr obj \<Rightarrow>
          (case v_stack c of
             [] \<Rightarrow> V1_Throw undefined_behaviour
           | e # st \<Rightarrow>
               if n = 0 then push_proc obj (c\<lparr>v_stack := e\<lparr>e_obj := obj\<rparr> # st\<rparr>) rest
               else let st = e\<lparr>e_obj := obj, e_container_type := container_type, e_count := ucast n\<rparr> # st
                    in if length st \<le> unat (depth_limit (v_limit c))
                       then V1_Next (c\<lparr>v_stack := new_entry # st, v_cs := CS_HEADER\<rparr>) False rest
                       else V1_Throw depth_size_overflow))"

section \<open>A round of the loop\<close>

text \<open>The cases of the big \<open>switch\<close>, by what they do: numbers, extensions of a fixed size,\<close>

definition number_value :: "cs \<Rightarrow> byte list \<Rightarrow> object option" where
  "number_value cs n =
     (case cs of
        CS_FLOAT \<Rightarrow> Some (FLOAT32 (load n))
      | CS_DOUBLE \<Rightarrow> Some (FLOAT64 (load n))
      | CS_UINT_8 \<Rightarrow> Some (unpack_uint (load n :: 8 word))
      | CS_UINT_16 \<Rightarrow> Some (unpack_uint (load n :: 16 word))
      | CS_UINT_32 \<Rightarrow> Some (unpack_uint (load n :: 32 word))
      | CS_UINT_64 \<Rightarrow> Some (unpack_uint (load n :: 64 word))
      | CS_INT_8 \<Rightarrow> Some (unpack_sint (load n :: 8 word))
      | CS_INT_16 \<Rightarrow> Some (unpack_sint (load n :: 16 word))
      | CS_INT_32 \<Rightarrow> Some (unpack_sint (load n :: 32 word))
      | CS_INT_64 \<Rightarrow> Some (unpack_sint (load n :: 64 word))
      | _ \<Rightarrow> None)"

definition fixext_size :: "cs \<Rightarrow> nat option" where
  "fixext_size cs =
     (case cs of
        CS_FIXEXT_1 \<Rightarrow> Some 1
      | CS_FIXEXT_2 \<Rightarrow> Some 2
      | CS_FIXEXT_4 \<Rightarrow> Some 4
      | CS_FIXEXT_8 \<Rightarrow> Some 8
      | CS_FIXEXT_16 \<Rightarrow> Some 16
      | _ \<Rightarrow> None)"

text \<open>the length of a body to come,\<close>

definition body_length :: "cs \<Rightarrow> byte list \<Rightarrow> (cs \<times> nat) option" where
  "body_length cs n =
     (case cs of
        CS_STR_8 \<Rightarrow> Some (ACS_STR_VALUE, unat (load n :: 8 word))
      | CS_BIN_8 \<Rightarrow> Some (ACS_BIN_VALUE, unat (load n :: 8 word))
      | CS_EXT_8 \<Rightarrow> Some (ACS_EXT_VALUE, unat (load n :: 8 word) + 1)
      | CS_STR_16 \<Rightarrow> Some (ACS_STR_VALUE, unat (load n :: 16 word))
      | CS_BIN_16 \<Rightarrow> Some (ACS_BIN_VALUE, unat (load n :: 16 word))
      | CS_EXT_16 \<Rightarrow> Some (ACS_EXT_VALUE, unat (load n :: 16 word) + 1)
      | CS_STR_32 \<Rightarrow> Some (ACS_STR_VALUE, unat (load n :: 32 word))
      | CS_BIN_32 \<Rightarrow> Some (ACS_BIN_VALUE, unat (load n :: 32 word))
      | CS_EXT_32 \<Rightarrow> Some (ACS_EXT_VALUE, unat (load n :: 32 word) + 1)
      | _ \<Rightarrow> None)"

text \<open>the body, and the containers.\<close>

definition unpack_body :: "cs \<Rightarrow> v1_context \<Rightarrow> byte list \<Rightarrow> (unpack_error + object) option" where
  "unpack_body acs c b =
     (case acs of
        ACS_STR_VALUE \<Rightarrow> Some (unpack_str (v_func c) (v_limit c) b)
      | ACS_BIN_VALUE \<Rightarrow> Some (unpack_bin (v_func c) (v_limit c) b)
      | ACS_EXT_VALUE \<Rightarrow> Some (unpack_ext (v_func c) (v_limit c) b)
      | _ \<Rightarrow> None)"

definition push_container :: "cs \<Rightarrow> byte list \<Rightarrow> v1_context \<Rightarrow> byte list \<Rightarrow> v1_step option" where
  "push_container cs n c rest =
     (case cs of
        CS_ARRAY_16 \<Rightarrow> Some (push_aggregate unpack_array CT_ARRAY_ITEM (ucast (load n :: 16 word)) c rest)
      | CS_ARRAY_32 \<Rightarrow> Some (push_aggregate unpack_array CT_ARRAY_ITEM (load n) c rest)
      | CS_MAP_16 \<Rightarrow> Some (push_aggregate unpack_map CT_MAP_KEY (ucast (load n :: 16 word)) c rest)
      | CS_MAP_32 \<Rightarrow> Some (push_aggregate unpack_map CT_MAP_KEY (load n) c rest)
      | _ \<Rightarrow> None)"

text \<open>
  The second half of a round: the item of the current state. After the length of a body the position
  is at the last byte of the length, and the next round goes on from there.
\<close>

definition v1_item :: "v1_context \<Rightarrow> byte list \<Rightarrow> v1_step" where
  "v1_item c cur =
     (if length cur < v_trail c then V1_Return 0 c cur
      else let n = take (v_trail c) cur;
               at = drop (v_trail c - 1) cur;
               rest = drop (v_trail c) cur
           in case number_value (v_cs c) n of
                Some obj \<Rightarrow> push_proc obj c rest
              | None \<Rightarrow>
             (case fixext_size (v_cs c) of
                Some k \<Rightarrow> push_unpacked (unpack_ext (v_func c) (v_limit c) (take (k + 1) n)) c rest
              | None \<Rightarrow>
             (case body_length (v_cs c) n of
                Some (acs, len) \<Rightarrow>
                  (let c = c\<lparr>v_trail := len\<rparr>
                   in if len = 0
                      then (case unpack_body acs c [] of
                              None \<Rightarrow> V1_Return (- 1) c at
                            | Some r \<Rightarrow> push_unpacked r c rest)
                      else V1_Next (c\<lparr>v_cs := acs\<rparr>) True at)
              | None \<Rightarrow>
             (case unpack_body (v_cs c) c n of
                Some r \<Rightarrow> push_unpacked r c rest
              | None \<Rightarrow>
             (case push_container (v_cs c) n c rest of
                Some s \<Rightarrow> s
              | None \<Rightarrow> V1_Return (- 1) c at)))))"

text \<open>
  The first half: the header byte. What it does not complete is read by the second half at once.
  The tables of the states and of their further bytes are those of the newer parser.
\<close>

definition v1_header :: "v1_context \<Rightarrow> byte \<Rightarrow> byte list \<Rightarrow> v1_step" where
  "v1_header c selector rest =
     (if selector \<le> 0x7f then push_proc (unpack_uint selector) c rest
      else if 0xe0 \<le> selector then push_proc (unpack_sint selector) c rest
      else if 0xc4 \<le> selector \<and> selector \<le> 0xdf then
        (case cs_table ! unat (selector - 0xc4) of (cs, trail) \<Rightarrow>
           v1_item (c\<lparr>v_trail := trail, v_cs := cs\<rparr>) rest)
      else if 0xa0 \<le> selector \<and> selector \<le> 0xbf then
        (let c = c\<lparr>v_trail := unat (selector AND 0x1f)\<rparr>
         in if v_trail c = 0 then push_unpacked (unpack_str (v_func c) (v_limit c) []) c rest
            else v1_item (c\<lparr>v_cs := ACS_STR_VALUE\<rparr>) rest)
      else if 0x90 \<le> selector \<and> selector \<le> 0x9f then
        push_aggregate unpack_array CT_ARRAY_ITEM (ucast (selector AND 0x0f)) c rest
      else if 0x80 \<le> selector \<and> selector \<le> 0x8f then
        push_aggregate unpack_map CT_MAP_KEY (ucast (selector AND 0x0f)) c rest
      else if selector = 0xc2 then push_proc (BOOLEAN False) c rest
      else if selector = 0xc3 then push_proc (BOOLEAN True) c rest
      else if selector = 0xc0 then push_proc NIL c rest
      else V1_Return (- 1) c (selector # rest))"

definition v1_round :: "v1_context \<Rightarrow> bool \<Rightarrow> byte list \<Rightarrow> v1_step" where
  "v1_round c fixed_trail_again cur =
     (case cur of
        [] \<Rightarrow> V1_Return 0 c []
      | b # rest \<Rightarrow>
          if v_cs c = CS_HEADER then v1_header c b rest
          else v1_item c (if fixed_trail_again then rest else cur))"

text \<open>Every round takes a byte away or leaves less to be done with those there are.\<close>

definition v1_left :: "v1_context \<Rightarrow> bool \<Rightarrow> byte list \<Rightarrow> nat" where
  "v1_left c again cur = 3 * length cur + (if again then 1 else if v_cs c = CS_HEADER then 0 else 2)"

lemma push_proc_Next: "push_proc obj c rest = V1_Next c' again cur \<Longrightarrow> \<not> again \<and> v_cs c' = CS_HEADER \<and> cur = rest"
  by (auto simp: push_proc_def split: option.splits if_splits)

lemma push_unpacked_Next:
  "push_unpacked r c rest = V1_Next c' again cur \<Longrightarrow> \<not> again \<and> v_cs c' = CS_HEADER \<and> cur = rest"
  by (auto simp: push_unpacked_def dest: push_proc_Next split: sum.splits)

lemma push_aggregate_Next:
  "push_aggregate f t n c rest = V1_Next c' again cur \<Longrightarrow> \<not> again \<and> v_cs c' = CS_HEADER \<and> cur = rest"
  by (auto simp: push_aggregate_def Let_def dest: push_proc_Next split: sum.splits list.splits if_splits)

lemma v1_item_Next:
  "v1_item c cur = V1_Next c' again cur' \<Longrightarrow> length cur' \<le> length cur \<and> (again \<or> v_cs c' = CS_HEADER)"
  by (auto simp: v1_item_def Let_def push_container_def dest!: push_proc_Next push_unpacked_Next push_aggregate_Next
      split: if_splits option.splits cs.splits)

lemma v1_header_Next:
  "v1_header c b rest = V1_Next c' again cur' \<Longrightarrow> length cur' \<le> length rest"
  by (auto simp: v1_header_def Let_def dest: push_proc_Next push_unpacked_Next push_aggregate_Next v1_item_Next
      split: if_splits prod.splits)

lemma v1_round_Next:
  "v1_round c again cur = V1_Next c' again' cur' \<Longrightarrow> v1_left c' again' cur' < v1_left c again cur"
  by (auto simp: v1_round_def v1_left_def split: list.splits if_splits dest!: v1_header_Next v1_item_Next)

type_synonym v1_result = "unpack_error + int \<times> v1_context \<times> byte list"

function v1_loop :: "v1_context \<Rightarrow> bool \<Rightarrow> byte list \<Rightarrow> v1_result" where
  "v1_loop c again cur =
     (case v1_round c again cur of
        V1_Throw e \<Rightarrow> Inl e
      | V1_Return ret c' rest \<Rightarrow> Inr (ret, c', rest)
      | V1_Next c' again' cur' \<Rightarrow> if cur' = [] then Inr (0, c', []) else v1_loop c' again' cur')"
  by pat_completeness auto
termination
  by (relation "measure (\<lambda>(c, again, cur). v1_left c again cur)") (auto simp: v1_round_Next)

declare v1_loop.simps [simp del]

definition v1_execute :: "v1_context \<Rightarrow> byte list \<Rightarrow> v1_result" where
  "v1_execute c cur = (if cur = [] then Inr (0, c, []) else v1_loop c False cur)"

section \<open>The unpacker\<close>

definition v1_next :: "v1_context \<Rightarrow> byte list \<Rightarrow> unpack_error + object option \<times> v1_context \<times> byte list" where
  "v1_next c cur =
     (case v1_execute c cur of
        Inl e \<Rightarrow> Inl e
      | Inr (ret, c', rest) \<Rightarrow>
          if ret < 0 then Inl parse_error
          else if ret = 0 then Inr (None, c', rest)
          else Inr (Some (v1_data c'), v1_init c', rest))"

definition v1_unpack_imp :: "bool \<Rightarrow> unpack_limit \<Rightarrow> byte list \<Rightarrow> unpack_error + parse_return \<times> object \<times> byte list" where
  "v1_unpack_imp f limit data =
     (if data = [] then Inr (PARSE_CONTINUE, NIL, data)
      else case v1_execute (v1_init (new_v1_context f limit)) data of
             Inl e \<Rightarrow> Inl e
           | Inr (e, c, rest) \<Rightarrow>
               Inr (if e < 0 then (PARSE_PARSE_ERROR, NIL, data)
                    else if e = 0 then (PARSE_CONTINUE, NIL, rest)
                    else (if rest \<noteq> [] then PARSE_EXTRA_BYTES else PARSE_SUCCESS, v1_data c, rest)))"

definition v1_unpack :: "bool \<Rightarrow> unpack_limit \<Rightarrow> byte list \<Rightarrow> unpack_error + object \<times> byte list" where
  "v1_unpack f limit data =
     (case v1_unpack_imp f limit data of
        Inl e \<Rightarrow> Inl e
      | Inr (ret, obj, noff) \<Rightarrow>
          (case ret of
             PARSE_SUCCESS \<Rightarrow> Inr (obj, noff)
           | PARSE_EXTRA_BYTES \<Rightarrow> Inr (obj, noff)
           | PARSE_CONTINUE \<Rightarrow> Inl insufficient_bytes
           | _ \<Rightarrow> Inl parse_error))"

section \<open>Both unpackers in step\<close>

text \<open>
  Two stacks that stand for the same containers: below each entry that is being filled, the older
  unpacker has the container with its items so far, the newer one the items and a count.
\<close>

fun holds_items :: "v1_entry \<Rightarrow> object list \<Rightarrow> bool" where
  "holds_items e xs =
     (case e_container_type e of
        CT_ARRAY_ITEM \<Rightarrow> e_obj e = ARRAY xs
      | CT_MAP_KEY \<Rightarrow> (\<exists>kvs. e_obj e = MAP kvs \<and> xs = flat kvs)
      | CT_MAP_VALUE \<Rightarrow> (\<exists>kvs. e_obj e = MAP kvs \<and> xs = flat kvs @ [e_map_key e]))"

fun same_stack :: "v1_entry list \<Rightarrow> unpack_stack \<Rightarrow> slots list \<Rightarrow> bool" where
  "same_stack [e] [] [s] = (filled s = [])"
| "same_stack (e # e' # st) ((t, n) # st2) (s # sl) =
     (e_container_type e' = t \<and> e_count e' = ucast n \<and> n \<noteq> 0 \<and> holds_items e' (filled s) \<and>
      same_stack (e' # st) st2 sl)"
| "same_stack _ _ _ = False"

definition same_ctx :: "v1_context \<Rightarrow> ctx \<Rightarrow> bool" where
  "same_ctx c1 c2 \<longleftrightarrow>
     v_cs c1 = m_cs c2 \<and> (m_cs c2 \<noteq> CS_HEADER \<longrightarrow> v_trail c1 = m_trail c2 \<and> 0 < m_trail c2 \<and> m_trail c2 \<le> 2 ^ 32) \<and>
     v_func c1 = m_func (m_visitor c2) \<and> v_limit c1 = m_limit (m_visitor c2) \<and>
     same_stack (v_stack c1) (m_stack c2) (m_slots (m_visitor c2))"

lemma same_stack_lengths: "same_stack st1 st2 sl \<Longrightarrow> length sl = Suc (length st2) \<and> length st1 = Suc (length st2)"
  by (induction st1 st2 sl rule: same_stack.induct) auto

lemma same_stack_first: "same_stack (e # st) st2 (s # sl) \<Longrightarrow> same_stack (e' # st) st2 (s\<lparr>slot := x\<rparr> # sl)"
  by (induction "e # st" st2 "s # sl" arbitrary: st s sl rule: same_stack.induct) auto

lemma flat_append [simp]: "flat (kvs @ lws) = flat kvs @ flat lws"
  by (simp add: flat_def)

lemma unat_widened: "unat (ucast (n :: 32 word) :: 64 word) = unat n"
proof -
  have "unat n < 2 ^ 64" using unsigned_less [of n] by (rule order_less_trans) simp
  then show ?thesis by (simp add: unat_narrow)
qed

lemma widened_zero: "(ucast (n :: 32 word) :: 64 word) = 0 \<longleftrightarrow> n = 0"
  using unat_widened [of n] by (metis unat_0 unat_eq_0)

lemma ucast_count:
  assumes "(n :: 32 word) \<noteq> 0"
  shows "ucast n - 1 = (ucast (n - 1) :: 64 word)"
  using unat_minus_one [OF assms] unat_minus_one [of "ucast n :: 64 word"] assms widened_zero [of n]
    unat_widened [of n] unat_widened [of "n - 1"] by (metis word_unat_eq_iff)

text \<open>An item that is complete is put into the same place by both.\<close>

definition same_push :: "(int \<times> object \<times> v1_entry list) option \<Rightarrow> stack_result \<Rightarrow> bool \<Rightarrow> unpack_limit \<Rightarrow> bool" where
  "same_push p r f l \<longleftrightarrow>
     (case (p, r) of
        (Some (ret, obj, st1), Inr (pr, st2, v')) \<Rightarrow>
          m_func v' = f \<and> m_limit v' = l \<and>
          (ret = 1 \<and> pr = PARSE_SUCCESS \<and> (\<exists>e. st1 = [e]) \<and> st2 = [] \<and> visitor_data v' = obj \<or>
           ret = 0 \<and> pr = PARSE_CONTINUE \<and> same_stack st1 st2 (m_slots v'))
      | _ \<Rightarrow> False)"

lemma push_same:
  "same_stack st1 st2 (m_slots v) \<Longrightarrow> same_push (push_item x st1) (stack_consume st2 (set_slot x v)) (m_func v) (m_limit v)"
proof (induction x st1 arbitrary: st2 v rule: push_item.induct)
  case (1 obj)
  then show ?case by simp
next
  case (2 obj e)
  then obtain s where "st2 = []" "m_slots v = [s]"
    by (cases "([e], st2, m_slots v)" rule: same_stack.cases) auto
  then show ?case by (simp add: same_push_def set_slot_def visitor_data_def)
next
  case (3 obj e sp st)
  then obtain t n st2' s sl where st2: "st2 = (t, n) # st2'" and v: "m_slots v = s # sl"
    by (cases "(e # sp # st, st2, m_slots v)" rule: same_stack.cases) auto
  note same = 3(3) [unfolded st2 v]
  obtain s' sl' where sl: "sl = s' # sl'"
    using same_stack_lengths [OF same] by (cases sl) auto
  have n: "n \<noteq> 0" "e_count sp = ucast n" using same by simp_all
  have count: "e_count sp - 1 = ucast (n - 1)" using n ucast_count by simp
  have rest: "same_stack (e' # st) st2' sl" for e'
    using same same_stack_first [of sp st st2' s' sl' e' "slot s'"] by (simp add: sl)
  show ?case
  proof (cases t)
    case CT_ARRAY_ITEM
    then have sp: "e_container_type sp = CT_ARRAY_ITEM" "e_obj sp = ARRAY (filled s)" using same by auto
    let ?sp = "sp\<lparr>e_obj := ARRAY (filled s @ [obj]), e_count := e_count sp - 1\<rparr>"
    show ?thesis
    proof (cases "n - 1 = 0")
      case True
      have "same_push (push_item (ARRAY (filled s @ [obj])) (?sp # st))
          (stack_consume st2' (set_slot (ARRAY (filled s @ [obj])) (v\<lparr>m_slots := sl\<rparr>))) (m_func v) (m_limit v)"
        using 3(1) [OF sp(1) refl, of st2' "v\<lparr>m_slots := sl\<rparr>"] sp rest [of ?sp] True count by simp
      then show ?thesis
        using sp v True CT_ARRAY_ITEM count
        by (simp add: st2 same_push_def visit_def end_array_item_def end_array_def next_slot_def set_slot_def)
    next
      case False
      then show ?thesis
        using sp v CT_ARRAY_ITEM count widened_zero same rest
        by (simp add: st2 same_push_def visit_def end_array_item_def start_array_item_def next_slot_def set_slot_def)
    qed
  next
    case CT_MAP_KEY
    then obtain kvs where sp: "e_container_type sp = CT_MAP_KEY" "e_obj sp = MAP kvs" "filled s = flat kvs"
      using same by auto
    then show ?thesis
      using v CT_MAP_KEY same rest
      by (simp add: st2 same_push_def visit_def end_map_key_def start_map_value_def next_slot_def set_slot_def)
  next
    case CT_MAP_VALUE
    then obtain kvs where sp: "e_container_type sp = CT_MAP_VALUE" "e_obj sp = MAP kvs" "filled s = flat kvs @ [e_map_key sp]"
      using same by auto
    let ?x = "MAP (kvs @ [(e_map_key sp, obj)])"
    let ?sp = "sp\<lparr>e_obj := ?x, e_count := e_count sp - 1\<rparr>"
    have flat: "filled s @ [obj] = flat (kvs @ [(e_map_key sp, obj)])" using sp(3) by simp
    show ?thesis
    proof (cases "n - 1 = 0")
      case True
      have "same_push (push_item ?x (?sp # st)) (stack_consume st2' (set_slot ?x (v\<lparr>m_slots := sl\<rparr>))) (m_func v) (m_limit v)"
        using 3(2) [OF sp(1) refl, of st2' "v\<lparr>m_slots := sl\<rparr>"] sp rest [of ?sp] True count by simp
      then show ?thesis
        using sp v True CT_MAP_VALUE count flat
        by (simp add: st2 same_push_def visit_def end_map_value_def end_map_def next_slot_def set_slot_def
            del: flat_append)
    next
      case False
      then show ?thesis
        using sp v CT_MAP_VALUE count widened_zero same rest flat
        by (simp add: st2 same_push_def visit_def end_map_value_def start_map_key_def next_slot_def set_slot_def)
    qed
  qed
qed

text \<open>
  What the loop makes of a round, compared with a step of the newer parser. Where that throws
  something else than \<open>parse_error\<close>, a limit was exceeded, and the older one may go on.
\<close>

definition v1_go :: "v1_step \<Rightarrow> v1_result" where
  "v1_go s =
     (case s of
        V1_Throw e \<Rightarrow> Inl e
      | V1_Return ret c rest \<Rightarrow> Inr (ret, c, rest)
      | V1_Next c again cur \<Rightarrow> if cur = [] then Inr (0, c, []) else v1_loop c again cur)"

lemma v1_loop_go: "v1_loop c again cur = v1_go (v1_round c again cur)"
  by (subst v1_loop.simps) (simp add: v1_go_def)

lemma v1_go_simps [simp]:
  "v1_go (V1_Throw e) = Inl e" "v1_go (V1_Return ret c rest) = Inr (ret, c, rest)"
  "v1_go (V1_Next c False cur) = v1_execute c cur"
  "at \<noteq> [] \<Longrightarrow> v1_go (V1_Next c True at) = v1_go (v1_round c True at)"
  by (simp_all add: v1_go_def v1_execute_def v1_loop_go)

definition frame :: "v1_context \<Rightarrow> ctx \<Rightarrow> bool" where
  "frame c1 c2 \<longleftrightarrow>
     v_func c1 = m_func (m_visitor c2) \<and> v_limit c1 = m_limit (m_visitor c2) \<and>
     same_stack (v_stack c1) (m_stack c2) (m_slots (m_visitor c2))"

definition both_done :: "v1_context \<Rightarrow> ctx \<Rightarrow> bool" where
  "both_done c1 c2 \<longleftrightarrow>
     v1_data c1 = visitor_data (m_visitor c2) \<and> length (v_stack c1) = 1 \<and>
     v_func c1 = m_func (m_visitor c2) \<and> v_limit c1 = m_limit (m_visitor c2)"

definition same_return :: "v1_result \<Rightarrow> parse_return \<Rightarrow> ctx \<Rightarrow> byte list \<Rightarrow> bool" where
  "same_return r ret c2 rest \<longleftrightarrow>
     (\<exists>c1. ret = PARSE_SUCCESS \<and> r = Inr (1, c1, rest) \<and> both_done c1 c2 \<or>
           ret = PARSE_CONTINUE \<and> r = Inr (0, c1, rest) \<and> same_ctx c1 c2)"

definition refused :: "v1_result \<Rightarrow> unpack_error \<Rightarrow> bool" where
  "refused r e \<longleftrightarrow> e \<noteq> insufficient_bytes \<and> (e = parse_error \<longrightarrow> (\<exists>c1 rest. r = Inr (- 1, c1, rest)))"

definition matches :: "v1_result \<Rightarrow> step \<Rightarrow> bool" where
  "matches r s \<longleftrightarrow>
     (case s of
        Throw e \<Rightarrow> refused r e
      | Return ret c2 rest \<Rightarrow> same_return r ret c2 rest
      | Next c2 rest \<Rightarrow> \<exists>c1. same_ctx c1 c2 \<and> r = v1_execute c1 rest)"

lemma matches_limit [simp]: "e \<notin> {parse_error, insufficient_bytes} \<Longrightarrow> matches r (Throw e)"
  by (simp add: matches_def refused_def)

lemma matches_next: "same_ctx c1 c2 \<Longrightarrow> matches (v1_execute c1 rest) (Next c2 rest)"
  by (auto simp: matches_def)

lemma proc_same:
  assumes "frame c1 c2"
  shows "matches (v1_go (push_proc x c1 rest)) (after_visit_proc (Inr (True, set_slot x (m_visitor c2))) c2 rest)"
proof -
  have same: "same_push (push_item x (v_stack c1)) (stack_consume (m_stack c2) (set_slot x (m_visitor c2)))
      (m_func (m_visitor c2)) (m_limit (m_visitor c2))"
    using assms push_same by (simp add: frame_def)
  then obtain ret obj st1 pr st2 v where r: "push_item x (v_stack c1) = Some (ret, obj, st1)"
      "stack_consume (m_stack c2) (set_slot x (m_visitor c2)) = Inr (pr, st2, v)"
    by (cases "push_item x (v_stack c1)"; cases "stack_consume (m_stack c2) (set_slot x (m_visitor c2))")
      (auto simp: same_push_def)
  have v: "m_func v = m_func (m_visitor c2)" "m_limit v = m_limit (m_visitor c2)"
    and cases: "ret = 1 \<and> pr = PARSE_SUCCESS \<and> (\<exists>e. st1 = [e]) \<and> st2 = [] \<and> visitor_data v = obj \<or>
      ret = 0 \<and> pr = PARSE_CONTINUE \<and> same_stack st1 st2 (m_slots v)"
    using same by (simp_all add: same_push_def r)
  from cases show ?thesis
  proof (elim disjE conjE exE)
    fix e
    assume "ret = 1" "pr = PARSE_SUCCESS" "st1 = [e]" "st2 = []" "visitor_data v = obj"
    then show ?thesis using r v assms
      by (simp add: push_proc_def after_visit_proc_def Let_def matches_def same_return_def both_done_def v1_data_def frame_def)
  next
    assume "ret = 0" "pr = PARSE_CONTINUE" "same_stack st1 st2 (m_slots v)"
    then show ?thesis using r v assms
      by (simp add: push_proc_def after_visit_proc_def Let_def) (rule matches_next, simp add: same_ctx_def frame_def)
  qed
qed

lemma visits_are_slots:
  "visit_positive_integer n v = Inr (True, set_slot (POSITIVE_INTEGER n) v)"
  "visit_float32 d v = Inr (True, set_slot (FLOAT32 d) v)"
  "visit_float64 e v = Inr (True, set_slot (FLOAT64 e) v)"
  "visit_boolean b v = Inr (True, set_slot (BOOLEAN b) v)"
  "visit_nil v = Inr (True, set_slot NIL v)"
  by (simp_all add: visit_positive_integer_def visit_float32_def visit_float64_def visit_boolean_def visit_nil_def)

lemma visit_sint: "visit_negative_integer d v = Inr (True, set_slot (unpack_sint d) v)"
  by (simp add: visit_negative_integer_def unpack_sint_def)

lemma unpack_sint_widened:
  "LENGTH('a) \<le> 64 \<Longrightarrow> unpack_sint (scast (d :: 'a::len word) :: 64 word) = unpack_sint d"
  by (simp add: unpack_sint_def sint_scast_up)

lemma strings_same:
  assumes "frame c1 c2"
  shows "matches (v1_go (push_unpacked (unpack_str (v_func c1) (v_limit c1) b) c1 rest))
           (after_visit_proc (visit_str b (m_visitor c2)) c2 rest)"
    and "matches (v1_go (push_unpacked (unpack_bin (v_func c1) (v_limit c1) b) c1 rest))
           (after_visit_proc (visit_bin b (m_visitor c2)) c2 rest)"
  using proc_same [OF assms, of _ rest] assms
  by (simp_all add: push_unpacked_def unpack_str_def unpack_bin_def visit_str_def visit_bin_def frame_def
      after_visit_proc_def [of "Inl _"])

lemma ext_same:
  assumes "frame c1 c2" "length b \<le> 2 ^ 32"
  shows "matches (v1_go (push_unpacked (unpack_ext (v_func c1) (v_limit c1) b) c1 rest))
           (after_visit_proc (visit_ext b (m_visitor c2)) c2 rest)"
proof (cases "visit_ext b (m_visitor c2)")
  case (Inl e)
  then have "e \<notin> {parse_error, insufficient_bytes}" by (auto simp: visit_ext_def Let_def split: list.splits if_splits)
  with Inl show ?thesis by (simp add: after_visit_proc_def)
next
  case (Inr r)
  let ?v = "m_visitor c2" and ?n = "word_of_nat (length b) :: 32 word"
  from Inr obtain t d where b: "b = t # d" "r = (True, set_slot (EXT t d) ?v)"
      "\<not> ext_limit (m_limit ?v) < ucast ?n" "?n \<noteq> 0 \<or> m_func ?v"
    by (auto simp: visit_ext_def Let_def split: list.splits if_splits)
  have "unpack_ext (v_func c1) (v_limit c1) b = Inr (EXT t d)"
  proof (cases "m_func ?v")
    case True
    with assms(1) b(1) show ?thesis by (simp add: unpack_ext_def frame_def)
  next
    case False
    with b(4) have "?n \<noteq> 0" by simp
    then have "length b \<noteq> 2 ^ 32" by auto
    with assms(2) have "unat ?n = length b" by (simp add: unat_of_nat)
    with b(3) have "\<not> unat (ext_limit (m_limit ?v)) < length b"
      by (simp add: word_less_nat_alt unat_widened)
    with assms(1) b(1) show ?thesis by (simp add: unpack_ext_def frame_def)
  qed
  with proc_same [OF assms(1), of "EXT t d" rest] show ?thesis
    by (simp add: Inr b(2) push_unpacked_def)
qed

text \<open>The checks that the block for the elements is not too big never fail on 64 bits.\<close>

lemma no_overflow:
  "(ucast (n :: 32 word) * 24 :: 64 word) div 24 = ucast n" "(ucast n * 48 :: 64 word) div 48 = ucast n"
proof -
  have n: "unat n < 2 ^ 32" using unsigned_less [of n] by simp
  then have "unat (ucast n * 24 :: 64 word) = unat n * 24" "unat (ucast n * 48 :: 64 word) = unat n * 48"
    using unat_mult_lem [of "ucast n :: 64 word" 24] unat_mult_lem [of "ucast n :: 64 word" 48]
    by (simp_all add: unat_widened)
  then show "(ucast n * 24 :: 64 word) div 24 = ucast n" "(ucast n * 48 :: 64 word) div 48 = ucast n"
    by (simp_all add: word_unat_eq_iff unat_div unat_widened)
qed

lemma after_consume:
  assumes "matches r (after_visit_proc (Inr (True, v)) c rest)"
  shows "matches r (case stack_consume (m_stack c) v of
      Inl e \<Rightarrow> Throw e
    | Inr (ret, st, v) \<Rightarrow>
        (let c' = c\<lparr>m_stack := st, m_visitor := v\<rparr>
         in if ret \<noteq> PARSE_CONTINUE then Return ret c' rest else Next (c'\<lparr>m_cs := CS_HEADER\<rparr>) rest))"
  using assms by (cases "stack_consume (m_stack c) v")
    (auto simp: after_visit_proc_def Let_def matches_def same_return_def both_done_def same_ctx_def split: if_splits)

lemma aggregate_same:
  assumes "frame c1 c2" "(start, finish, f, t, x) \<in>
    {(start_array, end_array, unpack_array, CT_ARRAY_ITEM, ARRAY []), (start_map, end_map, unpack_map, CT_MAP_KEY, MAP [])}"
  shows "matches (v1_go (push_aggregate f t n c1 rest)) (start_aggregate start finish t n c2 rest)"
proof (cases "start n (m_visitor c2)")
  case (Inl e)
  then have "e \<notin> {parse_error, insufficient_bytes}" using assms(2) by (auto simp: start_array_def start_map_def split: if_splits)
  with Inl show ?thesis by (auto simp: start_aggregate_def visit_def)
next
  case (Inr r)
  let ?v = "m_visitor c2"
  obtain e st where st: "v_stack c1 = e # st"
    using assms(1) same_stack_lengths by (cases "v_stack c1") (auto simp: frame_def)
  obtain s sl where sl: "m_slots ?v = s # sl"
    using assms(1) same_stack_lengths by (cases "m_slots ?v") (auto simp: frame_def)
  have lengths: "length (m_slots ?v) = Suc (length (m_stack c2))" "length (v_stack c1) = Suc (length (m_stack c2))"
    using assms(1) same_stack_lengths [of "v_stack c1"] by (auto simp: frame_def)
  have f: "f (v_limit c1) n = Inr x" and r: "r = (True, push_slots (set_slot x ?v))"
    and depth: "length (v_stack c1) \<le> unat (depth_limit (v_limit c1))"
    using Inr assms lengths by (auto simp: start_array_def start_map_def unpack_array_def unpack_map_def frame_def
        no_overflow Let_def split: if_splits)
  have frame: "frame (c1\<lparr>v_stack := e' # st\<rparr>) c2" for e'
    using assms(1) same_stack_first [of e st "m_stack c2" s sl e' "slot s"] by (simp add: frame_def st sl)
  show ?thesis
  proof (cases "n = 0")
    case True
    have "finish (push_slots (set_slot x ?v)) = Inr (True, set_slot x ?v)"
      using assms(2) by (auto simp: end_array_def end_map_def push_slots_def set_slot_def empty_slots_def sl)
    then have "start_aggregate start finish t n c2 rest = (case stack_consume (m_stack c2) (set_slot x ?v) of
        Inl e \<Rightarrow> Throw e
      | Inr (ret, st, v) \<Rightarrow>
          (let c' = c2\<lparr>m_stack := st, m_visitor := v\<rparr>
           in if ret \<noteq> PARSE_CONTINUE then Return ret c' rest else Next (c'\<lparr>m_cs := CS_HEADER\<rparr>) rest))"
      using Inr True by (simp add: start_aggregate_def visit_def r)
    with after_consume [OF proc_same [OF frame [of "e\<lparr>e_obj := x\<rparr>"], of x rest]] show ?thesis
      using f by (simp add: push_aggregate_def st True)
  next
    case False
    have "start_aggregate start finish t n c2 rest =
        Next (c2\<lparr>m_stack := (t, n) # m_stack c2, m_visitor := push_slots (set_slot x ?v), m_cs := CS_HEADER\<rparr>) rest"
      using Inr False assms(2) by (auto simp: start_aggregate_def visit_def r stack_push_def start_array_item_def start_map_key_def Let_def)
    moreover have "same_stack (new_entry # e\<lparr>e_obj := x, e_container_type := t, e_count := ucast n\<rparr> # st) ((t, n) # m_stack c2)
        (empty_slots # s\<lparr>slot := x\<rparr> # sl)"
      using same_stack_first [of e st "m_stack c2" s sl "e\<lparr>e_obj := x, e_container_type := t, e_count := ucast n\<rparr>" x] assms False
      by (auto simp: frame_def st sl empty_slots_def)
    ultimately show ?thesis
      using False f depth assms(1) by (simp add: push_aggregate_def st)
        (rule matches_next, simp add: same_ctx_def frame_def push_slots_def set_slot_def sl)
  qed
qed

text \<open>The body of a string, binary or extension, and the length before it.\<close>

definition is_acs :: "cs \<Rightarrow> bool" where
  "is_acs cs \<longleftrightarrow> cs \<in> {ACS_STR_VALUE, ACS_BIN_VALUE, ACS_EXT_VALUE}"

lemmas item_defs = number_value_def fixext_size_def body_length_def unpack_body_def push_container_def

lemma waiting_same:
  assumes "same_ctx c1 c2" "length cur < m_trail c2" "m_cs c2 \<noteq> CS_HEADER"
  shows "matches (v1_go (v1_item c1 cur)) (Return PARSE_CONTINUE c2 cur)"
  using assms by (auto simp: v1_item_def matches_def same_return_def same_ctx_def)

lemma same_ctx_frame: "same_ctx c1 c2 \<Longrightarrow> frame c1 c2"
  by (simp add: same_ctx_def frame_def)

lemma acs_same:
  assumes "same_ctx c1 c2" "is_acs (m_cs c2)"
  shows "matches (v1_go (v1_item c1 cur)) (acs_step c2 cur)"
proof (cases "length cur < m_trail c2")
  case True
  with assms waiting_same show ?thesis by (auto simp: acs_step_def is_acs_def)
next
  case False
  have trail: "v_trail c1 = m_trail c2" "m_trail c2 \<le> 2 ^ 32" "v_cs c1 = m_cs c2"
    using assms by (auto simp: same_ctx_def is_acs_def)
  then show ?thesis
    using False assms(2) strings_same [OF same_ctx_frame [OF assms(1)]] ext_same [OF same_ctx_frame [OF assms(1)]]
    by (auto simp: v1_item_def acs_step_def is_acs_def item_defs Let_def)
qed

lemma length_same:
  assumes "frame c1 c2" "len \<le> 2 ^ 32" "at \<noteq> []" "tl at = rest"
    and "(acs, visit_fn) \<in> {(ACS_STR_VALUE, visit_str), (ACS_BIN_VALUE, visit_bin)} \<or> (acs, visit_fn) = (ACS_EXT_VALUE, visit_ext) \<and> 0 < len"
  shows "matches (v1_go (let c = c1\<lparr>v_trail := len\<rparr>
                   in if len = 0
                      then (case unpack_body acs c [] of
                              None \<Rightarrow> V1_Return (- 1) c at
                            | Some r \<Rightarrow> push_unpacked r c rest)
                      else V1_Next (c\<lparr>v_cs := acs\<rparr>) True at))
           (with_length visit_fn acs len c2 rest)"
proof (cases "len = 0")
  case True
  have frame: "frame (c1\<lparr>v_trail := 0\<rparr>) (c2\<lparr>m_trail := 0\<rparr>)" using assms(1) by (simp add: frame_def)
  show ?thesis
    using True assms(5) strings_same [OF frame, of "[]" rest] by (auto simp: with_length_def unpack_body_def)
next
  case False
  let ?c1 = "c1\<lparr>v_trail := len, v_cs := acs\<rparr>" and ?c2 = "c2\<lparr>m_trail := len, m_cs := acs\<rparr>"
  have same: "same_ctx ?c1 ?c2" using assms(1,2) False by (simp add: frame_def same_ctx_def)
  obtain b where "at = b # rest" using assms(3,4) by (cases at) auto
  then show ?thesis
    using acs_same [OF same, of rest] False assms(5) by (auto simp: with_length_def v1_round_def is_acs_def)
qed

lemma small_word: "LENGTH('a) \<le> 32 \<Longrightarrow> unat (w :: 'a::len word) + 1 \<le> 2 ^ 32"
proof -
  assume "LENGTH('a) \<le> 32"
  then have "(2::nat) ^ LENGTH('a) \<le> 2 ^ 32" by (rule power_increasing) simp
  moreover have "unat w < 2 ^ LENGTH('a)" by (rule unsigned_less)
  ultimately show ?thesis by linarith
qed

lemma item_same:
  assumes "same_ctx c1 c2" "m_cs c2 \<noteq> CS_HEADER"
  shows "matches (v1_go (v1_item c1 cur)) (value_step c2 cur)"
proof (cases "length cur < m_trail c2")
  case True
  with assms waiting_same show ?thesis by (simp add: value_step_def)
next
  case False
  have trail: "v_trail c1 = m_trail c2" "0 < m_trail c2" "v_cs c1 = m_cs c2" using assms by (auto simp: same_ctx_def)
  note frame = same_ctx_frame [OF assms(1)]
  let ?at = "drop (m_trail c2 - 1) cur"
  have at: "?at \<noteq> []" "tl ?at = drop (m_trail c2) cur"
    using False trail(2) by (simp_all add: tl_drop drop_Suc [symmetric])
  note lengths = length_same [OF frame _ at]
  let ?n = "take (m_trail c2) cur" and ?rest = "drop (m_trail c2) cur"
  have eq: "value_step c2 cur = acs_step c2 cur" if "is_acs (m_cs c2)"
    using that False by (auto simp: value_step_def is_acs_def)
  have numbers: "matches (v1_go (push_proc x c1 ?rest)) (value_step c2 cur)" if "number_value (m_cs c2) ?n = Some x" for x
    using that proc_same [OF frame, of x ?rest] False
    by (cases "m_cs c2")
      (simp_all add: number_value_def value_step_def Let_def visits_are_slots visit_sint unpack_sint_widened unpack_uint_def)
  have fixexts: "matches (v1_go (push_unpacked (unpack_ext (v_func c1) (v_limit c1) (take (k + 1) ?n)) c1 ?rest)) (value_step c2 cur)"
    if "fixext_size (m_cs c2) = Some k" for k
  proof -
    have "k \<le> 16" using that by (auto simp: fixext_size_def split: cs.splits)
    then have "length (take (k + 1) ?n) \<le> 2 ^ 32" by simp
    from ext_same [OF frame this, of ?rest] show ?thesis
      using that False by (cases "m_cs c2") (auto simp: fixext_size_def value_step_def)
  qed
  have bodies: "matches (v1_go (let c = c1\<lparr>v_trail := len\<rparr>
                   in if len = 0
                      then (case unpack_body acs c [] of
                              None \<Rightarrow> V1_Return (- 1) c ?at
                            | Some r \<Rightarrow> push_unpacked r c ?rest)
                      else V1_Next (c\<lparr>v_cs := acs\<rparr>) True ?at)) (value_step c2 cur)"
    if "body_length (m_cs c2) ?n = Some (acs, len)" for acs len
  proof -
    have small: "unat (load ?n :: 8 word) + 1 \<le> 2 ^ 32" "unat (load ?n :: 16 word) + 1 \<le> 2 ^ 32" "unat (load ?n :: 32 word) + 1 \<le> 2 ^ 32"
      by (rule small_word; simp)+
    then have "len \<le> 2 ^ 32" using that by (auto simp: body_length_def split: cs.splits)
    note same = length_same [OF frame this at, of ACS_STR_VALUE visit_str] length_same [OF frame this at, of ACS_BIN_VALUE visit_bin]
      length_same [OF frame this at, of ACS_EXT_VALUE visit_ext]
    show ?thesis using that False same by (cases "m_cs c2") (auto simp: body_length_def value_step_def)
  qed
  have containers: "matches (v1_go st) (value_step c2 cur)" if "push_container (m_cs c2) ?n c1 ?rest = Some st" for st
    using that False aggregate_same [OF frame, of start_array end_array unpack_array CT_ARRAY_ITEM "ARRAY []"]
      aggregate_same [OF frame, of start_map end_map unpack_map CT_MAP_KEY "MAP []"]
    by (cases "m_cs c2") (auto simp: push_container_def value_step_def)
  show ?thesis
  proof (cases "is_acs (m_cs c2)")
    case True
    with acs_same [OF assms(1)] eq show ?thesis by simp
  next
    case no_acs: False
    then have "unpack_body (m_cs c2) c1 ?n = None"
      using assms(2) by (cases "m_cs c2") (simp_all add: unpack_body_def is_acs_def)
    moreover have "number_value (m_cs c2) ?n \<noteq> None \<or> fixext_size (m_cs c2) \<noteq> None \<or>
        body_length (m_cs c2) ?n \<noteq> None \<or> push_container (m_cs c2) ?n c1 ?rest \<noteq> None"
      using assms(2) no_acs by (cases "m_cs c2") (simp_all add: item_defs is_acs_def)
    ultimately show ?thesis
      using False numbers fixexts bodies containers
      by (auto simp: v1_item_def trail Let_def split: option.splits)
  qed
qed

lemma cs_table_trail: "i < 28 \<Longrightarrow> 0 < snd (cs_table ! i) \<and> snd (cs_table ! i) \<le> 17"
proof -
  have "list_all (\<lambda>x. 0 < snd x \<and> snd x \<le> 17) cs_table" "length cs_table = 28"
    by (simp_all add: cs_table_def)
  then show "i < 28 \<Longrightarrow> 0 < snd (cs_table ! i) \<and> snd (cs_table ! i) \<le> 17"
    by (simp add: list_all_length)
qed

lemma header_same:
  assumes "same_ctx c1 c2" "m_cs c2 = CS_HEADER"
  shows "matches (v1_go (v1_header c1 b rest)) (header_step c2 b rest)"
proof -
  note frame = same_ctx_frame [OF assms(1)]
  have limits: "v_func c1 = m_func (m_visitor c2)" "v_limit c1 = m_limit (m_visitor c2)"
    using frame by (simp_all add: frame_def)
  consider (fixnum) "b \<le> 0x7f" | (negative) "0xe0 \<le> b" "\<not> b \<le> 0x7f" | (table) "0xc4 \<le> b" "b \<le> 0xdf" "\<not> b \<le> 0x7f" "\<not> 0xe0 \<le> b"
    | (fixstr) "0xa0 \<le> b" "b \<le> 0xbf" "\<not> b \<le> 0x7f" "\<not> 0xe0 \<le> b" "\<not> (0xc4 \<le> b \<and> b \<le> 0xdf)"
    | (other) "\<not> b \<le> 0x7f" "\<not> 0xe0 \<le> b" "\<not> (0xc4 \<le> b \<and> b \<le> 0xdf)" "\<not> (0xa0 \<le> b \<and> b \<le> 0xbf)"
    by blast
  then show ?thesis
  proof cases
    case fixnum
    then show ?thesis using proc_same [OF frame] by (simp add: v1_header_def header_step_def visits_are_slots unpack_uint_def)
  next
    case negative
    then show ?thesis using proc_same [OF frame] by (simp add: v1_header_def header_step_def visit_sint unpack_sint_widened)
  next
    case table
    let ?i = "unat b - 196"
    let ?c1 = "c1\<lparr>v_trail := snd (cs_table ! ?i), v_cs := fst (cs_table ! ?i)\<rparr>"
      and ?c2 = "c2\<lparr>m_trail := snd (cs_table ! ?i), m_cs := fst (cs_table ! ?i)\<rparr>"
    have "?i < 28" using table(1,2) by (auto simp: word_le_nat_alt)
    then have "same_ctx ?c1 ?c2" "m_cs ?c2 \<noteq> CS_HEADER"
      using frame cs_table_trail [of ?i] cs_table_not_header [of ?i] by (simp_all add: frame_def same_ctx_def)
    then have "matches (v1_go (v1_item ?c1 rest)) (value_step ?c2 rest)" by (rule item_same)
    moreover have "v1_header c1 b rest = v1_item ?c1 rest"
      using table by (auto simp: v1_header_def case_prod_beta word_le_nat_alt unat_sub)
    ultimately show ?thesis
      using table(1,2) by (simp add: header_tabled)
  next
    case fixstr
    let ?len = "unat (b AND 0x1f)"
    have len: "?len \<le> 2 ^ 32" using small_word [of "b AND 0x1f"] by simp
    show ?thesis
    proof (cases "?len = 0")
      case True
      have "frame (c1\<lparr>v_trail := 0\<rparr>) (c2\<lparr>m_trail := 0\<rparr>)" using frame by (simp add: frame_def)
      from strings_same(1) [OF this, of "[]" rest] show ?thesis
        using fixstr True by (auto simp: v1_header_def header_step_def with_length_def Let_def)
    next
      case False
      let ?c1 = "c1\<lparr>v_trail := ?len, v_cs := ACS_STR_VALUE\<rparr>" and ?c2 = "c2\<lparr>m_trail := ?len, m_cs := ACS_STR_VALUE\<rparr>"
      have "same_ctx ?c1 ?c2" using frame len False by (simp add: frame_def same_ctx_def)
      from acs_same [OF this, of rest] show ?thesis
        using fixstr False by (auto simp: v1_header_def header_step_def with_length_def is_acs_def Let_def)
    qed
  next
    case other
    have "matches (v1_go (V1_Return (- 1) c1 (b # rest))) (Throw parse_error)"
      by (simp add: matches_def refused_def)
    then show ?thesis
      using other proc_same [OF frame] aggregate_same [OF frame, of start_array end_array unpack_array CT_ARRAY_ITEM "ARRAY []"]
        aggregate_same [OF frame, of start_map end_map unpack_map CT_MAP_KEY "MAP []"]
      by (simp only: v1_header_def header_step_def Let_def other if_False visits_are_slots simp_thms split: if_split) auto
  qed
qed

definition same_result :: "v1_result \<Rightarrow> parse_result \<Rightarrow> bool" where
  "same_result r r' \<longleftrightarrow>
     (case r' of Inl e \<Rightarrow> refused r e | Inr (ret, c2, rest) \<Rightarrow> same_return r ret c2 rest)"

lemma execute_same: "same_ctx c1 c2 \<Longrightarrow> same_result (v1_execute c1 cur) (execute c2 cur)"
proof (induction c2 cur arbitrary: c1 rule: execute.induct)
  case (1 c2 cur)
  have "matches (v1_execute c1 cur) (loop_step c2 cur)"
  proof (cases cur)
    case Nil
    with 1(2) show ?thesis by (simp add: v1_execute_def loop_step_def matches_def same_return_def)
  next
    case (Cons b rest)
    then have "v1_execute c1 cur = v1_go (v1_round c1 False cur)" by (simp add: v1_execute_def v1_loop_go)
    moreover have "v_cs c1 = m_cs c2" using 1(2) by (simp add: same_ctx_def)
    ultimately show ?thesis
      using header_same [OF 1(2)] item_same [OF 1(2)] by (simp add: Cons v1_round_def loop_step_def)
  qed
  then show ?case
  proof (cases "loop_step c2 cur")
    case (Next c2' rest)
    with \<open>matches _ _\<close> obtain c1' where "same_ctx c1' c2'" "v1_execute c1 cur = v1_execute c1' rest"
      by (auto simp: matches_def)
    with 1(1) [OF Next] show ?thesis by (subst execute.simps) (simp add: Next)
  qed (subst execute.simps, simp add: matches_def same_result_def)+
qed

section \<open>What they hand out\<close>

text \<open>A message takes bytes away, or was waiting for the last ones.\<close>

lemma push_proc_Return: "push_proc obj c rest = V1_Return r c' cur \<Longrightarrow> cur = rest"
  by (auto simp: push_proc_def split: option.splits if_splits)

lemma push_unpacked_Return: "push_unpacked r c rest = V1_Return r' c' cur \<Longrightarrow> cur = rest"
  by (auto simp: push_unpacked_def dest: push_proc_Return split: sum.splits)

lemma push_aggregate_Return: "push_aggregate f t n c rest = V1_Return r c' cur \<Longrightarrow> cur = rest"
  by (auto simp: push_aggregate_def Let_def dest: push_proc_Return split: sum.splits list.splits if_splits)

lemmas Return_dests = push_proc_Return push_unpacked_Return push_aggregate_Return

lemma v1_item_Return: "v1_item c cur = V1_Return r c' cur' \<Longrightarrow> length cur' \<le> length cur"
  by (auto simp: v1_item_def Let_def push_container_def dest!: Return_dests split: if_splits option.splits cs.splits)

lemma v1_header_Return: "v1_header c b rest = V1_Return r c' cur' \<Longrightarrow> 0 < r \<Longrightarrow> length cur' \<le> length rest"
  by (auto simp: v1_header_def Let_def dest!: Return_dests v1_item_Return split: if_splits prod.splits)

lemma v1_round_Return:
  "cur \<noteq> [] \<Longrightarrow> v1_round c again cur = V1_Return r c' cur' \<Longrightarrow> 0 < r \<Longrightarrow> 3 * length cur' < v1_left c again cur"
  by (auto simp: v1_round_def v1_left_def split: list.splits if_splits dest!: v1_header_Return v1_item_Return)

lemma v1_loop_leaves:
  "cur \<noteq> [] \<Longrightarrow> v1_loop c again cur = Inr (r, c', rest) \<Longrightarrow> 0 < r \<Longrightarrow> 3 * length rest < v1_left c again cur"
proof (induction c again cur rule: v1_loop.induct)
  case (1 c again cur)
  show ?case
  proof (cases "v1_round c again cur")
    case (V1_Next c1 again1 cur1)
    with 1(3,4) have *: "cur1 \<noteq> []" "v1_loop c1 again1 cur1 = Inr (r, c', rest)"
      by (subst (asm) v1_loop.simps; auto split: if_splits)+
    from 1(1) [OF V1_Next this(1) this 1(4)] v1_round_Next [OF V1_Next] show ?thesis by simp
  qed (use 1(2-4) v1_round_Return in \<open>(subst (asm) v1_loop.simps, auto)+\<close>)
qed

lemma v1_next_measure:
  assumes "v1_next c cur = Inr (Some x, c', rest)"
  shows "v1_left c' False rest < v1_left c False cur"
proof -
  obtain r c1 where r: "v1_execute c cur = Inr (r, c1, rest)" "0 < r" "c' = v1_init c1"
    using assms by (auto simp: v1_next_def split: sum.splits if_splits)
  then have "cur \<noteq> []" "v1_loop c False cur = Inr (r, c1, rest)"
    by (auto simp: v1_execute_def split: if_splits)
  from v1_loop_leaves [OF this r(2)] show ?thesis by (simp add: v1_left_def r(3) v1_init_def)
qed

function v1_next_all :: "v1_context \<Rightarrow> byte list \<Rightarrow> object list \<times> (unpack_error + v1_context \<times> byte list)" where
  "v1_next_all c cur =
     (case v1_next c cur of
        Inl e \<Rightarrow> ([], Inl e)
      | Inr (None, c', rest) \<Rightarrow> ([], Inr (c', rest))
      | Inr (Some x, c', rest) \<Rightarrow> (case v1_next_all c' rest of (xs, res) \<Rightarrow> (x # xs, res)))"
  by pat_completeness auto
termination
  by (relation "measure (\<lambda>(c, cur). v1_left c False cur)") (auto simp: v1_next_measure)

declare v1_next_all.simps [simp del]

fun v1_read_chunks :: "v1_context \<Rightarrow> byte list \<Rightarrow> byte list list \<Rightarrow> object list \<times> (unpack_error + v1_context \<times> byte list)" where
  "v1_read_chunks c rem [] = ([], Inr (c, rem))"
| "v1_read_chunks c rem (ch # chs) =
     (case v1_next_all c (rem @ ch) of
        (xs, Inl e) \<Rightarrow> (xs, Inl e)
      | (xs, Inr (c', rem')) \<Rightarrow> (case v1_read_chunks c' rem' chs of (ys, res) \<Rightarrow> (xs @ ys, res)))"

text \<open>
  The same objects, the same bytes left and the same \<open>parse_error\<close>. If the newer unpacker ends
  with another error, a limit was exceeded, and the older one has handed out as much or more.
\<close>

definition agree ::
    "object list \<times> (unpack_error + v1_context \<times> byte list) \<Rightarrow> object list \<times> (unpack_error + ctx \<times> byte list) \<Rightarrow> bool" where
  "agree r r' \<longleftrightarrow>
     (case snd r' of
        Inl e \<Rightarrow> if e = parse_error then r = (fst r', Inl parse_error) else prefix (fst r') (fst r)
      | Inr (c2, rest) \<Rightarrow> \<exists>c1. r = (fst r', Inr (c1, rest)) \<and> same_ctx c1 c2)"

lemma agree_append: "agree (xs, r) (ys, r') \<Longrightarrow> agree (zs @ xs, r) (zs @ ys, r')"
  by (auto simp: agree_def split: sum.splits if_splits)

lemma next_same:
  assumes "same_ctx c1 c2"
  shows "case unpacker_next c2 cur of
      Inl e \<Rightarrow> e = parse_error \<longrightarrow> v1_next c1 cur = Inl parse_error
    | Inr (x, c2', rest) \<Rightarrow> \<exists>c1'. v1_next c1 cur = Inr (x, c1', rest) \<and> same_ctx c1' c2'"
proof (cases "execute c2 cur")
  case (Inl e)
  with execute_same [OF assms, of cur] show ?thesis
    by (auto simp: same_result_def refused_def unpacker_next_def v1_next_def)
next
  case (Inr res)
  then obtain ret c2' rest where res: "execute c2 cur = Inr (ret, c2', rest)" by (cases res) auto
  with execute_same [OF assms, of cur] obtain c1' where
    "ret = PARSE_SUCCESS \<and> v1_execute c1 cur = Inr (1, c1', rest) \<and> both_done c1' c2' \<or>
     ret = PARSE_CONTINUE \<and> v1_execute c1 cur = Inr (0, c1', rest) \<and> same_ctx c1' c2'"
    by (auto simp: same_result_def same_return_def)
  then show ?thesis
  proof (elim disjE conjE)
    assume *: "ret = PARSE_SUCCESS" "v1_execute c1 cur = Inr (1, c1', rest)" "both_done c1' c2'"
    then obtain e where "v_stack c1' = [e]" by (cases "v_stack c1'") (auto simp: both_done_def)
    with * have "same_ctx (v1_init c1') (parser_init c2')"
      by (simp add: both_done_def same_ctx_def v1_init_def parser_init_def init_ctx_def init_visitor_def empty_slots_def)
    with * res show ?thesis by (simp add: unpacker_next_def v1_next_def both_done_def)
  qed (use res in \<open>simp add: unpacker_next_def v1_next_def\<close>)
qed

lemma next_all_same: "same_ctx c1 c2 \<Longrightarrow> agree (v1_next_all c1 cur) (next_all c2 cur)"
proof (induction c2 cur arbitrary: c1 rule: next_all.induct)
  case (1 c2 cur)
  note step = next_same [OF 1(2), of cur]
  show ?case
  proof (cases "unpacker_next c2 cur")
    case (Inl e)
    with step show ?thesis
      by (auto simp: next_all.simps [of c2] v1_next_all.simps [of c1] agree_def)
  next
    case (Inr res)
    then obtain x c2' rest where res: "unpacker_next c2 cur = Inr (x, c2', rest)" by (cases res) auto
    with step obtain c1' where c1': "v1_next c1 cur = Inr (x, c1', rest)" "same_ctx c1' c2'" by auto
    show ?thesis
    proof (cases x)
      case None
      with res c1' show ?thesis by (auto simp: next_all.simps [of c2] v1_next_all.simps [of c1] agree_def)
    next
      case (Some y)
      obtain xs r ys r' where r: "v1_next_all c1' rest = (xs, r)" "next_all c2' rest = (ys, r')"
        by (cases "v1_next_all c1' rest"; cases "next_all c2' rest") auto
      have "agree (xs, r) (ys, r')"
        using 1(1) [OF res] Some c1'(2) r by (metis r)
      from agree_append [OF this, of "[y]"] show ?thesis
        using res c1' r by (simp add: next_all.simps [of c2] v1_next_all.simps [of c1] Some)
    qed
  qed
qed

lemma read_chunks_same: "same_ctx c1 c2 \<Longrightarrow> agree (v1_read_chunks c1 rem chunks) (read_chunks c2 rem chunks)"
proof (induction chunks arbitrary: c1 c2 rem)
  case Nil
  then show ?case by (simp add: agree_def)
next
  case (Cons ch chunks)
  obtain xs r ys r' where r: "v1_next_all c1 (rem @ ch) = (xs, r)" "next_all c2 (rem @ ch) = (ys, r')"
    by (cases "v1_next_all c1 (rem @ ch)"; cases "next_all c2 (rem @ ch)") auto
  have agree: "agree (xs, r) (ys, r')" using next_all_same [OF Cons.prems, of "rem @ ch"] by (simp add: r)
  show ?case
  proof (cases r')
    case (Inl e)
    with agree show ?thesis
      by (auto simp: r agree_def split: sum.splits prod.splits if_splits)
  next
    case (Inr s)
    then obtain c2' rest where r': "r' = Inr (c2', rest)" by (cases s) auto
    with agree obtain c1' where c1': "r = Inr (c1', rest)" "xs = ys" "same_ctx c1' c2'" by (auto simp: agree_def)
    obtain as a bs b where ab: "v1_read_chunks c1' rest chunks = (as, a)" "read_chunks c2' rest chunks = (bs, b)"
      by (cases "v1_read_chunks c1' rest chunks"; cases "read_chunks c2' rest chunks") auto
    have "agree (as, a) (bs, b)" using Cons.IH [OF c1'(3), of rest] by (simp add: ab)
    from agree_append [OF this, of ys] show ?thesis by (simp add: r r' c1' ab)
  qed
qed

lemma new_same: "same_ctx (new_v1_context f l) (init_ctx f l)"
  by (simp add: same_ctx_def new_v1_context_def init_ctx_def init_visitor_def empty_slots_def)

lemma unpack_same:
  "case unpack f l data of
     Inr u \<Rightarrow> v1_unpack f l data = Inr u
   | Inl e \<Rightarrow> e \<in> {parse_error, insufficient_bytes} \<longrightarrow> v1_unpack f l data = Inl e"
proof (cases "data = []")
  case False
  have init: "v1_init (new_v1_context f l) = new_v1_context f l"
    by (simp add: v1_init_def new_v1_context_def new_entry_def)
  have same: "same_result (v1_execute (new_v1_context f l) data) (execute (init_ctx f l) data)"
    using execute_same [OF new_same] .
  show ?thesis
  proof (cases "execute (init_ctx f l) data")
    case (Inl e)
    with same False show ?thesis
      by (auto simp: unpack_def unpack_imp_def parse_imp_def init_ctx_def [symmetric] v1_unpack_def v1_unpack_imp_def
          init same_result_def refused_def)
  next
    case (Inr res)
    then obtain ret c2 rest where res: "execute (init_ctx f l) data = Inr (ret, c2, rest)" by (cases res) auto
    with same obtain c1 where
      "ret = PARSE_SUCCESS \<and> v1_execute (new_v1_context f l) data = Inr (1, c1, rest) \<and> both_done c1 c2 \<or>
       ret = PARSE_CONTINUE \<and> v1_execute (new_v1_context f l) data = Inr (0, c1, rest) \<and> same_ctx c1 c2"
      by (auto simp: same_result_def same_return_def)
    then show ?thesis
      using res False by (auto simp: unpack_def unpack_imp_def parse_imp_def init_ctx_def [symmetric] v1_unpack_def
          v1_unpack_imp_def init both_done_def)
  qed
qed (simp add: unpack_def unpack_imp_def parse_imp_def v1_unpack_def v1_unpack_imp_def)

text \<open>Where a limit is hit, they differ: nothing to enter below the deepest level, and bodies left in the buffer.\<close>

lemma limits_differ:
  "v1_unpack f (default_limit\<lparr>depth_limit := 0\<rparr>) [0x90] = Inr (ARRAY [], [])"
  "unpack f (default_limit\<lparr>depth_limit := 0\<rparr>) [0x90] = Inl depth_size_overflow"
  "v1_unpack True (default_limit\<lparr>str_limit := 0\<rparr>) [0xa1, 0x61] = Inr (Str [0x61], [])"
  "unpack True (default_limit\<lparr>str_limit := 0\<rparr>) [0xa1, 0x61] = Inl str_size_overflow"
  by (cases f; code_simp)+

text \<open>
  C24. The two unpackers read the same. From any bytes in chunks of any sizes the older one hands out
  the objects the newer one does, is left with the same bytes, and refuses the same bytes with
  \<open>parse_error\<close>, unless a limit stops the newer one, before which it has handed out no more. What
  \<open>unpack\<close> of the newer interface reads, refuses or finds too short, that of the older one does too.
\<close>
theorem unpackers_agree:
  "agree (v1_read_chunks (new_v1_context f l) [] chunks) (read_chunks (init_ctx f l) [] chunks) \<and>
   (case unpack f l data of
      Inr u \<Rightarrow> v1_unpack f l data = Inr u
    | Inl e \<Rightarrow> e \<in> {parse_error, insufficient_bytes} \<longrightarrow> v1_unpack f l data = Inl e)"
  using read_chunks_same [OF new_same] unpack_same by blast

lemma reads_in_chunks:
  assumes "\<And>x. x \<in> set xs \<Longrightarrow> fits l 1 x" and "concat chunks = concat (map pack_object xs)"
  shows "read_chunks (init_ctx f l) [] chunks = (xs, Inr (init_ctx f l, []))"
  using read_chunks_join [OF next_all_empty, of "init_ctx f l" chunks] next_all_put [of xs l f "[]"] assms
  by (simp add: next_all_empty)

lemma sample_reads:
  "read_chunks (init_ctx True default_limit) []
     [take 5 (pack_object sample_object), [], drop 5 (pack_object sample_object) @ [0xc0]] =
   ([sample_object, NIL], Inr (init_ctx True default_limit, []))"
proof (rule reads_in_chunks)
  show "fits default_limit 1 x" if "x \<in> set [sample_object, NIL]" for x
    using that sample_fits by (cases "x = NIL") (simp_all only: set_simps insert_iff empty_iff fits.simps, auto)
  have "concat [take 5 p, [], drop 5 p @ [0xc0]] = concat [p, [0xc0]]" for p :: "byte list"
    by simp
  then show "concat [take 5 (pack_object sample_object), [], drop 5 (pack_object sample_object) @ [0xc0]] =
      concat (map pack_object [sample_object, NIL])"
    by (simp only: list.map pack_object.simps pack_nil_def)
qed

theorem unpackers_agree_witness:
  "fst (v1_read_chunks (new_v1_context True default_limit) []
     [take 5 (pack_object sample_object), [], drop 5 (pack_object sample_object) @ [0xc0]]) = [sample_object, NIL] \<and>
   v1_unpack False default_limit [0xc1] = Inl parse_error"
proof
  let ?chunks = "[take 5 (pack_object sample_object), [], drop 5 (pack_object sample_object) @ [0xc0]]"
  have "agree (v1_read_chunks (new_v1_context True default_limit) [] ?chunks) (read_chunks (init_ctx True default_limit) [] ?chunks)"
    using unpackers_agree [of True default_limit ?chunks "[]"] by (rule conjunct1)
  moreover have "read_chunks (init_ctx True default_limit) [] ?chunks = ([sample_object, NIL], Inr (init_ctx True default_limit, []))"
    using sample_reads .
  ultimately show "fst (v1_read_chunks (new_v1_context True default_limit) [] ?chunks) = [sample_object, NIL]"
    by (auto simp: agree_def simp del: pack_object.simps)
next
  have "unpack False default_limit [0xc1] = Inl parse_error" by code_simp
  then show "v1_unpack False default_limit [0xc1] = Inl parse_error"
    using conjunct2 [OF unpackers_agree [of False default_limit "[]" "[0xc1]"]] by simp
qed

end
