(* ===== verification/Msgpack_Containers.thy ===== *)
theory Msgpack_Containers
  imports Msgpack_Convert Std_Map
begin

text \<open>
  The adaptors of the container types (\<open>v1/adaptor\<close>): sequences, arrays, pairs, sets, maps and
  pointers, for any element type. A conversion \<open>conv\<close> takes the object and the value that is
  there before, which the conversions of some types keep in part; a type without default
  value has \<open>as\<close>. A type error is \<open>None\<close>, and so is a container with too many elements to pack;
  what has been written or converted before the exception is not kept here. What an adaptor
  promises is the locale \<open>value_adaptor\<close>; each container keeps the promise of its elements.
\<close>

section \<open>Loops over elements\<close>

fun all_some :: "('a \<Rightarrow> 'b option) \<Rightarrow> 'a list \<Rightarrow> 'b list option" where
  "all_some f [] = Some []"
| "all_some f (x # xs) =
     (case f x of None \<Rightarrow> None | Some y \<Rightarrow> map_option ((#) y) (all_some f xs))"

text \<open>Converting into the values that are there, which are at least as many; the others stay.\<close>

fun convert_elements :: "(object \<Rightarrow> 'a \<Rightarrow> 'a option) \<Rightarrow> object list \<Rightarrow> 'a list \<Rightarrow> 'a list option" where
  "convert_elements conv (p # ps) (v # vs) =
     (case conv p v of None \<Rightarrow> None | Some w \<Rightarrow> map_option ((#) w) (convert_elements conv ps vs))"
| "convert_elements conv ps vs = Some vs"

definition resize :: "nat \<Rightarrow> 'a \<Rightarrow> 'a list \<Rightarrow> 'a list" where
  "resize n d v = take n v @ replicate (n - length v) d"

text \<open>\<open>object::as\<close> of a type that has no \<open>as\<close> of its own.\<close>

definition as_converted :: "(object \<Rightarrow> 'a \<Rightarrow> 'a option) \<Rightarrow> 'a \<Rightarrow> object \<Rightarrow> 'a option" where
  "as_converted conv d obj = conv obj d"

section \<open>Sequences\<close>

definition as_vector :: "(object \<Rightarrow> 'a option) \<Rightarrow> object \<Rightarrow> 'a list option" where
  "as_vector as obj = (case obj of ARRAY ps \<Rightarrow> all_some as ps | _ \<Rightarrow> None)"

definition convert_vector :: "(object \<Rightarrow> 'a \<Rightarrow> 'a option) \<Rightarrow> 'a \<Rightarrow> object \<Rightarrow> 'a list \<Rightarrow> 'a list option" where
  "convert_vector conv d obj v =
     (case obj of ARRAY ps \<Rightarrow> convert_elements conv ps (resize (length ps) d v) | _ \<Rightarrow> None)"

definition pack_vector :: "('a \<Rightarrow> byte list option) \<Rightarrow> 'a list \<Rightarrow> byte list option" where
  "pack_vector pk v =
     (case checked_get_container_size (length v) of
        None \<Rightarrow> None
      | Some n \<Rightarrow> map_option (\<lambda>bs. pack_array n @ pack_elements bs) (all_some pk v))"

definition object_vector :: "('a \<Rightarrow> object option) \<Rightarrow> 'a list \<Rightarrow> object option" where
  "object_vector ob v =
     (if v = [] then Some (ARRAY [])
      else case checked_get_container_size (length v) of
             None \<Rightarrow> None
           | Some n \<Rightarrow> map_option ARRAY (all_some ob v))"

definition as_list :: "(object \<Rightarrow> 'a option) \<Rightarrow> object \<Rightarrow> 'a list option" where
  "as_list as obj = (case obj of ARRAY ps \<Rightarrow> all_some as ps | _ \<Rightarrow> None)"

definition convert_list :: "(object \<Rightarrow> 'a \<Rightarrow> 'a option) \<Rightarrow> 'a \<Rightarrow> object \<Rightarrow> 'a list \<Rightarrow> 'a list option" where
  "convert_list conv d obj v =
     (case obj of ARRAY ps \<Rightarrow> convert_elements conv ps (resize (length ps) d v) | _ \<Rightarrow> None)"

definition as_deque :: "(object \<Rightarrow> 'a option) \<Rightarrow> object \<Rightarrow> 'a list option" where
  "as_deque as obj = (case obj of ARRAY ps \<Rightarrow> all_some as ps | _ \<Rightarrow> None)"

definition convert_deque :: "(object \<Rightarrow> 'a \<Rightarrow> 'a option) \<Rightarrow> 'a \<Rightarrow> object \<Rightarrow> 'a list \<Rightarrow> 'a list option" where
  "convert_deque conv d obj v =
     (case obj of ARRAY ps \<Rightarrow> convert_elements conv ps (resize (length ps) d v) | _ \<Rightarrow> None)"

text \<open>A singly linked list is filled from the last element on.\<close>

fun push_fronts :: "(object \<Rightarrow> 'a option) \<Rightarrow> object list \<Rightarrow> 'a list \<Rightarrow> 'a list option" where
  "push_fronts as [] v = Some v"
| "push_fronts as (p # ps) v = (case as p of None \<Rightarrow> None | Some w \<Rightarrow> push_fronts as ps (w # v))"

definition as_forward_list :: "(object \<Rightarrow> 'a option) \<Rightarrow> object \<Rightarrow> 'a list option" where
  "as_forward_list as obj = (case obj of ARRAY ps \<Rightarrow> push_fronts as (rev ps) [] | _ \<Rightarrow> None)"

definition convert_forward_list :: "(object \<Rightarrow> 'a \<Rightarrow> 'a option) \<Rightarrow> 'a \<Rightarrow> object \<Rightarrow> 'a list \<Rightarrow> 'a list option" where
  "convert_forward_list conv d obj v =
     (case obj of ARRAY ps \<Rightarrow> convert_elements conv ps (resize (length ps) d v) | _ \<Rightarrow> None)"

text \<open>Of \<open>vector<bool>\<close>: an empty array leaves the vector as it was.\<close>

fun convert_flags :: "object list \<Rightarrow> bool list option" where
  "convert_flags [] = Some []"
| "convert_flags (p # ps) =
     (case convert_bool p of None \<Rightarrow> None | Some b \<Rightarrow> map_option ((#) b) (convert_flags ps))"

definition convert_vector_bool :: "object \<Rightarrow> bool list \<Rightarrow> bool list option" where
  "convert_vector_bool obj v =
     (case obj of ARRAY ps \<Rightarrow> if ps = [] then Some v else convert_flags ps | _ \<Rightarrow> None)"

definition pack_vector_bool :: "bool list \<Rightarrow> byte list option" where
  "pack_vector_bool v =
     map_option (\<lambda>n. pack_array n @ pack_elements (map pack_bool v)) (checked_get_container_size (length v))"

definition object_vector_bool :: "bool list \<Rightarrow> object option" where
  "object_vector_bool v =
     (if v = [] then Some (ARRAY [])
      else map_option (\<lambda>n. ARRAY (map object_bool v)) (checked_get_container_size (length v)))"

definition convert_vector_char :: "object \<Rightarrow> byte list \<Rightarrow> byte list option" where
  "convert_vector_char obj v = (case obj of BIN b \<Rightarrow> Some b | Str b \<Rightarrow> Some b | _ \<Rightarrow> None)"

definition pack_vector_char :: "byte list \<Rightarrow> byte list option" where
  "pack_vector_char v =
     map_option (\<lambda>n. pack_bin n @ (if n \<noteq> 0 then pack_bin_body v else [])) (checked_get_container_size (length v))"

definition object_vector_char :: "byte list \<Rightarrow> object option" where
  "object_vector_char v = map_option (\<lambda>n. BIN v) (checked_get_container_size (length v))"

section \<open>Arrays\<close>

text \<open>
  What is read past the end of an object's elements is not defined: \<open>out_of_bounds\<close>. An array
  has a fixed number of elements, of which an object with fewer sets only the first ones.
\<close>

datatype read_fault = type_error | out_of_bounds

definition as_std_array :: "(object \<Rightarrow> 'a option) \<Rightarrow> nat \<Rightarrow> object \<Rightarrow> read_fault + 'a list" where
  "as_std_array as n obj =
     (case obj of
        ARRAY ps \<Rightarrow>
          if n < length ps then Inl type_error
          else if length ps < n then Inl out_of_bounds
          else (case all_some as ps of None \<Rightarrow> Inl type_error | Some v \<Rightarrow> Inr v)
      | _ \<Rightarrow> Inl type_error)"

definition convert_std_array :: "(object \<Rightarrow> 'a \<Rightarrow> 'a option) \<Rightarrow> object \<Rightarrow> 'a list \<Rightarrow> 'a list option" where
  "convert_std_array conv obj v =
     (case obj of ARRAY ps \<Rightarrow> if length v < length ps then None else convert_elements conv ps v | _ \<Rightarrow> None)"

text \<open>The loop of a C array runs once before it looks for the end.\<close>

definition convert_carray :: "(object \<Rightarrow> 'a \<Rightarrow> 'a option) \<Rightarrow> object \<Rightarrow> 'a list \<Rightarrow> read_fault + 'a list" where
  "convert_carray conv obj v =
     (case obj of
        ARRAY ps \<Rightarrow>
          if length v < length ps then Inl type_error
          else if ps = [] then Inl out_of_bounds
          else (case convert_elements conv ps v of None \<Rightarrow> Inl type_error | Some w \<Rightarrow> Inr w)
      | _ \<Rightarrow> Inl type_error)"

text \<open>An array of characters is a string that ends at its first zero.\<close>

definition convert_char_array :: "object \<Rightarrow> byte list \<Rightarrow> byte list option" where
  "convert_char_array obj v =
     (case obj of
        BIN b \<Rightarrow> if length v < length b then None else Some (b @ drop (length b) v)
      | Str b \<Rightarrow>
          if length v < length b then None
          else if length b < length v then Some ((b @ drop (length b) v)[length b := 0])
          else Some b
      | _ \<Rightarrow> None)"

definition pack_char_array :: "byte list \<Rightarrow> byte list option" where
  "pack_char_array v =
     map_option (\<lambda>n. let s = takeWhile (\<lambda>c. c \<noteq> 0) v in pack_str (word_of_nat (length s)) @ pack_str_body s)
       (checked_get_container_size (length v))"

definition object_char_array :: "byte list \<Rightarrow> object option" where
  "object_char_array v =
     map_option (\<lambda>n. Str (takeWhile (\<lambda>c. c \<noteq> 0) v)) (checked_get_container_size (length v))"

text \<open>Of \<open>array<char, N>\<close>: from a string, \<open>N\<close> bytes are copied, however many it has.\<close>

definition convert_array_char :: "object \<Rightarrow> byte list \<Rightarrow> read_fault + byte list" where
  "convert_array_char obj v =
     (if v = [] then Inr []
      else case obj of
        BIN b \<Rightarrow> if length v < length b then Inl type_error else Inr (b @ drop (length b) v)
      | Str b \<Rightarrow>
          if length v < length b then Inl type_error
          else if length b < length v then Inl out_of_bounds
          else Inr b
      | _ \<Rightarrow> Inl type_error)"

definition pack_array_char :: "byte list \<Rightarrow> byte list option" where
  "pack_array_char v = map_option (\<lambda>n. pack_bin n @ pack_bin_body v) (checked_get_container_size (length v))"

definition object_array_char :: "byte list \<Rightarrow> object option" where
  "object_array_char v = map_option (\<lambda>n. BIN v) (checked_get_container_size (length v))"

section \<open>Pairs and pointers\<close>

definition as_pair :: "(object \<Rightarrow> 'a option) \<Rightarrow> (object \<Rightarrow> 'b option) \<Rightarrow> object \<Rightarrow> ('a \<times> 'b) option" where
  "as_pair as1 as2 obj =
     (case obj of
        ARRAY ps \<Rightarrow>
          if length ps \<noteq> 2 then None
          else (case as1 (ps ! 0) of None \<Rightarrow> None | Some a \<Rightarrow> map_option (Pair a) (as2 (ps ! 1)))
      | _ \<Rightarrow> None)"

definition convert_pair ::
    "(object \<Rightarrow> 'a \<Rightarrow> 'a option) \<Rightarrow> (object \<Rightarrow> 'b \<Rightarrow> 'b option) \<Rightarrow> object \<Rightarrow> 'a \<times> 'b \<Rightarrow> ('a \<times> 'b) option" where
  "convert_pair conv1 conv2 obj v =
     (case obj of
        ARRAY ps \<Rightarrow>
          if length ps \<noteq> 2 then None
          else (case conv1 (ps ! 0) (fst v) of None \<Rightarrow> None | Some a \<Rightarrow> map_option (Pair a) (conv2 (ps ! 1) (snd v)))
      | _ \<Rightarrow> None)"

definition pack_pair :: "('a \<Rightarrow> byte list option) \<Rightarrow> ('b \<Rightarrow> byte list option) \<Rightarrow> 'a \<times> 'b \<Rightarrow> byte list option" where
  "pack_pair pk1 pk2 v =
     (case pk1 (fst v) of None \<Rightarrow> None | Some a \<Rightarrow> map_option (\<lambda>b. pack_array 2 @ a @ b) (pk2 (snd v)))"

definition object_pair :: "('a \<Rightarrow> object option) \<Rightarrow> ('b \<Rightarrow> object option) \<Rightarrow> 'a \<times> 'b \<Rightarrow> object option" where
  "object_pair ob1 ob2 v =
     (case ob1 (fst v) of None \<Rightarrow> None | Some a \<Rightarrow> map_option (\<lambda>b. ARRAY [a, b]) (ob2 (snd v)))"

text \<open>A null pointer is nil; a conversion makes a new value.\<close>

definition as_shared_ptr :: "(object \<Rightarrow> 'a option) \<Rightarrow> object \<Rightarrow> 'a option option" where
  "as_shared_ptr as obj = (if obj = NIL then Some None else map_option Some (as obj))"

definition convert_shared_ptr :: "(object \<Rightarrow> 'a \<Rightarrow> 'a option) \<Rightarrow> 'a \<Rightarrow> object \<Rightarrow> 'a option \<Rightarrow> 'a option option" where
  "convert_shared_ptr conv d obj v = (if obj = NIL then Some None else map_option Some (conv obj d))"

definition pack_shared_ptr :: "('a \<Rightarrow> byte list option) \<Rightarrow> 'a option \<Rightarrow> byte list option" where
  "pack_shared_ptr pk v = (case v of Some a \<Rightarrow> pk a | None \<Rightarrow> Some pack_nil)"

definition object_shared_ptr :: "('a \<Rightarrow> object option) \<Rightarrow> 'a option \<Rightarrow> object option" where
  "object_shared_ptr ob v = (case v of Some a \<Rightarrow> ob a | None \<Rightarrow> Some NIL)"

section \<open>Sets\<close>

text \<open>A set is its elements in increasing order, a multiset in non-decreasing order.\<close>

fun set_insert :: "'a::linorder \<Rightarrow> 'a list \<Rightarrow> 'a list" where
  "set_insert x [] = [x]"
| "set_insert x (y # ys) = (if x < y then x # y # ys else if x = y then y # ys else y # set_insert x ys)"

text \<open>Behind the elements that are equal.\<close>

fun multi_insert :: "('a \<Rightarrow> 'k::linorder) \<Rightarrow> 'a \<Rightarrow> 'a list \<Rightarrow> 'a list" where
  "multi_insert key x [] = [x]"
| "multi_insert key x (y # ys) = (if key x < key y then x # y # ys else y # multi_insert key x ys)"

text \<open>The elements are inserted from the last one on.\<close>

fun insert_all :: "('a \<Rightarrow> 'a list \<Rightarrow> 'a list) \<Rightarrow> (object \<Rightarrow> 'a option) \<Rightarrow> object list \<Rightarrow> 'a list \<Rightarrow> 'a list option" where
  "insert_all ins as [] v = Some v"
| "insert_all ins as (p # ps) v = (case as p of None \<Rightarrow> None | Some w \<Rightarrow> insert_all ins as ps (ins w v))"

definition as_set :: "(object \<Rightarrow> 'a::linorder option) \<Rightarrow> object \<Rightarrow> 'a list option" where
  "as_set as obj = (case obj of ARRAY ps \<Rightarrow> insert_all set_insert as (rev ps) [] | _ \<Rightarrow> None)"

definition convert_set :: "(object \<Rightarrow> 'a::linorder option) \<Rightarrow> object \<Rightarrow> 'a list \<Rightarrow> 'a list option" where
  "convert_set as obj v = (case obj of ARRAY ps \<Rightarrow> insert_all set_insert as (rev ps) [] | _ \<Rightarrow> None)"

definition pack_set :: "('a \<Rightarrow> byte list option) \<Rightarrow> 'a list \<Rightarrow> byte list option" where
  "pack_set pk v =
     (case checked_get_container_size (length v) of
        None \<Rightarrow> None
      | Some n \<Rightarrow> map_option (\<lambda>bs. pack_array n @ pack_elements bs) (all_some pk v))"

definition object_set :: "('a \<Rightarrow> object option) \<Rightarrow> 'a list \<Rightarrow> object option" where
  "object_set ob v =
     (if v = [] then Some (ARRAY [])
      else case checked_get_container_size (length v) of
             None \<Rightarrow> None
           | Some n \<Rightarrow> map_option ARRAY (all_some ob v))"

definition as_multiset :: "(object \<Rightarrow> 'a::linorder option) \<Rightarrow> object \<Rightarrow> 'a list option" where
  "as_multiset as obj = (case obj of ARRAY ps \<Rightarrow> insert_all (multi_insert (\<lambda>x. x)) as (rev ps) [] | _ \<Rightarrow> None)"

definition convert_multiset :: "(object \<Rightarrow> 'a::linorder option) \<Rightarrow> object \<Rightarrow> 'a list \<Rightarrow> 'a list option" where
  "convert_multiset as obj v =
     (case obj of ARRAY ps \<Rightarrow> insert_all (multi_insert (\<lambda>x. x)) as (rev ps) [] | _ \<Rightarrow> None)"

section \<open>Maps\<close>

text \<open>The value of a key is converted into the one the map has for the key already.\<close>

fun convert_entries ::
    "(object \<Rightarrow> 'k::linorder \<Rightarrow> 'k option) \<Rightarrow> 'k \<Rightarrow> (object \<Rightarrow> 'v \<Rightarrow> 'v option) \<Rightarrow> 'v \<Rightarrow>
     (object \<times> object) list \<Rightarrow> ('k, 'v) smap \<Rightarrow> ('k, 'v) smap option" where
  "convert_entries kconv kd vconv vd [] tmp = Some tmp"
| "convert_entries kconv kd vconv vd ((pk, pv) # ps) tmp =
     (case kconv pk kd of
        None \<Rightarrow> None
      | Some key \<Rightarrow>
          (case vconv pv (case map_of tmp key of None \<Rightarrow> vd | Some old \<Rightarrow> old) of
             None \<Rightarrow> None
           | Some val \<Rightarrow> convert_entries kconv kd vconv vd ps (smap_at key vd (\<lambda>_. val) tmp)))"

definition convert_std_map ::
    "(object \<Rightarrow> 'k::linorder \<Rightarrow> 'k option) \<Rightarrow> 'k \<Rightarrow> (object \<Rightarrow> 'v \<Rightarrow> 'v option) \<Rightarrow> 'v \<Rightarrow>
     object \<Rightarrow> ('k, 'v) smap \<Rightarrow> ('k, 'v) smap option" where
  "convert_std_map kconv kd vconv vd obj v =
     (case obj of MAP ps \<Rightarrow> convert_entries kconv kd vconv vd ps [] | _ \<Rightarrow> None)"

fun emplace_all ::
    "('k \<Rightarrow> 'v \<Rightarrow> 'm \<Rightarrow> 'm) \<Rightarrow> (object \<Rightarrow> 'k option) \<Rightarrow> (object \<Rightarrow> 'v option) \<Rightarrow> (object \<times> object) list \<Rightarrow> 'm \<Rightarrow> 'm option" where
  "emplace_all ins ask asv [] v = Some v"
| "emplace_all ins ask asv ((pk, pv) # ps) v =
     (case ask pk of
        None \<Rightarrow> None
      | Some key \<Rightarrow> (case asv pv of None \<Rightarrow> None | Some val \<Rightarrow> emplace_all ins ask asv ps (ins key val v)))"

definition as_std_map ::
    "(object \<Rightarrow> 'k::linorder option) \<Rightarrow> (object \<Rightarrow> 'v option) \<Rightarrow> object \<Rightarrow> ('k, 'v) smap option" where
  "as_std_map ask asv obj = (case obj of MAP ps \<Rightarrow> emplace_all smap_insert ask asv ps [] | _ \<Rightarrow> None)"

fun pack_entries :: "('k \<Rightarrow> byte list option) \<Rightarrow> ('v \<Rightarrow> byte list option) \<Rightarrow> ('k \<times> 'v) list \<Rightarrow> byte list option" where
  "pack_entries pkk pkv [] = Some []"
| "pack_entries pkk pkv ((k, v) # m) =
     (case pkk k of
        None \<Rightarrow> None
      | Some a \<Rightarrow> (case pkv v of None \<Rightarrow> None | Some b \<Rightarrow> map_option (\<lambda>bs. a @ b @ bs) (pack_entries pkk pkv m)))"

definition pack_std_map :: "('k \<Rightarrow> byte list option) \<Rightarrow> ('v \<Rightarrow> byte list option) \<Rightarrow> ('k, 'v) smap \<Rightarrow> byte list option" where
  "pack_std_map pkk pkv v =
     (case checked_get_container_size (length v) of
        None \<Rightarrow> None
      | Some n \<Rightarrow> map_option (\<lambda>bs. pack_map n @ bs) (pack_entries pkk pkv v))"

fun object_entries :: "('k \<Rightarrow> object option) \<Rightarrow> ('v \<Rightarrow> object option) \<Rightarrow> ('k \<times> 'v) list \<Rightarrow> (object \<times> object) list option" where
  "object_entries obk obv [] = Some []"
| "object_entries obk obv ((k, v) # m) =
     (case obk k of
        None \<Rightarrow> None
      | Some a \<Rightarrow> (case obv v of None \<Rightarrow> None | Some b \<Rightarrow> map_option ((#) (a, b)) (object_entries obk obv m)))"

definition object_std_map :: "('k \<Rightarrow> object option) \<Rightarrow> ('v \<Rightarrow> object option) \<Rightarrow> ('k, 'v) smap \<Rightarrow> object option" where
  "object_std_map obk obv v =
     (if v = [] then Some (MAP [])
      else case checked_get_container_size (length v) of
             None \<Rightarrow> None
           | Some n \<Rightarrow> map_option MAP (object_entries obk obv v))"

text \<open>A multimap keeps every entry, those of a key in the order they came.\<close>

fun convert_pairs_into ::
    "(object \<Rightarrow> 'k::linorder \<Rightarrow> 'k option) \<Rightarrow> 'k \<Rightarrow> (object \<Rightarrow> 'v \<Rightarrow> 'v option) \<Rightarrow> 'v \<Rightarrow>
     (object \<times> object) list \<Rightarrow> ('k \<times> 'v) list \<Rightarrow> ('k \<times> 'v) list option" where
  "convert_pairs_into kconv kd vconv vd [] tmp = Some tmp"
| "convert_pairs_into kconv kd vconv vd ((pk, pv) # ps) tmp =
     (case kconv pk kd of
        None \<Rightarrow> None
      | Some key \<Rightarrow>
          (case vconv pv vd of
             None \<Rightarrow> None
           | Some val \<Rightarrow> convert_pairs_into kconv kd vconv vd ps (multi_insert fst (key, val) tmp)))"

definition convert_multimap ::
    "(object \<Rightarrow> 'k::linorder \<Rightarrow> 'k option) \<Rightarrow> 'k \<Rightarrow> (object \<Rightarrow> 'v \<Rightarrow> 'v option) \<Rightarrow> 'v \<Rightarrow>
     object \<Rightarrow> ('k \<times> 'v) list \<Rightarrow> ('k \<times> 'v) list option" where
  "convert_multimap kconv kd vconv vd obj v =
     (case obj of MAP ps \<Rightarrow> convert_pairs_into kconv kd vconv vd ps [] | _ \<Rightarrow> None)"

definition as_multimap ::
    "(object \<Rightarrow> 'k::linorder option) \<Rightarrow> (object \<Rightarrow> 'v option) \<Rightarrow> object \<Rightarrow> ('k \<times> 'v) list option" where
  "as_multimap ask asv obj =
     (case obj of MAP ps \<Rightarrow> emplace_all (\<lambda>k v. multi_insert fst (k, v)) ask asv ps [] | _ \<Rightarrow> None)"

section \<open>What an adaptor promises\<close>

text \<open>
  Packing a proper value writes the bytes of its object, and the object is converted back to
  the value, whatever was there before and whether or not the type has an \<open>as\<close> of its own.
\<close>

locale value_adaptor =
  fixes ok :: "'a \<Rightarrow> bool"
    and ob :: "'a \<Rightarrow> object option"
    and pk :: "'a \<Rightarrow> byte list option"
    and conv :: "object \<Rightarrow> 'a \<Rightarrow> 'a option"
    and as :: "object \<Rightarrow> 'a option"
  assumes pack_ob: "ok v \<Longrightarrow> pk v = map_option pack_object (ob v)"
    and conv_ob: "ok v \<Longrightarrow> ob v = Some x \<Longrightarrow> conv x old = Some v"
    and as_ob: "ok v \<Longrightarrow> ob v = Some x \<Longrightarrow> as x = Some v"
begin

lemma read_back:
  assumes "ok v" "ob v = Some x" "fits l 1 x"
  shows "\<exists>bs. pk v = Some bs \<and> unpack f l (bs @ rest) = Inr (x, rest) \<and> conv x old = Some v \<and> as x = Some v"
  using assms pack_ob conv_ob as_ob unpack_put by auto

lemma all_pack: "list_all ok vs \<Longrightarrow> all_some pk vs = map_option (map pack_object) (all_some ob vs)"
  by (induction vs) (auto simp: pack_ob option.map_comp comp_def split: option.splits)

lemma all_as: "list_all ok vs \<Longrightarrow> all_some ob vs = Some xs \<Longrightarrow> all_some as xs = Some vs"
  by (induction vs arbitrary: xs) (auto simp: as_ob split: option.splits)

lemma all_convert:
  "list_all ok vs \<Longrightarrow> all_some ob vs = Some xs \<Longrightarrow> length vs \<le> length old \<Longrightarrow>
   convert_elements conv xs old = Some (vs @ drop (length vs) old)"
proof (induction vs arbitrary: xs old)
  case (Cons v vs)
  then obtain o' old' x xs' where "old = o' # old'" "ob v = Some x" "xs = x # xs'" "all_some ob vs = Some xs'"
    by (cases old) (auto split: option.splits)
  with Cons conv_ob [of v x o'] show ?case by simp
qed simp

lemma all_insert:
  "list_all ok vs \<Longrightarrow> all_some ob vs = Some xs \<Longrightarrow>
   insert_all ins as (rev xs @ ys) w = insert_all ins as ys (foldr ins vs w)"
proof (induction vs arbitrary: xs ys)
  case (Cons v vs)
  then obtain x xs' where "ob v = Some x" "xs = x # xs'" "all_some ob vs = Some xs'"
    by (auto split: option.splits)
  with Cons as_ob [of v x] show ?case by simp
qed simp

end

lemma all_some_length: "all_some f vs = Some xs \<Longrightarrow> length xs = length vs"
  by (induction vs arbitrary: xs) (auto split: option.splits)

lemma all_some_total [simp]: "all_some (\<lambda>v. Some (f v)) vs = Some (map f vs)"
  by (induction vs) simp_all

lemma resize_length [simp]: "length (resize n d v) = n"
  by (simp add: resize_def)

lemma checked_sizeD: "checked_get_container_size n = Some m \<Longrightarrow> m = word_of_nat n \<and> n < 2 ^ 32"
  by (auto simp: checked_get_container_size_def split: if_splits)

lemma push_fronts_insert: "push_fronts as ps v = insert_all (#) as ps v"
  by (induction as ps v rule: push_fronts.induct) (auto split: option.splits)

lemma foldr_Cons: "foldr (#) vs ws = vs @ ws"
  by (induction vs) simp_all

lemma lists_as_vectors:
  "convert_list conv d = convert_vector conv d" "convert_deque conv d = convert_vector conv d"
  "as_list as = as_vector as" "as_deque as = as_vector as"
  by (simp_all add: fun_eq_iff convert_list_def convert_deque_def convert_vector_def as_list_def as_deque_def as_vector_def)

text \<open>What the sequences have in common: an array of the elements.\<close>

lemma object_vector_elements:
  "object_vector ob vs = Some x \<Longrightarrow> \<exists>xs. x = ARRAY xs \<and> all_some ob vs = Some xs \<and> length xs = length vs"
  by (auto simp: object_vector_def dest: all_some_length split: if_splits option.splits)

lemma set_insert_first: "\<forall>y\<in>set ys. x < y \<Longrightarrow> set_insert x ys = x # ys"
  by (cases ys) simp_all

lemma multi_insert_first: "\<forall>y\<in>set ys. x \<le> y \<Longrightarrow> multi_insert (\<lambda>x. x) x ys = x # ys"
  by (induction ys) (auto simp: not_less)

lemma foldr_set_insert: "sorted_wrt (<) vs \<Longrightarrow> foldr set_insert vs [] = vs"
  by (induction vs) (simp_all add: set_insert_first)

lemma foldr_multi_insert: "sorted vs \<Longrightarrow> foldr (multi_insert (\<lambda>x. x)) vs [] = vs"
  by (induction vs) (simp_all add: multi_insert_first)

context value_adaptor
begin

lemma pack_vector_ob:
  assumes "list_all ok vs"
  shows "pack_vector pk vs = map_option pack_object (object_vector ob vs)"
proof (cases "all_some ob vs")
  case (Some xs)
  with all_some_length [OF Some] show ?thesis
    by (auto simp: pack_vector_def object_vector_def all_pack [OF assms] size32_def
        checked_get_container_size_def pack_elements_items)
qed (auto simp: pack_vector_def object_vector_def all_pack [OF assms] split: option.split)

lemma vector_adaptor:
  "value_adaptor (list_all ok) (object_vector ob) (pack_vector pk) (convert_vector conv d) (as_vector as)"
proof
  fix vs x old
  assume "list_all ok vs" "object_vector ob vs = Some x"
  then obtain xs where xs: "x = ARRAY xs" "all_some ob vs = Some xs" "list_all ok vs" "length xs = length vs"
    using object_vector_elements by blast
  then show "convert_vector conv d x old = Some vs"
    by (simp add: convert_vector_def all_convert)
  from xs show "as_vector as x = Some vs"
    by (simp add: as_vector_def all_as)
qed (rule pack_vector_ob)

text \<open>Lists, deques and singly linked lists are packed as vectors are.\<close>

lemma list_adaptor:
  "value_adaptor (list_all ok) (object_vector ob) (pack_vector pk) (convert_list conv d) (as_list as)"
  unfolding lists_as_vectors by (rule vector_adaptor)

lemma deque_adaptor:
  "value_adaptor (list_all ok) (object_vector ob) (pack_vector pk) (convert_deque conv d) (as_deque as)"
  unfolding lists_as_vectors by (rule vector_adaptor)

lemma forward_list_adaptor:
  "value_adaptor (list_all ok) (object_vector ob) (pack_vector pk) (convert_forward_list conv d) (as_forward_list as)"
proof
  fix vs x old
  assume "list_all ok vs" "object_vector ob vs = Some x"
  then obtain xs where xs: "x = ARRAY xs" "all_some ob vs = Some xs" "list_all ok vs" "length xs = length vs"
    using object_vector_elements by blast
  then show "convert_forward_list conv d x old = Some vs"
    by (simp add: convert_forward_list_def all_convert)
  from xs show "as_forward_list as x = Some vs"
    using all_insert [of vs xs "(#)" "[]" "[]"] by (simp add: as_forward_list_def push_fronts_insert foldr_Cons)
qed (rule pack_vector_ob)

text \<open>Packing a set is packing a vector.\<close>

lemma pack_set_ob: "list_all ok vs \<Longrightarrow> pack_set pk vs = map_option pack_object (object_set ob vs)"
  using pack_vector_ob [of vs] by (simp add: pack_vector_def object_vector_def pack_set_def object_set_def)

lemma set_elements:
  "object_set ob vs = Some x \<Longrightarrow> \<exists>xs. x = ARRAY xs \<and> all_some ob vs = Some xs"
  by (auto simp: object_set_def split: if_splits option.splits)

lemma inserted:
  assumes "list_all ok vs" "object_set ob vs = Some x"
  obtains xs where "x = ARRAY xs" "insert_all ins as (rev xs) [] = Some (foldr ins vs [])"
proof -
  obtain xs where "x = ARRAY xs" "all_some ob vs = Some xs"
    using set_elements [OF assms(2)] by blast
  with all_insert [OF assms(1), of xs ins "[]" "[]"] that show thesis by simp
qed

text \<open>An array keeps the promise as far as its elements do and the object has all of them.\<close>

lemma std_array_read_back:
  assumes "list_all ok vs" "object_vector ob vs = Some x" "length old = length vs"
  shows "convert_std_array conv x old = Some vs \<and> as_std_array as (length vs) x = Inr vs \<and>
         convert_carray conv x old = (if vs = [] then Inl out_of_bounds else Inr vs)"
proof -
  obtain xs where xs: "x = ARRAY xs" "all_some ob vs = Some xs" "length xs = length vs"
    using object_vector_elements [OF assms(2)] by blast
  with assms(1,3) show ?thesis
    by (auto simp: convert_std_array_def as_std_array_def convert_carray_def all_convert all_as)
qed

lemma shared_ptr_adaptor:
  "value_adaptor (\<lambda>v. case v of None \<Rightarrow> True | Some a \<Rightarrow> ok a \<and> ob a \<noteq> Some NIL)
     (object_shared_ptr ob) (pack_shared_ptr pk) (convert_shared_ptr conv d) (as_shared_ptr as)"
  by unfold_locales
    (auto simp: object_shared_ptr_def pack_shared_ptr_def convert_shared_ptr_def as_shared_ptr_def
      pack_ob conv_ob as_ob split: option.splits)

end

text \<open>Sets of elements with an order.\<close>

locale ordered_adaptor = value_adaptor ok ob pk conv as
  for ok :: "'a::linorder \<Rightarrow> bool" and ob pk conv as
begin

lemma set_adaptor:
  "value_adaptor (\<lambda>vs. list_all ok vs \<and> sorted_wrt (<) vs) (object_set ob) (pack_set pk) (convert_set as) (as_set as)"
  by unfold_locales
    (auto simp: pack_set_ob convert_set_def as_set_def foldr_set_insert elim: inserted [where ins = set_insert])

lemma multiset_adaptor:
  "value_adaptor (\<lambda>vs. list_all ok vs \<and> sorted vs) (object_set ob) (pack_set pk) (convert_multiset as) (as_multiset as)"
  by unfold_locales
    (auto simp: pack_set_ob convert_multiset_def as_multiset_def foldr_multi_insert
      elim: inserted [where ins = "multi_insert (\<lambda>x. x)"])

end

text \<open>Pairs and maps join two adaptors.\<close>

locale adaptors = fst: value_adaptor ok1 ob1 pk1 conv1 as1 + snd: value_adaptor ok2 ob2 pk2 conv2 as2
  for ok1 :: "'a \<Rightarrow> bool" and ob1 pk1 conv1 as1 and ok2 :: "'b \<Rightarrow> bool" and ob2 pk2 conv2 as2
begin

lemma pair_adaptor:
  "value_adaptor (\<lambda>v. ok1 (fst v) \<and> ok2 (snd v)) (object_pair ob1 ob2) (pack_pair pk1 pk2)
     (convert_pair conv1 conv2) (as_pair as1 as2)"
  by unfold_locales
    (auto simp: pack_pair_def object_pair_def convert_pair_def as_pair_def fst.pack_ob snd.pack_ob size32_def
      fst.conv_ob snd.conv_ob fst.as_ob snd.as_ob option.map_comp comp_def split: option.splits)

definition entry_ok :: "'a \<times> 'b \<Rightarrow> bool" where
  "entry_ok v \<longleftrightarrow> ok1 (fst v) \<and> ok2 (snd v)"

lemma pack_entries_ob:
  "list_all entry_ok m \<Longrightarrow> pack_entries pk1 pk2 m = map_option pack_pairs (object_entries ob1 ob2 m)"
  by (induction m) (auto simp: entry_ok_def fst.pack_ob snd.pack_ob option.map_comp comp_def split: option.splits)

lemma object_entries_length: "object_entries ob1 ob2 m = Some xs \<Longrightarrow> length xs = length m"
  by (induction m arbitrary: xs) (auto split: option.splits)

lemma pack_std_map_ob:
  assumes "list_all entry_ok m"
  shows "pack_std_map pk1 pk2 m = map_option pack_object (object_std_map ob1 ob2 m)"
proof (cases "object_entries ob1 ob2 m")
  case (Some xs)
  with object_entries_length [OF Some] show ?thesis
    by (auto simp: pack_std_map_def object_std_map_def pack_entries_ob [OF assms] size32_def
        checked_get_container_size_def)
qed (auto simp: pack_std_map_def object_std_map_def pack_entries_ob [OF assms] split: option.split)

end

text \<open>Entries that come in the order of their keys are appended.\<close>

lemma smap_at_last: "\<forall>x\<in>set m. fst x < k \<Longrightarrow> smap_at k d f m = m @ [(k, f d)]"
  by (induction k d f m rule: smap_at.induct) auto

lemma smap_insert_last: "\<forall>x\<in>set m. fst x < k \<Longrightarrow> smap_insert k v m = m @ [(k, v)]"
  by (induction k v m rule: smap_insert.induct) auto

lemma multi_insert_last: "\<forall>x\<in>set m. key x \<le> key y \<Longrightarrow> multi_insert key y m = m @ [y]"
  by (induction m) auto

locale map_adaptor = adaptors ok1 ob1 pk1 conv1 as1 ok2 ob2 pk2 conv2 as2
  for ok1 :: "'k::linorder \<Rightarrow> bool" and ob1 pk1 conv1 as1 and ok2 :: "'v \<Rightarrow> bool" and ob2 pk2 conv2 as2
begin

lemma entries_read:
  assumes "list_all entry_ok m" "object_entries ob1 ob2 m = Some xs"
    and "\<And>k v tmp. \<forall>x\<in>set tmp. below (fst x) k \<Longrightarrow> ins k v tmp = tmp @ [(k, v)]"
    and "sorted_wrt below (map fst (tmp @ m))"
  shows "emplace_all ins as1 as2 xs tmp = Some (tmp @ m)"
  using assms(1,2,4)
proof (induction m arbitrary: xs tmp)
  case (Cons e m)
  obtain k v where e: "e = (k, v)" by (cases e)
  with Cons.prems obtain x y xs' where x: "ob1 k = Some x" "ob2 v = Some y" "xs = (x, y) # xs'"
      "object_entries ob1 ob2 m = Some xs'"
    by (auto split: option.splits)
  have ok: "ok1 k" "ok2 v" "list_all entry_ok m" using Cons.prems(1) e by (simp_all add: entry_ok_def [of "(k, v)"])
  have "ins k v tmp = tmp @ [(k, v)]"
    using Cons.prems(3) e by (intro assms(3)) (auto simp: sorted_wrt_append)
  then show ?case
    using Cons.IH [OF ok(3) x(4), of "tmp @ [(k, v)]"] Cons.prems(3) e x
      fst.as_ob [OF ok(1) x(1)] snd.as_ob [OF ok(2) x(2)] by simp
qed simp

lemma entries_converted:
  assumes "list_all entry_ok m" "object_entries ob1 ob2 m = Some xs"
  shows "convert_entries conv1 kd conv2 vd xs tmp = emplace_all (\<lambda>k v. smap_at k vd (\<lambda>_. v)) as1 as2 xs tmp"
    and "convert_pairs_into conv1 kd conv2 vd xs tmp = emplace_all (\<lambda>k v. multi_insert fst (k, v)) as1 as2 xs tmp"
proof -
  have "convert_entries conv1 kd conv2 vd xs tmp = emplace_all (\<lambda>k v. smap_at k vd (\<lambda>_. v)) as1 as2 xs tmp \<and>
        convert_pairs_into conv1 kd conv2 vd xs tmp = emplace_all (\<lambda>k v. multi_insert fst (k, v)) as1 as2 xs tmp"
    using assms
    by (induction m arbitrary: xs tmp)
      (auto simp: entry_ok_def fst.conv_ob snd.conv_ob fst.as_ob snd.as_ob split: option.splits)
  then show "convert_entries conv1 kd conv2 vd xs tmp = emplace_all (\<lambda>k v. smap_at k vd (\<lambda>_. v)) as1 as2 xs tmp"
    and "convert_pairs_into conv1 kd conv2 vd xs tmp = emplace_all (\<lambda>k v. multi_insert fst (k, v)) as1 as2 xs tmp"
    by blast+
qed

lemma object_std_map_entries:
  "object_std_map ob1 ob2 m = Some x \<Longrightarrow> \<exists>xs. x = MAP xs \<and> object_entries ob1 ob2 m = Some xs"
  by (auto simp: object_std_map_def split: if_splits option.splits)

lemma std_map_adaptor:
  "value_adaptor (\<lambda>m. list_all entry_ok m \<and> smap_invar m) (object_std_map ob1 ob2) (pack_std_map pk1 pk2)
     (convert_std_map conv1 kd conv2 vd) (as_std_map as1 as2)"
proof
  fix m x old
  assume m: "list_all entry_ok m \<and> smap_invar m" and "object_std_map ob1 ob2 m = Some x"
  then obtain xs where xs: "x = MAP xs" "object_entries ob1 ob2 m = Some xs"
    using object_std_map_entries by blast
  have "emplace_all (\<lambda>k v. smap_at k vd (\<lambda>_. v)) as1 as2 xs [] = Some ([] @ m)"
    using m xs(2) by (intro entries_read [where below = "(<)"]) (auto simp: smap_at_last)
  then show "convert_std_map conv1 kd conv2 vd x old = Some m"
    using m entries_converted(1) [OF _ xs(2)] by (simp add: convert_std_map_def xs(1))
  have "emplace_all smap_insert as1 as2 xs [] = Some ([] @ m)"
    using m xs(2) by (intro entries_read [where below = "(<)"]) (auto simp: smap_insert_last)
  then show "as_std_map as1 as2 x = Some m"
    by (simp add: as_std_map_def xs(1))
qed (simp add: pack_std_map_ob)

lemma multimap_adaptor:
  "value_adaptor (\<lambda>m. list_all entry_ok m \<and> sorted (map fst m)) (object_std_map ob1 ob2) (pack_std_map pk1 pk2)
     (convert_multimap conv1 kd conv2 vd) (as_multimap as1 as2)"
proof
  fix m x old
  assume m: "list_all entry_ok m \<and> sorted (map fst m)" and "object_std_map ob1 ob2 m = Some x"
  then obtain xs where xs: "x = MAP xs" "object_entries ob1 ob2 m = Some xs"
    using object_std_map_entries by blast
  have "emplace_all (\<lambda>k v. multi_insert fst (k, v)) as1 as2 xs [] = Some ([] @ m)"
    using m xs(2) by (intro entries_read [where below = "(\<le>)"]) (auto simp: multi_insert_last)
  then show "convert_multimap conv1 kd conv2 vd x old = Some m" "as_multimap as1 as2 x = Some m"
    using m entries_converted(2) [OF _ xs(2)] by (simp_all add: convert_multimap_def as_multimap_def xs(1))
qed (simp add: pack_std_map_ob)

end

section \<open>The adaptors of the language\<close>

interpretation flags: value_adaptor "\<lambda>_. True" "\<lambda>v. Some (object_bool v)" "\<lambda>v. Some (pack_bool v)"
    "\<lambda>x _. convert_bool x" convert_bool
  by unfold_locales (simp_all add: pack_bool_object, auto simp: object_bool_def convert_bool_def)

interpretation ints: value_adaptor "\<lambda>_. True" "\<lambda>v. Some (object_signed (v :: 32 word))" "\<lambda>v. Some (pack_int v)"
    "\<lambda>x _. convert_signed x" "as_converted (\<lambda>x _. convert_signed x) 0"
  by unfold_locales
    (auto simp: pack_int_def pack_signed_object convert_signed_back as_converted_def)

interpretation longs: value_adaptor "\<lambda>_. True" "\<lambda>v. Some (object_unsigned (v :: 64 word))" "\<lambda>v. Some (pack_unsigned_long v)"
    "\<lambda>x _. convert_unsigned x" "as_converted (\<lambda>x _. convert_unsigned x) 0"
  by unfold_locales
    (auto simp: pack_unsigned_long_def pack_unsigned_object convert_unsigned_back as_converted_def)

interpretation strings: ordered_adaptor "\<lambda>_. True" object_string pack_string
    "\<lambda>x _. convert_string x" "as_converted (\<lambda>x _. convert_string x) []"
  by unfold_locales
    (auto simp: pack_string_object object_string_def convert_string_def as_converted_def)

lemma small_size_0: "n \<le> 0xffffffff \<Longrightarrow> (word_of_nat n :: 32 word) = 0 \<longleftrightarrow> n = 0"
  by (auto simp: word_of_nat_eq_0_iff dest: dvd_imp_le)

interpretation chars: value_adaptor "\<lambda>_. True" object_vector_char pack_vector_char
    convert_vector_char "as_converted convert_vector_char []"
  by unfold_locales
    (auto simp: pack_vector_char_def object_vector_char_def convert_vector_char_def as_converted_def
      checked_get_container_size_def size32_def pack_bin_body_def small_size_0 split: if_splits)

interpretation flag_strings: adaptors "\<lambda>_. True" object_string pack_string
    "\<lambda>x _. convert_string x" "as_converted (\<lambda>x _. convert_string x) []"
    "\<lambda>_. True" "\<lambda>v. Some (object_bool v)" "\<lambda>v. Some (pack_bool v)" "\<lambda>x _. convert_bool x" convert_bool
  by unfold_locales

interpretation flag_lists: value_adaptor "list_all (\<lambda>v. True \<and> True)"
    "object_vector (object_pair object_string (\<lambda>v. Some (object_bool v)))"
    "pack_vector (pack_pair pack_string (\<lambda>v. Some (pack_bool v)))"
    "convert_vector (convert_pair (\<lambda>x _. convert_string x) (\<lambda>x _. convert_bool x)) ([], False)"
    "as_vector (as_pair (as_converted (\<lambda>x _. convert_string x) []) convert_bool)"
  by (rule value_adaptor.vector_adaptor [OF flag_strings.pair_adaptor])

interpretation string_maps: map_adaptor "\<lambda>_. True" object_string pack_string
    "\<lambda>x _. convert_string x" "as_converted (\<lambda>x _. convert_string x) []" "list_all (\<lambda>v. True \<and> True)"
    "object_vector (object_pair object_string (\<lambda>v. Some (object_bool v)))"
    "pack_vector (pack_pair pack_string (\<lambda>v. Some (pack_bool v)))"
    "convert_vector (convert_pair (\<lambda>x _. convert_string x) (\<lambda>x _. convert_bool x)) ([], False)"
    "as_vector (as_pair (as_converted (\<lambda>x _. convert_string x) []) convert_bool)"
  by unfold_locales

section \<open>Where a type is not read back\<close>

text \<open>An empty \<open>vector<bool>\<close> leaves the flags that are there.\<close>

lemma vector_bool_read_back:
  assumes "object_vector_bool v = Some x"
  shows "convert_vector_bool x old = Some (if v = [] then old else v)"
proof -
  have "convert_flags (map object_bool v) = Some v"
    by (induction v) (simp_all add: object_bool_def convert_bool_def)
  with assms show ?thesis
    by (auto simp: object_vector_bool_def convert_vector_bool_def split: if_splits)
qed

text \<open>A map with two entries for a key: \<open>convert\<close> keeps the last one, \<open>as\<close> the first.\<close>

lemma duplicate_key:
  assumes "kconv x kd = Some k" "ask x = Some k" "vconv a vd = Some v" "vconv b v = Some w" "asv a = Some v" "asv b = Some w"
  shows "convert_std_map kconv kd vconv vd (MAP [(x, a), (x, b)]) old = Some [(k, w)] \<and>
         as_std_map ask asv (MAP [(x, a), (x, b)]) = Some [(k, v)]"
  using assms by (simp add: convert_std_map_def as_std_map_def)

text \<open>Reading past the end of the object.\<close>

lemma short_arrays:
  "length ps < n \<Longrightarrow> as_std_array as n (ARRAY ps) = Inl out_of_bounds"
  "convert_carray conv (ARRAY []) v = Inl out_of_bounds"
  "length b < length v \<Longrightarrow> convert_array_char (Str b) v = Inl out_of_bounds"
  by (auto simp: as_std_array_def convert_carray_def convert_array_char_def)

lemma array_char_read_back:
  "object_array_char v = Some x \<Longrightarrow> length old = length v \<Longrightarrow> convert_array_char x old = Inr v"
  by (auto simp: object_array_char_def convert_array_char_def)

text \<open>A string of characters comes back up to its first zero.\<close>

lemma char_array_read_back:
  assumes "object_char_array v = Some x" "length old = length v"
  shows "\<exists>w. convert_char_array x old = Some w \<and> length w = length v \<and>
             takeWhile (\<lambda>c. c \<noteq> 0) w = takeWhile (\<lambda>c. c \<noteq> 0) v"
proof -
  let ?s = "takeWhile (\<lambda>c. c \<noteq> 0) v"
  have x: "x = Str ?s" using assms(1) by (auto simp: object_char_array_def)
  have len: "length ?s \<le> length v" by (rule length_takeWhile_le)
  show ?thesis
  proof (cases "length ?s = length v")
    case True
    then have "?s = v" using takeWhile_eq_take [of "\<lambda>c. c \<noteq> 0" v] by simp
    with x assms(2) show ?thesis by (simp add: convert_char_array_def)
  next
    case False
    with len obtain c cs where cs: "drop (length ?s) old = c # cs"
      using assms(2) by (cases "drop (length ?s) old") auto
    then have "(?s @ drop (length ?s) old)[length ?s := 0] = ?s @ 0 # cs" by simp
    moreover have "Suc (length cs) = length v - length ?s"
      using arg_cong [OF cs, of length] assms(2) by simp
    ultimately show ?thesis
      using x assms(2) len False cs by (simp add: convert_char_array_def takeWhile_append)
  qed
qed

section \<open>Properties\<close>

text \<open>
  C32. Containers of any keys and values whose adaptors keep their promise: a map to vectors, in
  the order of its keys, is packed into the bytes of its object; unpacking them gives the
  object and the bytes after it; and the object is converted to the map again, by \<open>convert\<close>
  whatever the target held before, and by \<open>as\<close>.
\<close>
theorem containers_read_back:
  assumes "value_adaptor okk obk pkk convk ask" "value_adaptor okv obv pkv convv asv"
    and "smap_invar m" "list_all (\<lambda>(k, v). okk k \<and> list_all okv v) m"
    and "object_std_map obk (object_vector obv) m = Some x" "fits l 1 x"
  shows "\<exists>bs. pack_std_map pkk (pack_vector pkv) m = Some bs \<and> unpack f l (bs @ rest) = Inr (x, rest) \<and>
           convert_std_map convk kd (convert_vector convv d) vd x old = Some m \<and>
           as_std_map ask (as_vector asv) x = Some m"
proof -
  have "map_adaptor okk obk pkk convk ask (list_all okv) (object_vector obv) (pack_vector pkv) (convert_vector convv d) (as_vector asv)"
    by (intro map_adaptor.intro adaptors.intro assms(1) value_adaptor.vector_adaptor [OF assms(2)])
  note map = this map_adaptor.axioms [OF this]
  have "list_all (adaptors.entry_ok okk (list_all okv)) m"
    using assms(4) by (auto simp: adaptors.entry_ok_def [OF map(2)] list_all_iff)
  with value_adaptor.read_back [OF map_adaptor.std_map_adaptor [OF map(1)], of m x] assms(3,5,6) show ?thesis
    by blast
qed

definition sample_map :: "(byte list, (byte list \<times> bool) list) smap" where
  "sample_map = [([0x61], [([0x62], True), ([], False)]), ([0x62], [])]"

definition sample_map_object :: object where
  "sample_map_object = MAP [(Str [0x61], ARRAY [ARRAY [Str [0x62], BOOLEAN True], ARRAY [Str [], BOOLEAN False]]),
                           (Str [0x62], ARRAY [])]"

lemma sample_map_made:
  "object_std_map object_string (object_vector (object_pair object_string (\<lambda>v. Some (object_bool v)))) sample_map =
   Some sample_map_object"
  by (simp add: sample_map_def sample_map_object_def object_std_map_def object_vector_def object_pair_def
      object_string_def object_bool_def checked_get_container_size_def)

theorem containers_read_back_witness:
  "\<exists>bs. pack_std_map pack_string (pack_vector (pack_pair pack_string (\<lambda>v. Some (pack_bool v)))) sample_map = Some bs \<and>
     unpack False default_limit bs = Inr (sample_map_object, [])"
proof -
  have "smap_invar sample_map" "fits default_limit 1 sample_map_object"
    and "list_all (\<lambda>(k, v). True \<and> list_all (\<lambda>v. True \<and> True) v) sample_map"
    by (simp_all add: sample_map_def sample_map_object_def default_limit_def list_all_iff)
  from containers_read_back [OF strings.value_adaptor_axioms flag_strings.pair_adaptor this(1,3) sample_map_made this(2),
      where f = False and rest = "[]" and kd = "[]" and d = "([], False)" and vd = "[]" and old = "[]"]
  show ?thesis by auto
qed

end
