(* ===== verification/Msgpack_Wrappers.thy ===== *)
theory Msgpack_Wrappers
  imports Msgpack_Containers Cpp_Lib
begin

text \<open>
  The adaptors that wrap another type or refer to memory of their owner (\<open>v1/adaptor\<close>): integers of a
  fixed width, references, raw bytes with their order, arrays by reference, and how an object is
  printed. They keep the promise of the locale \<open>value_adaptor\<close> where the source lets them.
\<close>

section \<open>Integers of a fixed width\<close>

text \<open>The packed form has the width of the type whatever the number; the object is the shortest.\<close>

definition convert_fix_int :: "object \<Rightarrow> 'a::len word option" where
  "convert_fix_int obj = convert_signed obj"

definition convert_fix_uint :: "object \<Rightarrow> 'a::len word option" where
  "convert_fix_uint obj = convert_unsigned obj"

definition object_fix_int :: "'a::len word \<Rightarrow> object" where
  "object_fix_int v = (if sint v < 0 then NEGATIVE_INTEGER (scast v) else POSITIVE_INTEGER (scast v))"

definition object_fix_uint :: "'a::len word \<Rightarrow> object" where
  "object_fix_uint v = POSITIVE_INTEGER (ucast v)"

lemma takes_fixed:
  assumes "m_cs c = CS_HEADER"
  shows "takes c (pack_fix_int8 d8) (set_slot (object_fix_int d8) (m_visitor c))"
    and "takes c (pack_fix_int16 d16) (set_slot (object_fix_int d16) (m_visitor c))"
    and "takes c (pack_fix_int32 d32) (set_slot (object_fix_int d32) (m_visitor c))"
    and "takes c (pack_fix_int64 d64) (set_slot (object_fix_int d64) (m_visitor c))"
    and "takes c (pack_fix_uint8 d8) (set_slot (object_fix_uint d8) (m_visitor c))"
    and "takes c (pack_fix_uint16 d16) (set_slot (object_fix_uint d16) (m_visitor c))"
    and "takes c (pack_fix_uint32 d32) (set_slot (object_fix_uint d32) (m_visitor c))"
    and "takes c (pack_fix_uint64 d64) (set_slot (object_fix_uint d64) (m_visitor c))"
  unfolding pack_fix_int8_def pack_fix_int16_def pack_fix_int32_def pack_fix_int64_def
    pack_fix_uint8_def pack_fix_uint16_def pack_fix_uint32_def pack_fix_uint64_def
  by (rule takes_tabled [OF assms],
      (simp add: one_value take8_def object_fix_int_def object_fix_uint_def sint_scast_up; fail)+)+

text \<open>Every value comes back from its bytes as its object and from that as itself.\<close>

theorem fixed_read_back:
  "unpack f l (pack_fix_int8 d8 @ rest) = Inr (object_fix_int d8, rest) \<and>
   unpack f l (pack_fix_int16 d16 @ rest) = Inr (object_fix_int d16, rest) \<and>
   unpack f l (pack_fix_int32 d32 @ rest) = Inr (object_fix_int d32, rest) \<and>
   unpack f l (pack_fix_int64 d64 @ rest) = Inr (object_fix_int d64, rest) \<and>
   unpack f l (pack_fix_uint8 d8 @ rest) = Inr (object_fix_uint d8, rest) \<and>
   unpack f l (pack_fix_uint16 d16 @ rest) = Inr (object_fix_uint d16, rest) \<and>
   unpack f l (pack_fix_uint32 d32 @ rest) = Inr (object_fix_uint d32, rest) \<and>
   unpack f l (pack_fix_uint64 d64 @ rest) = Inr (object_fix_uint d64, rest)"
proof -
  let ?c = "init_ctx f l"
  have "m_cs ?c = CS_HEADER" "m_visitor ?c = init_visitor f l"
    by (simp_all add: init_ctx_def)
  note takes = takes_fixed [OF this(1), unfolded this(2)]
  show ?thesis by (intro conjI unpack_takes takes)
qed

lemma fixed_converted:
  fixes v :: "'a::len word"
  assumes "LENGTH('a) \<le> 64"
  shows "convert_fix_int (object_fix_int v) = Some v" "convert_fix_uint (object_fix_uint v) = Some v"
  using convert_signed_back [OF assms, of v] convert_unsigned_back [OF assms, of v]
  by (simp_all add: convert_fix_int_def convert_fix_uint_def object_fix_int_def object_fix_uint_def
      object_signed_def object_unsigned_def)

section \<open>References\<close>

text \<open>A \<open>reference_wrapper\<close> is the value it refers to; \<open>size_equal_only\<close> checks the size first.\<close>

definition convert_reference :: "(object \<Rightarrow> 'a \<Rightarrow> 'a option) \<Rightarrow> object \<Rightarrow> 'a \<Rightarrow> 'a option" where
  "convert_reference conv obj v = conv obj v"

definition pack_reference :: "('a \<Rightarrow> byte list option) \<Rightarrow> 'a \<Rightarrow> byte list option" where
  "pack_reference pk v = pk v"

definition object_reference :: "('a \<Rightarrow> object option) \<Rightarrow> 'a \<Rightarrow> object option" where
  "object_reference ob v = ob v"

definition convert_size_equal :: "('a \<Rightarrow> nat) \<Rightarrow> (object \<Rightarrow> 'a \<Rightarrow> 'a option) \<Rightarrow> object \<Rightarrow> 'a \<Rightarrow> 'a option" where
  "convert_size_equal sz conv obj v =
     (case obj of
        ARRAY ps \<Rightarrow> if length ps \<noteq> sz v then None else conv obj v
      | MAP kvs \<Rightarrow> if length kvs \<noteq> sz v then None else conv obj v
      | _ \<Rightarrow> None)"

definition convert_if_not_nil :: "(object \<Rightarrow> 'a \<Rightarrow> 'a option) \<Rightarrow> object \<Rightarrow> 'a \<Rightarrow> (bool \<times> 'a) option" where
  "convert_if_not_nil conv obj v = (if obj = NIL then Some (False, v) else map_option (Pair True) (conv obj v))"

text \<open>
  An array by reference: the null pointer is \<open>None\<close>. The elements of an object are converted into those
  that are there, a vector gets as many as it needs.
\<close>

definition convert_array_ref :: "(object \<Rightarrow> 'a \<Rightarrow> 'a option) \<Rightarrow> object \<Rightarrow> 'a list option \<Rightarrow> 'a list option option" where
  "convert_array_ref conv obj v =
     (case v of
        None \<Rightarrow> None
      | Some vs \<Rightarrow>
          (case obj of
             ARRAY ps \<Rightarrow> if length vs < length ps then None else map_option Some (convert_elements conv ps vs)
           | _ \<Rightarrow> None))"

definition convert_vector_ref :: "(object \<Rightarrow> 'a \<Rightarrow> 'a option) \<Rightarrow> 'a \<Rightarrow> object \<Rightarrow> 'a list option \<Rightarrow> 'a list option option" where
  "convert_vector_ref conv d obj v =
     (case v of
        None \<Rightarrow> None
      | Some vs \<Rightarrow>
          (case obj of
             ARRAY ps \<Rightarrow> map_option Some (convert_elements conv ps (resize (length ps) d vs))
           | _ \<Rightarrow> None))"

definition pack_array_ref :: "('a \<Rightarrow> byte list option) \<Rightarrow> 'a list option \<Rightarrow> byte list option" where
  "pack_array_ref pk v =
     (case v of
        None \<Rightarrow> None
      | Some vs \<Rightarrow>
          (case checked_get_container_size (length vs) of
             None \<Rightarrow> None
           | Some n \<Rightarrow> map_option (\<lambda>bs. pack_array n @ pack_elements bs) (all_some pk vs)))"

definition object_array_ref :: "('a \<Rightarrow> object option) \<Rightarrow> 'a list option \<Rightarrow> object option" where
  "object_array_ref ob v =
     (case v of
        None \<Rightarrow> None
      | Some vs \<Rightarrow>
          if vs = [] then Some (ARRAY [])
          else (case checked_get_container_size (length vs) of
                  None \<Rightarrow> None
                | Some n \<Rightarrow> map_option ARRAY (all_some ob vs)))"

definition array_ref_eq :: "'a list \<Rightarrow> 'a list \<Rightarrow> bool" where
  "array_ref_eq xs ys = (if length xs \<noteq> length ys then False else list_all2 (=) xs ys)"

context value_adaptor
begin

lemma reference_adaptor: "value_adaptor ok (object_reference ob) (pack_reference pk) (convert_reference conv) as"
  by unfold_locales (simp_all add: object_reference_def pack_reference_def convert_reference_def pack_ob conv_ob as_ob)

lemma not_nil_converted:
  "ok v \<Longrightarrow> ob v = Some x \<Longrightarrow> convert_if_not_nil conv x old = Some (if x = NIL then (False, old) else (True, v))"
  by (simp add: convert_if_not_nil_def conv_ob)

lemma size_equal_read_back:
  "ok v \<Longrightarrow> ob v = Some x \<Longrightarrow> x = ARRAY ps \<and> length ps = sz old \<or> x = MAP kvs \<and> length kvs = sz old \<Longrightarrow>
   convert_size_equal sz conv x old = Some v"
  using conv_ob by (auto simp: convert_size_equal_def)

text \<open>By reference the bytes are those of the vector, and a vector is read back.\<close>

lemma array_ref_of_vector:
  "pack_array_ref pk (Some vs) = pack_vector pk vs" "object_array_ref ob (Some vs) = object_vector ob vs"
  "convert_vector_ref conv d x (Some vs) = map_option Some (convert_vector conv d x vs)"
  by (simp_all add: pack_array_ref_def pack_vector_def object_array_ref_def object_vector_def convert_vector_ref_def
      convert_vector_def split: object.split)

lemma array_ref_read_back:
  assumes "list_all ok vs" "object_array_ref ob (Some vs) = Some x" "length vs \<le> length old"
  shows "convert_array_ref conv x (Some old) = Some (Some (vs @ drop (length vs) old))"
proof -
  obtain xs where "x = ARRAY xs" "all_some ob vs = Some xs"
    using assms(2) by (auto simp: object_array_ref_def split: if_splits option.splits)
  then show ?thesis
    using all_convert [OF assms(1) _ assms(3)] assms(3) by (simp add: convert_array_ref_def all_some_length)
qed

end

lemma array_ref_eq_list: "array_ref_eq xs ys \<longleftrightarrow> xs = ys"
  by (auto simp: array_ref_eq_def list.rel_eq)

section \<open>Raw bytes\<close>

text \<open>The sign of what \<open>memcmp\<close> gives for two blocks of the same length.\<close>

fun memcmp :: "byte list \<Rightarrow> byte list \<Rightarrow> int" where
  "memcmp (x # xs) (y # ys) = (if x < y then - 1 else if y < x then 1 else memcmp xs ys)"
| "memcmp xs ys = 0"

datatype raw_ref = Raw_ref (raw_bytes: "byte list")

definition raw_eq :: "raw_ref \<Rightarrow> raw_ref \<Rightarrow> bool" where
  "raw_eq x y \<longleftrightarrow> length (raw_bytes x) = length (raw_bytes y) \<and> memcmp (raw_bytes x) (raw_bytes y) = 0"

definition raw_less :: "raw_ref \<Rightarrow> raw_ref \<Rightarrow> bool" where
  "raw_less x y =
     (if length (raw_bytes x) = length (raw_bytes y) then memcmp (raw_bytes x) (raw_bytes y) < 0
      else length (raw_bytes x) < length (raw_bytes y))"

definition raw_greater :: "raw_ref \<Rightarrow> raw_ref \<Rightarrow> bool" where
  "raw_greater x y =
     (if length (raw_bytes x) = length (raw_bytes y) then 0 < memcmp (raw_bytes x) (raw_bytes y)
      else length (raw_bytes y) < length (raw_bytes x))"

text \<open>It is a strict linear order, so sets and maps may have such keys.\<close>

lemma memcmp_zero: "length xs = length ys \<Longrightarrow> memcmp xs ys = 0 \<longleftrightarrow> xs = ys"
  by (induction xs ys rule: memcmp.induct) auto

lemma memcmp_swap: "memcmp ys xs = - memcmp xs ys"
  by (induction xs ys rule: memcmp.induct) auto

lemma memcmp_trans:
  "length xs = length ys \<Longrightarrow> length ys = length zs \<Longrightarrow> memcmp xs ys < 0 \<Longrightarrow> memcmp ys zs < 0 \<Longrightarrow> memcmp xs zs < 0"
proof (induction xs arbitrary: ys zs)
  case (Cons x xs)
  obtain y ys' where y: "ys = y # ys'" using Cons.prems(1) by (cases ys) simp_all
  obtain z zs' where z: "zs = z # zs'" using Cons.prems(2) y by (cases zs) simp_all
  show ?case
    using Cons.prems Cons.IH [of ys' zs'] unfolding y z by (auto split: if_splits)
qed simp

lemma memcmp_self [simp]: "memcmp xs xs = 0"
  by (simp add: memcmp_zero)

lemma raw_eq_equal: "raw_eq x y \<longleftrightarrow> x = y"
  by (cases x; cases y) (auto simp: raw_eq_def memcmp_zero)

lemma raw_greater_less: "raw_greater x y \<longleftrightarrow> raw_less y x"
  using memcmp_swap [of "raw_bytes x" "raw_bytes y"] by (simp add: raw_greater_def raw_less_def)

lemma raw_order:
  shows raw_irrefl: "\<not> raw_less x x"
    and raw_trans: "raw_less x y \<Longrightarrow> raw_less y z \<Longrightarrow> raw_less x z"
    and raw_total: "\<not> raw_less x y \<Longrightarrow> x \<noteq> y \<Longrightarrow> raw_less y x"
proof -
  show "\<not> raw_less x x" by (simp add: raw_less_def)
  show "raw_less x y \<Longrightarrow> raw_less y z \<Longrightarrow> raw_less x z"
    using memcmp_trans [of "raw_bytes x" "raw_bytes y" "raw_bytes z"] by (auto simp: raw_less_def split: if_splits)
  show "\<not> raw_less x y \<Longrightarrow> x \<noteq> y \<Longrightarrow> raw_less y x"
    using memcmp_swap [of "raw_bytes x" "raw_bytes y"] raw_eq_equal [of x y]
    by (auto simp: raw_less_def raw_eq_def)
qed

instantiation raw_ref :: linorder
begin

definition less_raw_ref :: "raw_ref \<Rightarrow> raw_ref \<Rightarrow> bool" where
  "less_raw_ref x y = raw_less x y"

definition less_eq_raw_ref :: "raw_ref \<Rightarrow> raw_ref \<Rightarrow> bool" where
  "less_eq_raw_ref x y = (raw_less x y \<or> x = y)"

instance
  by intro_classes (auto simp: less_raw_ref_def less_eq_raw_ref_def raw_irrefl dest: raw_trans raw_total)

end

definition convert_raw :: "object \<Rightarrow> raw_ref option" where
  "convert_raw obj = (case obj of BIN b \<Rightarrow> Some (Raw_ref b) | _ \<Rightarrow> None)"

definition pack_raw :: "raw_ref \<Rightarrow> byte list" where
  "pack_raw v = pack_bin (size32 (raw_bytes v)) @ pack_bin_body (raw_bytes v)"

definition object_raw :: "raw_ref \<Rightarrow> object" where
  "object_raw v = BIN (raw_bytes v)"

interpretation raws: ordered_adaptor "\<lambda>_ :: raw_ref. True" "\<lambda>v. Some (object_raw v)" "\<lambda>v. Some (pack_raw v)"
    "\<lambda>x _. convert_raw x" "as_converted (\<lambda>x _. convert_raw x) (Raw_ref [])"
  by unfold_locales (auto simp: object_raw_def pack_raw_def convert_raw_def as_converted_def)

interpretation raw_references: value_adaptor "\<lambda>_ :: raw_ref. True" "object_reference (\<lambda>v. Some (object_raw v))"
    "pack_reference (\<lambda>v. Some (pack_raw v))" "convert_reference (\<lambda>x _. convert_raw x)"
    "as_converted (\<lambda>x _. convert_raw x) (Raw_ref [])"
  by (rule raws.reference_adaptor)

text \<open>A set of raw bytes comes back in its order.\<close>

lemma raw_set_read_back:
  assumes "sorted_wrt (<) vs" "object_set (\<lambda>v. Some (object_raw v)) vs = Some x" "fits l 1 x"
  shows "\<exists>bs. pack_set (\<lambda>v. Some (pack_raw v)) vs = Some bs \<and> unpack f l (bs @ rest) = Inr (x, rest) \<and>
    convert_set (as_converted (\<lambda>x _. convert_raw x) (Raw_ref [])) x old = Some vs"
  using value_adaptor.read_back [OF raws.set_adaptor, of vs x l f rest old] assms by (auto simp: list_all_iff)

text \<open>
  \<open>v4raw_ref\<close>, the strings of the older format, which has no header with one byte for the length, and
  strings that end with a zero.
\<close>

definition convert_v4raw :: "object \<Rightarrow> byte list option" where
  "convert_v4raw obj = (case obj of Str b \<Rightarrow> Some b | _ \<Rightarrow> None)"

definition pack_v4raw_ref :: "byte list \<Rightarrow> byte list" where
  "pack_v4raw_ref v = pack_v4raw (size32 v) @ pack_v4raw_body v"

definition object_v4raw :: "byte list \<Rightarrow> object" where
  "object_v4raw v = Str v"

lemma takes_v4raw:
  assumes "m_cs c = CS_HEADER" "length b < 4294967296" "length b \<le> unat (str_limit (m_limit (m_visitor c)))"
  shows "takes c (pack_v4raw_ref b) (set_slot (Str b) (m_visitor c))"
proof (cases "32 \<le> length b \<and> length b < 256")
  case True
  then show ?thesis
    using takes_body [OF assms(1), where h = "0xda" and s = CS_STR_16 and lb = "store16 (ucast (size32 b))"
      and b = b and v = "set_slot (Str b) (m_visitor c)" and acs = ACS_STR_VALUE and n = "length b"] assms(3)
    by (simp add: value_step_def narrow_length visit_str_def pack_v4raw_ref_def pack_v4raw_def pack_v4raw_body_def)
next
  case False
  then have "pack_v4raw (size32 b) = pack_str (size32 b)"
    using assms(2) by (auto simp: pack_v4raw_def pack_str_def word_less_nat_alt)
  with takes_str [OF assms] show ?thesis
    by (simp add: pack_v4raw_ref_def pack_v4raw_body_def pack_str_body_def)
qed

theorem v4raw_read_back:
  assumes "length v < 4294967296" "length v \<le> unat (str_limit l)"
  shows "unpack f l (pack_v4raw_ref v @ rest) = Inr (object_v4raw v, rest)" "convert_v4raw (object_v4raw v) = Some v"
proof -
  have "takes (init_ctx f l) (pack_v4raw_ref v) (set_slot (Str v) (init_visitor f l))"
    using takes_v4raw [of "init_ctx f l" v] assms by (simp add: init_ctx_def init_visitor_def)
  then show "unpack f l (pack_v4raw_ref v @ rest) = Inr (object_v4raw v, rest)"
    using unpack_takes by (simp add: object_v4raw_def)
qed (simp add: convert_v4raw_def object_v4raw_def)

definition pack_char_ptr :: "byte list \<Rightarrow> byte list option" where
  "pack_char_ptr v =
     (let s = takeWhile (\<lambda>c. c \<noteq> 0) v
      in map_option (\<lambda>n. pack_str n @ pack_str_body s) (checked_get_container_size (length s)))"

definition object_char_ptr :: "byte list \<Rightarrow> object option" where
  "object_char_ptr v =
     (let s = takeWhile (\<lambda>c. c \<noteq> 0) v in map_option (\<lambda>_. Str s) (checked_get_container_size (length s)))"

lemma char_ptr_packed: "pack_char_ptr v = map_option pack_object (object_char_ptr v)"
  by (simp add: pack_char_ptr_def object_char_ptr_def Let_def checked_get_container_size_def size32_def pack_str_body_def)

section \<open>Printing\<close>

text \<open>
  \<open>operator<<\<close> on an output stream, as bytes. \<open>show32\<close> and \<open>show64\<close> are how the stream prints the bits of
  a number with a fraction, which is left to the library.
\<close>

definition ascii :: "string \<Rightarrow> byte list" where
  "ascii s = map of_char s"

definition hex_digit :: "nat \<Rightarrow> byte" where
  "hex_digit n = (if n < 10 then 0x30 + word_of_nat n else 0x61 + word_of_nat (n - 10))"

text \<open>Four digits, filled with zeros, of a number below 256.\<close>

definition hex4 :: "32 word \<Rightarrow> byte list" where
  "hex4 code = [0x30, 0x30, hex_digit (unat code div 16), hex_digit (unat code mod 16)]"

definition escape_char :: "byte \<Rightarrow> byte list" where
  "escape_char c =
     (if c = 0x5c then [0x5c, 0x5c]
      else if c = 0x22 then [0x5c, 0x22]
      else if c = 0x2f then [0x5c, 0x2f]
      else if c = 0x08 then [0x5c, 0x62]
      else if c = 0x0c then [0x5c, 0x66]
      else if c = 0x0a then [0x5c, 0x6e]
      else if c = 0x0d then [0x5c, 0x72]
      else if c = 0x09 then [0x5c, 0x74]
      else let code = scast c :: 32 word
           in if code < 0x20 \<or> code = 0x7f then [0x5c, 0x75] @ hex4 (code AND 0xff) else [c])"

definition separated :: "byte list \<Rightarrow> byte list list \<Rightarrow> byte list" where
  "separated sep xs = (case xs of [] \<Rightarrow> [] | y # ys \<Rightarrow> y @ concat (map (\<lambda>z. sep @ z) ys))"

fun print_object :: "(32 word \<Rightarrow> byte list) \<Rightarrow> (64 word \<Rightarrow> byte list) \<Rightarrow> object \<Rightarrow> byte list" where
  "print_object show32 show64 NIL = ascii ''null''"
| "print_object show32 show64 (BOOLEAN b) = (if b then ascii ''true'' else ascii ''false'')"
| "print_object show32 show64 (POSITIVE_INTEGER n) = ascii (to_string (uint n))"
| "print_object show32 show64 (NEGATIVE_INTEGER n) = ascii (to_string (sint n))"
| "print_object show32 show64 (FLOAT32 d) = show32 d"
| "print_object show32 show64 (FLOAT64 d) = show64 d"
| "print_object show32 show64 (Str b) = [0x22] @ concat (map escape_char b) @ [0x22]"
| "print_object show32 show64 (BIN b) = [0x22] @ b @ [0x22]"
| "print_object show32 show64 (EXT t b) = ascii ''EXT''"
| "print_object show32 show64 (ARRAY xs) =
     ascii ''['' @ separated (ascii '', '') (map (print_object show32 show64) xs) @ ascii '']''"
| "print_object show32 show64 (MAP kvs) =
     ascii ''{'' @
     separated (ascii '', '') (map (\<lambda>(k, v). print_object show32 show64 k @ [0x3a] @ print_object show32 show64 v) kvs) @
     ascii ''}''"

text \<open>What a reader of JSON makes of a string behind its first quote: the characters, and what follows the last quote.\<close>

definition hex_value :: "byte \<Rightarrow> nat" where
  "hex_value b = (if b < 0x61 then unat (b - 0x30) else unat (b - 0x61) + 10)"

definition unescaped :: "byte \<Rightarrow> byte" where
  "unescaped e =
     (if e = 0x62 then 0x08 else if e = 0x66 then 0x0c else if e = 0x6e then 0x0a
      else if e = 0x72 then 0x0d else if e = 0x74 then 0x09 else e)"

fun read_string :: "byte list \<Rightarrow> (byte list \<times> byte list) option" where
  "read_string (b # bs) =
     (if b = 0x22 then Some ([], bs)
      else if b \<noteq> 0x5c then map_option (\<lambda>(s, r). (b # s, r)) (read_string bs)
      else (case bs of
         [] \<Rightarrow> None
       | e # bs' \<Rightarrow>
           if e \<noteq> 0x75 then map_option (\<lambda>(s, r). (unescaped e # s, r)) (read_string bs')
           else (case bs' of
              x # y # c # d # bs'' \<Rightarrow>
                map_option (\<lambda>(s, r). (word_of_nat (hex_value c * 16 + hex_value d) # s, r)) (read_string bs'')
            | _ \<Rightarrow> None)))"
| "read_string [] = None"

text \<open>The three forms of an escaped character.\<close>

definition escaped_form :: "byte \<Rightarrow> byte list \<Rightarrow> bool" where
  "escaped_form c bs \<longleftrightarrow>
     bs = [c] \<and> c \<noteq> 0x22 \<and> c \<noteq> 0x5c \<or>
     (\<exists>e. bs = [0x5c, e] \<and> e \<noteq> 0x75 \<and> unescaped e = c) \<or>
     (\<exists>x y z d. bs = [0x5c, 0x75, x, y, z, d] \<and> word_of_nat (hex_value z * 16 + hex_value d) = c)"

lemma hex_digit_value: "n < 16 \<Longrightarrow> hex_value (hex_digit n) = n"
proof -
  have "\<forall>n\<in>set [0..<16]. hex_value (hex_digit n) = n" by code_simp
  then show "n < 16 \<Longrightarrow> hex_value (hex_digit n) = n" by simp
qed

lemma unat_widened_byte: "unat (ucast c :: 32 word) = unat c" for c :: byte
proof -
  have "unat c < 2 ^ 8" using unsigned_less [of c, where ?'a = nat] by simp
  then show ?thesis by (simp add: unsigned_ucast_eq take_bit_nat_eq_self)
qed

lemma low_byte: "unat ((scast c :: 32 word) AND 0xff) = unat c" for c :: byte
proof -
  have ff: "(0xff :: 32 word) = mask 8" by (simp add: mask_eq_exp_minus_1)
  have "(scast c :: 32 word) AND 0xff = ucast c"
    unfolding ff
  proof (rule bit_word_eqI)
    fix n :: nat
    assume "n < LENGTH(32)"
    consider "n < 7" | "n = 7" | "7 < n" by linarith
    then show "bit ((scast c :: 32 word) AND mask 8) n = bit (ucast c :: 32 word) n"
      using \<open>n < LENGTH(32)\<close> bit_imp_le_length [of c n] by cases (auto simp: bit_simps)
  qed
  then show ?thesis by (simp add: unat_widened_byte)
qed

lemma escaped_forms: "escaped_form c (escape_char c)"
proof -
  have "unat c div 16 < 16" using unsigned_less [of c, where ?'a = nat] by (simp add: div_less_iff_less_mult)
  then have "word_of_nat (hex_value (hex_digit (unat c div 16)) * 16 + hex_value (hex_digit (unat c mod 16))) = c"
    by (simp add: hex_digit_value)
  then show ?thesis
    by (auto simp: escaped_form_def escape_char_def unescaped_def Let_def hex4_def low_byte)
qed

lemma read_escaped: "read_string (escape_char c @ bs) = map_option (\<lambda>(s, r). (c # s, r)) (read_string bs)"
  using escaped_forms [of c] unfolding escaped_form_def by (elim disjE exE conjE) simp_all

text \<open>Whatever a string contains, it is read back as it was; bytes that are not a string are not escaped.\<close>

theorem string_printed:
  "read_string (concat (map escape_char s) @ 0x22 # rest) = Some (s, rest)"
proof (induction s)
  case (Cons c s)
  then show ?case unfolding list.map concat.simps append_assoc read_escaped by simp
qed simp

declare read_string.simps [simp del]

corollary strings_printed_apart:
  "print_object show32 show64 (Str s) = print_object show32 show64 (Str t) \<longleftrightarrow> s = t"
proof
  assume "print_object show32 show64 (Str s) = print_object show32 show64 (Str t)"
  then have "concat (map escape_char s) @ 0x22 # [] = concat (map escape_char t) @ 0x22 # []" by simp
  then show "s = t" using string_printed [of s "[]"] string_printed [of t "[]"] by (metis option.inject prod.inject)
qed simp

lemma bytes_not_escaped:
  "print_object show32 show64 (ARRAY [BIN [0x61, 0x22, 0x2c, 0x20, 0x22, 0x62]]) =
   print_object show32 show64 (ARRAY [BIN [0x61], BIN [0x62]])"
  by (simp add: ascii_def separated_def)

end
