(* ===== verification/Msgpack_Compare.thy ===== *)
theory Msgpack_Compare
  imports Msgpack_Convert
begin

text \<open>
  Comparing objects (\<open>operator==\<close> of \<open>v1/object.hpp\<close>) and the extension types of
  \<open>v1/adaptor/ext.hpp\<close>. In memory the type of an extension is the byte before its data, and
  the number of bytes that are compared does not count it: the last byte is left out.
\<close>

unbundle bit_operations_syntax

section \<open>Comparing floating point numbers\<close>

text \<open>By IEEE 754: a number that is none is not equal to anything, and the two zeros are equal.\<close>

definition nan32 :: "32 word \<Rightarrow> bool" where
  "nan32 x \<longleftrightarrow> x AND 0x7f800000 = 0x7f800000 \<and> x AND 0x7fffff \<noteq> 0"

definition nan64 :: "64 word \<Rightarrow> bool" where
  "nan64 x \<longleftrightarrow> x AND 0x7ff0000000000000 = 0x7ff0000000000000 \<and> x AND 0xfffffffffffff \<noteq> 0"

definition float_eq :: "32 word \<Rightarrow> 32 word \<Rightarrow> bool" where
  "float_eq x y \<longleftrightarrow> \<not> nan32 x \<and> \<not> nan32 y \<and> (x = y \<or> x AND 0x7fffffff = 0 \<and> y AND 0x7fffffff = 0)"

definition double_eq :: "64 word \<Rightarrow> 64 word \<Rightarrow> bool" where
  "double_eq x y \<longleftrightarrow>
     \<not> nan64 x \<and> \<not> nan64 y \<and> (x = y \<or> x AND 0x7fffffffffffffff = 0 \<and> y AND 0x7fffffffffffffff = 0)"

section \<open>Comparing objects\<close>

text \<open>\<open>memcmp\<close> of \<open>n\<close> bytes, as far as it is asked whether they are equal.\<close>

definition memcmp_eq :: "byte list \<Rightarrow> byte list \<Rightarrow> nat \<Rightarrow> bool" where
  "memcmp_eq a b n \<longleftrightarrow> take n a = take n b"

function (sequential) object_eq :: "object \<Rightarrow> object \<Rightarrow> bool"
  and objects_eq :: "object list \<Rightarrow> object list \<Rightarrow> bool"
  and entries_eq :: "(object \<times> object) list \<Rightarrow> (object \<times> object) list \<Rightarrow> bool" where
  "object_eq NIL y = (y = NIL)"
| "object_eq (BOOLEAN a) y = (case y of BOOLEAN b \<Rightarrow> a = b | _ \<Rightarrow> False)"
| "object_eq (POSITIVE_INTEGER a) y = (case y of POSITIVE_INTEGER b \<Rightarrow> a = b | _ \<Rightarrow> False)"
| "object_eq (NEGATIVE_INTEGER a) y = (case y of NEGATIVE_INTEGER b \<Rightarrow> a = b | _ \<Rightarrow> False)"
| "object_eq (FLOAT32 a) y = (case y of FLOAT32 b \<Rightarrow> float_eq a b | _ \<Rightarrow> False)"
| "object_eq (FLOAT64 a) y = (case y of FLOAT64 b \<Rightarrow> double_eq a b | _ \<Rightarrow> False)"
| "object_eq (Str a) y = (case y of Str b \<Rightarrow> length a = length b \<and> memcmp_eq a b (length a) | _ \<Rightarrow> False)"
| "object_eq (BIN a) y = (case y of BIN b \<Rightarrow> length a = length b \<and> memcmp_eq a b (length a) | _ \<Rightarrow> False)"
| "object_eq (EXT s a) y =
     (case y of EXT t b \<Rightarrow> length a = length b \<and> memcmp_eq (s # a) (t # b) (length a) | _ \<Rightarrow> False)"
| "object_eq (ARRAY xs) y = (case y of ARRAY ys \<Rightarrow> length xs = length ys \<and> objects_eq xs ys | _ \<Rightarrow> False)"
| "object_eq (MAP xs) y = (case y of MAP ys \<Rightarrow> length xs = length ys \<and> entries_eq xs ys | _ \<Rightarrow> False)"
| "objects_eq (x # xs) (y # ys) = (object_eq x y \<and> objects_eq xs ys)"
| "objects_eq xs ys = True"
| "entries_eq ((k, v) # xs) ((l, w) # ys) = (object_eq k l \<and> object_eq v w \<and> entries_eq xs ys)"
| "entries_eq xs ys = True"
  by pat_completeness auto
termination
  by (relation "measure (case_sum (\<lambda>(x, y). size x)
      (case_sum (\<lambda>(xs, ys). size_list size xs) (\<lambda>(xs, ys). size_list (size_prod size size) xs)))")
    auto

definition object_ne :: "object \<Rightarrow> object \<Rightarrow> bool" where
  "object_ne x y \<longleftrightarrow> \<not> object_eq x y"

section \<open>What is compared\<close>

text \<open>
  Up to the parts that are not looked at: a zero of either sign, and of an extension all but
  the type and the data without its last byte.
\<close>

definition number_bits32 :: "32 word \<Rightarrow> 32 word" where
  "number_bits32 x = (if x AND 0x7fffffff = 0 then 0 else x)"

definition number_bits64 :: "64 word \<Rightarrow> 64 word" where
  "number_bits64 x = (if x AND 0x7fffffffffffffff = 0 then 0 else x)"

fun compared :: "object \<Rightarrow> object" where
  "compared (FLOAT32 a) = FLOAT32 (number_bits32 a)"
| "compared (FLOAT64 a) = FLOAT64 (number_bits64 a)"
| "compared (EXT s a) = EXT (if a = [] then 0 else s) (if a = [] then [] else butlast a @ [0])"
| "compared (ARRAY xs) = ARRAY (map compared xs)"
| "compared (MAP xs) = MAP (map (map_prod compared compared) xs)"
| "compared x = x"

fun has_nan :: "object \<Rightarrow> bool" where
  "has_nan (FLOAT32 a) = nan32 a"
| "has_nan (FLOAT64 a) = nan64 a"
| "has_nan (ARRAY xs) = list_ex has_nan xs"
| "has_nan (MAP xs) = list_ex (\<lambda>(k, v). has_nan k \<or> has_nan v) xs"
| "has_nan x = False"

lemma float_eq_bits: "float_eq x y \<longleftrightarrow> \<not> nan32 x \<and> \<not> nan32 y \<and> number_bits32 x = number_bits32 y"
  by (auto simp: float_eq_def number_bits32_def)

lemma double_eq_bits: "double_eq x y \<longleftrightarrow> \<not> nan64 x \<and> \<not> nan64 y \<and> number_bits64 x = number_bits64 y"
  by (auto simp: double_eq_def number_bits64_def)

lemma ext_eq_compared:
  "length a = length b \<and> memcmp_eq (s # a) (t # b) (length a) \<longleftrightarrow> compared (EXT s a) = compared (EXT t b)"
proof (cases a rule: rev_cases)
  case (snoc a' x)
  then show ?thesis
    by (cases b rule: rev_cases) (auto simp: memcmp_eq_def take_Cons')
qed (auto simp: memcmp_eq_def)

lemma object_eq_compared:
  "object_eq x y \<longleftrightarrow> \<not> has_nan x \<and> \<not> has_nan y \<and> compared x = compared y"
  and objects_eq_compared: "length xs = length ys \<Longrightarrow> objects_eq xs ys \<longleftrightarrow>
     \<not> list_ex has_nan xs \<and> \<not> list_ex has_nan ys \<and> map compared xs = map compared ys"
  and entries_eq_compared: "length kvs = length lws \<Longrightarrow> entries_eq kvs lws \<longleftrightarrow>
     \<not> list_ex (\<lambda>(k, v). has_nan k \<or> has_nan v) kvs \<and> \<not> list_ex (\<lambda>(k, v). has_nan k \<or> has_nan v) lws \<and>
     map (map_prod compared compared) kvs = map (map_prod compared compared) lws"
proof (induction x y and xs ys and kvs lws rule: object_eq_objects_eq_entries_eq.induct)
  case (1 y)
  then show ?case by (cases y) auto
next
  case (5 a y)
  then show ?case
    by (cases y) (auto simp: float_eq_bits)
next
  case (6 a y)
  then show ?case
    by (cases y) (auto simp: double_eq_bits)
next
  case (9 s a y)
  then show ?case
    using ext_eq_compared [of a _ s] by (cases y) auto
next
  case (10 xs y)
  then show ?case
    by (cases y) (auto dest: map_eq_imp_length_eq)
next
  case (11 xs y)
  then show ?case
    by (cases y) (auto dest: map_eq_imp_length_eq)
qed (auto simp: memcmp_eq_def split: object.splits)

text \<open>So it is an equivalence on the objects without such numbers, though not equality.\<close>

lemma object_eq_equivalence:
  "object_eq x x \<longleftrightarrow> \<not> has_nan x"
  "object_eq x y \<Longrightarrow> object_eq y x"
  "object_eq x y \<Longrightarrow> object_eq y z \<Longrightarrow> object_eq x z"
  by (simp_all add: object_eq_compared)

fun plain_object :: "object \<Rightarrow> bool" where
  "plain_object (FLOAT32 a) = False"
| "plain_object (FLOAT64 a) = False"
| "plain_object (EXT s a) = False"
| "plain_object (ARRAY xs) = list_all plain_object xs"
| "plain_object (MAP xs) = list_all (\<lambda>(k, v). plain_object k \<and> plain_object v) xs"
| "plain_object x = True"

lemma plain_compared: "plain_object x \<Longrightarrow> compared x = x \<and> \<not> has_nan x"
proof (induction x rule: plain_object.induct)
  case (4 xs)
  then show ?case by (auto simp: list_all_iff list_ex_iff intro: map_idI)
next
  case (5 xs)
  then show ?case by (fastforce simp: list_all_iff list_ex_iff intro: map_idI)
qed simp_all

lemma object_eq_plain: "plain_object x \<Longrightarrow> plain_object y \<Longrightarrow> object_eq x y \<longleftrightarrow> x = y"
  by (simp add: object_eq_compared plain_compared)

text \<open>The last byte of an extension makes no difference, nor the type of an empty one.\<close>

lemma object_eq_ext:
  "object_eq (EXT s (b @ [x])) (EXT s (b @ [y]))"
  "object_eq (EXT s []) (EXT t [])"
  by (simp_all add: object_eq_compared)

section \<open>Extension types\<close>

text \<open>The first of the bytes is the type. A size of 2 ^ 32 - 1 wraps when the type is counted.\<close>

record ext = m_data :: "byte list"

record ext_ref =
  m_ptr :: "byte list"
  m_size :: "32 word"

definition new_ext :: "byte \<Rightarrow> byte list \<Rightarrow> ext" where
  "new_ext t p = \<lparr>m_data = t # p\<rparr>"

definition ext_type :: "ext \<Rightarrow> byte" where "ext_type x = m_data x ! 0"
definition ext_data :: "ext \<Rightarrow> byte list" where "ext_data x = drop 1 (m_data x)"
definition ext_size :: "ext \<Rightarrow> 32 word" where "ext_size x = word_of_nat (length (m_data x)) - 1"
definition ext_eq :: "ext \<Rightarrow> ext \<Rightarrow> bool" where "ext_eq x y \<longleftrightarrow> m_data x = m_data y"

text \<open>Without bytes the pointer is to the size, four bytes of zeros.\<close>

definition new_ext_ref :: "byte list \<Rightarrow> 32 word \<Rightarrow> ext_ref" where
  "new_ext_ref p s = \<lparr>m_ptr = (if s = 0 then [0, 0, 0, 0] else p), m_size = (if s = 0 then 0 else s - 1)\<rparr>"

definition ext_ref_of :: "ext \<Rightarrow> ext_ref" where
  "ext_ref_of x = \<lparr>m_ptr = m_data x, m_size = ext_size x\<rparr>"

definition ext_of_ref :: "ext_ref \<Rightarrow> ext" where
  "ext_of_ref x = \<lparr>m_data = m_ptr x ! 0 # take (unat (m_size x)) (drop 1 (m_ptr x))\<rparr>"

definition ext_ref_eq :: "ext_ref \<Rightarrow> ext_ref \<Rightarrow> bool" where
  "ext_ref_eq x y \<longleftrightarrow> m_size x = m_size y \<and> memcmp_eq (m_ptr x) (m_ptr y) (unat (m_size x))"

definition convert_ext :: "object \<Rightarrow> ext option" where
  "convert_ext obj = (case obj of EXT t b \<Rightarrow> Some (new_ext t b) | _ \<Rightarrow> None)"

definition convert_ext_ref :: "object \<Rightarrow> ext_ref option" where
  "convert_ext_ref obj = (case obj of EXT t b \<Rightarrow> Some (new_ext_ref (t # b) (size32 b + 1)) | _ \<Rightarrow> None)"

definition pack_ext_value :: "ext \<Rightarrow> byte list" where
  "pack_ext_value v = pack_ext (ucast (ext_size v)) (ext_type v) @ pack_ext_body (ext_data v)"

definition object_ext :: "ext \<Rightarrow> object" where
  "object_ext v = EXT (ext_type v) (ext_data v)"

lemma ext_read_back:
  assumes "m_data v \<noteq> []" "length (m_data v) \<le> 0xffffffff"
  shows "pack_ext_value v = pack_object (object_ext v)" "convert_ext (object_ext v) = Some v"
    and "map_option ext_of_ref (convert_ext_ref (object_ext v)) = Some v" "ext_of_ref (ext_ref_of v) = v"
proof -
  obtain t b where v: "v = \<lparr>m_data = t # b\<rparr>"
    using assms(1) by (cases v; cases "m_data v") auto
  have len: "Suc (length b) \<le> 0xffffffff" using assms(2) v by simp
  then have n: "unat (word_of_nat (length b) :: 32 word) = length b"
    and n1: "unat (word_of_nat (Suc (length b)) :: 32 word) = Suc (length b)"
    by (subst unat_of_nat; simp)+
  have "word_of_nat (length b) + 1 \<noteq> (0 :: 32 word)"
  proof
    assume "word_of_nat (length b) + 1 = (0 :: 32 word)"
    then have "(word_of_nat (Suc (length b)) :: 32 word) = 0" by (simp add: add.commute)
    with n1 show False by simp
  qed
  moreover have obj: "object_ext v = EXT t b" "ext_size v = word_of_nat (length b)" "ext_type v = t" "ext_data v = b"
    by (simp_all add: v object_ext_def ext_type_def ext_data_def ext_size_def)
  ultimately show "map_option ext_of_ref (convert_ext_ref (object_ext v)) = Some v" "ext_of_ref (ext_ref_of v) = v"
    using n by (simp_all add: convert_ext_ref_def new_ext_ref_def ext_of_ref_def ext_ref_of_def size32_def v)
  show "pack_ext_value v = pack_object (object_ext v)"
    by (simp add: pack_ext_value_def obj size32_def)
  show "convert_ext (object_ext v) = Some v"
    by (simp add: convert_ext_def new_ext_def obj) (simp add: v)
qed

text \<open>A reference compares one byte too few; the largest extension becomes an empty one.\<close>

lemma ext_ref_eq_misses:
  "unat n = length b + 1 \<Longrightarrow>
   ext_ref_eq \<lparr>m_ptr = t # b @ [x], m_size = n\<rparr> \<lparr>m_ptr = t # b @ [y], m_size = n\<rparr>"
  by (simp add: ext_ref_eq_def memcmp_eq_def)

lemma largest_ext_lost:
  "size32 b = 0xffffffff \<Longrightarrow> map_option (\<lambda>r. m_size r) (convert_ext_ref (EXT t b)) = Some 0"
  by (simp add: convert_ext_ref_def new_ext_ref_def)

end
