(* ===== verification/Map_Worker.thy ===== *)
theory Map_Worker
  imports Controllers
begin

text \<open>
  What \<open>map_controller_module\<close> does on each of its branches: the temporary files of a
  successful run hold exactly the pairs emitted for the worker's share of the lines,
  split by the hash of the key; a missing input file, a throwing map function and an
  unregistered class leave every file as it was.
\<close>

section \<open>Shares of lines and keys\<close>

text \<open>The numbered lines of a mapper's share, and the pairs the client emits for them.\<close>

fun number_lines :: "int \<Rightarrow> 'a list \<Rightarrow> (int \<times> 'a) list" where
  "number_lines n [] = []"
| "number_lines n (l # ls) = (n, l) # number_lines (n + 1) ls"

definition share :: "(int \<Rightarrow> 64 word) \<Rightarrow> int \<Rightarrow> int \<Rightarrow> (int \<times> 'a) list \<Rightarrow> (int \<times> 'a) list" where
  "share hash_int nr_mapper m nls = filter (\<lambda>nl. bucket hash_int nr_mapper (fst nl) = m) nls"

definition mapped ::
  "(string \<Rightarrow> string \<Rightarrow> (string \<times> string) list) \<Rightarrow> (int \<times> string) list \<Rightarrow> (string \<times> string) list" where
  "mapped emits nls = concat (map (\<lambda>nl. emits (to_string (fst nl)) (snd nl)) nls)"

text \<open>What a mapper writes for one reducer.\<close>

definition key_share ::
  "(string \<Rightarrow> 64 word) \<Rightarrow> int \<Rightarrow> int \<Rightarrow> (string \<times> 'v) list \<Rightarrow> (string \<times> 'v) list" where
  "key_share hash_str nr_reducer r kvs = filter (\<lambda>kv. bucket hash_str nr_reducer (fst kv) = r) kvs"

definition temp_updates ::
  "(string \<Rightarrow> 64 word) \<Rightarrow> string \<Rightarrow> int \<Rightarrow> int \<Rightarrow> (string \<times> string) list \<Rightarrow> string \<Rightarrow> string option" where
  "temp_updates hash_str dataDirectory m nr_reducer kvs =
     map_of (map (\<lambda>r. (temp_path dataDirectory m r,
                        concat (map kv_line (key_share hash_str nr_reducer r kvs))))
                 [0..nr_reducer - 1])"

lemma share_Cons:
  "share h N m (nl # nls) =
     (if bucket h N (fst nl) = m then nl # share h N m nls else share h N m nls)"
  by (simp add: share_def)

text \<open>
  The loop over all lines, with its hash test in every iteration, is a fold of the map
  function over the worker's share, for any class and whether or not it throws.
\<close>

definition map_record :: "int \<times> string \<Rightarrow> mr_pointer \<Rightarrow> (cpp_error + int) + mr_pointer" where
  "map_record nl p = apply_map_fn p (fst nl) (snd nl)"

lemma map_lines_fold:
  assumes "0 < N" "N \<le> INT_MAX" "\<not> failbit s" "eofbit s \<Longrightarrow> buf s = []"
    and "0 \<le> n" "n + int (length (lines_of (buf s))) \<le> INT_MAX"
  shows "map_lines h N m s w n p =
    foldM map_record (share h N m (number_lines n (lines_of (buf s)))) p"
  using assms(3-)
proof (induction "length (buf s)" arbitrary: s w n p rule: less_induct)
  case less
  obtain s1 l where g: "getline s w (CHR 0x0A) = (s1, l)" by fastforce
  note gl = getline_lines [OF less.prems(1,2), of w, unfolded g, simplified]
  show ?case
  proof (cases "lines_of (buf s)")
    case Nil
    with gl g show ?thesis
      by (simp add: map_lines.simps [of h N m s] share_def)
  next
    case (Cons t ts)
    with gl have s1: "\<not> failbit s1" "l = t" "lines_of (buf s1) = ts"
      "length (buf s1) < length (buf s)" "eofbit s1 \<Longrightarrow> buf s1 = []"
      by auto
    have next_: "int_add n 1 = Inr (n + 1)"
      using less.prems(3,4) Cons by (simp add: int_add_def in_int_def INT_MIN_def)
    have IH: "map_lines h N m s1 t (n + 1) p' =
      foldM map_record (share h N m (number_lines (n + 1) ts)) p'" for p'
      using less.hyps [of s1 "n + 1" l p'] s1 less.prems(3,4) Cons by auto
    show ?thesis
      using g s1(1,2) Cons
      by (simp add: map_lines.simps [of h N m s] hash_in_range_bucket [OF assms(1,2)] next_ IH
        share_Cons map_record_def sbind_def split: sum.split)
  qed
qed

context mr_app
begin

lemma fold_map_record:
  "foldM map_record nls (Some (cls, ob)) = Inr (Some (cls, emit_all (mapped emits nls) ob))"
  by (induction nls arbitrary: ob) (simp_all add: map_record_def apply_map_fn_def map_law mapped_def)

end

lemma fold_open_temp_files:
  assumes "\<forall>r\<in>set rs. creatable fs (p r)"
  shows "fold (\<lambda>r (os, fs). case ofstream_open (p r) fs of (x, fs') \<Rightarrow> (os @ [x], fs')) rs (os0, fs) =
    (os0 @ map (\<lambda>r. Some (p r)) rs,
     fs\<lparr>files := \<lambda>q. if q \<in> p ` set rs then Some [] else files fs q\<rparr>)"
  using assms
proof (induction rs arbitrary: os0 fs)
  case (Cons r rs)
  then show ?case
    by (simp add: ofstream_open_ok cong: if_cong) (auto intro!: arg_cong [where f = "\<lambda>f. fs\<lparr>files := f\<rparr>"])
qed simp

lemma put_record_kv_line: "put_record os elem fs = ofstream_put os (kv_line elem) fs"
  by (simp add: put_record_def kv_line_def flip: ofstream_put_append)

lemma files_fold_put_record:
  "files (fold (\<lambda>kv. put_record (Some (p kv)) kv) kvs fs) q =
     map_option (\<lambda>c. c @ concat (map kv_line (filter (\<lambda>kv. p kv = q) kvs))) (files fs q)"
  by (induction kvs arbitrary: fs)
    (simp_all add: put_record_kv_line files_ofstream_put option.map_ident option.map_comp comp_def)

lemma creatable_fold_put_record [simp]:
  "creatable (fold (\<lambda>kv. put_record (Some (p kv)) kv) kvs fs) = creatable fs"
  by (induction kvs arbitrary: fs) (simp_all add: put_record_kv_line)

lemma nth_reducer_path:
  "0 \<le> i \<Longrightarrow> i < R \<Longrightarrow> map f [0..R - 1] ! nat i = f i"
  by (simp add: nth_upto)

lemma write_intermediates:
  assumes "0 < R" "R \<le> INT_MAX"
  shows "foldM (write_intermediate hs (map (\<lambda>r. Some (p r)) [0..R - 1]) R) kvs fs =
    Inr (fold (\<lambda>kv. put_record (Some (p (bucket hs R (fst kv)))) kv) kvs fs)"
proof (rule foldM_Inr)
  fix kv :: "string \<times> string" and s
  have "0 \<le> bucket hs R (fst kv)" "bucket hs R (fst kv) < R"
    using bucket_range [OF assms(1), of hs "fst kv"] by auto
  then show "write_intermediate hs (map (\<lambda>r. Some (p r)) [0..R - 1]) R kv s =
      Inr (put_record (Some (p (bucket hs R (fst kv)))) kv s)"
    by (simp add: write_intermediate_def hash_in_range_bucket [OF assms] nth_reducer_path)
qed

lemma map_of_paths:
  assumes "inj_on p (set rs)" "r \<in> set rs"
  shows "map_of (map (\<lambda>r. (p r, f r)) rs) (p r) = Some (f r)"
  using assms by (induction rs) (auto simp: inj_on_def)

lemma map_of_paths_None: "q \<notin> p ` set rs \<Longrightarrow> map_of (map (\<lambda>r. (p r, f r)) rs) q = None"
  by (auto simp: map_of_eq_None_iff image_iff)

lemma inj_temp_path: "R \<le> INT_MAX \<Longrightarrow> in_int m \<Longrightarrow> inj_on (temp_path d m) {0..R - 1}"
  by (rule inj_onI) (auto dest!: temp_path_inject simp: in_int_nonneg)

lemma temp_files_content:
  assumes "0 < R" "R \<le> INT_MAX" "in_int m" "\<forall>r. 0 \<le> r \<and> r < R \<longrightarrow> creatable fs (temp_path d m r)"
  shows "foldM (write_intermediate hs (fst (open_temp_files d m R fs)) R) kvs (snd (open_temp_files d m R fs))
    = Inr (fs\<lparr>files := files fs ++ temp_updates hs d m R kvs\<rparr>)"
proof -
  let ?p = "temp_path d m"
  let ?fs1 = "fs\<lparr>files := \<lambda>q. if q \<in> ?p ` {0..R - 1} then Some [] else files fs q\<rparr>"
  have op: "open_temp_files d m R fs = (map (\<lambda>r. Some (?p r)) [0..R - 1], ?fs1)"
    using assms(4) by (simp add: open_temp_files_def fold_open_temp_files)
  let ?w = "\<lambda>kv. put_record (Some (?p (bucket hs R (fst kv)))) kv"
  have eq: "files (fold ?w kvs ?fs1) q = (files fs ++ temp_updates hs d m R kvs) q" for q
  proof (cases "q \<in> ?p ` {0..R - 1}")
    case True
    then obtain r where r: "0 \<le> r" "r < R" and q: "q = ?p r" by auto
    have bucket_eq: "?p (bucket hs R k) = ?p r \<longleftrightarrow> bucket hs R k = r" for k
      using inj_onD [OF inj_temp_path [OF assms(2,3)]] bucket_range [OF assms(1), of hs k] r by auto
    have look: "map_of (map (\<lambda>r. (?p r, f r)) [0..R - 1]) (?p r) = Some (f r)" for f :: "int \<Rightarrow> string"
      using r inj_temp_path [OF assms(2,3)] by (intro map_of_paths) auto
    show ?thesis
      using True by (simp add: files_fold_put_record q look temp_updates_def key_share_def bucket_eq)
  next
    case False
    then have "\<forall>kv. ?p (bucket hs R (fst kv)) \<noteq> q"
      using bucket_range [OF assms(1)] by force
    then show ?thesis
      using False by (simp add: files_fold_put_record temp_updates_def map_of_paths_None
          map_add_def option.map_ident)
  qed
  have "fold ?w kvs ?fs1 = fs\<lparr>files := files fs ++ temp_updates hs d m R kvs\<rparr>"
    by (rule file_system.equality) (simp_all add: eq fun_eq_iff)
  then show ?thesis
    by (simp add: op write_intermediates [OF assms(1,2)])
qed

section \<open>The whole module\<close>

lemma getMapReduceInterface_Some:
  "fac n = Some cls \<Longrightarrow> getMapReduceInterface n fac = Some (cls, new_MapReduceInterface)"
  by (simp add: getMapReduceInterface_def)

text \<open>The pairs one mapper emits for a given input text.\<close>

definition mapper_pairs ::
  "(string \<Rightarrow> string \<Rightarrow> (string \<times> string) list) \<Rightarrow> (int \<Rightarrow> 64 word) \<Rightarrow> int \<Rightarrow> string \<Rightarrow> int
    \<Rightarrow> (string \<times> string) list" where
  "mapper_pairs emits hash_int nr_mapper text m =
     mapped emits (share hash_int nr_mapper m (number_lines 0 (lines_of text)))"

context mr_app
begin

lemma map_controller_ok:
  assumes "fac ''MapReduce'' = Some cls"
    and "files fs (input_path d f) = Some text"
    and "0 < N" "N \<le> INT_MAX" "0 < R" "R \<le> INT_MAX" "in_int m"
    and "int (length (lines_of text)) \<le> INT_MAX"
    and "\<forall>r. 0 \<le> r \<and> r < R \<longrightarrow> creatable fs (temp_path d m r)"
  shows "map_controller_module fac hi hs f d N R m fs =
    (Inr 0, fs\<lparr>files := files fs ++ temp_updates hs d m R (mapper_pairs emits hi N text m)\<rparr>)"
proof -
  let ?kvs = "mapper_pairs emits hi N text m"
  have good: "good (ifstream fs (input_path d f))"
    using assms(2) by (simp add: good_ifstream)
  have lines: "map_lines hi N m (istringstream text) [] 0 (Some (cls, new_MapReduceInterface)) =
      Inr (Some (cls, emit_all ?kvs new_MapReduceInterface))"
    using map_lines_fold [OF assms(3,4), of "istringstream text" 0] assms(8)
    by (simp add: mapper_pairs_def fold_map_record)
  obtain tf fs1 where op: "open_temp_files d m R fs = (tf, fs1)" by fastforce
  have "foldM (write_intermediate hs tf R) ?kvs fs1 =
      Inr (fs\<lparr>files := files fs ++ temp_updates hs d m R ?kvs\<rparr>)"
    using temp_files_content [OF assms(5,6,7,9), of hs ?kvs] by (simp add: op)
  then show ?thesis
    using good by (simp add: map_controller_module_def Let_def getMapReduceInterface_Some [of fac, OF assms(1)]
        ifstream_Some [OF assms(2)] lines op)
qed

end

section \<open>The other branches\<close>

lemma map_controller_missing_input:
  "files fs (input_path d f) = None \<Longrightarrow>
   map_controller_module fac hi hs f d N R m fs = (Inr (- 1), fs)"
  by (simp add: map_controller_module_def good_ifstream)

text \<open>
  C9. A map function that throws an \<open>int\<close> on some line, after it went well on the lines of
  the share before it, ends the task with \<open>-2\<close>; no temporary file is touched, those of an
  earlier run included. The class is any class.
\<close>

theorem map_controller_throws:
  assumes "fac ''MapReduce'' = Some c"
    and "files fs (input_path d f) = Some inp"
    and "0 < N" "N \<le> INT_MAX" "int (length (lines_of inp)) \<le> INT_MAX"
    and "share hi N m (number_lines 0 (lines_of inp)) = before @ (i, t) # rest"
    and "foldM map_record before (Some (c, new_MapReduceInterface)) = Inr (Some (c', ob))"
    and "map_fn c' (to_string i) t ob = Inl (IntExn e)"
  shows "map_controller_module fac hi hs f d N R m fs = (Inr (- 2), fs)"
proof -
  have "map_lines hi N m (istringstream inp) [] 0 (Some (c, new_MapReduceInterface)) = Inl (Inr (- 2))"
    using map_lines_fold [OF assms(3,4), of "istringstream inp" 0] assms(5-)
    by (simp add: foldM_append map_record_def apply_map_fn_def)
  then show ?thesis
    using assms(2) by (simp add: map_controller_module_def Let_def good_def
        getMapReduceInterface_Some [of fac, OF assms(1)] ifstream_Some)
qed

section \<open>The workers' shares cover the input\<close>

lemma number_lines_append:
  "number_lines n (xs @ ys) = number_lines n xs @ number_lines (n + int (length xs)) ys"
  by (induction xs arbitrary: n) (simp_all add: algebra_simps)

lemma map_snd_number_lines [simp]: "map snd (number_lines n ls) = ls"
  by (induction ls arbitrary: n) auto

text \<open>Every line is in the share of exactly one worker.\<close>

lemma share_unique:
  "nl \<in> set (share h N m nls) \<Longrightarrow> nl \<in> set (share h N m' nls) \<Longrightarrow> m = m'"
  by (simp add: share_def)

lemma share_covers:
  assumes "0 < N"
  shows "(\<Union>m\<in>{0..<N}. set (share h N m nls)) = set nls"
  using bucket_range [OF assms] by (fastforce simp: share_def)

end
