(* ===== verification/Reduce_Worker.thy ===== *)
theory Reduce_Worker
  imports Map_Worker
begin

text \<open>
  What \<open>reduce_controller_module\<close> does: reading the temporary files of all mappers gives
  the grouping by key of everything written for this reducer; the reduce function is
  applied once per key in increasing order; the output file holds one line per emitted
  entry. An \<open>int\<close> exception of the reduce function gives \<open>-3\<close> and no output.
\<close>

section \<open>Grouping\<close>

lemma fold_accumulate:
  assumes "\<forall>e\<in>set es. fst e \<in> fst ` set temp"
  shows "fold (accumulate temp) es acc = fold smap.extended es acc"
  using assms
proof (induction es arbitrary: acc)
  case (Cons e es)
  then have "smap_count temp (fst e) \<noteq> 0"
    by (auto simp: smap_count_def map_of_eq_None_iff)
  with Cons show ?case by (simp add: accumulate_def smap.extended_def)
qed simp

text \<open>The pairs a file of records stands for; a missing file stands for none.\<close>

definition temp_pairs :: "file_system \<Rightarrow> string \<Rightarrow> (string \<times> string) list" where
  "temp_pairs fs p = (case files fs p of None \<Rightarrow> [] | Some c \<Rightarrow> pairs (words c))"

lemma read_text_group: "read_text p fs = group_by_key (temp_pairs fs p)"
  by (simp add: temp_pairs_def read_text_words read_text_missing group_by_key_def
      split: option.split)

definition reducer_groups ::
  "file_system \<Rightarrow> string \<Rightarrow> int \<Rightarrow> int \<Rightarrow> (string \<times> string list) list" where
  "reducer_groups fs d N r =
     group_by_key (concat (map (\<lambda>m. temp_pairs fs (temp_path d m r)) [0..N - 1]))"

lemma read_temp_files_group: "read_temp_files d N r fs = reducer_groups fs d N r"
proof -
  let ?p = "\<lambda>m. temp_pairs fs (temp_path d m r)"
  have step: "fold (accumulate (group_by_key xs)) (group_by_key xs) acc =
      fold smap.extended (group_by_key xs) acc" for xs :: "(string \<times> string) list" and acc
    by (rule fold_accumulate) simp
  have "read_temp_files d N r fs =
      fold (\<lambda>xs. fold smap.extended (group_by_key xs)) (map ?p [0..N - 1]) []"
    by (simp add: read_temp_files_def Let_def read_text_group step fold_map comp_def)
  moreover have "smap.grouped
      (fold (\<lambda>xs. fold smap.extended (group_by_key xs)) (map ?p [0..N - 1]) [])
      ([] @ concat (map ?p [0..N - 1]))"
    by (rule smap.grouped_fold_extended) (rule smap.grouped_empty)
  ultimately show ?thesis
    unfolding reducer_groups_def using smap.grouped_entries by (metis append_Nil)
qed

section \<open>Reducing\<close>

definition reduced ::
  "(string \<Rightarrow> string list \<Rightarrow> (string \<times> string list) list) \<Rightarrow> (string \<times> string list) list
    \<Rightarrow> (string \<times> string list) list" where
  "reduced outs groups = concat (map (\<lambda>g. outs (fst g) (snd g)) groups)"

context mr_app
begin

lemma foldM_apply_reduce_fn:
  "\<forall>g\<in>set gs. accepts (fst g) (snd g) \<Longrightarrow>
   foldM apply_reduce_fn gs (Some (cls, ob)) = Inr (Some (cls, output_all (reduced outs gs) ob))"
  by (induction gs arbitrary: ob) (simp_all add: apply_reduce_fn_def reduce_law reduced_def)

lemma reduce_controller_ok:
  assumes "fac ''MapReduce'' = Some cls"
    and "\<forall>g\<in>set (reducer_groups fs d N r). accepts (fst g) (snd g)"
    and "creatable fs (output_path d r)"
  shows "reduce_controller_module fac d R N r fs =
    (Inr 0, fs\<lparr>files := (files fs)(output_path d r \<mapsto>
        concat (map entry_line (reduced outs (reducer_groups fs d N r))))\<rparr>)"
  using assms foldM_apply_reduce_fn [OF assms(2), of new_MapReduceInterface]
  by (simp add: reduce_controller_module_def getMapReduceInterface_Some read_temp_files_group
      write_key_val_vector_eq)

end

section \<open>The other branches\<close>

text \<open>No branch returns the code \<open>-1\<close>: a temporary file that cannot be read counts as empty.\<close>

lemma foldM_apply_reduce_fn_code:
  "foldM apply_reduce_fn es p = Inl r \<Longrightarrow> r = Inr (- 3) \<or> (\<exists>e. r = Inl e)"
  by (induction es arbitrary: p)
    (auto simp: apply_reduce_fn_def sbind_def split: option.splits sum.splits cpp_error.splits)

lemma reduce_controller_codes:
  "fst (reduce_controller_module fac d R N r fs) = Inr n \<Longrightarrow> n = 0 \<or> n = - 3"
  by (auto simp: reduce_controller_module_def Let_def dest!: foldM_apply_reduce_fn_code
      split: sum.splits option.splits)

text \<open>
  C11. A reduce function that throws an \<open>int\<close> on some key, after it went well on the
  smaller ones, ends the task with \<open>-3\<close>, and the output file of an earlier run stays as
  it was. The class is any class.
\<close>

theorem reduce_controller_throws:
  assumes "fac ''MapReduce'' = Some c"
    and "reducer_groups fs d N r = before @ (k, vs) # rest"
    and "foldM apply_reduce_fn before (Some (c, new_MapReduceInterface)) = Inr (Some (c', ob))"
    and "reduce_fn c' k vs ob = Inl (IntExn e)"
  shows "reduce_controller_module fac d R N r fs = (Inr (- 3), fs)"
  using assms
  by (simp add: reduce_controller_module_def getMapReduceInterface_Some read_temp_files_group
      foldM_append apply_reduce_fn_def)

text \<open>The mapper count only decides which temporary files are read; \<open>nr_reducer\<close> is unused.\<close>

lemma reduce_controller_ignores_nr_reducer:
  "reduce_controller_module fac d R N r fs = reduce_controller_module fac d R' N r fs"
  by (simp add: reduce_controller_module_def)

end
