(* ===== verification/Master_Safety.thy ===== *)
theory Master_Safety
  imports Master
begin

text \<open>
  What \<open>process\<close> guarantees whatever the servers do: a run that returns has the effect of
  every map and every reduce task on disk, although servers were killed in the middle of
  their writes and restarted, and whenever its connections were made. The locale \<open>job\<close> is what the master needs of the tasks:
  each is a function of the input files, repeatable, and writes paths of its own.
\<close>

section \<open>Counting the finished workers\<close>

definition ones :: "int list \<Rightarrow> int" where
  "ones xs = int (length (filter (\<lambda>x. x = 1) xs))"

lemma ones_status_vector [simp]: "ones (status_vector n) = 0"
  by (simp add: ones_def status_vector_def)

lemma length_status_vector [simp]: "length (status_vector n) = nat n"
  by (simp add: status_vector_def)

lemma ones_update: "i < length xs \<Longrightarrow> xs ! i \<noteq> 1 \<Longrightarrow> ones (xs[i := 1]) = ones xs + 1"
proof (induction xs arbitrary: i)
  case (Cons x xs)
  then show ?case by (cases i) (auto simp: ones_def)
qed simp

lemma ones_all: "ones xs = int (length xs) \<Longrightarrow> i < length xs \<Longrightarrow> xs ! i = 1"
  using length_filter_less [of _ xs "\<lambda>x. x = 1"] nth_mem [of i xs]
  by (fastforce simp: ones_def)

lemma ones_if_all: "(\<And>i. i < length xs \<Longrightarrow> xs ! i = 1) \<Longrightarrow> ones xs = int (length xs)"
proof -
  assume "\<And>i. i < length xs \<Longrightarrow> xs ! i = 1"
  then have "\<forall>x\<in>set xs. x = 1" by (auto simp: in_set_conv_nth)
  then show ?thesis by (simp add: ones_def filter_id_conv [THEN iffD2])
qed

section \<open>The two phases alike\<close>

datatype phase = Mapping | Reducing

fun phase_task :: "phase \<Rightarrow> int \<Rightarrow> task" where
  "phase_task Mapping i = MapTask i"
| "phase_task Reducing i = ReduceTask i"

fun phase_flag :: "phase \<Rightarrow> server \<Rightarrow> bool" where
  "phase_flag Mapping sv = map_completed sv"
| "phase_flag Reducing sv = reduce_completed sv"

fun phase_status :: "phase \<Rightarrow> system \<Rightarrow> int list" where
  "phase_status Mapping s = map_task_status s"
| "phase_status Reducing s = reduce_task_status s"

fun phase_count :: "phase \<Rightarrow> system \<Rightarrow> int" where
  "phase_count Mapping s = nr_map_done s"
| "phase_count Reducing s = nr_reduce_done s"

fun poll_pc :: "phase \<Rightarrow> int \<Rightarrow> pc" where
  "poll_pc Mapping i = MapPoll i"
| "poll_pc Reducing i = ReducePoll i"

fun ask_pc :: "phase \<Rightarrow> int \<Rightarrow> pc" where
  "ask_pc Mapping i = MapAsk i"
| "ask_pc Reducing i = ReduceAsk i"

fun call_pc :: "phase \<Rightarrow> int \<Rightarrow> pc" where
  "call_pc Mapping i = MapCall i"
| "call_pc Reducing i = ReduceCall i"

fun poll :: "phase \<Rightarrow> int \<Rightarrow> system \<Rightarrow> system" where
  "poll Mapping = poll_map"
| "poll Reducing = poll_reduce"

fun ask :: "phase \<Rightarrow> int \<Rightarrow> system \<Rightarrow> system" where
  "ask Mapping = ask_map"
| "ask Reducing = ask_reduce"

fun recall :: "phase \<Rightarrow> int \<Rightarrow> system \<Rightarrow> system" where
  "recall Mapping = recall_map"
| "recall Reducing = recall_reduce"

fun serve_phase :: "phase \<Rightarrow> params \<Rightarrow> int \<Rightarrow> server \<Rightarrow> file_system \<Rightarrow> server \<times> file_system" where
  "serve_phase Mapping = handle_map"
| "serve_phase Reducing = handle_reduce"

fun set_flag :: "phase \<Rightarrow> server \<Rightarrow> server" where
  "set_flag Mapping sv = sv\<lparr>map_completed := True\<rparr>"
| "set_flag Reducing sv = sv\<lparr>reduce_completed := True\<rparr>"

abbreviation workers :: "params \<Rightarrow> int set" where
  "workers P \<equiv> set (worker_indices P)"

definition tasks :: "params \<Rightarrow> task set" where
  "tasks P = MapTask ` workers P \<union> ReduceTask ` workers P"

lemma workers_eq: "workers P = {0..<nr_mapper (master P)}"
  by (auto simp: worker_indices_def)

lemma phase_task_tasks: "i \<in> workers P \<Longrightarrow> phase_task ph i \<in> tasks P"
  by (cases ph) (auto simp: tasks_def)

lemma phase_task_inject [simp]: "phase_task ph i = phase_task ph' j \<longleftrightarrow> ph = ph' \<and> i = j"
  by (cases ph; cases ph') auto

lemma set_flag_sel [simp]:
  "alive (set_flag ph sv) = alive sv" "calls (set_flag ph sv) = calls sv"
  "phase_flag ph (set_flag ph sv)"
  by (cases ph; simp)+

lemma dead_server_sel [simp]:
  "\<not> alive dead_server" "calls dead_server = []" "\<not> phase_flag ph dead_server"
  "\<not> map_completed dead_server" "\<not> reduce_completed dead_server"
  by (simp_all add: dead_server_def) (cases ph; simp)

lemma forked_server_sel [simp]:
  "alive forked_server" "calls forked_server = []" "\<not> phase_flag ph forked_server"
  "\<not> map_completed forked_server" "\<not> reduce_completed forked_server"
  by (simp_all add: forked_server_def) (cases ph; simp)

lemma async_call_sel [simp]:
  "alive (async_call t sv) = alive sv" "phase_flag ph (async_call t sv) = phase_flag ph sv"
  "map_completed (async_call t sv) = map_completed sv"
  "reduce_completed (async_call t sv) = reduce_completed sv"
  "calls (async_call t sv) = (if alive sv then calls sv @ [t] else calls sv)"
  "async_call t dead_server = dead_server"
  by (simp_all add: async_call_def) (cases ph; simp)

lemma phase_update [simp]:
  "phase_status ph (servers_update f s) = phase_status ph s"
  "phase_status ph (client_pool_update g s) = phase_status ph s"
  "phase_status ph (disk_update h s) = phase_status ph s"
  "phase_status ph (pc_update k s) = phase_status ph s"
  "phase_count ph (servers_update f s) = phase_count ph s"
  "phase_count ph (client_pool_update g s) = phase_count ph s"
  "phase_count ph (disk_update h s) = phase_count ph s"
  "phase_count ph (pc_update k s) = phase_count ph s"
  by (cases ph; simp)+

lemma set_client_sel [simp]:
  "pc (set_client i c s) = pc s" "map_task_status (set_client i c s) = map_task_status s"
  "reduce_task_status (set_client i c s) = reduce_task_status s"
  "disk (set_client i c s) = disk s" "servers (set_client i c s) = servers s"
  "client_pool (set_client i c s) = (client_pool s)(i := c)"
  "phase_status ph (set_client i c s) = phase_status ph s"
  by (simp_all add: set_client_def)

lemma connect_client_sel [simp]:
  "pc (connect_client i s) = pc s" "map_task_status (connect_client i s) = map_task_status s"
  "reduce_task_status (connect_client i s) = reduce_task_status s" "disk (connect_client i s) = disk s"
  by (simp_all add: connect_client_def)

lemma post_task_fields:
  "disk (post_task t i s) = disk s" "pc (post_task t i s) = pc s"
  "phase_status ph (post_task t i s) = phase_status ph s"
  "phase_count ph (post_task t i s) = phase_count ph s"
  "servers (post_task t i s) = (servers s)(i := servers (post_task t i s) i)"
  "client_pool (post_task t i s) = (client_pool s)(i := client_pool (post_task t i s) i)"
  by (auto simp: post_task_def Let_def)

lemma conn_made_simps [simp]:
  "\<not> conn_made new_pool_client"
  "conn_made (c\<lparr>client_state := st\<rparr>) \<longleftrightarrow> st \<noteq> initial"
  "conn_made (attempting_update f c) = conn_made c"
  "conn_made (unsent_update g c) = conn_made c"
  "conn_made (broken_update h c) = conn_made c"
  by (simp_all add: conn_made_def new_pool_client_def)

lemma new_pool_client_sel [simp]:
  "client_state new_pool_client = initial" "attempting new_pool_client" "unsent new_pool_client = []"
  "\<not> broken new_pool_client"
  by (simp_all add: new_pool_client_def)

lemma serve_phase_task:
  "calls sv = [phase_task ph i] \<Longrightarrow> serve P sv fs = serve_phase ph P i (sv\<lparr>calls := []\<rparr>) fs"
  by (cases ph) (simp_all add: serve_def)

lemma pc_cases:
  obtains (poll) ph i where "pc s = poll_pc ph i" | (ask) ph i where "pc s = ask_pc ph i"
    | (call) ph i where "pc s = call_pc ph i" | (start) i where "pc s = StartCall i"
    | (blocked) "pc s = Blocked" | (aborted) "pc s = Aborted" | (returned) m where "pc s = Returned m"
  by (cases "pc s") (metis poll_pc.simps ask_pc.simps call_pc.simps)+

lemma master_step_pc:
  "pc s = poll_pc ph i \<Longrightarrow> i < nr_mapper (master P) \<Longrightarrow> master_step P s = poll ph i s"
  "pc s = ask_pc ph i \<Longrightarrow> master_step P s = wait_conn_then (ask ph) i s"
  "pc s = call_pc ph i \<Longrightarrow> master_step P s = wait_conn_then (recall ph) i s"
  by (cases ph; simp add: master_step_def)+

section \<open>What the tasks must provide\<close>

definition same_elsewhere :: "params \<Rightarrow> file_system \<Rightarrow> file_system \<Rightarrow> bool" where
  "same_elsewhere P fs fs' \<longleftrightarrow> creatable fs' = creatable fs \<and>
     (\<forall>p. (\<forall>t\<in>tasks P. p \<notin> task_paths P t) \<longrightarrow> files fs' p = files fs p)"

lemma same_elsewhere_refl [simp]: "same_elsewhere P fs fs"
  by (simp add: same_elsewhere_def)

lemma same_elsewhere_trans [trans]:
  "same_elsewhere P fs fs' \<Longrightarrow> same_elsewhere P fs' fs'' \<Longrightarrow> same_elsewhere P fs fs''"
  by (simp add: same_elsewhere_def)

lemma torn_same_elsewhere: "torn P ts fs fs' \<Longrightarrow> set ts \<subseteq> tasks P \<Longrightarrow> same_elsewhere P fs fs'"
  by (auto simp: torn_def same_elsewhere_def)

text \<open>
  \<open>effect t\<close> is what task \<open>t\<close> writes, \<open>ok\<close> the file systems the job can run on.
\<close>

locale job =
  fixes P :: params
    and effect :: "task \<Rightarrow> string \<rightharpoonup> string"
    and ok :: "file_system \<Rightarrow> bool"
  assumes same_count: "ok fs \<Longrightarrow> nr_reducer (master P) = nr_mapper (master P) \<and> 0 \<le> nr_mapper (master P)"
    and ok_elsewhere: "ok fs \<Longrightarrow> same_elsewhere P fs fs' \<Longrightarrow> ok fs'"
    and map_effect: "ok fs \<Longrightarrow> i \<in> workers P \<Longrightarrow>
      handle_map P i sv fs =
        (sv\<lparr>map_completed := True\<rparr>, fs\<lparr>files := files fs ++ effect (MapTask i)\<rparr>)"
    and reduce_effect: "ok fs \<Longrightarrow> i \<in> workers P \<Longrightarrow>
      (\<And>m. m \<in> workers P \<Longrightarrow> effect (MapTask m) \<subseteq>\<^sub>m files fs) \<Longrightarrow>
      handle_reduce P i sv fs =
        (sv\<lparr>reduce_completed := True\<rparr>, fs\<lparr>files := files fs ++ effect (ReduceTask i)\<rparr>)"
    and effect_paths: "ok fs \<Longrightarrow> t \<in> tasks P \<Longrightarrow> dom (effect t) \<subseteq> task_paths P t"
    and paths_disjoint: "ok fs \<Longrightarrow> t \<in> tasks P \<Longrightarrow> t' \<in> tasks P \<Longrightarrow> t \<noteq> t' \<Longrightarrow>
      task_paths P t \<inter> task_paths P t' = {}"
begin

text \<open>The effect of a task is on disk.\<close>

definition finished :: "task \<Rightarrow> file_system \<Rightarrow> bool" where
  "finished t fs \<longleftrightarrow> effect t \<subseteq>\<^sub>m files fs"

definition idle_server :: "phase \<Rightarrow> server \<Rightarrow> bool" where
  "idle_server ph sv \<longleftrightarrow> calls sv = [] \<and> \<not> phase_flag ph sv"

definition server_inv :: "phase \<Rightarrow> int \<Rightarrow> file_system \<Rightarrow> server \<Rightarrow> bool" where
  "server_inv ph i fs sv \<longleftrightarrow>
     idle_server ph sv
     \<or> alive sv \<and> calls sv = [phase_task ph i] \<and> \<not> phase_flag ph sv
     \<or> alive sv \<and> calls sv = [] \<and> phase_flag ph sv \<and> finished (phase_task ph i) fs"

text \<open>
  A client and its server: the master's call is still to be made (\<open>u\<close>), or was lost to a failed
  write, or waits for the connection, or has reached the server, unless that is dead.
\<close>

definition pool_client_inv :: "phase \<Rightarrow> bool \<Rightarrow> int \<Rightarrow> pool_client \<Rightarrow> server \<Rightarrow> bool" where
  "pool_client_inv ph u i c sv \<longleftrightarrow>
     (client_state c = initial
      \<or> \<not> attempting c \<and> (client_state c = connected \<or> client_state c = disconnected \<and> \<not> alive sv))
     \<and> (u \<and> idle_server ph sv \<and> \<not> broken c \<and> unsent c = []
        \<or> \<not> u \<and> idle_server ph sv \<and> broken c \<and> unsent c = []
        \<or> \<not> u \<and> idle_server ph sv \<and> \<not> broken c \<and> unsent c = [phase_task ph i] \<and> client_state c = initial
        \<or> \<not> u \<and> (idle_server ph sv \<longrightarrow> \<not> alive sv) \<and> \<not> broken c \<and> unsent c = [] \<and> client_state c \<noteq> initial)"

lemmas worker_defs = server_inv_def pool_client_inv_def idle_server_def conn_made_def

definition worker_inv :: "phase \<Rightarrow> bool \<Rightarrow> int \<Rightarrow> system \<Rightarrow> bool" where
  "worker_inv ph u i s \<longleftrightarrow>
     server_inv ph i (disk s) (servers s i) \<and> pool_client_inv ph u i (client_pool s i) (servers s i)
     \<and> (phase_status ph s ! nat i = 1 \<longrightarrow>
          \<not> u \<and> conn_made (client_pool s i) \<and> \<not> broken (client_pool s i) \<and>
          calls (servers s i) = [] \<and> finished (phase_task ph i) (disk s))
     \<and> (ph = Mapping \<longrightarrow> \<not> reduce_completed (servers s i))"

text \<open>\<open>U\<close> are the workers whose call the master has still to make.\<close>

definition phase_inv :: "phase \<Rightarrow> int set \<Rightarrow> file_system \<Rightarrow> system \<Rightarrow> bool" where
  "phase_inv ph U fs s \<longleftrightarrow>
     same_elsewhere P fs (disk s)
     \<and> length (phase_status ph s) = nat (nr_mapper (master P))
     \<and> phase_count ph s = ones (phase_status ph s)
     \<and> (\<forall>i. i \<notin> workers P \<longrightarrow> servers s i = dead_server)
     \<and> (\<forall>i\<in>workers P. worker_inv ph (i \<in> U) i s)
     \<and> (ph = Reducing \<longrightarrow> (\<forall>i\<in>workers P. finished (MapTask i) (disk s)))"

definition final_inv :: "file_system \<Rightarrow> system \<Rightarrow> bool" where
  "final_inv fs s \<longleftrightarrow>
     same_elsewhere P fs (disk s) \<and> (\<forall>i. servers s i = dead_server)
     \<and> (\<forall>i\<in>workers P. conn_made (client_pool s i))
     \<and> (\<forall>t\<in>tasks P. finished t (disk s))"

definition system_inv :: "file_system \<Rightarrow> system \<Rightarrow> bool" where
  "system_inv fs s \<longleftrightarrow>
     (let n = nr_mapper (master P)
      in case pc s of
        StartCall i \<Rightarrow> i \<in> {0..n} \<and> phase_inv Mapping {i..<n} fs s
      | MapPoll i \<Rightarrow> i \<in> {0..n} \<and> phase_inv Mapping {} fs s
      | MapAsk i \<Rightarrow> i \<in> workers P \<and> map_task_status s ! nat i \<noteq> 1 \<and> phase_inv Mapping {} fs s
      | MapCall i \<Rightarrow> i \<in> workers P \<and> phase_inv Mapping {i} fs s
      | ReducePoll i \<Rightarrow> i \<in> {0..n} \<and> phase_inv Reducing {} fs s
      | ReduceAsk i \<Rightarrow> i \<in> workers P \<and> reduce_task_status s ! nat i \<noteq> 1 \<and> phase_inv Reducing {} fs s
      | ReduceCall i \<Rightarrow> i \<in> workers P \<and> phase_inv Reducing {i} fs s
      | Blocked \<Rightarrow> True
      | Aborted \<Rightarrow> False
      | Returned n \<Rightarrow> n = 0 \<and> final_inv fs s)"

lemma finished_elsewhere:
  assumes "ok fs" "t \<in> tasks P" "t' \<in> tasks P" "t \<noteq> t'" "finished t fs"
    and "\<And>p. p \<notin> task_paths P t' \<Longrightarrow> files fs' p = files fs p"
  shows "finished t fs'"
  unfolding finished_def map_le_def
proof
  fix p assume p: "p \<in> dom (effect t)"
  then have "p \<in> task_paths P t" using effect_paths [OF assms(1,2)] by blast
  then have "files fs' p = files fs p" using assms(6) paths_disjoint [OF assms(1-4)] by blast
  then show "effect t p = files fs' p"
    using assms(5) p by (simp add: finished_def map_le_def)
qed

lemma finished_effect: "finished t (fs\<lparr>files := files fs ++ effect t\<rparr>)"
  by (simp add: finished_def)

lemma effect_outside:
  "ok fs \<Longrightarrow> t \<in> tasks P \<Longrightarrow> p \<notin> task_paths P t \<Longrightarrow> (f ++ effect t) p = f p"
  using effect_paths [of fs t] by (intro map_add_dom_app_simps(3)) blast

lemma finished_other:
  assumes "ok fs" "t \<in> tasks P" "t' \<in> tasks P" "finished t fs"
  shows "finished t (fs\<lparr>files := files fs ++ effect t'\<rparr>)"
proof (cases "t = t'")
  case False
  show ?thesis
    by (rule finished_elsewhere [OF assms(1-3) False assms(4)])
      (simp add: effect_outside [OF assms(1,3)])
qed (simp add: finished_effect)

lemma effect_elsewhere:
  "ok fs \<Longrightarrow> t \<in> tasks P \<Longrightarrow> same_elsewhere P fs (fs\<lparr>files := files fs ++ effect t\<rparr>)"
  by (simp add: same_elsewhere_def effect_outside)

lemma serve_phase_effect:
  assumes "ok fs" "i \<in> workers P" "ph = Reducing \<Longrightarrow> \<forall>m\<in>workers P. finished (MapTask m) fs"
  shows "serve_phase ph P i sv fs =
    (set_flag ph sv, fs\<lparr>files := files fs ++ effect (phase_task ph i)\<rparr>)"
  using assms by (cases ph) (simp_all add: map_effect reduce_effect finished_def)

section \<open>Steps of the servers and the clients\<close>

text \<open>A change of the file system that keeps what the other workers have finished.\<close>

lemma worker_inv_change:
  assumes "worker_inv ph u j s" "finished (phase_task ph j) (disk s) \<Longrightarrow> finished (phase_task ph j) fs'"
    and "servers s' j = servers s j" "client_pool s' j = client_pool s j"
    and "phase_status ph s' = phase_status ph s" "disk s' = fs'"
  shows "worker_inv ph u j s'"
  using assms by (auto simp: worker_inv_def server_inv_def)

lemma phase_inv_server:
  assumes inv: "phase_inv ph U fs s" and ok: "ok fs" and i: "i \<in> workers P"
    and s': "s' = s\<lparr>servers := (servers s)(i := sv), disk := fs'\<rparr>"
    and same: "same_elsewhere P (disk s) fs'"
    and keep: "\<And>t. t \<in> tasks P \<Longrightarrow> t \<noteq> phase_task ph i \<Longrightarrow> finished t (disk s) \<Longrightarrow> finished t fs'"
    and worker: "worker_inv ph (i \<in> U) i s'"
  shows "phase_inv ph U fs s'"
proof -
  have "worker_inv ph (j \<in> U) j s'" if "j \<in> workers P" for j
  proof (cases "j = i")
    case False
    show ?thesis
    proof (rule worker_inv_change)
      show "worker_inv ph (j \<in> U) j s" using inv that by (simp add: phase_inv_def)
      show "finished (phase_task ph j) (disk s) \<Longrightarrow> finished (phase_task ph j) fs'"
        using keep [of "phase_task ph j"] False that by (simp add: phase_task_tasks)
    qed (use False s' in \<open>cases ph; simp\<close>)+
  qed (simp add: worker)
  moreover have "finished (MapTask j) fs'" if "ph = Reducing" "j \<in> workers P" for j
    using inv that keep [of "MapTask j"] by (auto simp: phase_inv_def tasks_def)
  moreover have "phase_status ph s' = phase_status ph s" "phase_count ph s' = phase_count ph s"
    using s' by (cases ph; simp)+
  ultimately show ?thesis
    using inv i same_elsewhere_trans [OF _ same, of fs] s' by (auto simp: phase_inv_def)
qed

lemma alive_worker: "phase_inv ph U fs s \<Longrightarrow> alive (servers s i) \<Longrightarrow> i \<in> workers P"
  using dead_server_sel(1) by (auto simp: phase_inv_def)

lemma phase_inv_ok: "phase_inv ph U fs s \<Longrightarrow> ok fs \<Longrightarrow> ok (disk s)"
  using ok_elsewhere by (auto simp: phase_inv_def)

lemma phase_inv_worker: "phase_inv ph U fs s \<Longrightarrow> i \<in> workers P \<Longrightarrow> worker_inv ph (i \<in> U) i s"
  by (simp add: phase_inv_def)

lemma phase_inv_serves:
  assumes inv: "phase_inv ph U fs s" and ok: "ok fs"
    and live: "alive (servers s i)" "calls (servers s i) \<noteq> []"
    and sv: "serve P (servers s i) (disk s) = (sv, fs')"
  shows "phase_inv ph U fs (s\<lparr>servers := (servers s)(i := sv), disk := fs'\<rparr>)"
proof (rule phase_inv_server [OF inv ok _ refl])
  show i: "i \<in> workers P" using alive_worker inv live by blast
  note w = phase_inv_worker [OF inv i] and okd = phase_inv_ok [OF inv ok]
  have c: "calls (servers s i) = [phase_task ph i]" and st: "phase_status ph s ! nat i \<noteq> 1"
    and cl: "i \<notin> U" "client_state (client_pool s i) = connected" "unsent (client_pool s i) = []"
      "\<not> attempting (client_pool s i)" "\<not> broken (client_pool s i)"
    using w live by (auto simp: worker_inv_def worker_defs)
  have "\<forall>m\<in>workers P. finished (MapTask m) (disk s)" if "ph = Reducing"
    using inv that by (simp add: phase_inv_def)
  from serve_phase_effect [where ph = ph and sv = "servers s i\<lparr>calls := []\<rparr>", OF okd i this] sv
  have sv': "sv = set_flag ph (servers s i\<lparr>calls := []\<rparr>)"
    and fs': "fs' = disk s\<lparr>files := files (disk s) ++ effect (phase_task ph i)\<rparr>"
    by (simp_all add: serve_phase_task [OF c])
  show "same_elsewhere P (disk s) fs'"
    using effect_elsewhere [OF okd phase_task_tasks [OF i]] by (simp add: fs')
  show "finished t fs'" if "t \<in> tasks P" "finished t (disk s)" for t
    using finished_other [OF okd that(1) phase_task_tasks [OF i] that(2)] by (simp add: fs')
  have "alive sv" "calls sv = []" "phase_flag ph sv" "ph = Mapping \<Longrightarrow> \<not> reduce_completed sv"
    using sv' live w by (auto simp: worker_inv_def)
  then show "worker_inv ph (i \<in> U) i (s\<lparr>servers := (servers s)(i := sv), disk := fs'\<rparr>)"
    using st cl finished_effect by (auto simp: worker_inv_def worker_defs fs')
qed

lemma phase_inv_killed:
  assumes inv: "phase_inv ph U fs s" and ok: "ok fs"
    and live: "alive (servers s i)" and torn: "torn P (calls (servers s i)) (disk s) fs'"
  shows "phase_inv ph U fs (s\<lparr>servers := (servers s)(i := dead_server), disk := fs'\<rparr>)"
proof (rule phase_inv_server [OF inv ok _ refl])
  show i: "i \<in> workers P" using alive_worker inv live by blast
  note w = phase_inv_worker [OF inv i] and okd = phase_inv_ok [OF inv ok]
  have c: "set (calls (servers s i)) \<subseteq> {phase_task ph i}"
    using w live by (auto simp: worker_inv_def server_inv_def idle_server_def)
  then show "same_elsewhere P (disk s) fs'"
    using torn_same_elsewhere [OF torn] phase_task_tasks [OF i] by blast
  show keep: "finished t fs'" if "t \<in> tasks P" "t \<noteq> phase_task ph i" "finished t (disk s)" for t
    by (rule finished_elsewhere [OF okd that(1) phase_task_tasks [OF i] that(2,3)])
      (use torn c in \<open>auto simp: torn_def\<close>)
  have "fs' = disk s" if "calls (servers s i) = []"
    using torn that by (auto simp: torn_def fun_eq_iff intro: file_system.equality)
  then show "worker_inv ph (i \<in> U) i (s\<lparr>servers := (servers s)(i := dead_server), disk := fs'\<rparr>)"
    using w live by (auto simp: worker_inv_def worker_defs)
qed

section \<open>Steps that leave the disk\<close>

text \<open>One worker's server, client, status and call may change.\<close>

lemma phase_inv_change:
  assumes inv: "phase_inv ph U fs s" and i: "i \<in> workers P" and disk: "disk s' = disk s"
    and sv: "servers s' = (servers s)(i := sv)" and c: "client_pool s' = (client_pool s)(i := c)"
    and st: "phase_status ph s' = (if b then (phase_status ph s)[nat i := 1] else phase_status ph s)"
    and count: "phase_count ph s' = ones (phase_status ph s')"
    and U': "\<And>j. j \<noteq> i \<Longrightarrow> j \<in> U' \<longleftrightarrow> j \<in> U" and w: "worker_inv ph (i \<in> U') i s'"
  shows "phase_inv ph U' fs s'"
proof -
  have "worker_inv ph (j \<in> U') j s'" if "j \<in> workers P" for j
  proof (cases "j = i")
    case False
    then have "nat j \<noteq> nat i" using that i by (auto simp: workers_eq)
    with phase_inv_worker [OF inv that] disk sv c st U' False show ?thesis
      by (auto simp: worker_inv_def)
  qed (simp add: w)
  moreover have "length (phase_status ph s') = length (phase_status ph s)" using st by simp
  ultimately show ?thesis
    using inv i disk sv count by (auto simp: phase_inv_def)
qed

lemma phase_inv_count: "phase_inv ph U fs s \<Longrightarrow> phase_count ph s = ones (phase_status ph s)"
  by (simp add: phase_inv_def)

lemma phase_inv_pc [simp]: "phase_inv ph U fs (s\<lparr>pc := x\<rparr>) = phase_inv ph U fs s"
proof -
  have "worker_inv ph u i (s\<lparr>pc := x\<rparr>) = worker_inv ph u i s" for u i
    by (simp add: worker_inv_def)
  then show ?thesis by (simp add: phase_inv_def)
qed

text \<open>A client that changes, with its server as it is.\<close>

lemma phase_inv_client:
  assumes inv: "phase_inv ph U fs s" and i: "i \<in> workers P"
    and c: "pool_client_inv ph (i \<in> U) i c (servers s i)"
    and st: "phase_status ph s ! nat i = 1 \<Longrightarrow> conn_made c \<and> \<not> broken c"
  shows "phase_inv ph U fs (set_client i c s)"
  by (rule phase_inv_change [OF inv i, where b = False and sv = "servers s i" and c = c])
    (use phase_inv_worker [OF inv i] phase_inv_count [OF inv] c st in
      \<open>auto simp: set_client_def worker_inv_def\<close>)

lemma phase_inv_refused:
  assumes inv: "phase_inv ph U fs s" and i: "i \<in> workers P"
  shows "phase_inv ph U fs (set_client i ((client_pool s i)\<lparr>attempting := False\<rparr>) s)"
  using phase_inv_worker [OF inv i]
  by (intro phase_inv_client [OF inv i]) (auto simp: worker_inv_def pool_client_inv_def idle_server_def conn_made_def)

lemma phase_inv_notices:
  assumes inv: "phase_inv ph U fs s" and i: "i \<in> workers P" and dead: "\<not> alive (servers s i)"
    and c: "client_state (client_pool s i) = connected"
  shows "phase_inv ph U fs (set_client i ((client_pool s i)\<lparr>client_state := disconnected\<rparr>) s)"
  using phase_inv_worker [OF inv i] dead c
  by (intro phase_inv_client [OF inv i]) (auto simp: worker_inv_def pool_client_inv_def idle_server_def conn_made_def)

lemma phase_inv_early:
  assumes inv: "phase_inv ph U fs s" and i: "i \<in> workers P" and c: "\<not> conn_made (client_pool s i)"
    and "unsent (client_pool s i) \<noteq> [] \<or> i \<notin> U"
  shows "phase_inv ph U fs (set_client i ((client_pool s i)\<lparr>unsent := [], broken := True\<rparr>) s)"
  using phase_inv_worker [OF inv i] assms(3,4)
  by (intro phase_inv_client [OF inv i]) (auto simp: worker_inv_def pool_client_inv_def idle_server_def conn_made_def)

lemma phase_inv_connects:
  assumes inv: "phase_inv ph U fs s" and c: "attempting (client_pool s i)" and live: "alive (servers s i)"
  shows "phase_inv ph U fs (connect_client i s)"
proof -
  have i: "i \<in> workers P" using alive_worker inv live by blast
  note w = phase_inv_worker [OF inv i]
  have "worker_inv ph (i \<in> U) i (connect_client i s)"
    using w c live
    by (auto simp: worker_inv_def worker_defs connect_client_def)
  then show ?thesis
    by (intro phase_inv_change [OF inv i, where b = False and U' = U]) 
      (use phase_inv_count [OF inv] in \<open>auto simp: connect_client_def\<close>)
qed

text \<open>A call of the master, made when the connection is there or too early.\<close>

lemma phase_inv_call:
  assumes inv: "phase_inv ph U fs s" and i: "i \<in> workers P" "i \<in> U"
  shows "phase_inv ph (U - {i}) fs ((post_task (phase_task ph i) i s)\<lparr>pc := x\<rparr>)"
proof -
  let ?s = "post_task (phase_task ph i) i s"
  have "worker_inv ph False i ?s"
    using phase_inv_worker [OF inv i(1)] i(2)
    by (auto simp: worker_inv_def worker_defs post_task_def Let_def)
  then have "phase_inv ph (U - {i}) fs ?s"
    by (intro phase_inv_change [OF inv i(1), where b = False, OF post_task_fields(1,5,6)])
      (use phase_inv_count [OF inv] in \<open>simp_all add: post_task_fields(3,4)\<close>)
  then show ?thesis by simp
qed

section \<open>Steps of the master\<close>

lemma phase_index:
  "phase_inv ph U fs s \<Longrightarrow> i \<in> workers P \<Longrightarrow> nat i < length (phase_status ph s)"
  by (simp add: phase_inv_def workers_eq)

lemma phase_inv_restart:
  assumes "phase_inv ph {} fs s" "i \<in> workers P" "phase_status ph s ! nat i \<noteq> 1"
    and "s' = s\<lparr>servers := (servers s)(i := forked_server),
                client_pool := (client_pool s)(i := new_pool_client), pc := x\<rparr>"
  shows "phase_inv ph {i} fs s'"
  by (rule phase_inv_change [OF assms(1,2), where b = False])
    (use assms in \<open>auto simp: phase_inv_def worker_inv_def worker_defs\<close>)

lemma phase_inv_mark:
  assumes inv: "phase_inv ph {} fs s" "i \<in> workers P" "phase_status ph s ! nat i \<noteq> 1"
    and c: "conn_made (client_pool s i)" "\<not> broken (client_pool s i)"
    and "alive (servers s i)" "phase_flag ph (servers s i)"
    and "phase_status ph s' = (phase_status ph s)[nat i := 1]"
    and "phase_count ph s' = phase_count ph s + 1"
    and "servers s' = servers s" "client_pool s' = client_pool s" "disk s' = disk s"
  shows "phase_inv ph {} fs s'"
proof (rule phase_inv_change [OF inv(1,2), where b = True and sv = "servers s i" and c = "client_pool s i"])
  note l = phase_index [OF inv(1,2)]
  show "phase_count ph s' = ones (phase_status ph s')"
    using phase_inv_count [OF inv(1)] ones_update [OF l inv(3)] assms(8,9) by simp
  show "worker_inv ph (i \<in> {}) i s'"
    using phase_inv_worker [OF inv(1,2)] assms l by (auto simp: worker_inv_def server_inv_def idle_server_def)
qed (use assms in simp_all)

lemma poll_inv:
  assumes "phase_inv ph {} fs s" "i \<in> workers P"
  shows "pc (poll ph i s) = poll_pc ph (i + 1) \<and> phase_inv ph {} fs (poll ph i s)
    \<or> pc (poll ph i s) = call_pc ph i \<and> phase_inv ph {i} fs (poll ph i s)
    \<or> pc (poll ph i s) = ask_pc ph i \<and> phase_inv ph {} fs (poll ph i s)
      \<and> phase_status ph (poll ph i s) ! nat i \<noteq> 1"
  using assms phase_inv_restart [OF assms] phase_index [OF assms]
  by (cases ph) (auto simp: poll_map_def restart_map_server_def poll_reduce_def restart_reduce_server_def)

lemma ask_inv:
  assumes "phase_inv ph {} fs s" "i \<in> workers P" "phase_status ph s ! nat i \<noteq> 1"
    and "conn_made (client_pool s i)"
  shows "pc (ask ph i s) = Blocked
    \<or> pc (ask ph i s) = poll_pc ph (i + 1) \<and> phase_inv ph {} fs (ask ph i s)"
  using assms(1) phase_inv_mark [OF assms, where s' = "ask ph i s"]
  by (cases ph) (auto simp: ask_map_def ask_reduce_def blocking_call_def handle_is_map_done_def
      handle_is_reduce_done_def split: bool.splits)

lemma recall_inv:
  assumes "phase_inv ph {i} fs s" "i \<in> workers P"
  shows "pc (recall ph i s) = poll_pc ph (i + 1) \<and> phase_inv ph {} fs (recall ph i s)"
  using phase_inv_call [OF assms(1,2)] by (cases ph) (simp_all add: recall_map_def recall_reduce_def)

lemma start_call_inv:
  assumes "phase_inv Mapping {i..<nr_mapper (master P)} fs s" "i \<in> workers P"
  shows "pc (start_call i s) = StartCall (i + 1)
    \<and> phase_inv Mapping {i + 1..<nr_mapper (master P)} fs (start_call i s)"
proof -
  have "{i..<nr_mapper (master P)} - {i} = {i + 1..<nr_mapper (master P)}" by auto
  with phase_inv_call [OF assms] assms(2) show ?thesis by (simp add: start_call_def workers_eq)
qed

lemma all_done:
  assumes "phase_inv ph U fs s" "phase_count ph s = nr_mapper (master P)" "i \<in> workers P"
  shows "phase_status ph s ! nat i = 1"
proof (rule ones_all)
  show "ones (phase_status ph s) = int (length (phase_status ph s))"
    using assms by (simp add: phase_inv_def workers_eq)
qed (rule phase_index [OF assms(1,3)])

lemma end_map_pass_inv:
  assumes "phase_inv Mapping {} fs s" "ok fs"
  shows "if nr_map_done s = nr_mapper (master P)
    then pc (end_map_pass P s) = ReducePoll 0 \<and> phase_inv Reducing {} fs (end_map_pass P s)
    else end_map_pass P s = s\<lparr>pc := MapPoll 0\<rparr>"
proof (cases "nr_map_done s = nr_mapper (master P)")
  case True
  note n = same_count [OF assms(2)]
  have w: "worker_inv Mapping False i s" "map_task_status s ! nat i = 1" if "i \<in> workers P" for i
    using phase_inv_worker [OF assms(1) that] all_done [OF assms(1) _ that] True by simp_all
  have "worker_inv Reducing False i (start_reduce P s)" if "i \<in> workers P" for i
    using w [OF that] that n
    by (auto simp: worker_inv_def worker_defs start_reduce_def
        status_vector_def workers_eq)
  moreover have "finished (MapTask i) (disk s)" if "i \<in> workers P" for i
    using w [OF that] by (simp add: worker_inv_def)
  ultimately have "phase_inv Reducing {} fs (start_reduce P s)"
    using assms(1) n by (simp add: phase_inv_def start_reduce_def)
  with True n show ?thesis by (simp add: end_map_pass_def start_reduce_def)
qed (simp add: end_map_pass_def)

lemma end_reduce_pass_inv:
  assumes "phase_inv Reducing {} fs s" "ok fs"
  shows "if nr_reduce_done s = nr_mapper (master P)
    then pc (end_reduce_pass P s) = Returned 0 \<and> final_inv fs (end_reduce_pass P s)
    else end_reduce_pass P s = s\<lparr>pc := ReducePoll 0\<rparr>"
proof (cases "nr_reduce_done s = nr_mapper (master P)")
  case True
  have "finished (ReduceTask i) (disk s) \<and> conn_made (client_pool s i)" if "i \<in> workers P" for i
    using phase_inv_worker [OF assms(1) that] all_done [OF assms(1) _ that] True
    by (simp add: worker_inv_def)
  with assms have "final_inv fs (stop_servers P s)"
    by (auto simp: phase_inv_def final_inv_def stop_servers_def handle_stop_server_def tasks_def)
  with True same_count [OF assms(2)] show ?thesis
    by (simp add: end_reduce_pass_def stop_servers_def)
qed (simp add: end_reduce_pass_def same_count [OF assms(2)])

section \<open>The invariant\<close>

lemma process_start_inv: "ok fs \<Longrightarrow> system_inv fs (process_start P fs)"
proof -
  assume ok: "ok fs"
  note n = same_count [OF ok]
  have "worker_inv Mapping True i (process_start P fs)" if "i \<in> workers P" for i
    using that n by (auto simp: worker_inv_def worker_defs process_start_def
        spawn_servers_def status_vector_def workers_eq)
  then show ?thesis
    using n by (auto simp: system_inv_def phase_inv_def process_start_def spawn_servers_def workers_eq)
qed

text \<open>Where the master is, in either phase.\<close>

lemma system_inv_pc:
  "pc s = poll_pc ph i \<Longrightarrow> system_inv fs s = (0 \<le> i \<and> i \<le> nr_mapper (master P) \<and> phase_inv ph {} fs s)"
  "pc s = ask_pc ph i \<Longrightarrow>
   system_inv fs s = (i \<in> workers P \<and> phase_status ph s ! nat i \<noteq> 1 \<and> phase_inv ph {} fs s)"
  "pc s = call_pc ph i \<Longrightarrow> system_inv fs s = (i \<in> workers P \<and> phase_inv ph {i} fs s)"
  "pc s = StartCall i \<Longrightarrow> system_inv fs s =
     (0 \<le> i \<and> i \<le> nr_mapper (master P) \<and> phase_inv Mapping {i..<nr_mapper (master P)} fs s)"
  "pc s = Blocked \<Longrightarrow> system_inv fs s"
  "pc s = Aborted \<Longrightarrow> \<not> system_inv fs s"
  "pc s = Returned m \<Longrightarrow> system_inv fs s = (m = 0 \<and> final_inv fs s)"
        apply (cases ph; simp add: system_inv_def Let_def)
       apply (cases ph; simp add: system_inv_def Let_def)
      apply (cases ph; simp add: system_inv_def Let_def)
     apply (simp_all add: system_inv_def Let_def)
  done

lemma master_step_inv:
  assumes ok: "ok fs" and inv: "system_inv fs s"
  shows "system_inv fs (master_step P s)"
proof (cases s rule: pc_cases)
  case (poll ph i)
  with inv have m: "0 \<le> i" "i \<le> nr_mapper (master P)" "phase_inv ph {} fs s"
    by (simp_all add: system_inv_pc)
  show ?thesis
  proof (cases "i < nr_mapper (master P)")
    case True
    with m have i: "i \<in> workers P" by (simp add: workers_eq)
    from poll_inv [OF m(3) i] True m(1) i show ?thesis
      by (auto simp: master_step_pc(1) [OF poll True] system_inv_pc)
  next
    case False
    with end_map_pass_inv [of fs s, OF _ ok] end_reduce_pass_inv [of fs s, OF _ ok] poll m
      same_count [OF ok] show ?thesis
      by (cases ph) (auto simp: master_step_def system_inv_def split: if_splits)
  qed
next
  case (ask ph i)
  with inv have m: "i \<in> workers P" "phase_status ph s ! nat i \<noteq> 1" "phase_inv ph {} fs s"
    by (simp_all add: system_inv_pc)
  from ask_inv [OF m(3,1,2)] m(1) inv show ?thesis
    by (auto simp: master_step_pc(2) [OF ask] wait_conn_then_def system_inv_pc workers_eq)
next
  case (call ph i)
  with inv recall_inv [of ph i fs s] show ?thesis
    by (auto simp: master_step_pc(3) [OF call] wait_conn_then_def system_inv_pc workers_eq)
next
  case (start i)
  with inv start_call_inv [of i fs s] system_inv_pc(4) [of "start_call i s" "i + 1" fs] show ?thesis
    by (auto simp: master_step_def wait_conn_then_def system_inv_pc(4) system_inv_pc(1) [where ph = Mapping]
        workers_eq)
qed (use inv in \<open>simp_all add: master_step_def system_inv_def\<close>)

lemma woken_inv:
  assumes "system_inv fs s"
  shows "system_inv fs (woken P s)"
proof (cases s rule: pc_cases)
  case (call ph i)
  with assms recall_inv [of ph i fs s] show ?thesis
    by (cases ph) (auto simp: woken_def system_inv_def Let_def workers_eq)
next
  case (start i)
  with assms start_call_inv [of i fs s] system_inv_pc(4) [of "start_call i s" "i + 1" fs] show ?thesis
    by (auto simp: woken_def system_inv_pc(4) workers_eq)
next
  case (poll ph i)
  with assms show ?thesis by (cases ph) (simp_all add: woken_def)
next
  case (ask ph i)
  with assms show ?thesis by (cases ph) (simp_all add: woken_def)
qed (use assms in \<open>simp_all add: woken_def\<close>)

text \<open>A step that keeps the master where it is and the invariant of its phase.\<close>

lemma system_inv_step:
  assumes "system_inv fs s" "pc s' = pc s" "map_task_status s' = map_task_status s"
    "reduce_task_status s' = reduce_task_status s"
    and "\<And>ph U. phase_inv ph U fs s \<Longrightarrow> (\<And>i. asking (pc s) = Some i \<Longrightarrow> i \<notin> U) \<Longrightarrow> phase_inv ph U fs s'"
    and "final_inv fs s \<Longrightarrow> final_inv fs s'"
  shows "system_inv fs s'"
  using assms by (auto simp: system_inv_def Let_def split: pc.splits)

lemma phase_inv_no_worker:
  "i \<notin> workers P \<Longrightarrow> phase_inv ph U fs s \<Longrightarrow> phase_inv ph U fs (set_client i c s)"
  by (auto simp: phase_inv_def worker_inv_def set_client_def)

lemma final_inv_client:
  "final_inv fs s \<Longrightarrow> conn_made c \<or> \<not> conn_made (client_pool s i) \<Longrightarrow> final_inv fs (set_client i c s)"
  by (auto simp: final_inv_def set_client_def)

lemma final_inv_dead: "final_inv fs s \<Longrightarrow> \<not> alive (servers s i)"
  using dead_server_sel(1) by (simp add: final_inv_def)

lemma system_inv_client:
  assumes inv: "system_inv fs s" and c: "conn_made c \<or> \<not> conn_made (client_pool s i)"
    and worker: "\<And>ph U. phase_inv ph U fs s \<Longrightarrow> i \<in> workers P \<Longrightarrow> (\<And>j. asking (pc s) = Some j \<Longrightarrow> j \<notin> U) \<Longrightarrow>
      phase_inv ph U fs (set_client i c s)"
  shows "system_inv fs (set_client i c s)"
proof (rule system_inv_step [OF inv])
  fix ph U assume "phase_inv ph U fs s" "\<And>j. asking (pc s) = Some j \<Longrightarrow> j \<notin> U"
  then show "phase_inv ph U fs (set_client i c s)"
    using worker phase_inv_no_worker by blast
qed (use final_inv_client [OF _ c] in simp_all)

lemma sys_step_inv:
  assumes ok: "ok fs" and inv: "system_inv fs s" and step: "sys_step P s s'"
  shows "system_inv fs s'"
  using step
proof cases
  case master_moves
  then show ?thesis using master_step_inv [OF ok inv] by simp
next
  case (server_serves i sv fs')
  show ?thesis unfolding server_serves(1)
    by (rule system_inv_step [OF inv])
      (use phase_inv_serves [OF _ ok server_serves(2-4)] final_inv_dead server_serves(2) in \<open>auto\<close>)
next
  case (server_killed i fs')
  show ?thesis unfolding server_killed(1)
    by (rule system_inv_step [OF inv])
      (use phase_inv_killed [OF _ ok server_killed(2,3)] final_inv_dead server_killed(2) in \<open>auto\<close>)
next
  case (client_connects i)
  show ?thesis unfolding client_connects(1)
    by (rule system_inv_step [OF inv])
      (use phase_inv_connects [OF _ client_connects(2,3)] final_inv_dead client_connects(3) in \<open>auto\<close>)
next
  case (client_refused i)
  show ?thesis unfolding client_refused(1)
    by (rule system_inv_client [OF inv]) (simp_all add: phase_inv_refused)
next
  case (client_notices i)
  show ?thesis unfolding client_notices(1)
    by (rule system_inv_client [OF inv]) (simp_all add: phase_inv_notices client_notices(2,3))
next
  case spurious_wakeup
  then show ?thesis using woken_inv [OF inv] by simp
next
  case (early_write_fails i)
  show ?thesis unfolding early_write_fails(1)
    by (rule system_inv_client [OF inv])
      (use early_write_fails(2,3) phase_inv_early [OF _ _ early_write_fails(2)] in blast)+
qed

lemma reachable_inv: "reachable P fs s \<Longrightarrow> ok fs \<Longrightarrow> system_inv fs s"
  by (induction rule: reachable.induct) (auto intro: process_start_inv sys_step_inv)

text \<open>A run that returns returned \<open>0\<close> and has done everything, whatever was killed.\<close>

lemma returned_finished:
  "reachable P fs s \<Longrightarrow> ok fs \<Longrightarrow> pc s = Returned n \<Longrightarrow>
   n = 0 \<and> (\<forall>t\<in>tasks P. finished t (disk s)) \<and> same_elsewhere P fs (disk s)"
  using reachable_inv [of fs s] by (simp add: system_inv_def final_inv_def)

lemma never_aborted: "reachable P fs s \<Longrightarrow> ok fs \<Longrightarrow> pc s \<noteq> Aborted"
  using reachable_inv [of fs s] by (auto simp: system_inv_def)

end

end
