(* ===== verification/Master_Progress.thy ===== *)
theory Master_Progress
  imports Master_Safety
begin

text \<open>
  Which runs of \<open>process\<close> can still return, exactly: from every reachable state that does not wait
  for ever some continuation returns, by a measure that each of its steps decreases, and from one
  that does none returns. The master waits for ever on the answer of a dead server, on an answer to
  a call that was lost with a failed write, and on a connection that was refused or whose server is dead.
\<close>

section \<open>Waiting for ever\<close>

definition lost_connection :: "system \<Rightarrow> int \<Rightarrow> bool" where
  "lost_connection s i \<longleftrightarrow>
     \<not> conn_made (client_pool s i) \<and> \<not> (attempting (client_pool s i) \<and> alive (servers s i))"

definition no_answer :: "system \<Rightarrow> int \<Rightarrow> bool" where
  "no_answer s i \<longleftrightarrow> asking (pc s) = Some i \<and> (\<not> alive (servers s i) \<or> broken (client_pool s i))"

definition waits_for_ever :: "params \<Rightarrow> system \<Rightarrow> bool" where
  "waits_for_ever P s \<longleftrightarrow>
     pc s = Blocked \<or> (\<exists>i. no_answer s i) \<or> (\<exists>i\<in>workers P. lost_connection s i)"

section \<open>The measure\<close>

text \<open>
  How far a worker is from being marked done: served, flagged, pending, about to be called, dead,
  or with its call lost or not sent, when only a restart helps. \<open>u\<close> says that its call is still to be made.
\<close>

definition base_rank :: "phase \<Rightarrow> bool \<Rightarrow> system \<Rightarrow> int \<Rightarrow> nat" where
  "base_rank ph u s i =
     (if phase_status ph s ! nat i = 1 then 0
      else if \<not> alive (servers s i) then (if client_state (client_pool s i) = disconnected then 5 else 6)
      else if \<not> conn_made (client_pool s i) then (if u then 4 else 8)
      else if phase_flag ph (servers s i) then 1
      else if calls (servers s i) \<noteq> [] then 2
      else (if u then 3 else 7))"

definition rank :: "phase \<Rightarrow> bool \<Rightarrow> system \<Rightarrow> int \<Rightarrow> nat" where
  "rank ph u s i = 2 * base_rank ph u s i + (if u then 1 else 0)"

fun pc_phase :: "pc \<Rightarrow> phase option" where
  "pc_phase (StartCall i) = Some Mapping"
| "pc_phase (MapPoll i) = Some Mapping"
| "pc_phase (MapAsk i) = Some Mapping"
| "pc_phase (MapCall i) = Some Mapping"
| "pc_phase (ReducePoll i) = Some Reducing"
| "pc_phase (ReduceAsk i) = Some Reducing"
| "pc_phase (ReduceCall i) = Some Reducing"
| "pc_phase _ = None"

fun stage :: "pc \<Rightarrow> nat" where
  "stage (StartCall i) = 2"
| "stage (MapPoll i) = 1"
| "stage (MapAsk i) = 1"
| "stage (MapCall i) = 1"
| "stage _ = 0"

definition uncalled :: "params \<Rightarrow> system \<Rightarrow> int set" where
  "uncalled P s =
     (case pc s of
        StartCall i \<Rightarrow> {i..<nr_mapper (master P)}
      | MapCall i \<Rightarrow> {i}
      | ReduceCall i \<Rightarrow> {i}
      | _ \<Rightarrow> {})"

definition total_rank :: "params \<Rightarrow> phase \<Rightarrow> system \<Rightarrow> nat" where
  "total_rank P ph s = (\<Sum>i\<in>workers P. rank ph (i \<in> uncalled P s) s i)"

text \<open>How far the loop is from the next worker that is not done, through the end of the pass.\<close>

definition undone_from :: "params \<Rightarrow> phase \<Rightarrow> system \<Rightarrow> int \<Rightarrow> bool" where
  "undone_from P ph s i \<longleftrightarrow> (\<exists>j\<in>workers P. i \<le> j \<and> phase_status ph s ! nat j \<noteq> 1)"

definition distance :: "params \<Rightarrow> phase \<Rightarrow> system \<Rightarrow> int \<Rightarrow> nat" where
  "distance P ph s i =
     (let n = nr_mapper (master P)
      in if undone_from P ph s i then nat (n - i) else nat (n - i) + nat n + 1)"

definition loop_distance :: "params \<Rightarrow> system \<Rightarrow> nat" where
  "loop_distance P s =
     (case pc s of
        MapPoll i \<Rightarrow> Suc (2 * distance P Mapping s i)
      | ReducePoll i \<Rightarrow> Suc (2 * distance P Reducing s i)
      | MapAsk i \<Rightarrow> 2 * distance P Mapping s i
      | ReduceAsk i \<Rightarrow> 2 * distance P Reducing s i
      | _ \<Rightarrow> 0)"

definition remaining :: "params \<Rightarrow> system \<Rightarrow> nat \<times> nat \<times> nat" where
  "remaining P s =
     (stage (pc s), (case pc_phase (pc s) of Some ph \<Rightarrow> total_rank P ph s | None \<Rightarrow> 0), loop_distance P s)"

definition closer :: "params \<Rightarrow> (system \<times> system) set" where
  "closer P = inv_image (less_than <*lex*> less_than <*lex*> less_than) (remaining P)"

lemma wf_closer: "wf (closer P)"
  unfolding closer_def by (intro wf_inv_image wf_lex_prod wf_less_than)

lemma closer_rank:
  assumes "stage (pc s') = stage (pc s)" "pc_phase (pc s) = Some ph" "pc_phase (pc s') = Some ph"
    and k: "k \<in> workers P" "rank ph (k \<in> uncalled P s') s' k < rank ph (k \<in> uncalled P s) s k"
    and "\<And>j. j \<in> workers P \<Longrightarrow> j \<noteq> k \<Longrightarrow> rank ph (j \<in> uncalled P s') s' j = rank ph (j \<in> uncalled P s) s j"
  shows "(s', s) \<in> closer P"
proof -
  have "total_rank P ph s' < total_rank P ph s"
    unfolding total_rank_def
    by (rule sum_strict_mono_ex1) (use assms(4-6) in \<open>auto simp: le_less\<close>)
  then show ?thesis using assms(1-3) by (simp add: closer_def remaining_def)
qed

text \<open>A step that changes one worker's server and client and nothing else of the measure.\<close>

lemma closer_worker:
  assumes "pc s' = pc s" "pc_phase (pc s) = Some ph" "phase_status ph s' = phase_status ph s"
    and "servers s' = (servers s)(k := sv)" "client_pool s' = (client_pool s)(k := c)"
    and "k \<in> workers P" "rank ph (k \<in> uncalled P s) s' k < rank ph (k \<in> uncalled P s) s k"
  shows "(s', s) \<in> closer P"
proof -
  have "uncalled P s' = uncalled P s" using assms(1) by (simp add: uncalled_def)
  then show ?thesis
    using assms by (intro closer_rank [of s' s ph k]) (simp_all add: rank_def base_rank_def)
qed

lemma rank_pc [simp]: "rank ph u (s\<lparr>pc := x\<rparr>) i = rank ph u s i"
  by (simp add: rank_def base_rank_def)

lemma closer_distance:
  assumes "stage (pc s') = stage (pc s)" "pc_phase (pc s) = Some ph" "pc_phase (pc s') = Some ph"
    and "uncalled P s' = uncalled P s" "s' = s\<lparr>pc := x\<rparr>" "loop_distance P s' < loop_distance P s"
  shows "(s', s) \<in> closer P"
proof -
  have "total_rank P ph s' = total_rank P ph s"
    unfolding total_rank_def assms(4) using assms(5) by simp
  then show ?thesis using assms(1-3,6) by (simp add: closer_def remaining_def)
qed

lemma undone_from_pc [simp]: "undone_from P ph (s\<lparr>pc := x\<rparr>) = undone_from P ph s"
  by (simp add: undone_from_def fun_eq_iff)

lemma distance_pc [simp]: "distance P ph (s\<lparr>pc := x\<rparr>) = distance P ph s"
  by (simp add: distance_def fun_eq_iff)

lemma distance_next:
  assumes "i \<in> workers P" "phase_status ph s ! nat i = 1"
  shows "distance P ph s (i + 1) < distance P ph s i"
proof -
  have "undone_from P ph s (i + 1) = undone_from P ph s i"
    unfolding undone_from_def using assms(2) by (metis add1_zle_eq order_le_less)
  then show ?thesis using assms(1) by (simp add: distance_def workers_eq Let_def)
qed

lemma distance_again:
  assumes "j \<in> workers P" "phase_status ph s ! nat j \<noteq> 1" "nr_mapper (master P) \<le> i"
  shows "distance P ph s 0 < distance P ph s i"
proof -
  have "\<not> undone_from P ph s i" "undone_from P ph s 0"
    using assms by (auto simp: workers_eq undone_from_def)
  then show ?thesis using assms(1) by (simp add: distance_def Let_def workers_eq)
qed

lemma loop_distance_poll: "pc s = poll_pc ph i \<Longrightarrow> loop_distance P s = Suc (2 * distance P ph s i)"
  by (cases ph) (simp_all add: loop_distance_def)

lemma loop_distance_ask: "pc s = ask_pc ph i \<Longrightarrow> loop_distance P s = 2 * distance P ph s i"
  by (cases ph) (simp_all add: loop_distance_def)

lemma pc_facts [simp]:
  "pc_phase (poll_pc ph i) = Some ph" "pc_phase (ask_pc ph i) = Some ph" "pc_phase (call_pc ph i) = Some ph"
  "asking (poll_pc ph i) = None" "asking (call_pc ph i) = None" "asking (ask_pc ph i) = Some i"
  "stage (poll_pc ph i) = (if ph = Mapping then 1 else 0)"
  "stage (ask_pc ph i) = (if ph = Mapping then 1 else 0)"
  "stage (call_pc ph i) = (if ph = Mapping then 1 else 0)"
  by (cases ph; simp)+

lemma uncalled_simps:
  "pc s = poll_pc ph i \<Longrightarrow> uncalled P s = {}" "pc s = ask_pc ph i \<Longrightarrow> uncalled P s = {}"
  "pc s = call_pc ph i \<Longrightarrow> uncalled P s = {i}"
  "pc s = StartCall i \<Longrightarrow> uncalled P s = {i..<nr_mapper (master P)}"
  by (cases ph; simp add: uncalled_def)+

section \<open>Steps that bring the end closer\<close>

definition advances :: "params \<Rightarrow> system \<Rightarrow> system \<Rightarrow> bool" where
  "advances P s s' \<longleftrightarrow>
     sys_step P s s' \<and> \<not> waits_for_ever P s' \<and>
     (pc s' = Returned 0 \<or> (s', s) \<in> closer P \<and> pc_phase (pc s') \<noteq> None)"

lemma waits_worker:
  assumes "\<not> waits_for_ever P s" "pc s' = pc s"
    and "servers s' = (servers s)(i := sv)" "client_pool s' = (client_pool s)(i := c)"
    and "conn_made c \<or> attempting c \<and> alive sv" "asking (pc s) = Some i \<Longrightarrow> alive sv \<and> \<not> broken c"
  shows "\<not> waits_for_ever P s'"
  using assms by (auto simp: waits_for_ever_def no_answer_def lost_connection_def)

lemma waits_pc:
  assumes "\<not> waits_for_ever P s" "x \<noteq> Blocked"
    and "\<And>i. asking x = Some i \<Longrightarrow> alive (servers s i) \<and> \<not> broken (client_pool s i)"
  shows "\<not> waits_for_ever P (s\<lparr>pc := x\<rparr>)"
  using assms by (auto simp: waits_for_ever_def no_answer_def lost_connection_def)

text \<open>A step of one worker's server or client, the master staying where it is.\<close>

lemma advances_worker:
  assumes "sys_step P s s'" "\<not> waits_for_ever P s" "pc s' = pc s" "pc_phase (pc s) = Some ph"
    and "phase_status ph s' = phase_status ph s"
    and "servers s' = (servers s)(i := sv)" "client_pool s' = (client_pool s)(i := c)" "i \<in> workers P"
    and "conn_made c \<or> attempting c \<and> alive sv" "asking (pc s) = Some i \<Longrightarrow> alive sv \<and> \<not> broken c"
    and "rank ph (i \<in> uncalled P s) s' i < rank ph (i \<in> uncalled P s) s i"
  shows "advances P s s'"
  using assms waits_worker [OF assms(2,3,6,7,9,10)] closer_worker [OF assms(3-8,11)]
  by (simp add: advances_def)

context job
begin

lemma undone_cases:
  assumes "worker_inv ph False i s" "phase_status ph s ! nat i \<noteq> 1" "\<not> lost_connection s i"
  obtains (connecting) "attempting (client_pool s i)" "alive (servers s i)"
    | (pending) "alive (servers s i)" "calls (servers s i) = [phase_task ph i]"
    | (flagged) "alive (servers s i)" "phase_flag ph (servers s i)"
        "client_state (client_pool s i) = connected" "\<not> broken (client_pool s i)"
    | (lost) "alive (servers s i)" "idle_server ph (servers s i)" "conn_made (client_pool s i)" "broken (client_pool s i)"
    | (dead) "\<not> alive (servers s i)" "client_state (client_pool s i) = connected"
    | (noticed) "\<not> alive (servers s i)" "client_state (client_pool s i) = disconnected"
  using assms by (auto simp: worker_inv_def worker_defs lost_connection_def)

lemma connect_advances:
  assumes inv: "phase_inv ph U fs s" and U: "uncalled P s = U" and ph: "pc_phase (pc s) = Some ph"
    and ok: "\<not> waits_for_ever P s" and c: "attempting (client_pool s i)" "alive (servers s i)"
  shows "advances P s (connect_client i s)"
proof -
  have i: "i \<in> workers P" using alive_worker inv c(2) by blast
  note w = phase_inv_worker [OF inv i]
  have "\<not> broken (client_pool s i)" if "asking (pc s) = Some i"
    using ok that by (auto simp: waits_for_ever_def no_answer_def)
  moreover have "rank ph (i \<in> U) (connect_client i s) i < rank ph (i \<in> U) s i"
    using w c by (auto simp: rank_def base_rank_def connect_client_def worker_inv_def worker_defs)
  moreover have "alive (fold async_call ts sv) = alive sv" for ts sv
    by (induction ts arbitrary: sv) simp_all
  ultimately show ?thesis
    using c by (intro advances_worker [OF client_connects [OF c] ok _ ph _ _ _ i,
          where sv = "fold async_call (unsent (client_pool s i)) (servers s i)"
          and c = "(client_pool s i)\<lparr>client_state := connected, attempting := False, unsent := []\<rparr>"])
      (simp_all add: U, simp_all add: connect_client_def)
qed

lemma serve_advances:
  assumes inv: "phase_inv ph U fs s" and ok: "ok fs" and U: "uncalled P s = U"
    and ph: "pc_phase (pc s) = Some ph" and w: "\<not> waits_for_ever P s"
    and c: "alive (servers s i)" "calls (servers s i) = [phase_task ph i]"
  shows "\<exists>s'. advances P s s'"
proof -
  have i: "i \<in> workers P" using alive_worker inv c(1) by blast
  obtain sv fs' where sv: "serve P (servers s i) (disk s) = (sv, fs')" by fastforce
  let ?s = "s\<lparr>servers := (servers s)(i := sv), disk := fs'\<rparr>"
  have "\<forall>m\<in>workers P. finished (MapTask m) (disk s)" if "ph = Reducing"
    using inv that by (simp add: phase_inv_def)
  from serve_phase_effect [OF phase_inv_ok [OF inv ok] i this] sv
  have sv': "sv = set_flag ph (servers s i\<lparr>calls := []\<rparr>)"
    by (simp add: serve_phase_task [OF c(2)])
  have rank: "rank ph (i \<in> U) ?s i < rank ph (i \<in> U) s i" and made: "conn_made (client_pool s i)"
    using phase_inv_worker [OF inv i] c by (auto simp: rank_def base_rank_def worker_inv_def worker_defs sv')
  have "sys_step P s ?s" by (rule server_serves [OF c(1) _ sv]) (simp add: c)
  then have "advances P s ?s"
    by (rule advances_worker [OF _ w _ ph _ _ _ i, where c = "client_pool s i" and sv = sv])
      (use w rank made c sv' U in \<open>auto simp: waits_for_ever_def no_answer_def\<close>)
  then show ?thesis by blast
qed

lemma kill_advances:
  assumes inv: "phase_inv ph {} fs s" and at: "pc s = poll_pc ph i" and w: "\<not> waits_for_ever P s"
    and i: "i \<in> workers P"
    and c: "alive (servers s i)" "idle_server ph (servers s i)" "conn_made (client_pool s i)" "broken (client_pool s i)"
  shows "\<exists>s'. advances P s s'"
proof -
  let ?s = "s\<lparr>servers := (servers s)(i := dead_server), disk := disk s\<rparr>"
  have "sys_step P s ?s" by (rule server_killed [OF c(1)]) (simp add: torn_def)
  moreover have "rank ph False ?s i < rank ph False s i"
    using phase_inv_worker [OF inv i] c by (auto simp: rank_def base_rank_def worker_inv_def worker_defs)
  ultimately have "advances P s ?s"
    using c i at by (intro advances_worker [OF _ w, where ph = ph and c = "client_pool s i"
          and sv = dead_server and i = i]) (simp_all add: uncalled_simps)
  then show ?thesis by blast
qed

lemma notice_advances:
  assumes at: "pc s = poll_pc ph i" and w: "\<not> waits_for_ever P s" and i: "i \<in> workers P"
    and st: "phase_status ph s ! nat i \<noteq> 1"
    and c: "\<not> alive (servers s i)" "client_state (client_pool s i) = connected"
  shows "\<exists>s'. advances P s s'"
proof -
  let ?s = "set_client i ((client_pool s i)\<lparr>client_state := disconnected\<rparr>) s"
  have "rank ph False ?s i < rank ph False s i"
    using c st by (simp add: rank_def base_rank_def)
  then have "advances P s ?s"
    by (intro advances_worker [OF client_notices [OF c] w, where ph = ph and i = i and sv = "servers s i"])
      (use c i at in \<open>auto simp: uncalled_simps\<close>)
  then show ?thesis by blast
qed

lemma waits_call:
  assumes "\<not> waits_for_ever P s" "conn_made (client_pool s i)" "x \<noteq> Blocked" "asking x = None"
  shows "\<not> waits_for_ever P ((post_task t i s)\<lparr>pc := x\<rparr>)"
  using assms by (auto simp: waits_for_ever_def no_answer_def lost_connection_def post_task_def Let_def split: if_splits)

lemma rank_call:
  assumes "worker_inv ph True i s" "conn_made (client_pool s i)"
  shows "rank ph False ((post_task (phase_task ph i) i s)\<lparr>pc := x\<rparr>) i < rank ph True s i"
  using assms by (auto simp: rank_def base_rank_def worker_inv_def worker_defs post_task_def Let_def)

lemma rank_call_other:
  "j \<noteq> i \<Longrightarrow> rank ph u (post_task t i s) j = rank ph u s j"
  by (simp add: rank_def base_rank_def post_task_def Let_def)

lemma recall_advances:
  assumes inv: "phase_inv ph {i} fs s" and at: "pc s = call_pc ph i" and i: "i \<in> workers P"
    and w: "\<not> waits_for_ever P s" and c: "conn_made (client_pool s i)"
  shows "advances P s (master_step P s)"
proof -
  let ?s = "(post_task (phase_task ph i) i s)\<lparr>pc := poll_pc ph (i + 1)\<rparr>"
  have s': "master_step P s = ?s"
    using c master_step_pc(3) [OF at] by (cases ph) (simp_all add: wait_conn_then_def recall_map_def recall_reduce_def)
  have "(?s, s) \<in> closer P"
    by (rule closer_rank [of _ _ ph i])
      (use at i rank_call [OF _ c, of ph] phase_inv_worker [OF inv i] in
        \<open>auto simp: uncalled_simps rank_call_other\<close>)
  moreover have "\<not> waits_for_ever P ?s"
    by (rule waits_call [OF w c]) (cases ph; simp)+
  ultimately show ?thesis using master_moves [of P s] by (simp add: advances_def s')
qed

lemma start_advances:
  assumes inv: "phase_inv Mapping {i..<nr_mapper (master P)} fs s" and at: "pc s = StartCall i"
    and i: "i \<in> workers P" and w: "\<not> waits_for_ever P s" and c: "conn_made (client_pool s i)"
  shows "advances P s (master_step P s)"
proof -
  let ?s = "(post_task (phase_task Mapping i) i s)\<lparr>pc := StartCall (i + 1)\<rparr>"
  have s': "master_step P s = ?s"
    using c at i by (simp add: master_step_def wait_conn_then_def start_call_def workers_eq)
  have succ_le: "i + 1 \<le> j \<longleftrightarrow> i \<le> j" if "j \<noteq> i" for j :: int using that by linarith
  have "worker_inv Mapping True i s" using phase_inv_worker [OF inv i] i by (simp add: workers_eq)
  from rank_call [OF this c] have "(?s, s) \<in> closer P"
    by (intro closer_rank [of _ _ Mapping i])
      (use at i in \<open>auto simp: uncalled_simps rank_call_other uncalled_def workers_eq succ_le\<close>)
  moreover have "\<not> waits_for_ever P ?s" by (rule waits_call [OF w c]) simp_all
  ultimately show ?thesis using master_moves [of P s] by (simp add: advances_def s')
qed

lemma advances_pc:
  assumes "master_step P s = s\<lparr>pc := x\<rparr>" "\<not> waits_for_ever P s" "x \<noteq> Blocked"
    and "\<And>i. asking x = Some i \<Longrightarrow> alive (servers s i) \<and> \<not> broken (client_pool s i)"
    and "(s\<lparr>pc := x\<rparr>, s) \<in> closer P" "pc_phase x \<noteq> None"
  shows "advances P s (master_step P s)"
  using assms waits_pc [OF assms(2-4)] master_moves [of P s] by (simp add: advances_def)

lemma poll_done:
  assumes inv: "phase_inv ph {} fs s" and at: "pc s = poll_pc ph i" and i: "i \<in> workers P"
    and w: "\<not> waits_for_ever P s" and st: "phase_status ph s ! nat i = 1"
  shows "advances P s (master_step P s)"
proof (rule advances_pc [OF _ w])
  show "master_step P s = s\<lparr>pc := poll_pc ph (i + 1)\<rparr>"
    using st phase_index [OF inv i] i master_step_pc(1) [OF at, of P]
    by (cases ph) (simp_all add: poll_map_def poll_reduce_def workers_eq)
  show "(s\<lparr>pc := poll_pc ph (i + 1)\<rparr>, s) \<in> closer P"
    by (rule closer_distance [where ph = ph])
      (use at distance_next [OF i st] in \<open>auto simp: uncalled_simps loop_distance_poll\<close>)
qed (cases ph; simp)+

lemma poll_asks:
  assumes inv: "phase_inv ph {} fs s" and at: "pc s = poll_pc ph i" and i: "i \<in> workers P"
    and w: "\<not> waits_for_ever P s" and st: "phase_status ph s ! nat i \<noteq> 1"
    and c: "client_state (client_pool s i) = connected" "alive (servers s i)" "\<not> broken (client_pool s i)"
  shows "advances P s (master_step P s)"
proof (rule advances_pc [OF _ w])
  show "master_step P s = s\<lparr>pc := ask_pc ph i\<rparr>"
    using st c(1) phase_index [OF inv i] i master_step_pc(1) [OF at, of P]
    by (cases ph) (simp_all add: poll_map_def poll_reduce_def workers_eq is_server_down_def)
  show "(s\<lparr>pc := ask_pc ph i\<rparr>, s) \<in> closer P"
    by (rule closer_distance [where ph = ph])
      (use at in \<open>auto simp: uncalled_simps loop_distance_poll loop_distance_ask\<close>)
qed (use c in \<open>cases ph; simp\<close>)+

lemma ask_marks:
  assumes inv: "phase_inv ph {} fs s" and at: "pc s = ask_pc ph i" and i: "i \<in> workers P"
    and w: "\<not> waits_for_ever P s" and st: "phase_status ph s ! nat i \<noteq> 1"
    and c: "conn_made (client_pool s i)" "alive (servers s i)" "phase_flag ph (servers s i)" "\<not> broken (client_pool s i)"
  shows "advances P s (master_step P s)"
proof -
  let ?s = "master_step P s"
  have s': "phase_status ph ?s = (phase_status ph s)[nat i := 1]" "pc ?s = poll_pc ph (i + 1)"
    "servers ?s = servers s" "client_pool ?s = client_pool s"
    using c master_step_pc(2) [OF at, of P]
    by (cases ph; simp add: wait_conn_then_def ask_map_def ask_reduce_def blocking_call_def
        handle_is_map_done_def handle_is_reduce_done_def)+
  have other: "(phase_status ph s)[nat i := 1] ! nat j = phase_status ph s ! nat j"
    if "j \<in> workers P" "j \<noteq> i" for j
    using that i by (auto simp: workers_eq intro!: nth_list_update_neq)
  have "(?s, s) \<in> closer P"
    by (rule closer_rank [of _ _ ph i])
      (use at i s' c st other phase_index [OF inv i] in \<open>auto simp: uncalled_simps rank_def base_rank_def\<close>)
  moreover have "\<not> waits_for_ever P ?s"
    using w s' by (cases ph) (auto simp: waits_for_ever_def no_answer_def lost_connection_def)
  ultimately show ?thesis using master_moves [of P s] s' by (simp add: advances_def)
qed

lemma poll_restarts:
  assumes inv: "phase_inv ph {} fs s" and at: "pc s = poll_pc ph i" and i: "i \<in> workers P"
    and w: "\<not> waits_for_ever P s" and st: "phase_status ph s ! nat i \<noteq> 1"
    and c: "\<not> alive (servers s i)" "client_state (client_pool s i) = disconnected"
  shows "advances P s (master_step P s)"
proof -
  let ?s = "s\<lparr>servers := (servers s)(i := forked_server),
    client_pool := (client_pool s)(i := new_pool_client), pc := call_pc ph i\<rparr>"
  have s': "master_step P s = ?s"
    using st c phase_index [OF inv i] i master_step_pc(1) [OF at, of P]
    by (cases ph) (simp_all add: poll_map_def poll_reduce_def workers_eq is_server_down_def
        restart_map_server_def restart_reduce_server_def)
  have "(?s, s) \<in> closer P"
    by (rule closer_rank [of _ _ ph i])
      (use at i c st in \<open>auto simp: uncalled_simps rank_def base_rank_def\<close>)
  moreover have "\<not> waits_for_ever P ?s"
    using w by (cases ph) (auto simp: waits_for_ever_def no_answer_def lost_connection_def)
  ultimately show ?thesis using master_moves [of P s] by (simp add: advances_def s')
qed

section \<open>From every state that does not wait for ever\<close>

lemma poll_advances:
  assumes inv: "phase_inv ph {} fs s" and ok: "ok fs" and at: "pc s = poll_pc ph i" and i: "i \<in> workers P"
    and w: "\<not> waits_for_ever P s"
  shows "\<exists>s'. advances P s s'"
proof (cases "phase_status ph s ! nat i = 1")
  case True
  show ?thesis using poll_done [OF inv at i w True] by blast
next
  case st: False
  have wi: "worker_inv ph False i s" using phase_inv_worker [OF inv i] by simp
  have ph: "pc_phase (pc s) = Some ph" using at by simp
  have "\<not> lost_connection s i" using w i by (auto simp: waits_for_ever_def)
  from wi st this show ?thesis
  proof (cases rule: undone_cases)
    case connecting
    show ?thesis
      using connect_advances [OF inv uncalled_simps(1) [OF at] ph w connecting] by blast
  next
    case pending
    show ?thesis by (rule serve_advances [OF inv ok uncalled_simps(1) [OF at] ph w pending])
  next
    case flagged
    show ?thesis using poll_asks [OF inv at i w st flagged(3,1,4)] by blast
  next
    case lost
    show ?thesis by (rule kill_advances [OF inv at w i lost])
  next
    case dead
    show ?thesis by (rule notice_advances [OF at w i st dead])
  next
    case noticed
    show ?thesis using poll_restarts [OF inv at i w st noticed] by blast
  qed
qed

lemma ask_advances:
  assumes inv: "phase_inv ph {} fs s" and ok: "ok fs" and at: "pc s = ask_pc ph i" and i: "i \<in> workers P"
    and w: "\<not> waits_for_ever P s" and st: "phase_status ph s ! nat i \<noteq> 1"
  shows "\<exists>s'. advances P s s'"
proof -
  have wi: "worker_inv ph False i s" using phase_inv_worker [OF inv i] by simp
  have ph: "pc_phase (pc s) = Some ph" using at by simp
  have l: "\<not> lost_connection s i" and a: "alive (servers s i)" "\<not> broken (client_pool s i)"
    using w i at by (auto simp: waits_for_ever_def no_answer_def)
  from wi st l show ?thesis
  proof (cases rule: undone_cases)
    case connecting
    show ?thesis
      using connect_advances [OF inv uncalled_simps(2) [OF at] ph w connecting] by blast
  next
    case pending
    show ?thesis by (rule serve_advances [OF inv ok uncalled_simps(2) [OF at] ph w pending])
  next
    case flagged
    then have "conn_made (client_pool s i)" by (simp add: conn_made_def)
    from ask_marks [OF inv at i w st this flagged(1,2,4)] show ?thesis by blast
  qed (use a in simp_all)
qed

lemma not_all_done:
  assumes "phase_inv ph U fs s" "ok fs" "phase_count ph s \<noteq> nr_mapper (master P)"
  shows "\<exists>j\<in>workers P. phase_status ph s ! nat j \<noteq> 1"
proof (rule ccontr)
  assume *: "\<not> ?thesis"
  have "ones (phase_status ph s) = int (length (phase_status ph s))"
  proof (rule ones_if_all)
    fix k assume "k < length (phase_status ph s)"
    then have "int k \<in> workers P" using assms(1) by (simp add: phase_inv_def workers_eq)
    with * show "phase_status ph s ! k = 1" by force
  qed
  with assms same_count [OF assms(2)] show False by (simp add: phase_inv_def)
qed

text \<open>At the end of a pass not everything of which is done, the loop starts again.\<close>

lemma again_advances:
  assumes inv: "phase_inv ph {} fs s" and ok: "ok fs" and at: "pc s = poll_pc ph i"
    and i: "i = nr_mapper (master P)" and w: "\<not> waits_for_ever P s"
    and c: "phase_count ph s \<noteq> nr_mapper (master P)"
  shows "advances P s (master_step P s)"
proof (rule advances_pc [OF _ w])
  show "master_step P s = s\<lparr>pc := poll_pc ph 0\<rparr>"
    using at i c same_count [OF ok]
    by (cases ph) (simp_all add: master_step_def end_map_pass_def end_reduce_pass_def)
  obtain j where j: "j \<in> workers P" "phase_status ph s ! nat j \<noteq> 1"
    using not_all_done [OF inv ok c] by blast
  show "(s\<lparr>pc := poll_pc ph 0\<rparr>, s) \<in> closer P"
    by (rule closer_distance [where ph = ph])
      (use at distance_again [OF j] i in \<open>auto simp: uncalled_simps loop_distance_poll\<close>)
qed (cases ph; simp)+

lemma pass_advances:
  assumes inv: "phase_inv ph {} fs s" and ok: "ok fs" and at: "pc s = poll_pc ph i"
    and i: "i = nr_mapper (master P)" and w: "\<not> waits_for_ever P s"
  shows "advances P s (master_step P s)"
proof (cases "phase_count ph s = nr_mapper (master P)")
  case False
  show ?thesis by (rule again_advances [OF inv ok at i w False])
next
  case True
  show ?thesis
  proof (cases ph)
    case Mapping
    with at i True have s': "master_step P s = start_reduce P s" 
      by (simp add: master_step_def end_map_pass_def)
    have "pc (start_reduce P s) = ReducePoll 0" using same_count [OF ok] by (simp add: start_reduce_def)
    moreover from this w have "\<not> waits_for_ever P (start_reduce P s)"
      by (auto simp: waits_for_ever_def no_answer_def lost_connection_def start_reduce_def)
    moreover have "(start_reduce P s, s) \<in> closer P"
      using at Mapping calculation(1) by (simp add: closer_def remaining_def)
    ultimately show ?thesis using master_moves [of P s] by (simp add: advances_def s')
  next
    case Reducing
    with at i True same_count [OF ok] have s': "master_step P s = stop_servers P s"
      by (simp add: master_step_def end_reduce_pass_def)
    have "conn_made (client_pool s j)" if "j \<in> workers P" for j
      using phase_inv_worker [OF inv that] all_done [OF inv True that] by (simp add: worker_inv_def)
    then have "\<not> waits_for_ever P (stop_servers P s)"
      by (simp add: waits_for_ever_def no_answer_def lost_connection_def stop_servers_def)
    then show ?thesis using master_moves [of P s] by (simp add: advances_def s' stop_servers_def)
  qed
qed

lemma system_advances:
  assumes ok: "ok fs" and inv: "system_inv fs s" and w: "\<not> waits_for_ever P s" and ph: "pc_phase (pc s) \<noteq> None"
  shows "\<exists>s'. advances P s s'"
proof (cases s rule: pc_cases)
  case (poll ph i)
  with inv have m: "0 \<le> i" "i \<le> nr_mapper (master P)" "phase_inv ph {} fs s"
    by (simp_all add: system_inv_pc)
  show ?thesis
  proof (cases "i < nr_mapper (master P)")
    case True
    with m have "i \<in> workers P" by (simp add: workers_eq)
    from poll_advances [OF m(3) ok poll this w] show ?thesis .
  next
    case False
    with m have "i = nr_mapper (master P)" by simp
    from pass_advances [OF m(3) ok poll this w] show ?thesis by blast
  qed
next
  case (ask ph i)
  with inv have "i \<in> workers P" "phase_status ph s ! nat i \<noteq> 1" "phase_inv ph {} fs s"
    by (simp_all add: system_inv_pc)
  with ask_advances [OF _ ok ask _ w] show ?thesis by blast
next
  case (call ph i)
  with inv have m: "i \<in> workers P" "phase_inv ph {i} fs s" by (simp_all add: system_inv_pc)
  show ?thesis
  proof (cases "conn_made (client_pool s i)")
    case True
    from recall_advances [OF m(2) call m(1) w True] show ?thesis by blast
  next
    case False
    with w m(1) have c: "attempting (client_pool s i)" "alive (servers s i)"
      by (auto simp: waits_for_ever_def lost_connection_def)
    from connect_advances [OF m(2) uncalled_simps(3) [OF call] _ w c] call show ?thesis by auto
  qed
next
  case (start i)
  with inv have m: "0 \<le> i" "i \<le> nr_mapper (master P)" "phase_inv Mapping {i..<nr_mapper (master P)} fs s"
    by (simp_all add: system_inv_pc)
  show ?thesis
  proof (cases "i < nr_mapper (master P)")
    case False
    have "advances P s (master_step P s)"
      by (rule advances_pc [OF _ w]) (use False start in \<open>auto simp: master_step_def closer_def remaining_def\<close>)
    then show ?thesis by blast
  next
    case True
    with m have i: "i \<in> workers P" by (simp add: workers_eq)
    show ?thesis
    proof (cases "conn_made (client_pool s i)")
      case True
      from start_advances [OF m(3) start i w True] show ?thesis by blast
    next
      case False
      with w i have c: "attempting (client_pool s i)" "alive (servers s i)"
        by (auto simp: waits_for_ever_def lost_connection_def)
      from connect_advances [OF m(3) uncalled_simps(4) [OF start] _ w c] start show ?thesis by auto
    qed
  qed
qed (use ph in simp_all)

lemma can_return:
  assumes ok: "ok fs"
  shows "system_inv fs s \<Longrightarrow> \<not> waits_for_ever P s \<Longrightarrow>
    \<exists>s'. (sys_step P)\<^sup>*\<^sup>* s s' \<and> pc s' = Returned 0"
proof (induction s rule: wf_induct_rule [OF wf_closer [of P]])
  case (1 s)
  show ?case
  proof (cases "pc_phase (pc s) = None")
    case False
    from system_advances [OF ok "1.prems" False] obtain s' where s': "advances P s s'" by blast
    then have step: "sys_step P s s'" by (simp add: advances_def)
    show ?thesis
    proof (cases "pc s' = Returned 0")
      case True
      with step show ?thesis by blast
    next
      case no: False
      with s' have "(s', s) \<in> closer P" "\<not> waits_for_ever P s'" by (simp_all add: advances_def)
      with "1.IH" [of s'] sys_step_inv [OF ok "1.prems"(1) step] obtain t where
        "(sys_step P)\<^sup>*\<^sup>* s' t" "pc t = Returned 0" by blast
      with step show ?thesis by (meson converse_rtranclp_into_rtranclp)
    qed
  next
    case True
    with "1.prems" have "pc s = Returned 0"
      by (cases "pc s") (auto simp: system_inv_def waits_for_ever_def)
    then show ?thesis by blast
  qed
qed

end

section \<open>Waiting for ever is for ever\<close>

inductive_cases sys_stepE: "sys_step P s s'"

lemma blocked_step: "sys_step P s s' \<Longrightarrow> pc s = Blocked \<Longrightarrow> pc s' = Blocked"
  by (erule sys_stepE) (simp_all add: master_step_def woken_def)

lemma blocked_forever: "(sys_step P)\<^sup>*\<^sup>* s s' \<Longrightarrow> pc s = Blocked \<Longrightarrow> pc s' = Blocked"
  by (induction rule: rtranclp_induct) (auto dest: blocked_step)

lemma no_answer_step:
  assumes "sys_step P s s'" "no_answer s i"
  shows "pc s' = Blocked \<or> no_answer s' i"
proof -
  obtain ph where at: "pc s = ask_pc ph i"
    using assms(2) by (cases "pc s") (auto simp: no_answer_def intro: that [of Mapping] that [of Reducing])
  from assms(1) show ?thesis
  proof cases
    case master_moves
    have "pc (ask ph i s) = Blocked"
      using assms(2) by (cases ph) (auto simp: no_answer_def ask_map_def ask_reduce_def blocking_call_def)
    with assms(2) master_moves show ?thesis
      by (simp add: master_step_pc(2) [OF at] wait_conn_then_def)
  next
    case spurious_wakeup
    with assms(2) at show ?thesis by (cases ph) (simp_all add: woken_def)
  qed (use assms(2) in \<open>auto simp: no_answer_def connect_client_def\<close>)
qed

lemma lost_connection_pc [simp]: "lost_connection (s\<lparr>pc := x\<rparr>) i = lost_connection s i"
  by (simp add: lost_connection_def)

lemma lost_connection_call: "lost_connection s i \<Longrightarrow> lost_connection (post_task t j s) i"
  by (auto simp: lost_connection_def post_task_def Let_def)

lemma lost_connection_poll: "lost_connection s i \<Longrightarrow> lost_connection (poll ph j s) i"
  by (cases ph) (auto simp: lost_connection_def conn_made_def is_server_down_def poll_map_def poll_reduce_def
      restart_map_server_def restart_reduce_server_def)

lemma lost_connection_ask: "lost_connection s i \<Longrightarrow> lost_connection (ask ph j s) i"
  by (cases ph) (auto simp: lost_connection_def ask_map_def ask_reduce_def split: option.split bool.split)

lemma lost_connection_recall: "lost_connection s i \<Longrightarrow> lost_connection (recall ph j s) i"
  by (cases ph) (simp_all add: recall_map_def recall_reduce_def lost_connection_call)

lemma lost_connection_pass:
  "lost_connection s i \<Longrightarrow> lost_connection (end_map_pass P s) i"
  "lost_connection s i \<Longrightarrow> lost_connection (end_reduce_pass P s) i"
  by (auto simp: lost_connection_def end_map_pass_def start_reduce_def end_reduce_pass_def stop_servers_def
      handle_stop_server_def dead_server_def)

lemma lost_connection_step:
  assumes "sys_step P s s'" "lost_connection s i"
  shows "lost_connection s' i"
  using assms(1)
proof cases
  case master_moves
  have "lost_connection (master_step P s) i"
    using assms(2) lost_connection_poll [OF assms(2), of Mapping] lost_connection_poll [OF assms(2), of Reducing]
      lost_connection_ask [OF assms(2), of Mapping] lost_connection_ask [OF assms(2), of Reducing]
      lost_connection_recall [OF assms(2), of Mapping] lost_connection_recall [OF assms(2), of Reducing]
    by (simp add: master_step_def wait_conn_then_def start_call_def lost_connection_call lost_connection_pass
        split: pc.split)
  with master_moves show ?thesis by simp
next
  case spurious_wakeup
  with assms(2) lost_connection_recall [OF assms(2), of Mapping] lost_connection_recall [OF assms(2), of Reducing]
  show ?thesis by (simp add: woken_def start_call_def lost_connection_call split: pc.split)
next
  case (client_notices j)
  with assms(2) show ?thesis by (auto simp: lost_connection_def conn_made_def)
qed (use assms(2) in \<open>auto simp: lost_connection_def connect_client_def\<close>)

lemma waits_for_ever_step: "sys_step P s s' \<Longrightarrow> waits_for_ever P s \<Longrightarrow> waits_for_ever P s'"
  using blocked_step no_answer_step lost_connection_step unfolding waits_for_ever_def by metis

lemma waits_for_ever_stays: "(sys_step P)\<^sup>*\<^sup>* s s' \<Longrightarrow> waits_for_ever P s \<Longrightarrow> waits_for_ever P s'"
  by (induction rule: rtranclp_induct) (auto dest: waits_for_ever_step)

context job
begin

lemma returned_does_not_wait: "system_inv fs s \<Longrightarrow> pc s = Returned n \<Longrightarrow> \<not> waits_for_ever P s"
  by (auto simp: system_inv_def final_inv_def waits_for_ever_def no_answer_def lost_connection_def)

lemma reachable_returns_iff:
  assumes "reachable P fs s" "ok fs"
  shows "(\<exists>s'. (sys_step P)\<^sup>*\<^sup>* s s' \<and> pc s' = Returned 0) \<longleftrightarrow> \<not> waits_for_ever P s"
proof
  assume "\<exists>s'. (sys_step P)\<^sup>*\<^sup>* s s' \<and> pc s' = Returned 0"
  then obtain s' where s': "(sys_step P)\<^sup>*\<^sup>* s s'" "pc s' = Returned 0" by blast
  have "system_inv fs s'" using reachable_inv reachable_steps [OF assms(1) s'(1)] assms(2) by blast
  with s' show "\<not> waits_for_ever P s" using waits_for_ever_stays returned_does_not_wait by blast
next
  assume "\<not> waits_for_ever P s"
  then show "\<exists>s'. (sys_step P)\<^sup>*\<^sup>* s s' \<and> pc s' = Returned 0"
    using can_return [OF assms(2)] reachable_inv assms by blast
qed

lemma start_does_not_wait: "0 \<le> nr_mapper (master P) \<Longrightarrow> \<not> waits_for_ever P (process_start P fs)"
  by (auto simp: waits_for_ever_def no_answer_def lost_connection_def process_start_def spawn_servers_def)

end

end
