(* ===== verification/Map_Reduce.thy ===== *)
theory Map_Reduce
  imports Reduce_Worker Master_Progress
begin

text \<open>
  A whole job: the reference result of mapping an input text and reducing the groups, as
  a function of the input alone; what each worker writes, as a function of its index; and
  the proof that a class meeting \<open>mr_app\<close> gives tasks meeting \<open>job\<close>.
\<close>

section \<open>The reference result\<close>

text \<open>All pairs the map function emits for a text, in the order of its lines.\<close>

definition emitted_pairs ::
  "(string \<Rightarrow> string \<Rightarrow> (string \<times> string) list) \<Rightarrow> string \<Rightarrow> (string \<times> string) list" where
  "emitted_pairs emits text = mapped emits (number_lines 0 (lines_of text))"

text \<open>What all mappers write for one reducer, in the order the reducer reads it.\<close>

definition written_for ::
  "(string \<Rightarrow> string \<Rightarrow> (string \<times> string) list) \<Rightarrow> (int \<Rightarrow> 64 word) \<Rightarrow> (string \<Rightarrow> 64 word)
    \<Rightarrow> int \<Rightarrow> string \<Rightarrow> int \<Rightarrow> (string \<times> string) list" where
  "written_for emits hi hs N text r =
     concat (map (\<lambda>m. key_share hs N r (mapper_pairs emits hi N text m)) [0..N - 1])"

text \<open>The entries of one output file.\<close>

definition job_results ::
  "(string \<Rightarrow> string \<Rightarrow> (string \<times> string) list) \<Rightarrow> (string \<Rightarrow> string list \<Rightarrow> (string \<times> string list) list)
    \<Rightarrow> (int \<Rightarrow> 64 word) \<Rightarrow> (string \<Rightarrow> 64 word) \<Rightarrow> int \<Rightarrow> string \<Rightarrow> int \<Rightarrow> (string \<times> string list) list" where
  "job_results emits outs hi hs N text r =
     reduced outs (group_by_key (written_for emits hi hs N text r))"

fun job_effect ::
  "(string \<Rightarrow> string \<Rightarrow> (string \<times> string) list) \<Rightarrow> (string \<Rightarrow> string list \<Rightarrow> (string \<times> string list) list)
    \<Rightarrow> (int \<Rightarrow> 64 word) \<Rightarrow> (string \<Rightarrow> 64 word) \<Rightarrow> string \<Rightarrow> int \<Rightarrow> string \<Rightarrow> task \<Rightarrow> string \<Rightarrow> string option" where
  "job_effect emits outs hi hs d N text (MapTask m) =
     temp_updates hs d m N (mapper_pairs emits hi N text m)"
| "job_effect emits outs hi hs d N text (ReduceTask r) =
     [output_path d r \<mapsto> concat (map entry_line (job_results emits outs hi hs N text r))]"

section \<open>The parameters and the file systems of a job\<close>

text \<open>A client registers its class, hands over two paths and a number, and calls \<open>process\<close>.\<close>

definition job_params ::
  "mr_class \<Rightarrow> (int \<Rightarrow> 64 word) \<Rightarrow> (string \<Rightarrow> 64 word) \<Rightarrow> string \<Rightarrow> string \<Rightarrow> int \<Rightarrow> params" where
  "job_params cls hi hs f d N =
     \<lparr>generators = MapReduceInterfaceFactoryRegistration ''MapReduce'' cls (\<lambda>_. None),
      hash_int = hi, hash_string = hs, master = MapReduceMaster_N f d N\<rparr>"

definition own_paths :: "string \<Rightarrow> int \<Rightarrow> string set" where
  "own_paths d N =
     (\<Union>m\<in>{0..<N}. temp_path d m ` {0..<N}) \<union> output_path d ` {0..<N}"

definition job_ready :: "string \<Rightarrow> string \<Rightarrow> int \<Rightarrow> string \<Rightarrow> file_system \<Rightarrow> bool" where
  "job_ready f d N text fs \<longleftrightarrow>
     0 < N \<and> N \<le> INT_MAX
     \<and> files fs (input_path d f) = Some text \<and> int (length text) \<le> INT_MAX
     \<and> input_path d f \<notin> own_paths d N \<and> (\<forall>p\<in>own_paths d N. creatable fs p)"

lemma job_params_sel [simp]:
  "generators (job_params cls hi hs f d N) ''MapReduce'' = Some cls"
  "hash_int (job_params cls hi hs f d N) = hi"
  "hash_string (job_params cls hi hs f d N) = hs"
  "inputFileName (master (job_params cls hi hs f d N)) = f"
  "outputResultDirectory (master (job_params cls hi hs f d N)) = d"
  "nr_mapper (master (job_params cls hi hs f d N)) = N"
  "nr_reducer (master (job_params cls hi hs f d N)) = N"
  by (simp_all add: job_params_def MapReduceMaster_N_def MapReduceInterfaceFactoryRegistration_def
      registerGenerator_def)

lemma workers_job [simp]: "workers (job_params cls hi hs f d N) = {0..<N}"
  by (simp add: workers_eq)

lemma tasks_job_paths:
  "(\<Union>t\<in>tasks (job_params cls hi hs f d N). task_paths (job_params cls hi hs f d N) t) = own_paths d N"
  by (auto simp: tasks_def own_paths_def)

lemma own_paths:
  "0 \<le> m \<Longrightarrow> m < N \<Longrightarrow> 0 \<le> r \<Longrightarrow> r < N \<Longrightarrow> temp_path d m r \<in> own_paths d N"
  "0 \<le> r \<Longrightarrow> r < N \<Longrightarrow> output_path d r \<in> own_paths d N"
  by (force simp: own_paths_def)+

lemma worker_int: "N \<le> INT_MAX \<Longrightarrow> i \<in> {0..<N} \<Longrightarrow> in_int i"
  by (auto intro: in_int_nonneg)

lemma job_paths_disjoint:
  assumes "N \<le> INT_MAX" "t \<in> tasks (job_params cls hi hs f d N)" "t' \<in> tasks (job_params cls hi hs f d N)"
    and "t \<noteq> t'"
  shows "task_paths (job_params cls hi hs f d N) t \<inter> task_paths (job_params cls hi hs f d N) t' = {}"
proof -
  note int = worker_int [OF assms(1)]
  show ?thesis
  proof (cases t; cases t')
    fix i j assume "t = MapTask i" "t' = MapTask j"
    with assms int show ?thesis
      using temp_path_inject [of d i _ j] by (fastforce simp: tasks_def)
  next
    fix i j assume "t = ReduceTask i" "t' = ReduceTask j"
    with assms int show ?thesis
      using output_path_inject [of d i j] by (fastforce simp: tasks_def)
  next
    fix i j assume "t = MapTask i" "t' = ReduceTask j"
    then show ?thesis 
      using temp_path_not_output_path [where d = d and r' = j] by (auto dest: sym)
  next
    fix i j assume "t = ReduceTask i" "t' = MapTask j"
    then show ?thesis 
      using temp_path_not_output_path [where d = d and r' = i] by (auto dest: sym)
  qed
qed

lemma dom_temp_updates: "dom (temp_updates hs d m R kvs) = temp_path d m ` {0..<R}"
  by (simp add: temp_updates_def dom_map_of_conv_image_fst image_image)
    (metis atLeastLessThanPlusOne_atLeastAtMost_int diff_add_cancel)

lemma temp_updates_path:
  assumes "R \<le> INT_MAX" "in_int m" "r \<in> {0..<R}"
  shows "temp_updates hs d m R kvs (temp_path d m r) =
    Some (concat (map kv_line (key_share hs R r kvs)))"
  unfolding temp_updates_def
  by (rule map_of_paths) (use inj_temp_path [OF assms(1,2)] assms(3) in auto)

section \<open>Lengths\<close>

lemma length_lines_of: "length (lines_of s) \<le> length s"
proof (induction s rule: lines_of.induct)
  case (1 s)
  show ?case
  proof (cases "s = []")
    case False
    show ?thesis
    proof (cases "dropWhile (\<lambda>c. c \<noteq> CHR 0x0A) s")
      case Nil
      with False show ?thesis
        by (simp add: lines_of_step [OF False] Suc_le_eq del: dropWhile_eq_Nil_conv)
    next
      case (Cons c r)
      with 1 [OF False Cons] length_dropWhile_Cons [OF Cons] show ?thesis
        by (simp add: lines_of_step [OF False])
    qed
  qed simp
qed

section \<open>A class meeting its contract gives such a job\<close>

text \<open>What is asked of the pairs: they survive the temporary files, and the groups are accepted.\<close>

definition good_pairs ::
  "(string \<Rightarrow> string \<Rightarrow> (string \<times> string) list) \<Rightarrow> (string \<Rightarrow> string list \<Rightarrow> bool)
    \<Rightarrow> (int \<Rightarrow> 64 word) \<Rightarrow> (string \<Rightarrow> 64 word) \<Rightarrow> int \<Rightarrow> string \<Rightarrow> bool" where
  "good_pairs emits accepts hi hs N text \<longleftrightarrow>
     (\<forall>kv\<in>set (emitted_pairs emits text). token_pair kv)
     \<and> (\<forall>r\<in>{0..<N}. \<forall>g\<in>set (group_by_key (written_for emits hi hs N text r)).
          accepts (fst g) (snd g))"

lemma set_mapper_pairs: "set (mapper_pairs emits hi N text m) \<subseteq> set (emitted_pairs emits text)"
  by (auto simp: mapper_pairs_def emitted_pairs_def mapped_def share_def)

lemma set_key_share: "set (key_share hs R r kvs) \<subseteq> set kvs"
  by (auto simp: key_share_def)

lemma temp_file_finished:
  assumes "N \<le> INT_MAX" "m \<in> {0..<N}" "r \<in> {0..<N}" "temp_updates hs d m N kvs \<subseteq>\<^sub>m files fs"
  shows "files fs (temp_path d m r) = Some (concat (map kv_line (key_share hs N r kvs)))"
  using assms(4) temp_updates_path [OF assms(1) worker_int [OF assms(1,2)] assms(3), of hs d kvs]
  by (metis domI map_le_def)

lemma temp_pairs_finished:
  assumes "N \<le> INT_MAX" "m \<in> {0..<N}" "r \<in> {0..<N}" "\<forall>kv\<in>set kvs. token_pair kv"
    and "temp_updates hs d m N kvs \<subseteq>\<^sub>m files fs"
  shows "temp_pairs fs (temp_path d m r) = key_share hs N r kvs"
proof -
  note temp_file_finished [OF assms(1-3,5)]
  moreover have "\<forall>kv\<in>set (key_share hs N r kvs). token_pair kv"
    using assms(4) set_key_share by blast
  ultimately show ?thesis by (simp add: temp_pairs_def pairs_kv_lines)
qed

lemma reducer_groups_finished:
  assumes "N \<le> INT_MAX" "r \<in> {0..<N}" "\<forall>kv\<in>set (emitted_pairs emits text). token_pair kv"
    and "\<And>m. m \<in> {0..<N} \<Longrightarrow>
      job_effect emits outs hi hs d N text (MapTask m) \<subseteq>\<^sub>m files fs"
  shows "reducer_groups fs d N r = group_by_key (written_for emits hi hs N text r)"
proof -
  have "temp_pairs fs (temp_path d m r) = key_share hs N r (mapper_pairs emits hi N text m)"
    if "m \<in> set [0..N - 1]" for m
    using that assms set_mapper_pairs by (intro temp_pairs_finished) (fastforce+)
  then have "map (\<lambda>m. temp_pairs fs (temp_path d m r)) [0..N - 1] =
      map (\<lambda>m. key_share hs N r (mapper_pairs emits hi N text m)) [0..N - 1]"
    by (intro map_cong) auto
  then show ?thesis
    by (simp only: reducer_groups_def written_for_def)
qed

lemma job_ready_elsewhere:
  assumes "job_ready f d N text fs" "same_elsewhere (job_params cls hi hs f d N) fs fs'"
  shows "job_ready f d N text fs'"
  using assms tasks_job_paths [of cls hi hs f d N]
  by (fastforce simp: job_ready_def same_elsewhere_def)

context mr_app
begin

lemma job_laws:
  "job (job_params cls hi hs f d N) (job_effect emits outs hi hs d N text)
     (\<lambda>fs. job_ready f d N text fs \<and> good_pairs emits accepts hi hs N text)"
proof unfold_locales
  let ?P = "job_params cls hi hs f d N" and ?e = "job_effect emits outs hi hs d N text"
  fix fs assume ok: "job_ready f d N text fs \<and> good_pairs emits accepts hi hs N text"
  then have N: "0 < N" "N \<le> INT_MAX" and inp: "files fs (input_path d f) = Some text"
    "int (length (lines_of text)) \<le> INT_MAX"
    and creat: "\<And>p. p \<in> own_paths d N \<Longrightarrow> creatable fs p"
    and tok: "\<forall>kv\<in>set (emitted_pairs emits text). token_pair kv"
    using length_lines_of [of "text"] by (auto simp: job_ready_def good_pairs_def)
  show "nr_reducer (master ?P) = nr_mapper (master ?P) \<and> 0 \<le> nr_mapper (master ?P)"
    using N by simp
  show "job_ready f d N text fs' \<and> good_pairs emits accepts hi hs N text"
    if "same_elsewhere ?P fs fs'" for fs'
    using job_ready_elsewhere [OF _ that] ok by blast
  show "dom (?e t) \<subseteq> task_paths ?P t" for t
    by (cases t) (simp_all add: dom_temp_updates)
  show "task_paths ?P t \<inter> task_paths ?P t' = {}"
    if "t \<in> tasks ?P" "t' \<in> tasks ?P" "t \<noteq> t'" for t t'
    by (rule job_paths_disjoint [OF N(2) that])
  fix i sv assume i: "i \<in> workers ?P"
  have tc: "\<forall>r. 0 \<le> r \<and> r < N \<longrightarrow> creatable fs (temp_path d i r)" and oc: "creatable fs (output_path d i)"
    using i by (simp_all add: creat own_paths)
  show "handle_map ?P i sv fs =
      (sv\<lparr>map_completed := True\<rparr>, fs\<lparr>files := files fs ++ ?e (MapTask i)\<rparr>)"
    using map_controller_ok [OF _ inp(1) N N worker_int inp(2) tc, where hi = hi and hs = hs] N i
    by (simp add: handle_map_def)
  assume mapped_: "\<And>m. m \<in> workers ?P \<Longrightarrow> ?e (MapTask m) \<subseteq>\<^sub>m files fs"
  have g: "reducer_groups fs d N i = group_by_key (written_for emits hi hs N text i)"
    by (rule reducer_groups_finished [OF N(2) _ tok mapped_]) (use i in simp_all)
  have "\<forall>x\<in>set (reducer_groups fs d N i). accepts (fst x) (snd x)"
    unfolding g using ok i by (simp add: good_pairs_def)
  from reduce_controller_ok [OF _ this oc, where fac = "generators ?P" and R = N]
  show "handle_reduce ?P i sv fs =
      (sv\<lparr>reduce_completed := True\<rparr>, fs\<lparr>files := files fs ++ ?e (ReduceTask i)\<rparr>)"
    by (simp add: handle_reduce_def g job_results_def)
qed

end

end
