(* ===== verification/Clients.thy ===== *)
theory Clients
  imports Interface Cpp_IO
begin

text \<open>
  The three client programs (\<open>src/WordCounter.cpp\<close>, \<open>src/InvertedIndex.cpp\<close>,
  \<open>src/ReverseWeblinkGraph.cpp\<close>): their map and reduce functions, the proofs that they
  meet the contract \<open>mr_app\<close>, and the configuration file their \<open>main\<close> reads.
\<close>

section \<open>Loops the clients share\<close>

text \<open>\<open>while (iss >> word) emitIntermediate(word, value)\<close>\<close>

function emit_words :: "istream \<Rightarrow> string \<Rightarrow> string \<Rightarrow> mr_object \<Rightarrow> mr_object" where
  "emit_words iss word value this =
     (case extract_word iss word of (iss', word') \<Rightarrow>
        if failbit iss' then this
        else emit_words iss' word' value (emitIntermediate word' value this))"
  by pat_completeness auto
termination
  by (relation "measure (\<lambda>(s, _). length (buf s))") (auto dest!: extract_word_shorter')

declare emit_words.simps [simp del]

text \<open>\<open>for (int i = 0; i < values.size(); i++) v3.push_back(values[i])\<close>\<close>

fun copy_values :: "int \<Rightarrow> string list \<Rightarrow> string list \<Rightarrow> cpp_error + string list" where
  "copy_values i [] v3 = Inr v3"
| "copy_values i (v # vs) v3 = sbind (int_add i 1) (\<lambda>i'. copy_values i' vs (v3 @ [v]))"

lemma emit_words_eq:
  assumes "\<not> failbit s" "eofbit s \<Longrightarrow> buf s = []"
  shows "emit_words s w v this = emit_all (map (\<lambda>x. (x, v)) (words (buf s))) this"
  using assms
proof (induction "length (buf s)" arbitrary: s w this rule: less_induct)
  case less
  obtain s1 x where e: "extract_word s w = (s1, x)" by fastforce
  note ex = extract_word_words [OF less.prems, of w, unfolded e, simplified]
  show ?case
  proof (cases "words (buf s)")
    case Nil
    with ex e show ?thesis by (simp add: emit_words.simps [of s])
  next
    case (Cons t ts)
    with ex have s1: "\<not> failbit s1" "x = t" "words (buf s1) = ts"
      "length (buf s1) < length (buf s)" "eofbit s1 \<Longrightarrow> buf s1 = []" by auto
    from less.hyps [OF s1(4,1,5)] s1 e Cons show ?thesis
      by (simp add: emit_words.simps [of s])
  qed
qed

lemma emit_words_string:
  "emit_words (istringstream v) w x this = emit_all (map (\<lambda>y. (y, x)) (words v)) this"
  using emit_words_eq [of "istringstream v"] by simp

lemma copy_values_eq:
  "0 \<le> i \<Longrightarrow> i + int (length vs) \<le> INT_MAX \<Longrightarrow> copy_values i vs v3 = Inr (v3 @ vs)"
  by (induction i vs v3 rule: copy_values.induct) (simp_all add: int_add_def in_int_nonneg)

section \<open>WordCounter\<close>

definition WordCounter_map_fn :: "string \<Rightarrow> string \<Rightarrow> mr_object \<Rightarrow> cpp_error + mr_object" where
  "WordCounter_map_fn key value this = Inr (emit_words (istringstream value) [] ''1'' this)"

text \<open>\<open>for (int i = 0; ...) count += stoi(values[i])\<close>\<close>

fun count_loop :: "int \<Rightarrow> string list \<Rightarrow> int \<Rightarrow> cpp_error + int" where
  "count_loop i [] count = Inr count"
| "count_loop i (v # vs) count =
     sbind (stoi v) (\<lambda>n. sbind (int_add count n) (\<lambda>count'.
       sbind (int_add i 1) (\<lambda>i'. count_loop i' vs count')))"

definition WordCounter_reduce_fn ::
  "string \<Rightarrow> string list \<Rightarrow> mr_object \<Rightarrow> cpp_error + mr_object" where
  "WordCounter_reduce_fn key values this =
     sbind (count_loop 0 values 0) (\<lambda>count. Inr (emit key [to_string count] this))"

definition WordCounterMapReduce :: mr_class where
  "WordCounterMapReduce = \<lparr>map_fn = WordCounter_map_fn, reduce_fn = WordCounter_reduce_fn\<rparr>"

definition wc_emits :: "string \<Rightarrow> string \<Rightarrow> (string \<times> string) list" where
  "wc_emits k v = map (\<lambda>w. (w, ''1'')) (words v)"

definition wc_outs :: "string \<Rightarrow> string list \<Rightarrow> (string \<times> string list) list" where
  "wc_outs k vs = [(k, [to_string (int (length vs))])]"

definition wc_accepts :: "string \<Rightarrow> string list \<Rightarrow> bool" where
  "wc_accepts k vs \<longleftrightarrow> (\<forall>v\<in>set vs. v = ''1'') \<and> int (length vs) \<le> INT_MAX"

lemma stoi_one: "stoi ''1'' = Inr 1"
  by code_simp

lemma count_loop_ones:
  "\<forall>v\<in>set vs. v = ''1'' \<Longrightarrow> 0 \<le> i \<Longrightarrow> i + int (length vs) \<le> INT_MAX \<Longrightarrow>
   0 \<le> c \<Longrightarrow> c + int (length vs) \<le> INT_MAX \<Longrightarrow> count_loop i vs c = Inr (c + int (length vs))"
  by (induction i vs c rule: count_loop.induct) (simp_all add: int_add_def in_int_nonneg stoi_one)

interpretation wc: mr_app WordCounterMapReduce wc_emits wc_outs wc_accepts
proof unfold_locales
  fix k v vs this
  show "map_fn WordCounterMapReduce k v this = Inr (emit_all (wc_emits k v) this)"
    by (simp add: WordCounterMapReduce_def WordCounter_map_fn_def wc_emits_def emit_words_string)
  assume "wc_accepts k vs"
  then show "reduce_fn WordCounterMapReduce k vs this = Inr (output_all (wc_outs k vs) this)"
    by (simp add: WordCounterMapReduce_def WordCounter_reduce_fn_def wc_accepts_def wc_outs_def
        count_loop_ones)
qed

section \<open>InvertedIndex\<close>

definition InvertedIndex_map_fn :: "string \<Rightarrow> string \<Rightarrow> mr_object \<Rightarrow> cpp_error + mr_object" where
  "InvertedIndex_map_fn key value this = Inr (emit_words (istringstream value) [] key this)"

text \<open>\<open>std::sort\<close> orders, \<open>std::unique\<close> with \<open>erase\<close> keeps the first of each equal run.\<close>

definition InvertedIndex_reduce_fn ::
  "string \<Rightarrow> string list \<Rightarrow> mr_object \<Rightarrow> cpp_error + mr_object" where
  "InvertedIndex_reduce_fn key values this =
     sbind (copy_values 0 values []) (\<lambda>v3. Inr (emit key (remdups_adj (sort v3)) this))"

definition InvertedIndexMapReduce :: mr_class where
  "InvertedIndexMapReduce = \<lparr>map_fn = InvertedIndex_map_fn, reduce_fn = InvertedIndex_reduce_fn\<rparr>"

definition ii_emits :: "string \<Rightarrow> string \<Rightarrow> (string \<times> string) list" where
  "ii_emits k v = map (\<lambda>w. (w, k)) (words v)"

definition ii_outs :: "string \<Rightarrow> string list \<Rightarrow> (string \<times> string list) list" where
  "ii_outs k vs = [(k, sorted_list_of_set (set vs))]"

definition short_values :: "string \<Rightarrow> string list \<Rightarrow> bool" where
  "short_values k vs \<longleftrightarrow> int (length vs) \<le> INT_MAX"

lemma distinct_remdups_adj_sorted: "sorted xs \<Longrightarrow> distinct (remdups_adj (xs :: 'a::linorder list))"
proof (induction xs rule: remdups_adj.induct)
  case (3 x y xs)
  then show ?case by (cases "x = y") fastforce+
qed simp_all

lemma remdups_adj_sort: "remdups_adj (sort xs) = sorted_list_of_set (set (xs :: 'a::linorder list))"
  by (rule sorted_distinct_set_unique) (simp_all add: distinct_remdups_adj_sorted)

interpretation ii: mr_app InvertedIndexMapReduce ii_emits ii_outs short_values
proof unfold_locales
  fix k v vs this
  show "map_fn InvertedIndexMapReduce k v this = Inr (emit_all (ii_emits k v) this)"
    by (simp add: InvertedIndexMapReduce_def InvertedIndex_map_fn_def ii_emits_def emit_words_string)
  assume "short_values k vs"
  then show "reduce_fn InvertedIndexMapReduce k vs this = Inr (output_all (ii_outs k vs) this)"
    by (simp add: InvertedIndexMapReduce_def InvertedIndex_reduce_fn_def short_values_def
        ii_outs_def copy_values_eq remdups_adj_sort)
qed

section \<open>ReverseWeblinkGraph\<close>

text \<open>
  \<open>while (iss.good()) { string source, target; getline(getline(iss, source, ','), target); ... }\<close>
\<close>

function emit_links :: "istream \<Rightarrow> mr_object \<Rightarrow> mr_object" where
  "emit_links iss this =
     (if \<not> good iss then this
      else case getline iss [] (CHR '','') of (iss1, source) \<Rightarrow>
        (case getline iss1 [] (CHR 0x0A) of (iss2, target) \<Rightarrow>
           emit_links iss2 (emitIntermediate target source this)))"
  by pat_completeness auto

lemma getline_progress:
  "good s \<Longrightarrow> getline s w d = (s1, l) \<Longrightarrow>
   \<not> good s1 \<or> length (buf s1) < length (buf s)"
  by (auto simp: getline_def good_def Let_def dest: length_dropWhile_Cons split: list.splits)

lemma getline_not_good: "\<not> good s \<Longrightarrow> \<not> good (fst (getline s w d))"
  by (simp add: getline_def good_def)

lemma getline_le: "length (buf (fst (getline s w d))) \<le> length (buf s)"
  by (auto simp: getline_def Let_def dest: length_dropWhile_Cons split: list.splits)

lemma link_progress:
  assumes "good iss" "(iss1, a) = getline iss w d" "(iss2, b) = getline iss1 w' d'"
  shows "length (buf iss2) + (if good iss2 then 1 else 0) < Suc (length (buf iss))"
proof -
  have "length (buf iss2) \<le> length (buf iss1)" "length (buf iss1) \<le> length (buf iss)"
    using getline_le assms(2,3) by (metis fst_conv)+
  moreover have "\<not> good iss1 \<or> length (buf iss1) < length (buf iss)"
    using getline_progress [OF assms(1) assms(2) [symmetric]] .
  moreover have "\<not> good iss1 \<Longrightarrow> \<not> good iss2"
    using getline_not_good assms(3) by (metis fst_conv)
  ultimately show ?thesis by auto
qed

termination emit_links
  by (relation "measure (\<lambda>(s, _). length (buf s) + (if good s then 1 else 0))")
    (use link_progress in \<open>auto split: if_splits\<close>)

declare emit_links.simps [simp del]

definition ReverseWeblinkGraph_map_fn :: "string \<Rightarrow> string \<Rightarrow> mr_object \<Rightarrow> cpp_error + mr_object" where
  "ReverseWeblinkGraph_map_fn key value this = Inr (emit_links (istringstream value) this)"

definition ReverseWeblinkGraph_reduce_fn ::
  "string \<Rightarrow> string list \<Rightarrow> mr_object \<Rightarrow> cpp_error + mr_object" where
  "ReverseWeblinkGraph_reduce_fn key values this =
     sbind (copy_values 0 values []) (\<lambda>sources. Inr (emit key sources this))"

definition ReverseWeblinkGraphMapReduce :: mr_class where
  "ReverseWeblinkGraphMapReduce =
     \<lparr>map_fn = ReverseWeblinkGraph_map_fn, reduce_fn = ReverseWeblinkGraph_reduce_fn\<rparr>"


text \<open>
  The pairs of one value. The function is total: the emitted pairs do not depend on what
  the object holds already.
\<close>

definition rw_emits :: "string \<Rightarrow> string \<Rightarrow> (string \<times> string) list" where
  "rw_emits k v = emitted_intermediates (emit_links (istringstream v) new_MapReduceInterface)"

definition rw_outs :: "string \<Rightarrow> string list \<Rightarrow> (string \<times> string list) list" where
  "rw_outs k vs = [(k, vs)]"

definition link_source :: "string \<Rightarrow> string" where
  "link_source v = takeWhile (\<lambda>c. c \<noteq> CHR '','') v"

definition link_target :: "string \<Rightarrow> string" where
  "link_target v = (case dropWhile (\<lambda>c. c \<noteq> CHR '','') v of [] \<Rightarrow> [] | _ # r \<Rightarrow> r)"

lemma emit_links_appends:
  "\<exists>kvs. \<forall>this. emit_links s this = emit_all kvs this"
proof (induction "length (buf s) + (if good s then 1 else 0)" arbitrary: s rule: less_induct)
  case less
  show ?case
  proof (cases "good s")
    case False
    then show ?thesis by (intro exI [of _ "[]"]) (simp add: emit_links.simps)
  next
    case True
    obtain s1 a where g1: "getline s [] (CHR '','') = (s1, a)" by fastforce
    obtain s2 b where g2: "getline s1 [] (CHR 0x0A) = (s2, b)" by fastforce
    have "length (buf s2) + (if good s2 then 1 else 0) < length (buf s) + (if good s then 1 else 0)"
      using link_progress [OF True g1 [symmetric] g2 [symmetric]] True by simp
    from less [OF this] obtain kvs where "\<forall>this. emit_links s2 this = emit_all kvs this" by blast
    then show ?thesis
      using True g1 g2 by (intro exI [of _ "(b, a) # kvs"]) (simp add: emit_links.simps [of s])
  qed
qed

lemma emit_links_rw: "emit_links (istringstream v) this = emit_all (rw_emits k v) this"
proof -
  obtain kvs where "\<forall>this. emit_links (istringstream v) this = emit_all kvs this"
    using emit_links_appends by blast
  then show ?thesis by (simp add: rw_emits_def)
qed

text \<open>A value without a line break, as the library passes it, gives exactly one pair.\<close>

lemma getline_eof:
  assumes "good s" "\<forall>c\<in>set (buf s). c \<noteq> d"
  shows "getline s w d = (s\<lparr>buf := [], eofbit := True, failbit := (buf s = [])\<rparr>, buf s)"
  using assms by (simp add: getline_def Let_def takeWhile_all dropWhile_all)

lemma emit_links_not_good: "\<not> good s \<Longrightarrow> emit_links s this = this"
  by (simp add: emit_links.simps)

lemma rw_emits_line:
  assumes "\<forall>c\<in>set v. c \<noteq> CHR 0x0A"
  shows "rw_emits k v = [(link_target v, link_source v)]"
proof (cases "dropWhile (\<lambda>c. c \<noteq> CHR '','') v")
  case Nil
  then have "\<forall>c\<in>set v. c \<noteq> CHR '',''" by simp
  then show ?thesis
    by (simp add: rw_emits_def emit_links.simps [of "istringstream v"] getline_eof good_def
        getline_def [of _ _ "CHR 0x0A"] emit_links_not_good link_target_def link_source_def
        takeWhile_all dropWhile_all)
next
  case (Cons c r)
  then have r: "\<forall>c\<in>set r. c \<noteq> CHR 0x0A"
    using assms by (metis list.set_intros(2) set_dropWhileD)
  have g: "getline (istringstream v) [] (CHR '','') = (istringstream r, link_source v)"
    using Cons by (simp add: getline_def good_def istringstream_def link_source_def)
  have "good (istringstream r)" "good (istringstream v)" by (simp_all add: good_def)
  with g r Cons show ?thesis
    by (simp add: rw_emits_def emit_links.simps [of "istringstream v"] getline_eof
        emit_links_not_good good_def link_target_def)
qed

interpretation rw: mr_app ReverseWeblinkGraphMapReduce rw_emits rw_outs short_values
proof unfold_locales
  fix k v vs this
  show "map_fn ReverseWeblinkGraphMapReduce k v this = Inr (emit_all (rw_emits k v) this)"
    by (simp add: ReverseWeblinkGraphMapReduce_def ReverseWeblinkGraph_map_fn_def emit_links_rw)
  assume "short_values k vs"
  then show "reduce_fn ReverseWeblinkGraphMapReduce k vs this = Inr (output_all (rw_outs k vs) this)"
    by (simp add: ReverseWeblinkGraphMapReduce_def ReverseWeblinkGraph_reduce_fn_def
        short_values_def rw_outs_def copy_values_eq)
qed

section \<open>The configuration file\<close>

text \<open>
  \<open>main\<close> starts with the number of workers uninitialised (\<open>None\<close>). A line is split into
  words; \<open>v[0]\<close> and \<open>v[1]\<close> are not checked, so a line with too few words is undefined
  behaviour, and a number of workers that is no number throws out of \<open>main\<close>.
\<close>

record config =
  c_nr_workers :: "int option"
  c_inputFileName :: string
  c_dataDirectory :: string

definition initial_config :: config where
  "initial_config = \<lparr>c_nr_workers = None, c_inputFileName = [], c_dataDirectory = []\<rparr>"

function push_words :: "istream \<Rightarrow> string \<Rightarrow> string list \<Rightarrow> string list" where
  "push_words iss s v =
     (case extract_word iss s of (in1, s') \<Rightarrow>
        if failbit in1 then v else push_words in1 s' (v @ [s']))"
  by pat_completeness auto
termination
  by (relation "measure (\<lambda>(s, _). length (buf s))") (auto dest!: extract_word_shorter')

declare push_words.simps [simp del]

definition second_word :: "string list \<Rightarrow> cpp_error + string" where
  "second_word v = (case v of _ # w # _ \<Rightarrow> Inr w | _ \<Rightarrow> Inl (UB ''vector index''))"

definition config_line :: "string list \<Rightarrow> config \<Rightarrow> cpp_error + config" where
  "config_line v cfg =
     (case v of
        [] \<Rightarrow> Inl (UB ''vector index'')
      | w # _ \<Rightarrow>
          if w = ''N_WORKER'' then
            sbind (second_word v) (\<lambda>x. sbind (stoi x) (\<lambda>n. Inr (cfg\<lparr>c_nr_workers := Some n\<rparr>)))
          else if w = ''INPUTFILE'' then
            sbind (second_word v) (\<lambda>x. Inr (cfg\<lparr>c_inputFileName := x\<rparr>))
          else if w = ''DATADIR'' then
            sbind (second_word v) (\<lambda>x. Inr (cfg\<lparr>c_dataDirectory := x\<rparr>))
          else Inr cfg)"

function config_loop :: "istream \<Rightarrow> string \<Rightarrow> config \<Rightarrow> cpp_error + config" where
  "config_loop file str cfg =
     (case getline file str (CHR 0x0A) of (file', str') \<Rightarrow>
        if failbit file' then Inr cfg
        else (case config_line (push_words (istringstream str') [] []) cfg of
                Inl e \<Rightarrow> Inl e
              | Inr cfg' \<Rightarrow> config_loop file' str' cfg'))"
  by pat_completeness auto
termination
  by (relation "measure (\<lambda>(s, _). length (buf s))") (auto dest!: getline_shorter')

declare config_loop.simps [simp del]

definition WordCounter_config :: "file_system \<Rightarrow> cpp_error + config" where
  "WordCounter_config fs = config_loop (ifstream fs ''config_WordCounter.txt'') [] initial_config"

definition InvertedIndex_config :: "file_system \<Rightarrow> cpp_error + config" where
  "InvertedIndex_config fs = config_loop (ifstream fs ''config_InvertedIndex.txt'') [] initial_config"

definition ReverseWeblinkGraph_config :: "file_system \<Rightarrow> cpp_error + config" where
  "ReverseWeblinkGraph_config fs =
     config_loop (ifstream fs ''config_ReverseWeblinkGraph.txt'') [] initial_config"

lemma push_words_eq:
  "\<not> failbit s \<Longrightarrow> (eofbit s \<Longrightarrow> buf s = []) \<Longrightarrow> push_words s w v = v @ words (buf s)"
proof (induction "length (buf s)" arbitrary: s w v rule: less_induct)
  case less
  obtain s1 x where e: "extract_word s w = (s1, x)" by fastforce
  note ex = extract_word_words [OF less.prems, of w, unfolded e, simplified]
  show ?case
  proof (cases "words (buf s)")
    case Nil
    with ex e show ?thesis by (simp add: push_words.simps [of s])
  next
    case (Cons t ts)
    with ex have s1: "\<not> failbit s1" "x = t" "words (buf s1) = ts"
      "length (buf s1) < length (buf s)" "eofbit s1 \<Longrightarrow> buf s1 = []" by auto
    from less.hyps [OF s1(4,1,5)] s1 e Cons show ?thesis
      by (simp add: push_words.simps [of s])
  qed
qed

lemma config_loop_lines:
  "\<not> failbit s \<Longrightarrow> (eofbit s \<Longrightarrow> buf s = []) \<Longrightarrow>
   config_loop s w cfg = foldM (\<lambda>l. config_line (words l)) (lines_of (buf s)) cfg"
proof (induction "length (buf s)" arbitrary: s w cfg rule: less_induct)
  case less
  obtain s1 l where g: "getline s w (CHR 0x0A) = (s1, l)" by fastforce
  note gl = getline_lines [OF less.prems, of w, unfolded g, simplified]
  have pw: "push_words (istringstream l) [] [] = words l" for l
    using push_words_eq [of "istringstream l"] by simp
  show ?case
  proof (cases "lines_of (buf s)")
    case Nil
    with gl g show ?thesis by (simp add: config_loop.simps [of s])
  next
    case (Cons t ts)
    with gl have s1: "\<not> failbit s1" "l = t" "lines_of (buf s1) = ts"
      "length (buf s1) < length (buf s)" "eofbit s1 \<Longrightarrow> buf s1 = []" by auto
    from less.hyps [OF s1(4,1,5)] s1 g Cons show ?thesis
      by (cases "config_line (words t) cfg") (simp_all add: config_loop.simps [of s] pw)
  qed
qed

lemma words_single:
  assumes "token w"
  shows "words w = [w]"
proof -
  have d: "dropWhile isspace w = w" using assms by (cases w) (auto simp: token_def)
  have t: "takeWhile (\<lambda>c. \<not> isspace c) w = w" "dropWhile (\<lambda>c. \<not> isspace c) w = []"
    using assms takeWhile_all [of w "\<lambda>c. \<not> isspace c"] by (auto simp: token_def)
  have "w \<noteq> []" using assms by (simp add: token_def)
  then have "words w = takeWhile (\<lambda>c. \<not> isspace c) w # words (dropWhile (\<lambda>c. \<not> isspace c) w)"
    by (subst words.simps) (simp only: Let_def d if_False)
  then show ?thesis by (simp only: t words_Nil)
qed

text \<open>The configuration file as the clients' samples have it.\<close>

definition config_text :: "int \<Rightarrow> string \<Rightarrow> string \<Rightarrow> string" where
  "config_text n f d =
     ''N_WORKER '' @ to_string n @ CHR 0x0A # ''INPUTFILE '' @ f @ CHR 0x0A # ''DATADIR '' @ d @ [CHR 0x0A]"

lemma config_lines:
  assumes "token f" "token d"
  shows "lines_of (config_text n f d) = [''N_WORKER '' @ to_string n, ''INPUTFILE '' @ f, ''DATADIR '' @ d]"
proof -
  have no: "\<forall>c\<in>set w. c \<noteq> CHR 0x0A" if "token w" for w
    using that by (auto simp: token_def)
  have line: "lines_of (k @ w @ CHR 0x0A # s) = (k @ w) # lines_of s"
    if "\<forall>c\<in>set k. c \<noteq> CHR 0x0A" "token w" for k w s
    using that no [OF that(2)] lines_of_step [of "(k @ w) @ CHR 0x0A # s"]
    by (simp add: takeWhile_append dropWhile_append)
  have keys: "\<forall>c\<in>set ''N_WORKER ''. c \<noteq> CHR 0x0A" "\<forall>c\<in>set ''INPUTFILE ''. c \<noteq> CHR 0x0A"
    "\<forall>c\<in>set ''DATADIR ''. c \<noteq> CHR 0x0A" by simp_all
  show ?thesis
    unfolding config_text_def line [OF keys(1) token_to_string] line [OF keys(2) assms(1)]
      line [OF keys(3) assms(2)] by simp
qed

text \<open>
  C20. Each client reads its configuration as it is written: the number of workers, the
  name of the input file and the data directory come back, for any number that is an
  \<open>int\<close> and any names without blanks.
\<close>

theorem config_read_back:
  assumes "in_int n" "token f" "token d"
    and "files fs ''config_WordCounter.txt'' = Some (config_text n f d)"
    and "files fs ''config_InvertedIndex.txt'' = Some (config_text n f d)"
    and "files fs ''config_ReverseWeblinkGraph.txt'' = Some (config_text n f d)"
  shows "WordCounter_config fs = Inr \<lparr>c_nr_workers = Some n, c_inputFileName = f, c_dataDirectory = d\<rparr> \<and>
    InvertedIndex_config fs = WordCounter_config fs \<and>
    ReverseWeblinkGraph_config fs = WordCounter_config fs"
proof -
  have key: "words (k @ '' '' @ w) = [k, w]" if "token k" "token w" for k w
    using words_token [OF that(1), of "CHR '' ''" w] words_single [OF that(2)] by simp
  have keys: "token ''N_WORKER''" "token ''INPUTFILE''" "token ''DATADIR''" by code_simp+
  have "foldM (\<lambda>l. config_line (words l)) (lines_of (config_text n f d)) initial_config =
      Inr \<lparr>c_nr_workers = Some n, c_inputFileName = f, c_dataDirectory = d\<rparr>"
    using key [OF keys(1), of "to_string n"] key [OF keys(2) assms(2)] key [OF keys(3) assms(3)] assms(1)
    by (simp add: config_lines [OF assms(2,3)] config_line_def second_word_def stoi_to_string
        initial_config_def)
  then show ?thesis
    using config_loop_lines [of "istringstream (config_text n f d)"] assms(4-6)
    by (simp add: WordCounter_config_def InvertedIndex_config_def ReverseWeblinkGraph_config_def ifstream_Some)
qed

theorem config_read_back_witness:
  "WordCounter_config \<lparr>files = (\<lambda>p. Some (config_text 2 ''WordCounterInput.txt'' ''WordCounterData'')),
      creatable = (\<lambda>p. False)\<rparr> =
    Inr \<lparr>c_nr_workers = Some 2, c_inputFileName = ''WordCounterInput.txt'', c_dataDirectory = ''WordCounterData''\<rparr>"
proof -
  have "in_int 2" "token ''WordCounterInput.txt''" "token ''WordCounterData''" by code_simp+
  from config_read_back [OF this, of "\<lparr>files = (\<lambda>p. Some (config_text 2 ''WordCounterInput.txt'' ''WordCounterData'')),
      creatable = (\<lambda>p. False)\<rparr>"] show ?thesis by simp
qed

end
