(* ===== verification/Client_Jobs.thy ===== *)
theory Client_Jobs
  imports Map_Reduce Clients "HOL-Library.Multiset"
begin

text \<open>
  The result of a job does not depend on how the workers shared it: every reducer gets
  the pairs whose keys fall into its bucket, and with them the entries of the output file
  are a function of the input text. Worked out for the three client programs, and each
  client's job interpreted as an instance of \<open>job\<close>.
\<close>

section \<open>The workers' shares are a rearrangement of the whole\<close>

lemma mset_concat_upto:
  "mset (concat (map f [0..N - 1])) = (\<Sum>m\<in>{0..<N}. mset (f m))"
proof -
  have "mset (concat (map f [0..N - 1])) = sum_list (map (mset \<circ> f) [0..N - 1])"
    by (simp add: mset_concat comp_def)
  also have "\<dots> = (\<Sum>m\<in>set [0..N - 1]. (mset \<circ> f) m)"
    by (rule sum_list_distinct_conv_sum_set) simp
  also have "set [0..N - 1] = {0..<N}" by auto
  finally show ?thesis by simp
qed

lemma sum_bucket_shares:
  assumes "0 < N"
  shows "(\<Sum>m\<in>{0..<N}. mset (mapped emits (share hi N m nls))) = mset (mapped emits nls)"
proof (induction nls)
  case (Cons nl nls)
  let ?b = "bucket hi N (fst nl)"
  have b: "?b \<in> {0..<N}" using bucket_range [OF assms, of hi "fst nl"] by simp
  have "mset (mapped emits (share hi N m (nl # nls))) =
      (if m = ?b then mset (emits (to_string (fst nl)) (snd nl)) else {#})
      + mset (mapped emits (share hi N m nls))" for m
    by (simp add: share_Cons mapped_def)
  then show ?case
    using Cons b by (simp add: sum.distrib sum.delta) (simp add: mapped_def)
qed (simp add: mapped_def share_def)

lemma mset_mapper_pairs:
  "0 < N \<Longrightarrow> mset (concat (map (mapper_pairs emits hi N input) [0..N - 1])) =
     mset (emitted_pairs emits input)"
  by (simp add: mset_concat_upto mapper_pairs_def emitted_pairs_def sum_bucket_shares)

lemma written_for_key_share:
  "written_for emits hi hs N input r =
     key_share hs N r (concat (map (mapper_pairs emits hi N input) [0..N - 1]))"
  by (simp add: written_for_def key_share_def filter_concat comp_def)

lemma mset_written_for:
  "0 < N \<Longrightarrow> mset (written_for emits hi hs N input r) = mset (key_share hs N r (emitted_pairs emits input))"
  by (simp add: written_for_key_share key_share_def mset_mapper_pairs)

lemma mset_values_of: "mset xs = mset ys \<Longrightarrow> mset (values_of k xs) = mset (values_of k ys)"
  by (simp add: values_of_def)

lemma values_of_key_share: "bucket hs N k = r \<Longrightarrow> values_of k (key_share hs N r kvs) = values_of k kvs"
  by (simp add: values_of_def key_share_def) (metis (mono_tags, lifting) case_prod_beta filter_cong)

lemma mset_values_written_for:
  "0 < N \<Longrightarrow> bucket hs N k = r \<Longrightarrow>
   mset (values_of k (written_for emits hi hs N input r)) = mset (values_of k (emitted_pairs emits input))"
  using mset_values_of [OF mset_written_for] values_of_key_share by metis

definition keys_for :: "(string \<Rightarrow> 64 word) \<Rightarrow> int \<Rightarrow> int \<Rightarrow> (string \<times> 'v) list \<Rightarrow> string list" where
  "keys_for hs N r kvs =
     sorted_list_of_set (Set.filter (\<lambda>k. bucket hs N k = r) (fst ` set kvs))"

lemma keys_written_for:
  assumes "0 < N"
  shows "sorted_list_of_set (fst ` set (written_for emits hi hs N input r)) =
    keys_for hs N r (emitted_pairs emits input)"
proof -
  have "set (written_for emits hi hs N input r) = set (key_share hs N r (emitted_pairs emits input))"
    using mset_written_for [OF assms] by (metis set_mset_mset)
  moreover have "fst ` set (key_share hs N r kvs) = Set.filter (\<lambda>k. bucket hs N k = r) (fst ` set kvs)"
    for kvs :: "(string \<times> string) list"
    by (auto simp: key_share_def)
  ultimately show ?thesis by (simp add: keys_for_def)
qed

lemma set_keys_for:
  "k \<in> set (keys_for hs N r kvs) \<longleftrightarrow> k \<in> fst ` set kvs \<and> bucket hs N k = r"
  by (auto simp: keys_for_def)

text \<open>Every key is in exactly one reducer's output.\<close>

lemma keys_for_unique: "k \<in> set (keys_for hs N r kvs) \<Longrightarrow> k \<in> set (keys_for hs N r' kvs) \<Longrightarrow> r = r'"
  by (simp add: set_keys_for)

lemma keys_for_covers: "0 < N \<Longrightarrow> (\<Union>r\<in>{0..<N}. set (keys_for hs N r kvs)) = fst ` set kvs"
  by (rule set_eqI) (use bucket_range [of N hs] in \<open>simp add: set_keys_for\<close>)

text \<open>
  When \<open>outs\<close> only looks at the multiset of the values, the entries are those of the
  groups of the whole input.
\<close>

lemma job_results_reference:
  assumes "0 < N" and outs: "\<And>k vs ws. mset vs = mset ws \<Longrightarrow> outs k vs = outs k ws"
  shows "job_results emits outs hi hs N input r =
    concat (map (\<lambda>k. outs k (values_of k (emitted_pairs emits input)))
              (keys_for hs N r (emitted_pairs emits input)))"
proof -
  have "outs k (values_of k (written_for emits hi hs N input r)) =
      outs k (values_of k (emitted_pairs emits input))"
    if "k \<in> set (keys_for hs N r (emitted_pairs emits input))" for k
    using that by (intro outs mset_values_written_for [OF assms(1)]) (simp add: set_keys_for)
  then show ?thesis
    by (simp add: job_results_def reduced_def group_by_key_def keys_written_for [OF assms(1)]
        comp_def cong: map_cong)
qed

text \<open>Over all reducers, every key is reduced once, whatever the number of reducers.\<close>

lemma mset_concat_keys:
  assumes "0 < N"
  shows "mset (concat (map (\<lambda>r. concat (map g (keys_for hs N r kvs))) [0..N - 1])) =
    (\<Sum>k\<in>fst ` set kvs. mset (g k))"
proof -
  let ?K = "fst ` set kvs"
  have "Set.filter (\<lambda>k. bucket hs N k = r) ?K = {k \<in> ?K. bucket hs N k = r}" for r
    by auto
  then have "mset (concat (map g (keys_for hs N r kvs))) = (\<Sum>k\<in>{k \<in> ?K. bucket hs N k = r}. mset (g k))" for r
    by (simp add: keys_for_def mset_concat comp_def sum_list_distinct_conv_sum_set)
  moreover have "bucket hs N ` ?K \<subseteq> {0..<N}" using bucket_range [OF assms] by force
  ultimately show ?thesis
    by (simp add: mset_concat_upto sum.group)
qed

section \<open>Lines and words\<close>

lemma words_append_newline:
  "words (l @ CHR 0x0A # s) = words l @ words s"
proof (induction l rule: words.induct)
  case (1 l)
  let ?r = "dropWhile isspace l" and ?t = "CHR 0x0A # s"
  let ?w = "takeWhile (\<lambda>c. \<not> isspace c) ?r" and ?q = "dropWhile (\<lambda>c. \<not> isspace c) ?r"
  show ?case
  proof (cases "?r = []")
    case True
    then have "dropWhile isspace (l @ ?t) = dropWhile isspace ?t"
      by (simp add: dropWhile_append)
    then have "words (l @ ?t) = words ?t"
      by (simp add: words.simps [of "l @ ?t"] words.simps [of ?t])
    with True show ?thesis by (simp add: words.simps [of l])
  next
    case False
    then have d: "dropWhile isspace (l @ ?t) = ?r @ ?t"
      by (metis dropWhile_append1 dropWhile_eq_Nil_conv)
    have "takeWhile (\<lambda>c. \<not> isspace c) (?r @ ?t) = ?w"
      "dropWhile (\<lambda>c. \<not> isspace c) (?r @ ?t) = ?q @ ?t"
      using takeWhile_all [of ?r "\<lambda>c. \<not> isspace c", symmetric]
      by (auto simp: takeWhile_append dropWhile_append)
    with False d have "words (l @ ?t) = ?w # words (?q @ ?t)"
      by (subst words.simps) (simp add: Let_def)
    with 1 False show ?thesis by (simp add: words.simps [of l] Let_def)
  qed
qed

lemma concat_words_lines: "concat (map words (lines_of s)) = words s"
proof (induction s rule: lines_of.induct)
  case (1 s)
  show ?case
  proof (cases "s = []")
    case False
    let ?l = "takeWhile (\<lambda>c. c \<noteq> CHR 0x0A) s"
    show ?thesis
    proof (cases "dropWhile (\<lambda>c. c \<noteq> CHR 0x0A) s")
      case Nil
      then have l: "?l = s" by (metis append_Nil2 takeWhile_dropWhile_id)
      with Nil have "lines_of s = [s]" by (simp only: lines_of_step [OF False]) simp
      then show ?thesis by simp
    next
      case (Cons c r)
      then have "c = CHR 0x0A" using hd_dropWhile [of "\<lambda>c. c \<noteq> CHR 0x0A" s] by simp
      with Cons have "s = ?l @ CHR 0x0A # r" by (metis takeWhile_dropWhile_id)
      then have "words s = words ?l @ words r" using words_append_newline by metis
      with Cons 1 [OF False Cons] show ?thesis by (simp add: lines_of_step [OF False])
    qed
  qed simp
qed

lemma length_words: "length (words s) \<le> length s"
proof (induction s rule: words.induct)
  case (1 s)
  let ?r = "dropWhile isspace s"
  show ?case
  proof (cases "?r = []")
    case True
    then show ?thesis by (simp add: words.simps [of s])
  next
    case False
    have "length (words (dropWhile (\<lambda>c. \<not> isspace c) ?r)) < length s"
      using "1" [OF refl False] drop_word_shorter [OF refl False] by (rule le_less_trans)
    with False show ?thesis by (simp only: words.simps [of s] Let_def if_False) simp
  qed
qed

section \<open>What a returned run has on disk\<close>

text \<open>The lines of an output file, none for a missing one.\<close>

definition output_lines :: "file_system \<Rightarrow> string \<Rightarrow> int \<Rightarrow> string list" where
  "output_lines fs d r = (case files fs (output_path d r) of None \<Rightarrow> [] | Some c \<Rightarrow> lines_of c)"

lemma lines_of_newline: "lines_of (l @ newline @ s) = lines_of (l @ newline) @ lines_of s"
proof (induction l rule: lines_of.induct)
  case (1 l)
  let ?nl = "\<lambda>c. c \<noteq> CHR 0x0A"
  show ?case
  proof (cases "dropWhile ?nl l")
    case Nil
    then have "\<forall>c\<in>set l. ?nl c" by simp
    then show ?thesis using lines_of_line [of l s] lines_of_line [of l "[]"] by simp
  next
    case (Cons c r)
    then have ne: "l \<noteq> []" and "c = CHR 0x0A" using hd_dropWhile [of ?nl l] by auto
    moreover have l: "l = takeWhile ?nl l @ c # r" using Cons by (metis takeWhile_dropWhile_id)
    ultimately have "lines_of (l @ t) = takeWhile ?nl l # lines_of (r @ t)" for t
      using lines_of_line [of "takeWhile ?nl l" "r @ t"] set_takeWhileD [of _ ?nl l]
      by (metis append.assoc append_Cons)
    then show ?thesis using "1" [OF ne Cons] by simp
  qed
qed

lemma lines_of_entries: "lines_of (concat (map entry_line es)) = concat (map (\<lambda>e. lines_of (entry_line e)) es)"
proof (induction es)
  case (Cons e es)
  let ?l = "fst e @ '' '' @ concat (map (\<lambda>v. v @ '' '') (snd e))"
  have "entry_line e = ?l @ newline" by (simp add: entry_line_def)
  with Cons lines_of_newline [of ?l "concat (map entry_line es)"] show ?case by simp
qed simp


context mr_app
begin

lemma outputs_on_disk:
  assumes "job_ready f d N input fs" "good_pairs emits accepts hi hs N input"
    and "reachable (job_params cls hi hs f d N) fs s" "pc s = Returned n"
  shows "n = 0 \<and> (\<forall>r\<in>{0..<N}. files (disk s) (output_path d r) =
      Some (concat (map entry_line (job_results emits outs hi hs N input r))))
    \<and> (\<forall>p. p \<notin> own_paths d N \<longrightarrow> files (disk s) p = files fs p)"
proof -
  let ?P = "job_params cls hi hs f d N" and ?e = "job_effect emits outs hi hs d N input"
  note laws = job_laws [of hi hs f d N input]
  have fin: "n = 0" "\<And>t. t \<in> tasks ?P \<Longrightarrow> ?e t \<subseteq>\<^sub>m files (disk s)"
    "same_elsewhere ?P fs (disk s)"
    using job.returned_finished [OF laws assms(3) _ assms(4)] assms(1,2)
    by (simp_all add: job.finished_def [OF laws])
  have "files (disk s) (output_path d r) =
      Some (concat (map entry_line (job_results emits outs hi hs N input r)))" if "r \<in> {0..<N}" for r
    using fin(2) [of "ReduceTask r"] that by (simp add: tasks_def map_le_def)
  moreover have "files (disk s) p = files fs p" if "p \<notin> own_paths d N" for p
    using fin(3) that by (simp add: same_elsewhere_def flip: tasks_job_paths [of cls hi hs f d N])
  ultimately show ?thesis using fin(1) by blast
qed

lemma some_run_returns:
  assumes "job_ready f d N input fs" "good_pairs emits accepts hi hs N input"
  shows "\<exists>s. reachable (job_params cls hi hs f d N) fs s \<and> pc s = Returned 0"
proof -
  let ?P = "job_params cls hi hs f d N"
  have "reachable ?P fs (process_start ?P fs)" by (rule reachable.start)
  moreover have "\<not> waits_for_ever ?P (process_start ?P fs)"
    using assms(1) by (intro job.start_does_not_wait [OF job_laws [of hi hs f d N input]])
      (simp add: job_ready_def)
  ultimately obtain s where "(sys_step ?P)\<^sup>*\<^sup>* (process_start ?P fs) s" "pc s = Returned 0"
    using job.reachable_returns_iff [OF job_laws [of hi hs f d N input]] assms by blast
  then show ?thesis using reachable_steps reachable.start by metis
qed

text \<open>The lines of all output files together depend on the text alone, if the reduce function
  only looks at the multiset of the values.\<close>

lemma mset_output_lines:
  assumes "job_ready f d N input fs" "good_pairs emits accepts hi hs N input"
    and "reachable (job_params cls hi hs f d N) fs s" "pc s = Returned n"
    and "\<And>k vs ws. mset vs = mset ws \<Longrightarrow> outs k vs = outs k ws"
  shows "mset (concat (map (output_lines (disk s) d) [0..N - 1])) =
    (\<Sum>k\<in>fst ` set (emitted_pairs emits input).
       mset (concat (map (\<lambda>e. lines_of (entry_line e)) (outs k (values_of k (emitted_pairs emits input))))))"
proof -
  let ?kvs = "emitted_pairs emits input"
  let ?g = "\<lambda>k. concat (map (\<lambda>e. lines_of (entry_line e)) (outs k (values_of k ?kvs)))"
  have N: "0 < N" using assms(1) by (simp add: job_ready_def)
  have "output_lines (disk s) d r = concat (map ?g (keys_for hs N r ?kvs))" if "r \<in> set [0..N - 1]" for r
  proof -
    have "output_lines (disk s) d r =
        concat (map (\<lambda>e. lines_of (entry_line e)) (job_results emits outs hi hs N input r))"
      using outputs_on_disk [OF assms(1-4)] that by (simp add: output_lines_def lines_of_entries)
    also have "\<dots> = concat (map ?g (keys_for hs N r ?kvs))"
      by (simp only: job_results_reference [OF N assms(5)] concat_concat_map map_map comp_def)
    finally show ?thesis .
  qed
  then have "map (output_lines (disk s) d) [0..N - 1] =
      map (\<lambda>r. concat (map ?g (keys_for hs N r ?kvs))) [0..N - 1]"
    by (intro map_cong) auto
  then show ?thesis by (simp only: mset_concat_keys [OF N])
qed

text \<open>The loop over the lines, for every mapper of a job.\<close>

lemma map_lines_calls:
  assumes "0 < N" "N \<le> INT_MAX" "int (length (lines_of input)) \<le> INT_MAX"
  shows "map_lines hi N m (istringstream input) [] 0 (Some (cls, new_MapReduceInterface)) =
    Inr (Some (cls, emit_all (mapper_pairs emits hi N input m) new_MapReduceInterface))"
  using map_lines_fold [OF assms(1,2), of "istringstream input" 0] assms(3)
  by (simp add: mapper_pairs_def fold_map_record)

end

section \<open>WordCounter\<close>

lemma concat_map_number_lines:
  "concat (map (\<lambda>nl. g (snd nl)) (number_lines i ls)) = concat (map g ls)"
  by (induction ls arbitrary: i) simp_all

lemma emitted_pairs_wc: "emitted_pairs wc_emits input = map (\<lambda>w. (w, ''1'')) (words input)"
proof -
  have "emitted_pairs wc_emits input = concat (map (\<lambda>l. map (\<lambda>w. (w, ''1'')) (words l)) (lines_of input))"
    using concat_map_number_lines [of "\<lambda>l. map (\<lambda>w. (w, ''1'')) (words l)"]
    by (simp add: emitted_pairs_def mapped_def wc_emits_def)
  also have "\<dots> = map (\<lambda>w. (w, ''1'')) (concat (map words (lines_of input)))"
    by (simp add: map_concat comp_def)
  finally show ?thesis by (simp only: concat_words_lines)
qed

lemma values_of_const: "values_of k (map (\<lambda>w. (w, c)) ws) = replicate (count_list ws k) c"
  by (induction ws) auto

text \<open>The entries of one output file: each word of its bucket with its number of occurrences.\<close>

definition word_counts :: "(string \<Rightarrow> 64 word) \<Rightarrow> int \<Rightarrow> string \<Rightarrow> int \<Rightarrow> (string \<times> string list) list" where
  "word_counts hs N input r =
     map (\<lambda>w. (w, [to_string (int (count_list (words input) w))]))
       (sorted_list_of_set (Set.filter (\<lambda>w. bucket hs N w = r) (set (words input))))"

lemma concat_map_singletons:
  "concat (map (\<lambda>k. [(k, [to_string (int (length (replicate (f k) c)))])]) ks) =
   map (\<lambda>k. (k, [to_string (int (f k))])) ks"
  by (induction ks) simp_all

lemma job_results_wc:
  assumes "0 < N"
  shows "job_results wc_emits wc_outs hi hs N input r = word_counts hs N input r"
proof -
  have keys: "keys_for hs N r (map (\<lambda>w. (w, ''1'')) (words input)) =
      sorted_list_of_set (Set.filter (\<lambda>w. bucket hs N w = r) (set (words input)))"
    by (simp add: keys_for_def image_image)
  have "job_results wc_emits wc_outs hi hs N input r =
      concat (map (\<lambda>k. wc_outs k (values_of k (emitted_pairs wc_emits input)))
        (keys_for hs N r (emitted_pairs wc_emits input)))"
    by (rule job_results_reference [OF assms]) (auto simp: wc_outs_def dest: mset_eq_length)
  also have "\<dots> = word_counts hs N input r"
    unfolding emitted_pairs_wc keys word_counts_def values_of_const wc_outs_def
    by (rule concat_map_singletons)
  finally show ?thesis .
qed

lemma set_written_for:
  "0 < N \<Longrightarrow> set (written_for emits hi hs N input r) \<subseteq> set (emitted_pairs emits input)"
  using mset_written_for set_key_share by (metis set_mset_mset)

lemma length_values_written_for:
  assumes "0 < N"
  shows "length (values_of k (written_for emits hi hs N input r)) \<le> length (emitted_pairs emits input)"
proof -
  have "length (values_of k kvs) \<le> length kvs" for kvs :: "(string \<times> string) list"
    by (simp add: values_of_def)
  moreover have "length (written_for emits hi hs N input r) \<le> length (emitted_pairs emits input)"
    using mset_eq_length [OF mset_written_for [OF assms]] by (simp add: key_share_def)
  ultimately show ?thesis using le_trans by blast
qed

lemma in_group_by_key: "g \<in> set (group_by_key kvs) \<Longrightarrow> snd g = values_of (fst g) kvs"
  by (auto simp: group_by_key_def)

lemma good_pairs_wc:
  assumes "0 < N" "int (length input) \<le> INT_MAX"
  shows "good_pairs wc_emits wc_accepts hi hs N input"
proof -
  have "wc_accepts (fst g) (snd g)" if "g \<in> set (group_by_key (written_for wc_emits hi hs N input r))" for r g
  proof -
    have "set (snd g) \<subseteq> snd ` set (emitted_pairs wc_emits input)"
      using in_group_by_key [OF that] set_written_for [OF assms(1)] by (force simp: values_of_def)
    moreover have "length (snd g) \<le> length input"
      using in_group_by_key [OF that] length_values_written_for [OF assms(1), of "fst g" wc_emits hi hs input r]
        length_words [of input] by (simp add: emitted_pairs_wc)
    ultimately show ?thesis using assms(2) by (auto simp: wc_accepts_def emitted_pairs_wc)
  qed
  moreover have "token ''1''" by (simp add: token_def isspace_def)
  ultimately show ?thesis
    using words_tokens [of input] by (auto simp: good_pairs_def emitted_pairs_wc token_pair_def)
qed

interpretation wc_job: job "job_params WordCounterMapReduce hi hs f d N"
  "job_effect wc_emits wc_outs hi hs d N input"
  "\<lambda>fs. job_ready f d N input fs \<and> good_pairs wc_emits wc_accepts hi hs N input"
  for hi hs f d N input
  by (rule mr_app.job_laws [OF wc.mr_app_axioms])

section \<open>InvertedIndex\<close>

definition numbered_words :: "string \<Rightarrow> (string \<times> string) list" where
  "numbered_words input =
     concat (map (\<lambda>nl. map (\<lambda>w. (w, to_string (fst nl))) (words (snd nl)))
       (number_lines 0 (lines_of input)))"

lemma emitted_pairs_ii: "emitted_pairs ii_emits input = numbered_words input"
  by (simp add: emitted_pairs_def mapped_def ii_emits_def numbered_words_def)

lemma map_fst_numbered_words: "map fst (numbered_words input) = words input"
proof -
  have "map fst (numbered_words input) =
      concat (map (\<lambda>nl. words (snd nl)) (number_lines 0 (lines_of input)))"
    by (simp add: numbered_words_def map_concat comp_def)
  then show ?thesis by (simp only: concat_map_number_lines [of words] concat_words_lines)
qed

text \<open>The decimal numbers of the lines a word is on, in the order of their texts.\<close>

definition line_numbers :: "string \<Rightarrow> string \<Rightarrow> string list" where
  "line_numbers input w =
     sorted_list_of_set (set (map (\<lambda>nl. to_string (fst nl))
       (filter (\<lambda>nl. w \<in> set (words (snd nl))) (number_lines 0 (lines_of input)))))"

definition word_index :: "(string \<Rightarrow> 64 word) \<Rightarrow> int \<Rightarrow> string \<Rightarrow> int \<Rightarrow> (string \<times> string list) list" where
  "word_index hs N input r =
     map (\<lambda>w. (w, line_numbers input w))
       (sorted_list_of_set (Set.filter (\<lambda>w. bucket hs N w = r) (set (words input))))"

lemma values_numbered_words:
  "sorted_list_of_set (set (values_of w (numbered_words input))) = line_numbers input w"
proof -
  have "set (values_of w (numbered_words input)) = set (map (\<lambda>nl. to_string (fst nl))
       (filter (\<lambda>nl. w \<in> set (words (snd nl))) (number_lines 0 (lines_of input))))"
    by (force simp: values_of_def numbered_words_def)
  then show ?thesis by (simp only: line_numbers_def)
qed

lemma keys_for_map_fst:
  "keys_for hs N r kvs = sorted_list_of_set (Set.filter (\<lambda>w. bucket hs N w = r) (set (map fst kvs)))"
  by (simp add: keys_for_def)

lemma concat_map_singleton_fun: "concat (map (\<lambda>k. [f k]) ks) = map f ks"
  by (induction ks) simp_all

lemma job_results_ii:
  assumes "0 < N"
  shows "job_results ii_emits ii_outs hi hs N input r = word_index hs N input r"
proof -
  have "job_results ii_emits ii_outs hi hs N input r =
      concat (map (\<lambda>k. ii_outs k (values_of k (numbered_words input)))
        (keys_for hs N r (numbered_words input)))"
    unfolding emitted_pairs_ii [symmetric]
    by (rule job_results_reference [OF assms]) (auto simp: ii_outs_def dest: mset_eq_setD)
  then show ?thesis
    by (simp only: ii_outs_def values_numbered_words concat_map_singleton_fun keys_for_map_fst
        map_fst_numbered_words word_index_def)
qed

lemma good_pairs_short:
  assumes "0 < N" "int (length (emitted_pairs emits input)) \<le> INT_MAX"
    and "\<forall>kv\<in>set (emitted_pairs emits input). token_pair kv"
  shows "good_pairs emits short_values hi hs N input"
proof -
  have "short_values (fst g) (snd g)" if "g \<in> set (group_by_key (written_for emits hi hs N input r))" for r g
    using in_group_by_key [OF that] length_values_written_for [OF assms(1), of "fst g" emits hi hs input r]
      assms(2) by (simp add: short_values_def)
  then show ?thesis using assms(3) by (simp add: good_pairs_def)
qed

lemma good_pairs_ii:
  assumes "0 < N" "int (length input) \<le> INT_MAX"
  shows "good_pairs ii_emits short_values hi hs N input"
proof (rule good_pairs_short [OF assms(1)])
  have "length (numbered_words input) = length (words input)"
    using map_fst_numbered_words [of input] by (metis length_map)
  then show "int (length (emitted_pairs ii_emits input)) \<le> INT_MAX"
    using length_words [of input] assms(2) by (simp add: emitted_pairs_ii)
  show "\<forall>kv\<in>set (emitted_pairs ii_emits input). token_pair kv"
    using words_tokens by (auto simp: emitted_pairs_ii numbered_words_def token_pair_def)
qed

interpretation ii_job: job "job_params InvertedIndexMapReduce hi hs f d N"
  "job_effect ii_emits ii_outs hi hs d N input"
  "\<lambda>fs. job_ready f d N input fs \<and> good_pairs ii_emits short_values hi hs N input"
  for hi hs f d N input
  by (rule mr_app.job_laws [OF ii.mr_app_axioms])

section \<open>ReverseWeblinkGraph\<close>

definition links :: "string \<Rightarrow> (string \<times> string) list" where
  "links input = map (\<lambda>l. (link_target l, link_source l)) (lines_of input)"

lemma lines_of_no_newline: "l \<in> set (lines_of s) \<Longrightarrow> c \<in> set l \<Longrightarrow> c \<noteq> CHR 0x0A"
proof (induction s rule: lines_of.induct)
  case (1 s)
  then have ne: "s \<noteq> []" by auto
  show ?case
  proof (cases "dropWhile (\<lambda>c. c \<noteq> CHR 0x0A) s")
    case Nil
    with "1.prems" show ?thesis
      by (auto simp: lines_of_step [OF ne] simp del: dropWhile_eq_Nil_conv dest: set_takeWhileD)
  next
    case (Cons b r)
    with "1.prems" "1.IH" [OF ne Cons] show ?thesis
      by (auto simp: lines_of_step [OF ne] dest: set_takeWhileD)
  qed
qed

lemma emitted_pairs_rw: "emitted_pairs rw_emits input = links input"
proof -
  have "rw_emits (to_string (fst nl)) (snd nl) = [(link_target (snd nl), link_source (snd nl))]"
    if "nl \<in> set (number_lines 0 (lines_of input))" for nl
  proof (rule rw_emits_line)
    have "snd nl \<in> set (map snd (number_lines 0 (lines_of input)))"
      using that by (metis image_eqI list.set_map)
    then show "\<forall>c\<in>set (snd nl). c \<noteq> CHR 0x0A"
      using lines_of_no_newline by (metis map_snd_number_lines)
  qed
  then have "map (\<lambda>nl. rw_emits (to_string (fst nl)) (snd nl)) (number_lines 0 (lines_of input)) =
      map (\<lambda>nl. [(link_target (snd nl), link_source (snd nl))]) (number_lines 0 (lines_of input))"
    by (intro map_cong) auto
  then have "emitted_pairs rw_emits input =
      concat (map (\<lambda>nl. [(link_target (snd nl), link_source (snd nl))]) (number_lines 0 (lines_of input)))"
    by (simp only: emitted_pairs_def mapped_def)
  also have "\<dots> = links input"
    using concat_map_number_lines [of "\<lambda>l. [(link_target l, link_source l)]"]
    by (simp add: concat_map_singleton_fun links_def)
  finally show ?thesis .
qed

definition link_lines :: "string \<Rightarrow> bool" where
  "link_lines input \<longleftrightarrow> (\<forall>l\<in>set (lines_of input). token (link_source l) \<and> token (link_target l))"

lemma good_pairs_rw:
  assumes "0 < N" "int (length input) \<le> INT_MAX" "link_lines input"
  shows "good_pairs rw_emits short_values hi hs N input"
  by (rule good_pairs_short [OF assms(1)])
    (use assms(2,3) length_lines_of [of input] in
      \<open>auto simp: emitted_pairs_rw links_def token_pair_def link_lines_def\<close>)

interpretation rw_job: job "job_params ReverseWeblinkGraphMapReduce hi hs f d N"
  "job_effect rw_emits rw_outs hi hs d N input"
  "\<lambda>fs. job_ready f d N input fs \<and> good_pairs rw_emits short_values hi hs N input"
  for hi hs f d N input
  by (rule mr_app.job_laws [OF rw.mr_app_axioms])

text \<open>The sources of a target are listed by mapper; as a multiset they are those of the input.\<close>

definition link_groups :: "(string \<Rightarrow> 64 word) \<Rightarrow> int \<Rightarrow> string \<Rightarrow> int \<Rightarrow> (string \<times> string list) list \<Rightarrow> bool" where
  "link_groups hs N input r es \<longleftrightarrow>
     map fst es = keys_for hs N r (links input) \<and>
     (\<forall>e\<in>set es. mset (snd e) = mset (values_of (fst e) (links input)))"

lemma job_results_rw:
  assumes "0 < N"
  shows "link_groups hs N input r (job_results rw_emits rw_outs hi hs N input r)"
proof -
  let ?w = "written_for rw_emits hi hs N input r"
  have "job_results rw_emits rw_outs hi hs N input r = group_by_key ?w"
    by (simp add: job_results_def reduced_def rw_outs_def concat_map_singleton_fun)
  moreover have "map fst (group_by_key ?w) = keys_for hs N r (links input)"
    by (simp only: map_fst_group_by_key keys_written_for [OF assms] emitted_pairs_rw)
  moreover have "mset (snd e) = mset (values_of (fst e) (links input))" if "e \<in> set (group_by_key ?w)" for e
  proof -
    have "fst e \<in> set (keys_for hs N r (links input))"
      using that calculation(2) by (metis image_eqI list.set_map)
    then have "bucket hs N (fst e) = r" by (simp add: set_keys_for)
    with mset_values_written_for [OF assms, of hs "fst e" r rw_emits hi input] in_group_by_key [OF that]
    show ?thesis by (simp add: emitted_pairs_rw)
  qed
  ultimately show ?thesis by (simp add: link_groups_def)
qed

section \<open>The main functions\<close>

text \<open>
  \<open>main\<close> reads the configuration, makes the master (with an uninitialised number of
  workers if the file gives none), calls \<open>process\<close> and reports its result.
\<close>

definition make_master ::
  "mr_class \<Rightarrow> (int \<Rightarrow> 64 word) \<Rightarrow> (string \<Rightarrow> 64 word) \<Rightarrow> config \<Rightarrow> cpp_error + params" where
  "make_master cls hi hs cfg =
     (case c_nr_workers cfg of
        None \<Rightarrow> Inl (UB ''uninitialised variable'')
      | Some nr_workers \<Rightarrow>
          Inr (job_params cls hi hs (c_inputFileName cfg) (c_dataDirectory cfg) nr_workers))"

definition WordCounter_main ::
  "(int \<Rightarrow> 64 word) \<Rightarrow> (string \<Rightarrow> 64 word) \<Rightarrow> file_system \<Rightarrow> cpp_error + params" where
  "WordCounter_main hi hs fs =
     sbind (WordCounter_config fs) (make_master WordCounterMapReduce hi hs)"

definition InvertedIndex_main ::
  "(int \<Rightarrow> 64 word) \<Rightarrow> (string \<Rightarrow> 64 word) \<Rightarrow> file_system \<Rightarrow> cpp_error + params" where
  "InvertedIndex_main hi hs fs =
     sbind (InvertedIndex_config fs) (make_master InvertedIndexMapReduce hi hs)"

definition ReverseWeblinkGraph_main ::
  "(int \<Rightarrow> 64 word) \<Rightarrow> (string \<Rightarrow> 64 word) \<Rightarrow> file_system \<Rightarrow> cpp_error + params" where
  "ReverseWeblinkGraph_main hi hs fs =
     sbind (ReverseWeblinkGraph_config fs) (make_master ReverseWeblinkGraphMapReduce hi hs)"

definition WordCounter_report :: "int \<Rightarrow> string" where
  "WordCounter_report result =
     (if result = - 1 then ''WordCounter MapReduce failed'' else ''WordCounter MapReduce success'')"

definition InvertedIndex_report :: "int \<Rightarrow> string" where
  "InvertedIndex_report result =
     (if result = - 1 then ''InvertedIndex MapReduce failed'' else ''InvertedIndex MapReduce success'')"

definition ReverseWeblinkGraph_report :: "int \<Rightarrow> string" where
  "ReverseWeblinkGraph_report result =
     (if result = - 1 then ''Reverse Web-link MapReduce failed''
      else ''Reverse Web-link MapReduce success'')"

end
