(* ===== verification/Master_Limits.thy ===== *)
theory Master_Limits
  imports Master_Progress
begin

text \<open>
  What \<open>process\<close> does not do, for any tasks: it reports nothing but \<open>0\<close>, it returns only
  when there are as many reducers as mappers, and it can be left waiting for ever, by a server
  that dies before its client has noticed, and by a connection that is refused.
\<close>

section \<open>The master's steps, whatever the servers are\<close>

text \<open>Only the master moves its own variables.\<close>

lemma sys_step_local:
  "sys_step P s s' \<Longrightarrow> s' = master_step P s \<or> s' = woken P s \<or>
     pc s' = pc s \<and> map_task_status s' = map_task_status s \<and> nr_map_done s' = nr_map_done s
     \<and> reduce_task_status s' = reduce_task_status s \<and> nr_reduce_done s' = nr_reduce_done s"
  by (erule sys_stepE) (simp_all add: connect_client_def set_client_def)

text \<open>Where the master goes from the steps of the map phase.\<close>

lemma map_pcs:
  "pc (poll_map i s) \<in> {MapPoll (i + 1), MapCall i, MapAsk i}"
  "pc (ask_map i s) \<in> {Blocked, MapPoll (i + 1)}"
  "pc (recall_map i s) = MapPoll (i + 1)" "pc (start_call i s) = StartCall (i + 1)"
  by (auto simp: poll_map_def restart_map_server_def ask_map_def recall_map_def start_call_def
      split: option.splits bool.splits)

lemma reduce_pcs:
  "pc (poll_reduce i s) \<in> {Aborted, ReducePoll (i + 1), ReduceCall i, ReduceAsk i}"
  "pc (ask_reduce i s) \<in> {Blocked, ReducePoll (i + 1)}"
  "pc (recall_reduce i s) = ReducePoll (i + 1)"
  by (auto simp: poll_reduce_def restart_reduce_server_def ask_reduce_def recall_reduce_def
      split: option.splits bool.splits)

lemma start_reduce_sel [simp]:
  "pc (start_reduce P s) = (if nr_reducer (master P) < 0 then Aborted else ReducePoll 0)"
  "reduce_task_status (start_reduce P s) = status_vector (nr_reducer (master P))"
  "nr_reduce_done (start_reduce P s) = 0"
  by (simp_all add: start_reduce_def)

section \<open>Different numbers of mappers and reducers\<close>

text \<open>
  With more mappers than reducers the loop leaves the status vector; with fewer, the
  statuses past the mappers' indices stay \<open>0\<close> and the count never reaches the number of
  reducers.
\<close>

definition stuck_status :: "params \<Rightarrow> system \<Rightarrow> bool" where
  "stuck_status P s \<longleftrightarrow>
     length (reduce_task_status s) = nat (nr_reducer (master P))
     \<and> nr_reduce_done s = ones (reduce_task_status s)
     \<and> (\<forall>j. nat (nr_mapper (master P)) \<le> j \<longrightarrow> j < length (reduce_task_status s) \<longrightarrow>
            reduce_task_status s ! j = 0)"

definition stuck_reduce :: "params \<Rightarrow> system \<Rightarrow> bool" where
  "stuck_reduce P s \<longleftrightarrow>
     (let M = nr_mapper (master P); R = nr_reducer (master P)
      in case pc s of
        ReducePoll i \<Rightarrow> 0 \<le> i \<and> i \<le> M \<and> i \<le> R \<and> stuck_status P s
      | ReduceAsk i \<Rightarrow> 0 \<le> i \<and> i < M \<and> i < R \<and> reduce_task_status s ! nat i \<noteq> 1 \<and> stuck_status P s
      | ReduceCall i \<Rightarrow> 0 \<le> i \<and> i < M \<and> i < R \<and> stuck_status P s
      | Returned n \<Rightarrow> False
      | _ \<Rightarrow> True)"

lemma ones_less:
  assumes "k < length xs" "xs ! k \<noteq> 1"
  shows "ones xs < int (length xs)"
  using length_filter_less [of "xs ! k" xs "\<lambda>x. x = 1"] assms by (simp add: ones_def)

lemma stuck_status_pc [simp]: "stuck_status P (s\<lparr>pc := x\<rparr>) = stuck_status P s"
  by (simp add: stuck_status_def)

lemma stuck_reduce_pc:
  "pc s = ReducePoll i \<Longrightarrow> stuck_reduce P s \<longleftrightarrow>
     0 \<le> i \<and> i \<le> nr_mapper (master P) \<and> i \<le> nr_reducer (master P) \<and> stuck_status P s"
  "pc s = ReduceAsk i \<Longrightarrow> stuck_reduce P s \<longleftrightarrow> 0 \<le> i \<and> i < nr_mapper (master P) \<and> i < nr_reducer (master P)
     \<and> reduce_task_status s ! nat i \<noteq> 1 \<and> stuck_status P s"
  "pc s = ReduceCall i \<Longrightarrow> stuck_reduce P s \<longleftrightarrow>
     0 \<le> i \<and> i < nr_mapper (master P) \<and> i < nr_reducer (master P) \<and> stuck_status P s"
  "pc s = Returned n \<Longrightarrow> \<not> stuck_reduce P s"
  "pc s \<in> {Blocked, Aborted} \<union> range StartCall \<union> range MapPoll \<union> range MapAsk \<union> range MapCall \<Longrightarrow> stuck_reduce P s"
  by (auto simp: stuck_reduce_def Let_def)

lemma poll_reduce_stuck:
  assumes "stuck_reduce P s" "pc s = ReducePoll i" "i < nr_mapper (master P)"
  shows "stuck_reduce P (poll_reduce i s)"
proof (cases "length (reduce_task_status s) \<le> nat i")
  case True
  then show ?thesis by (simp add: stuck_reduce_pc(5) poll_reduce_def)
next
  case False
  with assms have "i < nr_reducer (master P)" by (auto simp: stuck_reduce_pc(1) stuck_status_def)
  with assms False show ?thesis
    by (auto simp: stuck_reduce_def poll_reduce_def restart_reduce_server_def stuck_status_def)
qed

lemma ask_reduce_stuck:
  assumes "stuck_reduce P s" "pc s = ReduceAsk i"
  shows "stuck_reduce P (ask_reduce i s)"
proof -
  have "nat i < length (reduce_task_status s)" "nat i < nat (nr_mapper (master P))"
    using assms by (auto simp: stuck_reduce_pc(2) stuck_status_def)
  with assms show ?thesis
    by (auto simp: stuck_reduce_def stuck_status_def ask_reduce_def ones_update nth_list_update Let_def
        split: option.splits bool.splits)
qed

lemma recall_reduce_stuck:
  "stuck_reduce P s \<Longrightarrow> pc s = ReduceCall i \<Longrightarrow> stuck_reduce P (recall_reduce i s)"
  by (auto simp: stuck_reduce_def stuck_status_def recall_reduce_def post_task_def Let_def)

lemma end_reduce_stuck:
  assumes "nr_mapper (master P) \<noteq> nr_reducer (master P)" "stuck_reduce P s" "pc s = ReducePoll i"
    and "0 \<le> nr_mapper (master P)" "\<not> i < nr_mapper (master P)"
  shows "stuck_reduce P (end_reduce_pass P s)"
proof -
  have i: "i = nr_mapper (master P)" "nr_mapper (master P) < nr_reducer (master P)"
    and st: "stuck_status P s"
    using assms by (auto simp: stuck_reduce_pc(1))
  let ?k = "nat (nr_mapper (master P))"
  have "?k < length (reduce_task_status s)" "reduce_task_status s ! ?k = 0"
    using assms(4) st i by (auto simp: stuck_status_def)
  then have "ones (reduce_task_status s) < int (length (reduce_task_status s))"
    by (intro ones_less) auto
  with assms(4) i st show ?thesis
    by (auto simp: stuck_reduce_def stuck_status_def end_reduce_pass_def)
qed

lemma master_step_stuck:
  assumes "nr_mapper (master P) \<noteq> nr_reducer (master P)" "stuck_reduce P s"
    and "0 \<le> nr_mapper (master P)"
  shows "stuck_reduce P (master_step P s)"
proof (cases "pc s")
  case (StartCall i)
  then show ?thesis
    using assms(2) map_pcs(4) [of i s] by (auto simp: master_step_def wait_conn_then_def stuck_reduce_pc(5))
next
  case (MapPoll i)
  have "stuck_reduce P (start_reduce P s)"
    using assms(3) by (auto simp: stuck_reduce_def stuck_status_def status_vector_def ones_def)
  then show ?thesis
    using MapPoll map_pcs(1) [of i s]
    by (auto simp: master_step_def end_map_pass_def stuck_reduce_pc(5))
next
  case (MapAsk i)
  then show ?thesis
    using assms(2) map_pcs(2) [of i s] by (auto simp: master_step_def wait_conn_then_def stuck_reduce_pc(5))
next
  case (MapCall i)
  then show ?thesis
    using assms(2) map_pcs(3) [of i s] by (auto simp: master_step_def wait_conn_then_def stuck_reduce_pc(5))
next
  case (ReducePoll i)
  with poll_reduce_stuck [OF assms(2)] end_reduce_stuck [OF assms(1,2) _ assms(3)] show ?thesis
    by (simp add: master_step_def)
next
  case (ReduceAsk i)
  with ask_reduce_stuck [OF assms(2)] assms(2) show ?thesis by (simp add: master_step_def wait_conn_then_def)
next
  case (ReduceCall i)
  with recall_reduce_stuck [OF assms(2)] assms(2) show ?thesis by (simp add: master_step_def wait_conn_then_def)
qed (use assms in \<open>simp_all add: master_step_def\<close>)

lemma woken_stuck: "stuck_reduce P s \<Longrightarrow> stuck_reduce P (woken P s)"
  using map_pcs(3,4) recall_reduce_stuck
  by (auto simp: woken_def stuck_reduce_pc(5) split: pc.splits)

lemma stuck_reduce_local:
  "pc s' = pc s \<Longrightarrow> reduce_task_status s' = reduce_task_status s \<Longrightarrow>
   nr_reduce_done s' = nr_reduce_done s \<Longrightarrow> stuck_reduce P s' = stuck_reduce P s"
  by (cases "pc s") (simp_all add: stuck_reduce_def stuck_status_def)

lemma reachable_stuck:
  assumes "nr_mapper (master P) \<noteq> nr_reducer (master P)" "0 \<le> nr_mapper (master P)"
  shows "reachable P fs s \<Longrightarrow> stuck_reduce P s"
proof (induction rule: reachable.induct)
  case start
  show ?case using assms by (simp add: stuck_reduce_def process_start_def)
next
  case (step s s')
  from sys_step_local [OF step.hyps(2)] show ?case
    using master_step_stuck [OF assms(1) step.IH assms(2)] woken_stuck [OF step.IH] step.IH
      stuck_reduce_local by metis
qed

lemma reachable_aborted:
  "reachable P fs s \<Longrightarrow> nr_mapper (master P) < 0 \<Longrightarrow> pc s = Aborted"
  by (induction rule: reachable.induct)
    (auto simp: process_start_def master_step_def woken_def connect_client_def elim!: sys_stepE)

text \<open>
  C5. A master made with different numbers of mappers and reducers never returns: no
  reachable state, with or without faults, has \<open>process\<close> returned.
\<close>

theorem unequal_counts_never_return:
  assumes "nr_mapper (master P) \<noteq> nr_reducer (master P)" "reachable P fs s"
  shows "pc s \<noteq> Returned n"
  using reachable_stuck [OF assms(1) _ assms(2)] reachable_aborted [OF assms(2)]
  by (force simp: stuck_reduce_def)

section \<open>The result code\<close>

lemma master_step_returned:
  assumes "pc (master_step P s) = Returned n"
  shows "n = 0 \<or> pc s = Returned n"
proof (cases "pc s")
  case (StartCall i)
  with assms map_pcs(4) [of i s] show ?thesis
    by (auto simp: master_step_def wait_conn_then_def split: if_splits)
next
  case (MapPoll i)
  with assms map_pcs(1) [of i s] show ?thesis
    by (auto simp: master_step_def end_map_pass_def split: if_splits)
next
  case (MapAsk i)
  with assms map_pcs(2) [of i s] show ?thesis
    by (auto simp: master_step_def wait_conn_then_def split: if_splits)
next
  case (MapCall i)
  with assms map_pcs(3) [of i s] show ?thesis
    by (auto simp: master_step_def wait_conn_then_def split: if_splits)
next
  case (ReducePoll i)
  with assms reduce_pcs(1) [of i s] show ?thesis
    by (auto simp: master_step_def end_reduce_pass_def stop_servers_def split: if_splits)
next
  case (ReduceAsk i)
  with assms reduce_pcs(2) [of i s] show ?thesis
    by (auto simp: master_step_def wait_conn_then_def split: if_splits)
next
  case (ReduceCall i)
  with assms reduce_pcs(3) [of i s] show ?thesis
    by (auto simp: master_step_def wait_conn_then_def split: if_splits)
qed (use assms in \<open>simp_all add: master_step_def\<close>)

lemma woken_returned: "pc (woken P s) = Returned n \<Longrightarrow> pc s = Returned n"
  using map_pcs(3,4) reduce_pcs(3) by (auto simp: woken_def split: pc.splits if_splits)

lemma reachable_returned_zero: "reachable P fs s \<Longrightarrow> pc s = Returned n \<Longrightarrow> n = 0"
proof (induction arbitrary: n rule: reachable.induct)
  case start
  then show ?case by (simp add: process_start_def split: if_splits)
next
  case (step s s')
  from sys_step_local [OF step.hyps(2)] step show ?case
    using master_step_returned woken_returned by metis
qed

section \<open>An undisturbed start\<close>

text \<open>The connections of the first \<open>k\<close> workers are made and their map tasks called.\<close>

definition connected_client :: pool_client where
  "connected_client = \<lparr>client_state = connected, attempting = False, unsent = [], broken = False\<rparr>"

lemma connected_client_sel [simp]:
  "client_state connected_client = connected" "unsent connected_client = []" "\<not> broken connected_client"
  "conn_made connected_client"
  by (simp_all add: connected_client_def conn_made_def)

definition started :: "params \<Rightarrow> file_system \<Rightarrow> int \<Rightarrow> system" where
  "started P fs k =
     (process_start P fs)
       \<lparr>servers := (\<lambda>i. if i \<in> workers P \<and> i < k then async_call (MapTask i) forked_server else spawn_servers P i),
        client_pool := (\<lambda>i. if i \<in> workers P \<and> i < k then connected_client
                            else if i \<in> workers P then new_pool_client else no_client),
        pc := StartCall k\<rparr>"

lemma started_step:
  assumes "k \<in> workers P"
  shows "(sys_step P)\<^sup>*\<^sup>* (started P fs k) (started P fs (k + 1))"
proof -
  let ?s = "started P fs k"
  have k: "k < nr_mapper (master P)" using assms by (simp add: workers_eq)
  have c: "attempting (client_pool ?s k)" "alive (servers ?s k)"
    using assms by (simp_all add: started_def spawn_servers_def)
  have "client_pool (connect_client k ?s) k = connected_client"
    using assms by (simp add: connect_client_def started_def connected_client_def new_pool_client_def)
  then have "master_step P (connect_client k ?s) =
      (connect_client k ?s)\<lparr>servers := (servers (connect_client k ?s))(k := async_call (MapTask k) (servers ?s k)),
        pc := StartCall (k + 1)\<rparr>"
    using k assms by (simp add: master_step_def wait_conn_then_def start_call_def post_task_def connect_client_def
        started_def)
  also have "\<dots> = started P fs (k + 1)"
    using assms
    by (auto simp: connect_client_def started_def spawn_servers_def new_pool_client_def connected_client_def
        fun_eq_iff)
  finally show ?thesis
    using client_connects [OF c] master_moves [of P "connect_client k ?s"]
    by (metis (no_types) converse_rtranclp_into_rtranclp r_into_rtranclp)
qed

lemma started_reachable:
  "int k \<le> nr_mapper (master P) \<Longrightarrow> reachable P fs (started P fs (int k))"
proof (induction k)
  case 0
  then have "started P fs 0 = process_start P fs"
    by (auto simp: started_def process_start_def workers_eq fun_eq_iff)
  then show ?case using reachable.start [of P fs] by simp
next
  case (Suc k)
  then have "int k \<in> workers P" by (simp add: workers_eq)
  from reachable_steps [OF Suc.IH started_step [OF this]] Suc.prems show ?case by (simp add: add.commute)
qed

definition called_start :: "params \<Rightarrow> file_system \<Rightarrow> system" where
  "called_start P fs = (started P fs (nr_mapper (master P)))\<lparr>pc := MapPoll 0\<rparr>"

lemma called_start_sel [simp]:
  "disk (called_start P fs) = fs" "pc (called_start P fs) = MapPoll 0"
  "map_task_status (called_start P fs) = status_vector (nr_mapper (master P))" "nr_map_done (called_start P fs) = 0"
  "i \<in> workers P \<Longrightarrow> servers (called_start P fs) i = async_call (MapTask i) forked_server"
  "i \<in> workers P \<Longrightarrow> client_pool (called_start P fs) i = connected_client"
  by (simp_all add: called_start_def started_def process_start_def workers_eq)

lemma called_start_reachable:
  assumes "0 \<le> nr_mapper (master P)"
  shows "reachable P fs (called_start P fs)"
proof -
  have "reachable P fs (started P fs (nr_mapper (master P)))"
    using started_reachable [of "nat (nr_mapper (master P))" P fs] assms by simp
  moreover have "master_step P (started P fs (nr_mapper (master P))) = called_start P fs"
    by (simp add: master_step_def called_start_def started_def)
  ultimately show ?thesis by (metis reachable.step master_moves)
qed

section \<open>The hang\<close>

text \<open>A server killed while it runs its task, before the client has noticed it.\<close>

definition killed_start :: "params \<Rightarrow> file_system \<Rightarrow> system" where
  "killed_start P fs =
     (called_start P fs)\<lparr>servers := (servers (called_start P fs))(0 := dead_server)\<rparr>"

lemma killed_start_reachable:
  assumes "0 < nr_mapper (master P)"
  shows "reachable P fs (killed_start P fs)"
proof -
  let ?s = "called_start P fs"
  have "alive (servers ?s 0)" using assms by (simp add: workers_eq)
  moreover have "torn P (calls (servers ?s 0)) (disk ?s) fs" by (simp add: torn_def)
  ultimately have "sys_step P ?s (?s\<lparr>servers := (servers ?s)(0 := dead_server), disk := fs\<rparr>)"
    by (rule server_killed)
  moreover have "?s\<lparr>servers := (servers ?s)(0 := dead_server), disk := fs\<rparr> = killed_start P fs"
    by (simp add: killed_start_def called_start_def started_def process_start_def)
  ultimately show ?thesis
    using called_start_reachable [of P fs] assms by (simp add: reachable.step)
qed

lemma killed_start_polled:
  assumes "0 < nr_mapper (master P)"
  shows "pc (master_step P (master_step P (killed_start P fs))) = Blocked"
  using assms
  by (simp add: master_step_def wait_conn_then_def killed_start_def poll_map_def ask_map_def status_vector_def
      is_server_down_def blocking_call_def workers_eq)

lemma killed_start_does_not_wait: "0 < nr_mapper (master P) \<Longrightarrow> \<not> waits_for_ever P (killed_start P fs)"
  by (auto simp: waits_for_ever_def no_answer_def lost_connection_def killed_start_def)

text \<open>
  C6. The heart-beat can hang: with at least one worker there is a reachable state from
  which the master waits for ever, whatever happens next. It is reached by a server that
  dies in its first task before the client has noticed the closed connection.
\<close>

theorem hang_possible:
  assumes "0 < nr_mapper (master P)"
  shows "\<exists>s. reachable P fs s \<and> (\<forall>s'. (sys_step P)\<^sup>*\<^sup>* s s' \<longrightarrow> pc s' = Blocked)"
  using killed_start_reachable [OF assms] killed_start_polled [OF assms] blocked_forever
  by (meson reachable.step master_moves)

text \<open>
  The other hang: a connection that is refused, by a server that is not listening yet, is never
  made, and the master waits for it although every server is alive.
\<close>

lemma refused_hang:
  assumes "0 < nr_mapper (master P)"
  shows "\<exists>s. reachable P fs s \<and> (\<forall>i\<in>workers P. alive (servers s i))
    \<and> (\<forall>s'. (sys_step P)\<^sup>*\<^sup>* s s' \<longrightarrow> waits_for_ever P s')"
proof -
  let ?s = "set_client 0 ((client_pool (process_start P fs) 0)\<lparr>attempting := False\<rparr>) (process_start P fs)"
  have zero: "0 \<in> workers P" using assms by (simp add: workers_eq)
  then have "attempting (client_pool (process_start P fs) 0)" by (simp add: process_start_def)
  from client_refused [OF this] have "reachable P fs ?s" by (meson reachable.intros)
  moreover have "\<forall>i\<in>workers P. alive (servers ?s i)" by (simp add: process_start_def spawn_servers_def)
  moreover have "lost_connection ?s 0"
    using zero by (simp add: lost_connection_def process_start_def)
  then have "waits_for_ever P ?s" using zero by (auto simp: waits_for_ever_def)
  ultimately show ?thesis using waits_for_ever_stays by blast
qed

end
