(* ===== verification/Spec2Isabelle.thy ===== *)
theory Spec2Isabelle
  imports Rpc_Worker Rpc_Connection Msgpack_Vrefbuffer Msgpack_Clone Msgpack_V1
    Msgpack_Wrappers Msgpack_Compare Client_Jobs Master_Limits
begin

text \<open>
  A verification of MapReduceCpp: the library \<open>src/include/MapReduceMaster.h\<close> and
  \<open>src/include/Utility.h\<close>, its three client programs in \<open>src/src\<close>, and the parts of the vendored
  \<open>src/lib/rpclib\<close> the processes talk through.

  \<^bold>\<open>The program.\<close> A client program registers a class with a map and a reduce function, reads its
  configuration and calls \<open>MapReduceMaster::process\<close>. The master forks one server per worker,
  asks each over RPC to run a map task, polls until all are done, restarting a worker whose
  connection is gone, does the same with the reduce tasks, and stops the servers. A map task
  reads the lines that hash to its index and writes one temporary file per reducer; a reduce
  task reads the temporary files of all mappers and writes one output file. A call travels as
  a MessagePack array through the client's write queue, a socket, the unpacker and the
  dispatcher of the server, and back the same way.

  \<^bold>\<open>The theories\<close>, bottom up, with what they model.
  \<^item> \<open>MR_Prelude\<close>: the collections of rules and the lemmas on lists, sums and maps shared below.
  \<^item> \<open>Cpp_Lib\<close>, \<open>Cpp_IO\<close>, \<open>Std_Map\<close>: what the source uses of C++: exceptions as values, \<open>int\<close>
    arithmetic, \<open>stoi\<close> and \<open>to_string\<close>, input streams and files, \<open>std::map\<close> (locale \<open>ordered_map\<close>).
  \<^item> \<open>Codec\<close>: the locales \<open>stream_codec\<close> and \<open>incremental_codec\<close>, interpreted on the record files
    (\<open>Utility\<close>) and on MessagePack (\<open>Msgpack_Stream\<close>).
  \<^item> \<open>Utility\<close>: \<open>Utility.h\<close>. \<open>Interface\<close>: the client interface, the class factory, the hash, and
    the locale \<open>mr_app\<close>, the contract of a client class.
  \<^item> \<open>Controllers\<close>, \<open>Map_Worker\<close>, \<open>Reduce_Worker\<close>: \<open>map_controller_module\<close> and
    \<open>reduce_controller_module\<close>, and what each does on every branch.
  \<^item> \<open>Clients\<close>: \<open>WordCounter.cpp\<close>, \<open>InvertedIndex.cpp\<close>, \<open>ReverseWeblinkGraph.cpp\<close>, interpreted as
    instances of \<open>mr_app\<close>.
  \<^item> \<open>Master\<close>: the master, its servers and its clients as a step relation: the master's next
    action is a function of its state and program counter. The other steps are those of the servers,
    which answer calls or are killed in the middle of a write, and of the clients: a connection is
    made, is refused, after which nothing tries again, or is noticed to be lost, a write fails that
    was posted before there was a connection, and \<open>wait_conn\<close>, in which the master waits at every call of a new
    client, is woken for no reason. \<open>Master_Safety\<close> proves the result of
    a run in the locale \<open>job\<close>, \<open>Master_Progress\<close> exactly when it can still be finished, \<open>Master_Limits\<close>
    what it does not guarantee. \<open>Map_Reduce\<close> and \<open>Client_Jobs\<close> interpret \<open>job\<close> on the client programs.
  \<^item> \<open>Msgpack\<close> (packer), \<open>Msgpack_Parse\<close> (parser, visitor, unpacker), \<open>Msgpack_Scalars\<close>,
    \<open>Msgpack_Objects\<close>, \<open>Msgpack_Stream\<close> (round trips, chunks), \<open>Msgpack_Buffer\<close> (the receive buffer,
    refining the stream), \<open>Msgpack_V1\<close> (the older unpacker, and that it reads the same: C24),
    \<open>Msgpack_Convert\<close> (the adaptors between values and objects), \<open>Msgpack_Containers\<close> (those of
    containers, locale \<open>value_adaptor\<close>), \<open>Msgpack_Wrappers\<close> (those of wrappers and references, and how
    objects are printed), \<open>Msgpack_Compare\<close> (comparison, extension values), \<open>Msgpack_Sbuffer\<close> and
    \<open>Msgpack_Vrefbuffer\<close> (the buffers messages are packed into), \<open>Msgpack_Zone\<close> (the memory objects are
    built in), \<open>Msgpack_Memory\<close> and \<open>Msgpack_Clone\<close> (objects in memory, their copies).
  \<^item> \<open>Rpc_Messages\<close>: calls, notifications, responses. \<open>Rpc_Dispatcher\<close>: \<open>dispatcher::bind\<close> and
    \<open>dispatch\<close> (locale \<open>bound_function\<close>). \<open>Rpc_Session\<close>: what \<open>server_session\<close> does with a message,
    and the thread-local \<open>this_handler\<close>, \<open>this_session\<close>, \<open>this_server\<close>. \<open>Rpc_Writer\<close>: \<open>async_writer\<close>.
    \<open>Rpc_Client\<close>: the calls of a \<open>client\<close>. \<open>Rpc_Connection\<close>: how a client connects, reads and notices
    that the server is gone, and how its calls wait, once, for the connection. \<open>Rpc_Server\<close>: \<open>server\<close> and who owns its sessions.
  \<^item> \<open>Rpc_Link\<close>: a client and a session joined by two byte streams, as a step relation;
    \<open>Rpc_Link_Inv\<close> its invariant, \<open>Rpc_Link_Progress\<close> that it comes to rest with everything
    delivered, \<open>Rpc_Calls\<close> what the callers get. \<open>Rpc_Worker\<close>: the six functions of a worker process
    bound to such a server, and their agreement with the handlers of \<open>Master\<close>.

  \<^bold>\<open>State and code.\<close> A C++ struct or class is a record with its data members, an exception or
  undefined behaviour a value of a sum, \<open>int\<close> and \<open>uint32_t\<close> words of 32 bits where they can
  overflow, a \<open>std::string\<close> a list of characters in the library and of bytes on the wire. Every
  function takes the state it may change and returns it changed.

  \<^bold>\<open>What the lemmas show.\<close> C1 to C7: whole runs. Every run that returns, whatever workers were
  killed and restarted, has written the files that the job is specified to write, for each of
  the three clients; such a run is still possible exactly as long as the master does not wait for
  ever, on a server that is dead, an answer that is lost or a connection that is refused; with unequal numbers of mappers and reducers there is none; a hang is reachable;
  and failure is never reported. C8 to C15: single tasks, restarts, independence of the number
  of workers, and the barrier between the phases. C16, C17 and C20: the files. C21, C22, C24 to
  C27, C30 to C32 and C36: MessagePack and its memory, C26 with the one size computation that can wrap
  around unnoticed. The others from C18 on: the RPC layer, up to C38, that a remote call is
  a call, and C39, that it is answered if the server stays up and its session is not asked to exit, and
  down to C23, the freed session a client can make the server use.

  \<^bold>\<open>Bounds and fuel.\<close> The loops over streams end because the input gets shorter, and the polling
  loops are steps of a relation. Only the copy of an object in memory has fuel, for the depth of its
  recursion; C31 says that the depth of the value is enough. The limits in the
  statements are those of the code: 32-bit counts, the parser's \<open>unpack_limit\<close>, line numbers and
  counts that are an \<open>int\<close>, call numbers below \<open>2 ^ 31\<close>,
  and memory: no block of \<open>2 ^ 63\<close> bytes or more, no request of a zone above \<open>2 ^ 61\<close> (an array of
  \<open>2 ^ 32\<close> objects needs less), beyond which the sizes wrap around.

  \<^bold>\<open>Not modelled.\<close>
  \<^item> Console output and \<open>sleep\<close>, which change no state; \<open>fork\<close> is taken to succeed. The hash
    functions of the C++ library are parameters.
  \<^item> asio: sockets, threads, accepting, name resolution. What the code relies on is in the
    step relations: bytes arrive in order in pieces of any size, the functions of a strand run
    one at a time and in the order they were posted, other tasks in any order.
  \<^item> The workers of a server run their tasks one at a time here, although \<open>async_run\<close> starts two
    threads: the flags of a worker process are read and written without locks in the source.
  \<^item> Memory, where a value is made of it: the zone, the three buffers, the ownership of sessions and
    copies of objects are modelled on their own, but a MessagePack object is a value elsewhere,
    without the zone it is built in or its references to the receive buffer, and a special response is packed when
    it is posted, although its zone belongs to the thread. A \<open>float\<close> is its bit pattern.
  \<^item> An exception that leaves a thread, and undefined behaviour in a server, end it: no answer
    comes from it any more.
  \<^item> The \<open>cin >> b\<close> a forked process waits in: when it returns the process ends, which is one of
    the kills of the step relation.
  \<^item> Of MessagePack: the receive buffer of the older unpacker, which is the code of the newer one,
    the buffers \<open>fbuffer\<close> and \<open>zbuffer\<close>, containers in the order of a hash table, and the
    adaptors of C++17, boost and user-defined classes.
  \<^item> googletest, the test stub, the empty program \<open>Temp.cpp\<close>, the Spark scripts, fmt and logging.
\<close>

section \<open>A sample run\<close>

text \<open>Two lines of links, which are words as well, and the file system holding them.\<close>

definition sample_input :: string where
  "sample_input = ''b,a'' @ newline @ ''c,a''"

definition sample_words :: string where
  "sample_words = ''b a'' @ newline @ ''a''"

definition sample_files :: "string \<Rightarrow> file_system" where
  "sample_files input = \<lparr>files = [''d/in'' \<mapsto> input], creatable = (\<lambda>p. True)\<rparr>"

definition zero_hash :: "'a \<Rightarrow> 64 word" where
  "zero_hash x = 0"

lemma sample_ready:
  "job_ready ''in'' ''d'' 1 sample_input (sample_files sample_input)"
  "job_ready ''in'' ''d'' 1 sample_words (sample_files sample_words)"
  by code_simp+

lemma sample_links: "link_lines sample_input"
  by code_simp

lemma sample_good:
  "good_pairs wc_emits wc_accepts hi hs 1 sample_words"
  "good_pairs ii_emits short_values hi hs 1 sample_words"
  "good_pairs rw_emits short_values hi hs 1 sample_input"
proof -
  have len: "int (length sample_words) \<le> INT_MAX" "int (length sample_input) \<le> INT_MAX"
    by code_simp+
  show "good_pairs wc_emits wc_accepts hi hs 1 sample_words"
    "good_pairs ii_emits short_values hi hs 1 sample_words"
    "good_pairs rw_emits short_values hi hs 1 sample_input"
    using good_pairs_wc [OF _ len(1)] good_pairs_ii [OF _ len(1)]
      good_pairs_rw [OF _ len(2) sample_links] by simp_all
qed

section \<open>Whole jobs\<close>

text \<open>
  C1. Word counting is correct under faults: in every reachable state in which \<open>process\<close>
  has returned, whatever servers were killed in the middle of whatever writes, the result
  is \<open>0\<close>, output file \<open>r\<close> has one line per word of the input in bucket \<open>r\<close>, in increasing
  order, with the number of its occurrences, and only the job's own files changed.
\<close>

theorem WordCounter_run:
  assumes "job_ready f d N input fs"
    and "reachable (job_params WordCounterMapReduce hi hs f d N) fs s" "pc s = Returned n"
  shows "n = 0 \<and> (\<forall>r\<in>{0..<N}. files (disk s) (output_path d r) =
      Some (concat (map entry_line (word_counts hs N input r))))
    \<and> (\<forall>p. p \<notin> own_paths d N \<longrightarrow> files (disk s) p = files fs p)"
proof -
  have N: "0 < N" "int (length input) \<le> INT_MAX" using assms(1) by (simp_all add: job_ready_def)
  show ?thesis
    using wc.outputs_on_disk [OF assms(1) good_pairs_wc [OF N] assms(2,3)]
    by (simp add: job_results_wc [OF N(1)])
qed

theorem WordCounter_run_witness:
  "\<exists>s. reachable (job_params WordCounterMapReduce zero_hash zero_hash ''in'' ''d'' 1)
       (sample_files sample_words) s \<and> pc s = Returned 0 \<and>
     files (disk s) (output_path ''d'' 0) = Some (''a 2 '' @ newline @ ''b 1 '' @ newline)"
proof -
  obtain s where s: "reachable (job_params WordCounterMapReduce zero_hash zero_hash ''in'' ''d'' 1)
      (sample_files sample_words) s" "pc s = Returned 0"
    using wc.some_run_returns [OF sample_ready(2) sample_good(1)] by blast
  have "concat (map entry_line (word_counts zero_hash 1 sample_words 0)) =
      ''a 2 '' @ newline @ ''b 1 '' @ newline"
    by code_simp
  with WordCounter_run [OF sample_ready(2) s] s show ?thesis by auto
qed

text \<open>
  C2. Inverted indexing is correct under faults: each word of bucket \<open>r\<close> has one line in
  output file \<open>r\<close> with the distinct numbers of the lines it is on, as decimal texts in
  lexicographic order.
\<close>

theorem InvertedIndex_run:
  assumes "job_ready f d N input fs"
    and "reachable (job_params InvertedIndexMapReduce hi hs f d N) fs s" "pc s = Returned n"
  shows "n = 0 \<and> (\<forall>r\<in>{0..<N}. files (disk s) (output_path d r) =
      Some (concat (map entry_line (word_index hs N input r))))
    \<and> (\<forall>p. p \<notin> own_paths d N \<longrightarrow> files (disk s) p = files fs p)"
proof -
  have N: "0 < N" "int (length input) \<le> INT_MAX" using assms(1) by (simp_all add: job_ready_def)
  show ?thesis
    using ii.outputs_on_disk [OF assms(1) good_pairs_ii [OF N] assms(2,3)]
    by (simp add: job_results_ii [OF N(1)])
qed

theorem InvertedIndex_run_witness:
  "\<exists>s. reachable (job_params InvertedIndexMapReduce zero_hash zero_hash ''in'' ''d'' 1)
       (sample_files sample_words) s \<and> pc s = Returned 0 \<and>
     files (disk s) (output_path ''d'' 0) = Some (''a 0 1 '' @ newline @ ''b 0 '' @ newline)"
proof -
  obtain s where s: "reachable (job_params InvertedIndexMapReduce zero_hash zero_hash ''in'' ''d'' 1)
      (sample_files sample_words) s" "pc s = Returned 0"
    using ii.some_run_returns [OF sample_ready(2) sample_good(2)] by blast
  have "concat (map entry_line (word_index zero_hash 1 sample_words 0)) =
      ''a 0 1 '' @ newline @ ''b 0 '' @ newline"
    by code_simp
  with InvertedIndex_run [OF sample_ready(2) s] s show ?thesis by auto
qed

text \<open>
  C3. Reversing the link graph is correct under faults, for an input every line of which
  has a source and a target without blanks: each target of bucket \<open>r\<close> has one line in
  output file \<open>r\<close> with the sources of its links, each as often as it is in the input.
\<close>

theorem ReverseWeblinkGraph_run:
  assumes "job_ready f d N input fs" "link_lines input"
    and "reachable (job_params ReverseWeblinkGraphMapReduce hi hs f d N) fs s" "pc s = Returned n"
  shows "n = 0 \<and> (\<forall>r\<in>{0..<N}. \<exists>es. link_groups hs N input r es
      \<and> files (disk s) (output_path d r) = Some (concat (map entry_line es)))
    \<and> (\<forall>p. p \<notin> own_paths d N \<longrightarrow> files (disk s) p = files fs p)"
proof -
  have N: "0 < N" "int (length input) \<le> INT_MAX" using assms(1) by (simp_all add: job_ready_def)
  show ?thesis
    using rw.outputs_on_disk [OF assms(1) good_pairs_rw [OF N assms(2)] assms(3,4)]
      job_results_rw [OF N(1)] by blast
qed

theorem ReverseWeblinkGraph_run_witness:
  "\<exists>s es. reachable (job_params ReverseWeblinkGraphMapReduce zero_hash zero_hash ''in'' ''d'' 1)
       (sample_files sample_input) s \<and> pc s = Returned 0 \<and>
     map fst es = [''a''] \<and> files (disk s) (output_path ''d'' 0) = Some (concat (map entry_line es))"
proof -
  obtain s where s: "reachable (job_params ReverseWeblinkGraphMapReduce zero_hash zero_hash ''in'' ''d'' 1)
      (sample_files sample_input) s" "pc s = Returned 0"
    using rw.some_run_returns [OF sample_ready(1) sample_good(3)] by blast
  have "keys_for zero_hash 1 0 (links sample_input) = [''a'']"
    by code_simp
  with ReverseWeblinkGraph_run [OF sample_ready(1) sample_links s] s show ?thesis
    by (force simp: link_groups_def)
qed

text \<open>
  C4. Exactly when a job can still finish: from a reachable state of a job there is a continuation
  in which \<open>process\<close> returns if and only if the master does not wait for ever. It does in one of
  four ways: it has asked a worker whose server is then dead, or to which a write has failed; or a worker's
  connection was refused; or its server is dead and the connection was not made. So servers that
  are killed, or throw, once they are connected are never final unless the master is just asking them.
\<close>

theorem job_can_always_finish:
  assumes "mr_app cls emits outs accepts"
    and "job_ready f d N input fs" "good_pairs emits accepts hi hs N input"
    and "reachable (job_params cls hi hs f d N) fs s"
  shows "(\<exists>s'. (sys_step (job_params cls hi hs f d N))\<^sup>*\<^sup>* s s' \<and> pc s' = Returned 0) \<longleftrightarrow>
    \<not> waits_for_ever (job_params cls hi hs f d N) s"
  using job.reachable_returns_iff [OF mr_app.job_laws [OF assms(1), of hi hs f d N input] assms(4)]
    assms(2,3) by blast

theorem job_can_always_finish_witness:
  "\<exists>s'. (sys_step (job_params WordCounterMapReduce zero_hash zero_hash ''in'' ''d'' 1))\<^sup>*\<^sup>*
      (killed_start (job_params WordCounterMapReduce zero_hash zero_hash ''in'' ''d'' 1)
        (sample_files sample_words)) s' \<and> pc s' = Returned 0"
  by (rule job_can_always_finish [OF wc.mr_app_axioms sample_ready(2) sample_good(1), THEN iffD2])
    (simp_all add: killed_start_reachable killed_start_does_not_wait)

text \<open>
  C15. The phases are separated by a barrier: whenever the master is in its reduce phase,
  every temporary file of every mapper is complete, although mappers may have been killed
  while writing and run again.
\<close>

theorem reduce_phase_barrier:
  assumes "mr_app cls emits outs accepts"
    and "job_ready f d N input fs" "good_pairs emits accepts hi hs N input"
    and "reachable (job_params cls hi hs f d N) fs s" "pc s \<in> {ReducePoll i, ReduceAsk i, ReduceCall i}"
    and "m \<in> {0..<N}" "r \<in> {0..<N}"
  shows "files (disk s) (temp_path d m r) =
    Some (concat (map kv_line (key_share hs N r (mapper_pairs emits hi N input m))))"
proof -
  note J = mr_app.job_laws [OF assms(1), of hi hs f d N input]
  have "job.system_inv (job_params cls hi hs f d N) (job_effect emits outs hi hs d N input) fs s"
    using job.reachable_inv [OF J assms(4)] assms(2,3) by blast
  then have "temp_updates hs d m N (mapper_pairs emits hi N input m) \<subseteq>\<^sub>m files (disk s)"
    using assms(5,6)
    by (auto simp: job.system_inv_def [OF J] job.phase_inv_def [OF J] job.finished_def [OF J])
  moreover have "N \<le> INT_MAX" using assms(2) by (simp add: job_ready_def)
  ultimately show ?thesis using temp_file_finished [OF _ assms(6,7)] by blast
qed

text \<open>One worker that is not disturbed: served, polled and asked, and the pass ended.\<close>

lemma undisturbed_pass:
  fixes hi hs cls f d
  defines "P \<equiv> job_params cls hi hs f d 1"
  assumes hm: "handle_map P 0 (forked_server) fs = (forked_server\<lparr>map_completed := True\<rparr>, fs')"
  shows "\<exists>s. reachable P fs s \<and> pc s = ReducePoll 0 \<and> disk s = fs' \<and> nr_reduce_done s = 0
    \<and> reduce_task_status s = [0] \<and> client_pool s 0 = connected_client
    \<and> servers s 0 = async_call (ReduceTask 0) (forked_server\<lparr>map_completed := True\<rparr>)"
proof -
  let ?s0 = "called_start P fs" and ?m = "forked_server\<lparr>map_completed := True\<rparr>"
  have s0: "servers ?s0 0 = async_call (MapTask 0) forked_server" by (simp add: P_def)
  have "serve P (servers ?s0 0) (disk ?s0) = (?m, fs')"
    unfolding s0 serve_def using hm by (simp add: async_call_def forked_server_def)
  from server_serves [OF _ _ this]
  have r1: "reachable P fs (?s0\<lparr>servers := (servers ?s0)(0 := ?m), disk := fs'\<rparr>)"
    (is "reachable P fs ?s1")
    by (intro reachable.step [OF called_start_reachable]) (simp_all add: s0 P_def)
  let ?s2 = "master_step P (master_step P (master_step P ?s1))"
  have "reachable P fs ?s2" using r1 by (meson reachable.step master_moves)
  moreover have "pc ?s2 = ReducePoll 0 \<and> disk ?s2 = fs' \<and> nr_reduce_done ?s2 = 0
    \<and> reduce_task_status ?s2 = [0] \<and> client_pool ?s2 0 = connected_client
    \<and> servers ?s2 0 = async_call (ReduceTask 0) ?m"
    by (simp add: master_step_def wait_conn_then_def P_def poll_map_def ask_map_def status_vector_def
        is_server_down_def blocking_call_def handle_is_map_done_def worker_indices_def end_map_pass_def
        start_reduce_def)
  ultimately show ?thesis by blast
qed

lemma undisturbed_reduce_phase:
  "\<exists>s. reachable (job_params WordCounterMapReduce hi hs ''in'' ''d'' 1) (sample_files sample_words) s
    \<and> pc s = ReducePoll 0"
proof -
  obtain fs' where "handle_map (job_params WordCounterMapReduce hi hs ''in'' ''d'' 1) 0 forked_server
      (sample_files sample_words) = (forked_server\<lparr>map_completed := True\<rparr>, fs')"
    using wc_job.map_effect [where hi = hi and hs = hs and N = 1 and i = 0, OF conjI [OF sample_ready(2) sample_good(1)]]
    by auto
  from undisturbed_pass [OF this] show ?thesis by blast
qed

theorem reduce_phase_barrier_witness:
  "\<exists>s. reachable (job_params WordCounterMapReduce zero_hash zero_hash ''in'' ''d'' 1)
      (sample_files sample_words) s \<and> pc s = ReducePoll 0 \<and>
    files (disk s) (temp_path ''d'' 0 0) = Some (''b 1'' @ newline @ ''a 1'' @ newline @ ''a 1'' @ newline)"
proof -
  obtain s where s: "reachable (job_params WordCounterMapReduce zero_hash zero_hash ''in'' ''d'' 1)
      (sample_files sample_words) s" "pc s = ReducePoll 0"
    using undisturbed_reduce_phase by blast
  have "concat (map kv_line (key_share zero_hash 1 0 (mapper_pairs wc_emits zero_hash 1 sample_words 0)))
      = ''b 1'' @ newline @ ''a 1'' @ newline @ ''a 1'' @ newline"
    by code_simp
  moreover have "pc s \<in> {ReducePoll 0, ReduceAsk 0, ReduceCall 0}" using s(2) by simp
  ultimately show ?thesis
    using reduce_phase_barrier [OF wc.mr_app_axioms sample_ready(2) sample_good(1) s(1)] s by auto
qed

section \<open>Limits of the master\<close>

theorem unequal_counts_never_return_witness:
  "pc (process_start \<lparr>generators = Map.empty, hash_int = zero_hash, hash_string = zero_hash,
      master = MapReduceMaster_MR ''in'' ''d'' 2 1\<rparr> (sample_files sample_words)) \<noteq> Returned 0"
  by (rule unequal_counts_never_return [OF _ reachable.start]) (simp add: MapReduceMaster_MR_def)

theorem hang_possible_witness:
  "\<exists>s. reachable (job_params WordCounterMapReduce zero_hash zero_hash ''in'' ''d'' 1)
      (sample_files sample_words) s \<and> pc s = Blocked"
  using hang_possible [of "job_params WordCounterMapReduce zero_hash zero_hash ''in'' ''d'' 1"
      "sample_files sample_words"] by auto

text \<open>
  C7. The clients report success whatever happened: \<open>process\<close> has no result but \<open>0\<close>, so in
  every returned run of any job, failed tasks and missing input included, each client
  prints its success message and the failure branch is never taken.
\<close>

theorem clients_report_success:
  assumes "reachable P fs s" "pc s = Returned n"
  shows "WordCounter_report n = ''WordCounter MapReduce success'' \<and>
    InvertedIndex_report n = ''InvertedIndex MapReduce success'' \<and>
    ReverseWeblinkGraph_report n = ''Reverse Web-link MapReduce success''"
  using reachable_returned_zero [OF assms]
  by (simp add: WordCounter_report_def InvertedIndex_report_def ReverseWeblinkGraph_report_def)

text \<open>A run without an input file: the map task reports \<open>-1\<close>, and still counts as done.\<close>

definition no_files :: file_system where
  "no_files = \<lparr>files = Map.empty, creatable = (\<lambda>p. True)\<rparr>"

lemma missing_input_returns:
  fixes hi hs
  defines "P \<equiv> job_params WordCounterMapReduce hi hs ''in'' ''d'' 1"
  shows "\<exists>s. reachable P no_files s \<and> pc s = Returned 0"
proof -
  let ?m = "forked_server\<lparr>map_completed := True\<rparr>"
  have "handle_map P 0 forked_server no_files = (?m, no_files)"
    by (simp add: handle_map_def P_def map_controller_missing_input no_files_def)
  from undisturbed_pass [OF this [unfolded P_def], folded P_def] obtain s where
    r: "reachable P no_files s" and s: "pc s = ReducePoll 0" "disk s = no_files" "nr_reduce_done s = 0"
      "reduce_task_status s = [0]" "client_pool s 0 = connected_client"
      "servers s 0 = async_call (ReduceTask 0) ?m" by blast
  have empty: "read_temp_files ''d'' 1 0 no_files = []"
    by (simp add: read_temp_files_def read_text_missing no_files_def)
  obtain fs' where hr: "handle_reduce P 0 sv no_files = (sv\<lparr>reduce_completed := True\<rparr>, fs')" for sv
    by (simp add: handle_reduce_def reduce_controller_module_def P_def getMapReduceInterface_Some empty)
  have "serve P (servers s 0) (disk s) = (?m\<lparr>reduce_completed := True\<rparr>, fs')"
    unfolding s serve_def by (simp add: async_call_def forked_server_def hr)
  from server_serves [OF _ _ this]
  have r2: "reachable P no_files
      (s\<lparr>servers := (servers s)(0 := ?m\<lparr>reduce_completed := True\<rparr>), disk := fs'\<rparr>)"
    (is "reachable P no_files ?s3")
    by (intro reachable.step [OF r]) (simp_all add: s)
  have "pc (master_step P (master_step P (master_step P ?s3))) = Returned 0"
    by (simp add: s master_step_def wait_conn_then_def P_def poll_reduce_def ask_reduce_def is_server_down_def
        blocking_call_def handle_is_reduce_done_def end_reduce_pass_def stop_servers_def)
  with r2 show ?thesis by (meson reachable.step master_moves)
qed

theorem clients_report_success_witness:
  "\<exists>s n. reachable (job_params WordCounterMapReduce zero_hash zero_hash ''in'' ''d'' 1) no_files s \<and>
    pc s = Returned n \<and> WordCounter_report n = ''WordCounter MapReduce success''"
  using missing_input_returns clients_report_success by blast

section \<open>The workers' tasks\<close>

text \<open>
  C8. A map task reads its input once and partitions what it emits: for a class meeting
  its contract the result is \<open>0\<close>, the temporary file for each reducer holds exactly the
  records, in order, that the map function emits for the lines of this worker's share and
  whose key hashes to that reducer, and no other file changes.
\<close>

theorem map_task_correct:
  assumes "mr_app cls emits outs accepts" "fac ''MapReduce'' = Some cls"
    and "files fs (input_path d f) = Some input" "int (length (lines_of input)) \<le> INT_MAX"
    and "0 < N" "N \<le> INT_MAX" "0 < R" "R \<le> INT_MAX" "in_int m"
    and "\<forall>r\<in>{0..<R}. creatable fs (temp_path d m r)"
  shows "\<exists>fs'. map_controller_module fac hi hs f d N R m fs = (Inr 0, fs') \<and>
    (\<forall>r\<in>{0..<R}. files fs' (temp_path d m r) =
       Some (concat (map kv_line (key_share hs R r (mapper_pairs emits hi N input m))))) \<and>
    (\<forall>p. p \<notin> temp_path d m ` {0..<R} \<longrightarrow> files fs' p = files fs p)"
proof -
  let ?u = "temp_updates hs d m R (mapper_pairs emits hi N input m)"
  have "map_controller_module fac hi hs f d N R m fs = (Inr 0, fs\<lparr>files := files fs ++ ?u\<rparr>)"
    using mr_app.map_controller_ok [where fac = fac and fs = fs and d = d and f = f, OF assms(1-3,5-9,4)]
      assms(10) by simp
  moreover have "?u p = None" if "p \<notin> temp_path d m ` {0..<R}" for p
    using that dom_temp_updates [of hs d m R] by blast
  ultimately show ?thesis
    using temp_updates_path [OF assms(8,9), of _ hs d] by (force simp: map_add_def)
qed

theorem map_task_correct_witness:
  "\<exists>fs'. map_controller_module (\<lambda>_. Some WordCounterMapReduce) zero_hash zero_hash ''in'' ''d'' 1 1 0
      (sample_files sample_words) = (Inr 0, fs') \<and>
    files fs' (temp_path ''d'' 0 0) =
      Some (''b 1'' @ newline @ ''a 1'' @ newline @ ''a 1'' @ newline)"
proof -
  have len: "int (length (lines_of sample_words)) \<le> INT_MAX" and max: "1 \<le> INT_MAX" "in_int 0"
    and f: "files (sample_files sample_words) (input_path ''d'' ''in'') = Some sample_words"
    by code_simp+
  have "concat (map kv_line (key_share zero_hash 1 0 (mapper_pairs wc_emits zero_hash 1 sample_words 0)))
      = ''b 1'' @ newline @ ''a 1'' @ newline @ ''a 1'' @ newline"
    by code_simp
  then show ?thesis
    using map_task_correct [OF wc.mr_app_axioms, where fac = "\<lambda>_. Some WordCounterMapReduce"
        and fs = "sample_files sample_words" and d = "''d''" and f = "''in''" and N = 1 and R = 1
        and m = 0 and hi = zero_hash and hs = zero_hash, OF refl f len _ max(1) _ max(1) max(2)]
    by (auto simp: sample_files_def)
qed

definition throwing_class :: mr_class where
  "throwing_class = WordCounterMapReduce\<lparr>
     map_fn := (\<lambda>k v ob. if v = ''a'' then Inl (IntExn 7) else map_fn WordCounterMapReduce k v ob),
     reduce_fn := (\<lambda>k vs ob. if k = ''b'' then Inl (IntExn 8) else reduce_fn WordCounterMapReduce k vs ob)\<rparr>"

theorem map_controller_throws_witness:
  "map_controller_module (\<lambda>_. Some throwing_class) zero_hash zero_hash ''in'' ''d'' 1 1 0
     (sample_files sample_words) = (Inr (- 2), sample_files sample_words)"
proof (rule map_controller_throws [where c = throwing_class and e = 7])
  show "share zero_hash 1 0 (number_lines 0 (lines_of sample_words)) = [(0, ''b a'')] @ (1, ''a'') # []"
    by code_simp
  show "foldM map_record [(0, ''b a'')] (Some (throwing_class, new_MapReduceInterface)) =
      Inr (Some (throwing_class, emit_all [(''b'', ''1''), (''a'', ''1'')] new_MapReduceInterface))"
    using emit_words_string [of "''b a''"] words_token [of "''b''" "CHR '' ''" "''a''"]
    by (simp add: map_record_def apply_map_fn_def throwing_class_def WordCounterMapReduce_def
        WordCounter_map_fn_def) code_simp
  show "map_fn throwing_class (to_string 1) ''a'' ob = Inl (IntExn 7)" for ob
    by (simp add: throwing_class_def)
qed (simp_all add: sample_files_def input_path_def, code_simp+)

text \<open>
  C10. A reduce task groups what all mappers wrote for it: with \<open>0\<close> as its result, the
  output file holds the entries the reduce function gives for every key, in increasing
  order of the keys, applied to all values of the key in the order of the mappers and of
  their records. A temporary file that is missing counts as empty.
\<close>

theorem reduce_task_correct:
  assumes "mr_app cls emits outs accepts" "fac ''MapReduce'' = Some cls"
    and "groups = group_by_key (concat (map (\<lambda>m. temp_pairs fs (temp_path d m r)) [0..N - 1]))"
    and "\<forall>g\<in>set groups. accepts (fst g) (snd g)"
    and "creatable fs (output_path d r)"
  shows "reduce_controller_module fac d R N r fs =
    (Inr 0, fs\<lparr>files := (files fs)(output_path d r \<mapsto>
       concat (map (\<lambda>g. concat (map entry_line (outs (fst g) (snd g)))) groups))\<rparr>)"
  using mr_app.reduce_controller_ok [where fac = fac and cls = cls and fs = fs and d = d and r = r
      and N = N and R = R, OF assms(1,2)] assms(3-5)
  by (simp add: reducer_groups_def reduced_def concat_concat_map comp_def)

definition sample_temp_files :: file_system where
  "sample_temp_files =
     \<lparr>files = [temp_path ''d'' 0 0 \<mapsto> ''b 1'' @ newline @ ''a 1'' @ newline,
               temp_path ''d'' 1 0 \<mapsto> ''a 1'' @ newline],
      creatable = (\<lambda>p. True)\<rparr>"

theorem reduce_task_correct_witness:
  "files (snd (reduce_controller_module (\<lambda>_. Some WordCounterMapReduce) ''d'' 1 2 0 sample_temp_files))
     (output_path ''d'' 0) = Some (''a 2 '' @ newline @ ''b 1 '' @ newline)"
proof -
  let ?g = "[(''a'', [''1'', ''1'']), (''b'', [''1''])]"
  have g: "?g = group_by_key (concat (map (\<lambda>m. temp_pairs sample_temp_files (temp_path ''d'' m 0)) [0..2 - 1]))"
    by code_simp
  have a: "\<forall>g\<in>set ?g. wc_accepts (fst g) (snd g)"
    by code_simp
  have "concat (map (\<lambda>g. concat (map entry_line (wc_outs (fst g) (snd g)))) ?g) =
      ''a 2 '' @ newline @ ''b 1 '' @ newline"
    by code_simp
  with reduce_task_correct [where fac = "\<lambda>_. Some WordCounterMapReduce" and d = "''d''" and r = 0
      and N = 2 and R = 1, OF wc.mr_app_axioms refl g a] show ?thesis
    by (simp add: sample_temp_files_def)
qed

theorem reduce_controller_throws_witness:
  "reduce_controller_module (\<lambda>_. Some throwing_class) ''d'' 1 2 0 sample_temp_files =
     (Inr (- 3), sample_temp_files)"
proof (rule reduce_controller_throws [where c = throwing_class and e = 8])
  show "reducer_groups sample_temp_files ''d'' 2 0 = [(''a'', [''1'', ''1''])] @ (''b'', [''1'']) # []"
    by code_simp
  show "foldM apply_reduce_fn [(''a'', [''1'', ''1''])] (Some (throwing_class, new_MapReduceInterface)) =
      Inr (Some (throwing_class, output_all [(''a'', [''2''])] new_MapReduceInterface))"
  proof -
    have "count_loop 0 [''1'', ''1''] 0 = Inr 2" "to_string 2 = ''2''" by code_simp+
    then show ?thesis
      by (simp add: apply_reduce_fn_def throwing_class_def WordCounterMapReduce_def WordCounter_reduce_fn_def)
  qed
  show "reduce_fn throwing_class ''b'' [''1''] ob = Inl (IntExn 8)" for ob
    by (simp add: throwing_class_def)
qed simp

text \<open>
  C12. A map task can be run again: started a second time on the file system its first
  run left, as the master does after a fault, it changes nothing.
\<close>

theorem map_task_repeatable:
  assumes "mr_app cls emits outs accepts" "job_ready f d N input fs" "m \<in> {0..<N}"
    and "good_pairs emits accepts hi hs N input"
    and "P = job_params cls hi hs f d N" "handle_map P m sv fs = (sv', fs')"
  shows "handle_map P m sv' fs' = (sv', fs')"
proof -
  note J = mr_app.job_laws [OF assms(1), of hi hs f d N input, folded assms(5)]
  have m: "m \<in> workers P" using assms(3,5) by simp
  have ok: "job_ready f d N input fs \<and> good_pairs emits accepts hi hs N input"
    using assms(2,4) by blast
  from job.map_effect [OF J ok m, of sv] assms(6) have
    fs': "fs' = fs\<lparr>files := files fs ++ job_effect emits outs hi hs d N input (MapTask m)\<rparr>"
    and sv': "sv' = sv\<lparr>map_completed := True\<rparr>" by simp_all
  have "same_elsewhere P fs fs'"
    using job.effect_elsewhere [OF J ok, of "MapTask m"] m fs' by (simp add: tasks_def)
  from job.map_effect [OF J job.ok_elsewhere [OF J ok this] m, of sv'] show ?thesis
    by (simp add: fs' sv' map_add_same)
qed

theorem map_task_repeatable_witness:
  "\<exists>sv fs'. handle_map (job_params WordCounterMapReduce zero_hash zero_hash ''in'' ''d'' 1) 0
      forked_server (sample_files sample_words) = (sv, fs') \<and>
    handle_map (job_params WordCounterMapReduce zero_hash zero_hash ''in'' ''d'' 1) 0 sv fs' = (sv, fs')"
proof -
  obtain sv fs' where h: "handle_map (job_params WordCounterMapReduce zero_hash zero_hash ''in'' ''d'' 1) 0
      forked_server (sample_files sample_words) = (sv, fs')" by fastforce
  with map_task_repeatable [OF wc.mr_app_axioms sample_ready(2) _ sample_good(1) refl h]
  show ?thesis by auto
qed

text \<open>
  C13. The number of workers and the distribution of lines and keys do not matter: take two runs
  that have returned, of the same class on inputs with the same text, with any two numbers of
  workers and any hashes, whatever servers were killed in either. If the reduce function looks only
  at the multiset of its values, the lines of all output files together are the same, each as often.
\<close>

theorem result_independent_of_workers:
  assumes "mr_app cls emits outs accepts"
    and "\<And>k vs ws. mset vs = mset ws \<Longrightarrow> outs k vs = outs k ws"
    and "job_ready f d N input fs" "good_pairs emits accepts hi hs N input"
    and "reachable (job_params cls hi hs f d N) fs s" "pc s = Returned n"
    and "job_ready f' d' M input fs'" "good_pairs emits accepts hi' hs' M input"
    and "reachable (job_params cls hi' hs' f' d' M) fs' s'" "pc s' = Returned n'"
  shows "mset (concat (map (output_lines (disk s) d) [0..N - 1])) =
    mset (concat (map (output_lines (disk s') d') [0..M - 1]))"
  using mr_app.mset_output_lines [OF assms(1,3-6,2)] mr_app.mset_output_lines [OF assms(1,7-10,2)] by simp

text \<open>The same text with two workers.\<close>

lemma sample_ready_two: "job_ready ''in'' ''d'' 2 sample_words (sample_files sample_words)"
  by code_simp

theorem result_independent_of_workers_witness:
  "\<exists>s s'. reachable (job_params WordCounterMapReduce zero_hash zero_hash ''in'' ''d'' 1) (sample_files sample_words) s
    \<and> reachable (job_params WordCounterMapReduce word_of_int (\<lambda>w. of_nat (length w)) ''in'' ''d'' 2)
        (sample_files sample_words) s'
    \<and> pc s = Returned 0 \<and> pc s' = Returned 0
    \<and> mset (concat (map (output_lines (disk s) ''d'') [0..1 - 1])) =
      mset (concat (map (output_lines (disk s') ''d'') [0..2 - 1]))"
proof -
  have good: "good_pairs wc_emits wc_accepts word_of_int (\<lambda>w. of_nat (length w)) 2 sample_words"
    by (rule good_pairs_wc) (simp, code_simp)
  obtain s where s: "reachable (job_params WordCounterMapReduce zero_hash zero_hash ''in'' ''d'' 1)
      (sample_files sample_words) s" "pc s = Returned 0"
    using wc.some_run_returns [OF sample_ready(2) sample_good(1)] by blast
  obtain s' where s': "reachable (job_params WordCounterMapReduce word_of_int (\<lambda>w. of_nat (length w)) ''in'' ''d'' 2)
      (sample_files sample_words) s'" "pc s' = Returned 0"
    using wc.some_run_returns [OF sample_ready_two good] by blast
  have "mset (concat (map (output_lines (disk s) ''d'') [0..1 - 1])) =
      mset (concat (map (output_lines (disk s') ''d'') [0..2 - 1]))"
    by (rule result_independent_of_workers [OF wc.mr_app_axioms _ sample_ready(2) sample_good(1) s
          sample_ready_two good s']) (auto simp: wc_outs_def dest: mset_eq_length)
  with s s' show ?thesis by blast
qed

text \<open>
  C14. Every line goes to exactly one mapper: the loop of mapper \<open>m\<close> over the whole input ends
  normally, with the map function applied, in order, to the lines whose number \<open>hash_in_range\<close> sends to
  \<open>m\<close>; every line number is sent to exactly one index, which is in range; and what the objects of all mappers have
  collected together is what the map function emits for all lines, each as often.
\<close>

theorem line_has_one_mapper:
  assumes "mr_app cls emits outs accepts"
    and "0 < N" "N \<le> INT_MAX" "int (length (lines_of input)) \<le> INT_MAX"
  shows "\<exists>ob. (\<forall>m. map_lines hi N m (istringstream input) [] 0 (Some (cls, new_MapReduceInterface)) =
        Inr (Some (cls, ob m))
      \<and> emitted_intermediates (ob m) = concat (map (\<lambda>(i, l). emits (to_string i) l)
          (filter (\<lambda>(i, l). hash_in_range hi i N = Inr m) (number_lines 0 (lines_of input)))))
    \<and> (\<forall>(i, l)\<in>set (number_lines 0 (lines_of input)). \<exists>!m. hash_in_range hi i N = Inr m \<and> m \<in> {0..<N})
    \<and> mset (concat (map (\<lambda>m. emitted_intermediates (ob m)) [0..N - 1])) =
      mset (concat (map (\<lambda>(i, l). emits (to_string i) l) (number_lines 0 (lines_of input))))"
proof -
  let ?ob = "\<lambda>m. emit_all (mapper_pairs emits hi N input m) new_MapReduceInterface"
  have pairs: "mapper_pairs emits hi N input m = concat (map (\<lambda>(i, l). emits (to_string i) l)
      (filter (\<lambda>(i, l). hash_in_range hi i N = Inr m) (number_lines 0 (lines_of input))))" for m
    by (simp add: mapper_pairs_def mapped_def share_def hash_in_range_bucket [OF assms(2,3)] case_prod_unfold)
  have all: "emitted_pairs emits input =
      concat (map (\<lambda>(i, l). emits (to_string i) l) (number_lines 0 (lines_of input)))"
    by (simp add: emitted_pairs_def mapped_def case_prod_unfold)
  have one: "\<exists>!m. hash_in_range hi i N = Inr m \<and> m \<in> {0..<N}" for i
    using bucket_range [OF assms(2), of hi i] by (auto simp: hash_in_range_bucket [OF assms(2,3)])
  show ?thesis
    using mset_mapper_pairs [OF assms(2), of emits hi input] one
    by (intro exI [of _ ?ob]) (simp add: mr_app.map_lines_calls [OF assms] pairs [symmetric] all [symmetric])
qed

text \<open>A class that logs the calls of its map function.\<close>

definition logging_class :: mr_class where
  "logging_class = \<lparr>map_fn = (\<lambda>k v this. Inr (emitIntermediate k v this)), reduce_fn = (\<lambda>k vs this. Inr this)\<rparr>"

lemma logging_app: "mr_app logging_class (\<lambda>k v. [(k, v)]) (\<lambda>k vs. []) (\<lambda>k vs. True)"
  by unfold_locales (simp_all add: logging_class_def)

theorem line_has_one_mapper_witness:
  "\<exists>ob :: int \<Rightarrow> mr_object. map_lines word_of_int 2 0 (istringstream sample_words) [] 0 (Some (logging_class, new_MapReduceInterface)) =
      Inr (Some (logging_class, ob 0))
    \<and> map_lines word_of_int 2 1 (istringstream sample_words) [] 0 (Some (logging_class, new_MapReduceInterface)) =
      Inr (Some (logging_class, ob 1))
    \<and> emitted_intermediates (ob 0) = [(''0'', ''b a'')] \<and> emitted_intermediates (ob 1) = [(''1'', ''a'')]"
proof -
  have "2 \<le> INT_MAX" "int (length (lines_of sample_words)) \<le> INT_MAX" by code_simp+
  note * = line_has_one_mapper [OF logging_app _ this, of word_of_int]
  have lines: "number_lines 0 (lines_of sample_words) = [(0, ''b a''), (1, ''a'')]"
    and texts: "to_string 0 = ''0''" "to_string 1 = ''1''" "2 \<le> INT_MAX" by code_simp+
  have hash: "hash_in_range (word_of_int :: int \<Rightarrow> 64 word) i 2 = Inr (uint (word_of_int i :: 64 word) mod 2)" for i
    using texts(3) by (simp add: hash_in_range_bucket bucket_def)
  from * obtain ob where ob:
    "map_lines word_of_int 2 m (istringstream sample_words) [] 0 (Some (logging_class, new_MapReduceInterface)) =
       Inr (Some (logging_class, ob m))"
    "emitted_intermediates (ob m) = concat (map (\<lambda>(i, l). [(to_string i, l)])
       (filter (\<lambda>(i, l). hash_in_range word_of_int i 2 = Inr m) (number_lines 0 (lines_of sample_words))))" for m
    by auto
  have "emitted_intermediates (ob 0) = [(''0'', ''b a'')]" "emitted_intermediates (ob 1) = [(''1'', ''a'')]"
    unfolding ob(2) lines by (simp_all add: hash texts)
  with ob(1) show ?thesis by blast
qed

end
